(* ===== verification/Prelude.thy ===== *)
theory Prelude
  imports Main "HOL-Library.Sublist" "HOL-Library.Char_ord" "HOL-Library.List_Lexorder"
begin

text \<open>
  What every component of the development shares: the error monad that models a throwing
  statement sequence, the fold that models a \<open>for ... of\<close> loop whose body can throw, the
  update-in-place of table rows, and the string functions of the JavaScript standard library
  the code uses.
\<close>

named_theorems frame_simps \<open>fields an operation leaves alone\<close>
named_theorems invar_intros \<open>operations keep the invariant of their component\<close>

section \<open>Statements that can throw\<close>

text \<open>A computation returns \<open>Inl e\<close> when the code throws \<open>e\<close>, else \<open>Inr\<close> of its result.\<close>

definition ebind :: "'e + 'a \<Rightarrow> ('a \<Rightarrow> 'e + 'b) \<Rightarrow> 'e + 'b" where
  "ebind m f = (case m of Inl e \<Rightarrow> Inl e | Inr a \<Rightarrow> f a)"

lemma ebind_simps [simp]:
  "ebind (Inl e) f = Inl e"
  "ebind (Inr a) f = f a"
  by (simp_all add: ebind_def)

lemma ebind_eq_Inr [simp]: "ebind m f = Inr b \<longleftrightarrow> (\<exists>a. m = Inr a \<and> f a = Inr b)"
  by (cases m) auto

lemma ebind_eq_Inl: "ebind m f = Inl e \<longleftrightarrow> m = Inl e \<or> (\<exists>a. m = Inr a \<and> f a = Inl e)"
  by (cases m) auto

text \<open>A loop over a list whose body threads a state and can throw.\<close>

fun efold :: "('x \<Rightarrow> 's \<Rightarrow> 'e + 's) \<Rightarrow> 'x list \<Rightarrow> 's \<Rightarrow> 'e + 's" where
  "efold f [] s = Inr s"
| "efold f (x # xs) s = ebind (f x s) (efold f xs)"

lemma efold_append: "efold f (xs @ ys) s = ebind (efold f xs s) (efold f ys)"
  by (induction xs arbitrary: s) (auto simp: ebind_def split: sum.splits)

lemma efold_invariant:
  assumes "efold f xs s = Inr t" and "P s"
    and "\<And>x s t. x \<in> set xs \<Longrightarrow> P s \<Longrightarrow> f x s = Inr t \<Longrightarrow> P t"
  shows "P t"
  using assms by (induction xs arbitrary: s) auto

lemma fold_invariant_set:
  assumes "P s" and "\<And>x s. x \<in> set xs \<Longrightarrow> P s \<Longrightarrow> P (f x s)"
  shows "P (fold f xs s)"
  using assms by (induction xs arbitrary: s) auto

lemma fold_frame:
  assumes "\<And>x s. g (f x s) = g s"
  shows "g (fold f xs s) = g s"
  by (induction xs arbitrary: s) (simp_all add: assms)

section \<open>Tables: UPDATE ... WHERE, SELECT ... LIMIT 1\<close>

text \<open>A table is the list of its rows in scan order; UPDATE rewrites the matching rows in place.\<close>

definition upd_where :: "('r \<Rightarrow> bool) \<Rightarrow> ('r \<Rightarrow> 'r) \<Rightarrow> 'r list \<Rightarrow> 'r list" where
  "upd_where P f = map (\<lambda>r. if P r then f r else r)"

lemma upd_where_simps [simp]:
  "upd_where P f [] = []"
  "upd_where P f (r # rs) = (if P r then f r else r) # upd_where P f rs"
  by (simp_all add: upd_where_def)

lemma length_upd_where [simp]: "length (upd_where P f rs) = length rs"
  by (simp add: upd_where_def)

lemma set_upd_where: "set (upd_where P f rs) = (\<lambda>r. if P r then f r else r) ` set rs"
  by (simp add: upd_where_def)

lemma map_upd_where:
  assumes "\<And>r. P r \<Longrightarrow> g (f r) = g r"
  shows "map g (upd_where P f rs) = map g rs"
  by (induction rs) (auto simp: assms)

lemma upd_where_id:
  assumes "\<And>r. r \<in> set rs \<Longrightarrow> P r \<Longrightarrow> f r = r"
  shows "upd_where P f rs = rs"
  using assms by (induction rs) auto

lemma upd_where_append [simp]: "upd_where P f (xs @ ys) = upd_where P f xs @ upd_where P f ys"
  by (simp add: upd_where_def)

lemma find_upd_where:
  assumes "\<And>r. P r \<Longrightarrow> Q (f r) = Q r"
  shows "find Q (upd_where P f rs) = map_option (\<lambda>r. if P r then f r else r) (find Q rs)"
  by (induction rs) (auto simp: assms)

lemma find_Some_set: "find Q rs = Some r \<Longrightarrow> r \<in> set rs \<and> Q r"
  by (induction rs) (auto split: if_splits)

lemma find_None_iff_all: "find Q rs = None \<longleftrightarrow> (\<forall>r \<in> set rs. \<not> Q r)"
  by (induction rs) auto

lemma find_append: "find Q (xs @ ys) = (case find Q xs of Some r \<Rightarrow> Some r | None \<Rightarrow> find Q ys)"
  by (induction xs) auto

lemma find_unique:
  assumes "r \<in> set rs" "Q r" "\<And>r'. r' \<in> set rs \<Longrightarrow> Q r' \<Longrightarrow> r' = r"
  shows "find Q rs = Some r"
proof (cases "find Q rs")
  case None
  then show ?thesis using assms(1,2) by (simp add: find_None_iff_all)
next
  case (Some x)
  then show ?thesis using find_Some_set [OF Some] assms(3) by blast
qed

lemma distinct_map_inj:
  "distinct (map k rs) \<Longrightarrow> a \<in> set rs \<Longrightarrow> b \<in> set rs \<Longrightarrow> k a = k b \<Longrightarrow> a = b"
  by (auto simp: distinct_map dest: inj_onD)

lemma find_key:
  assumes "distinct (map k rs)" "r \<in> set rs"
  shows "find (\<lambda>x. k x = k r) rs = Some r"
  using assms(2)
proof (rule find_unique)
  fix r' assume "r' \<in> set rs" "k r' = k r"
  then show "r' = r" using assms by (rule_tac distinct_map_inj)
qed simp

lemma distinct_map_filter_key: "distinct (map k rs) \<Longrightarrow> distinct (map k (filter P rs))"
  by (induction rs) auto

section \<open>Strings\<close>

text \<open>
  A JavaScript string is the list of the bytes of its UTF-8 form. \<open>js_ws\<close> is the white space
  that \<open>String.prototype.trim\<close> removes (ECMAScript WhiteSpace and LineTerminator), one entry
  per code point, in UTF-8.
\<close>

definition js_ws :: "nat list list" where
  "js_ws = [[9], [10], [11], [12], [13], [32], [194, 160], [225, 154, 128],
    [226, 128, 128], [226, 128, 129], [226, 128, 130], [226, 128, 131], [226, 128, 132],
    [226, 128, 133], [226, 128, 134], [226, 128, 135], [226, 128, 136], [226, 128, 137],
    [226, 128, 138], [226, 128, 168], [226, 128, 169], [226, 128, 175], [226, 129, 159],
    [227, 128, 128], [239, 187, 191]]"

definition starts_ws :: "nat list list \<Rightarrow> string \<Rightarrow> nat option" where
  "starts_ws ws s = (case find (\<lambda>w. take (length w) (map of_char s) = w) ws of
     None \<Rightarrow> None | Some w \<Rightarrow> Some (length w))"

function drop_ws :: "nat list list \<Rightarrow> string \<Rightarrow> string" where
  "drop_ws ws s = (case starts_ws ws s of
     None \<Rightarrow> s | Some n \<Rightarrow> if n = 0 \<or> s = [] then s else drop_ws ws (drop n s))"
  by pat_completeness auto
termination by (relation "measure (\<lambda>(ws, s). length s)") auto

declare drop_ws.simps [simp del]

definition js_trim :: "string \<Rightarrow> string" where
  "js_trim s = rev (drop_ws (map rev js_ws) (rev (drop_ws js_ws s)))"

text \<open>ASCII lower case, byte by byte, as SQLite's LIKE folds it.\<close>

definition lower_char :: "char \<Rightarrow> char" where
  "lower_char c = (let n = of_char c :: nat in
     if 65 \<le> n \<and> n \<le> 90 then char_of (n + 32) else c)"

definition lower :: "string \<Rightarrow> string" where
  "lower s = map lower_char s"

text \<open>SQLite's \<open>x LIKE 'p%'\<close> for a pattern without wild cards before the last character.\<close>

definition like_prefix :: "string \<Rightarrow> string \<Rightarrow> bool" where
  "like_prefix p x = prefix (lower p) (lower x)"

lemma like_prefix_append: "like_prefix p (p @ x)"
  by (simp add: like_prefix_def lower_def)

end
