(* ===== verification/Json.thy ===== *)
theory Json
  imports Prelude
begin

text \<open>
  JSON values, and JavaScript objects as the ordered list of their own properties: a property
  that is written again keeps its place, a new one goes last, as \<open>{...a, k: v}\<close> and
  \<open>JSON.stringify\<close> order them. (Integer-like property names, which JavaScript would move to
  the front, are not told apart; no key the code writes itself is one.)
\<close>

datatype json =
    JNull
  | JBool bool
  | JNum int
  | JStr string
  | JArr "json list"
  | JObj "(string \<times> json) list"

type_synonym jobj = "(string \<times> json) list"

text \<open>\<open>o[k]\<close>, \<open>undefined\<close> (None) when the property is absent.\<close>

definition obj_get :: "string \<Rightarrow> jobj \<Rightarrow> json option" where
  "obj_get k ob = map_of ob k"

fun obj_put :: "string \<Rightarrow> json \<Rightarrow> jobj \<Rightarrow> jobj" where
  "obj_put k v [] = [(k, v)]"
| "obj_put k v ((k', v') # ob) = (if k = k' then (k, v) # ob else (k', v') # obj_put k v ob)"

text \<open>Rest destructuring \<open>{ [k]: _, ...rest } = o\<close>.\<close>

definition obj_drop :: "string \<Rightarrow> jobj \<Rightarrow> jobj" where
  "obj_drop k ob = filter (\<lambda>p. fst p \<noteq> k) ob"

text \<open>Object spread \<open>{...a, ...b}\<close>.\<close>

definition obj_spread :: "jobj \<Rightarrow> jobj \<Rightarrow> jobj" where
  "obj_spread a b = fold (\<lambda>(k, v) ob. obj_put k v ob) b a"

definition obj_wf :: "jobj \<Rightarrow> bool" where
  "obj_wf ob = distinct (map fst ob)"

text \<open>\<open>isPlainObject\<close> of src/shared/source-options.ts, on a property that may be absent.\<close>

fun isPlainObject :: "json option \<Rightarrow> bool" where
  "isPlainObject (Some (JObj _)) = True"
| "isPlainObject _ = False"

lemma obj_get_put [simp]: "obj_get j (obj_put k v ob) = (if j = k then Some v else obj_get j ob)"
  unfolding obj_get_def by (induction ob) auto

lemma obj_get_Nil [simp]: "obj_get k [] = None"
  by (simp add: obj_get_def)

lemma obj_get_Cons [simp]: "obj_get k ((j, v) # ob) = (if k = j then Some v else obj_get k ob)"
  by (simp add: obj_get_def)

lemma fst_obj_put: "fst ` set (obj_put k v ob) = insert k (fst ` set ob)"
proof (induction ob)
  case (Cons p ob)
  then show ?case by (cases p) auto
qed simp

lemma obj_wf_put [intro]: "obj_wf ob \<Longrightarrow> obj_wf (obj_put k v ob)"
  unfolding obj_wf_def by (induction ob) (auto simp: fst_obj_put)

lemma obj_wf_drop [intro]: "obj_wf ob \<Longrightarrow> obj_wf (obj_drop k ob)"
  unfolding obj_wf_def obj_drop_def by (rule distinct_map_filter_key)

lemma obj_get_drop [simp]: "obj_get j (obj_drop k ob) = (if j = k then None else obj_get j ob)"
  unfolding obj_get_def obj_drop_def by (induction ob) auto

lemma obj_get_None: "obj_get k ob = None \<longleftrightarrow> k \<notin> fst ` set ob"
  by (simp add: obj_get_def map_of_eq_None_iff)

lemma obj_drop_idle: "obj_get k ob = None \<Longrightarrow> obj_drop k ob = ob"
  unfolding obj_get_None obj_drop_def by (auto simp: filter_id_conv)

lemma obj_drop_put_same: "obj_drop k (obj_put k v ob) = obj_drop k ob"
  by (induction ob) (auto simp: obj_drop_def)

lemma obj_put_absent: "obj_get k ob = None \<Longrightarrow> obj_put k v ob = ob @ [(k, v)]"
  unfolding obj_get_None by (induction ob) auto

lemma obj_wf_spread [intro]: "obj_wf a \<Longrightarrow> obj_wf (obj_spread a b)"
  unfolding obj_spread_def by (rule fold_invariant_set) auto

lemma obj_get_spread:
  "obj_wf b \<Longrightarrow> obj_get k (obj_spread a b) =
     (case obj_get k b of Some v \<Rightarrow> Some v | None \<Rightarrow> obj_get k a)"
proof (induction b arbitrary: a)
  case Nil
  then show ?case by (simp add: obj_spread_def)
next
  case (Cons p b)
  obtain j v where p: "p = (j, v)" by (cases p)
  from Cons.prems have j: "obj_get j b = None" and wf: "obj_wf b"
    by (auto simp: p obj_wf_def obj_get_None)
  have "obj_spread a (p # b) = obj_spread (obj_put j v a) b"
    by (simp add: obj_spread_def p)
  with Cons.IH [OF wf, of "obj_put j v a"] j show ?case
    by (auto simp: p split: option.splits)
qed

end
