(* ===== verification/Ids.thy ===== *)
theory Ids
  imports Prelude "HOL-Library.Word"
begin

unbundle bit_operations_syntax

text \<open>
  src/main/core/ids.ts: the two kinds of row id. Bytes are \<open>8 word\<close>s. SHA-256, the clock and
  the random source are arguments.
\<close>

type_synonym byte = "8 word"

definition hex_digit :: "nat \<Rightarrow> char" where
  "hex_digit n = char_of (if n < 10 then 48 + n else 87 + n)"

definition hex_byte :: "byte \<Rightarrow> string" where
  "hex_byte b = [hex_digit (unat b div 16), hex_digit (unat b mod 16)]"

definition hex :: "byte list \<Rightarrow> string" where
  "hex bs = concat (map hex_byte bs)"

text \<open>The layout of a UUID: 8-4-4-4-12 digits of the hex text.\<close>

definition uuid_text :: "byte list \<Rightarrow> string" where
  "uuid_text bs = (let h = hex bs in
     take 8 h @ ''-'' @ take 4 (drop 8 h) @ ''-'' @ take 4 (drop 12 h) @ ''-'' @
     take 4 (drop 16 h) @ ''-'' @ drop 20 h)"

text \<open>
  \<open>(ts / 2 ** k) & 0xff\<close> on a non-negative time stamp: \<open>&\<close> converts the quotient to a 32-bit
  integer, dropping its fraction and everything above bit 31, and keeps the low byte.
\<close>

definition low_byte :: "nat \<Rightarrow> nat \<Rightarrow> byte" where
  "low_byte ts k = ucast ((of_nat (ts div 2 ^ k) :: 32 word) AND 0xff)"

definition uuidv7_bytes :: "nat \<Rightarrow> byte list \<Rightarrow> byte list" where
  "uuidv7_bytes ts rnd = (let
     bytes = rnd[0 := low_byte ts 40, 1 := low_byte ts 32, 2 := low_byte ts 24,
                 3 := low_byte ts 16, 4 := low_byte ts 8, 5 := low_byte ts 0];
     bytes = bytes[6 := 0x70 OR (bytes ! 6 AND 0x0f)]
   in bytes[8 := 0x80 OR (bytes ! 8 AND 0x3f)])"

text \<open>\<open>ts\<close> is \<open>Date.now()\<close>, \<open>rnd\<close> the 16 bytes of \<open>randomBytes(16)\<close>.\<close>

definition uuidv7 :: "nat \<Rightarrow> byte list \<Rightarrow> string" where
  "uuidv7 ts rnd = uuid_text (uuidv7_bytes ts rnd)"

text \<open>The decimal text of a number, as a template literal prints it.\<close>

fun show_nat :: "nat \<Rightarrow> string" where
  "show_nat n = (if n < 10 then [char_of (48 + n)] else show_nat (n div 10) @ [char_of (48 + n mod 10)])"

declare show_nat.simps [simp del]

definition hashed_part :: "string \<Rightarrow> string" where
  "hashed_part p = show_nat (length p) @ '':'' @ p @ [char_of (0::nat)]"

definition hashed_text :: "string \<Rightarrow> string list \<Rightarrow> string" where
  "hashed_text kind parts = kind @ [char_of (0::nat)] @ concat (map hashed_part parts)"

definition hashedId_bytes :: "(string \<Rightarrow> byte list) \<Rightarrow> string \<Rightarrow> string list \<Rightarrow> byte list" where
  "hashedId_bytes sha256 kind parts = (let
     bytes = take 16 (sha256 (hashed_text kind parts));
     bytes = bytes[6 := 0x80 OR (bytes ! 6 AND 0x0f)]
   in bytes[8 := 0x80 OR (bytes ! 8 AND 0x3f)])"

definition hashedId :: "(string \<Rightarrow> byte list) \<Rightarrow> string \<Rightarrow> string list \<Rightarrow> string" where
  "hashedId sha256 kind parts = uuid_text (hashedId_bytes sha256 kind parts)"

section \<open>The natural key is written injectively\<close>

lemma show_nat_digits: "set (show_nat n) \<subseteq> char_of ` {48..57::nat}"
proof (induction n rule: show_nat.induct)
  case (1 n)
  then show ?case by (subst show_nat.simps) (auto simp: image_iff)
qed

fun read_nat :: "string \<Rightarrow> nat" where
  "read_nat cs = foldl (\<lambda>a c. a * 10 + (of_char c - 48)) 0 cs"

lemma read_show_nat: "read_nat (show_nat n) = n"
proof (induction n rule: show_nat.induct)
  case (1 n)
  then show ?case by (subst show_nat.simps) auto
qed

lemma show_nat_inject [simp]: "show_nat m = show_nat n \<longleftrightarrow> m = n"
  using read_show_nat by metis

lemma colon_notin_show_nat: "CHR '':'' \<notin> set (show_nat n)"
proof
  assume "CHR '':'' \<in> set (show_nat n)"
  then obtain m :: nat where m: "m \<in> {48..57}" "CHR '':'' = char_of m"
    using show_nat_digits [of n] by auto
  then have "of_char (CHR '':'') = (of_char (char_of m :: char) :: nat)" by simp
  with m(1) show False by simp
qed

lemma takeWhile_show_nat: "takeWhile (\<lambda>c. c \<noteq> CHR '':'') (show_nat n @ CHR '':'' # xs) = show_nat n"
  using colon_notin_show_nat [of n] by (induction "show_nat n") (auto simp: takeWhile_append)

lemma hashed_part_append_inject:
  "hashed_part p @ xs = hashed_part q @ ys \<longleftrightarrow> p = q \<and> xs = ys"
proof
  assume eq: "hashed_part p @ xs = hashed_part q @ ys"
  then have "takeWhile (\<lambda>c. c \<noteq> CHR '':'') (hashed_part p @ xs) =
      takeWhile (\<lambda>c. c \<noteq> CHR '':'') (hashed_part q @ ys)"
    by simp
  then have "length p = length q"
    by (simp add: hashed_part_def takeWhile_show_nat)
  with eq show "p = q \<and> xs = ys"
    by (simp add: hashed_part_def)
qed simp

lemma hashed_parts_inject: "concat (map hashed_part ps) = concat (map hashed_part qs) \<longleftrightarrow> ps = qs"
proof (induction ps arbitrary: qs)
  case Nil
  then show ?case by (cases qs) (auto simp: hashed_part_def)
next
  case (Cons p ps)
  show ?case
  proof (cases qs)
    case Nil
    then show ?thesis by (simp add: hashed_part_def)
  next
    case (Cons q qs')
    then show ?thesis using Cons.IH [of qs'] by (simp add: hashed_part_append_inject)
  qed
qed

end
