(* ===== verification/Store.thy ===== *)
theory Store
  imports Json Ids
begin

text \<open>
  The corpus database and the helpers of \<open>createWriteTx\<close> (src/main/core/store/write-tx.ts).

  A table is the list of its rows in rowid order; a query without ORDER BY reads it in that
  order. \<open>documents_fts\<close> and \<open>documents_tri\<close> are maps from the rowid they are pinned to.
  Instants are milliseconds (\<open>toISOString\<close> text sorts as the instants do). \<open>deps.now()\<close> is
  read once per transaction, SHA-256, the language detector and the stemmer are the fields of
  \<open>deps\<close>. The statements of a transaction throw by returning \<open>Inl\<close>.
\<close>

type_synonym time = int

datatype sync_status =
    Connecting | Backfilling | Live | Paused | NeedsReauth | ErrorStatus | NeedsConnector

datatype error_scope = ReconcileScope | PullScope

datatype change_kind = DocumentChange | PurgeChange | AccountChange | AccountRemoved

datatype outcome = Done | Skip | Failed | Deferred

datatype sync_role = Normal | Follower

datatype tx_error =
    UnknownAccount string
  | ConstraintFailed string
  | BadJson
  | StagingLost string
  | ScopeContradiction string
  | SyncReadOnly string
  | OnlyFollower
  | Aborted
  | Thrown string

record external_ref =
  externalId :: string
  rtype :: string

record doc_input =
  in_ref :: external_ref
  in_title :: "string option"
  in_markdown :: "string option"
  in_url :: "string option"
  in_metadata :: jobj
  in_createdAt :: "string option"
  in_parent :: "external_ref option"
  in_scopeRootId :: "string option"

record account_row =
  aid :: string
  source :: string
  ident :: string
  config :: "jobj option" \<comment> \<open>None: a text \<open>JSON.parse\<close> rejects\<close>
  status :: sync_status
  acursor :: "json option"
  progress :: "json option"
  last_sync_at :: "time option"
  last_error :: "string option"
  cadence :: "json option"
  acreated_at :: time
  owner_device_id :: "string option"

record doc_row =
  rowid :: nat
  did :: string
  account_id :: string
  external_id :: string
  dtype :: string
  title :: "string option"
  markdown :: "string option"
  url :: "string option"
  metadata :: jobj
  created_at :: "string option"
  parent_id :: "string option"
  content_hash :: string
  seq :: nat
  ingest_seq :: nat
  archived_at :: "time option"
  languages :: "string list"
  ingested_at :: time
  updated_at :: time
  scope_root_id :: "string option"

record change_row =
  cseq :: nat
  kind :: change_kind
  ref_id :: string
  cat :: time

record fts_row =
  fts_doc_id :: string
  fts_title :: string
  fts_markdown :: string
  fts_title_stem :: string
  fts_markdown_stem :: string

record tri_row =
  tri_doc_id :: string
  tri_body :: string

record ledger_row =
  lconsumer :: string
  lseq :: nat
  lattempts :: nat
  loutcome :: "outcome option"
  lupdated_at :: time

record vault_row =
  vaccount :: string
  vblob :: "nat list"
  vepoch :: nat
  vn :: nat

record sync_state_row =
  device_id :: "string option"
  role :: sync_role
  joining :: bool
  joined :: bool
  tracking :: bool
  epoch :: nat

text \<open>
  The database, with the two connection-local TEMP tables (\<open>reconcile_listing\<close> and
  \<open>reconcile_pass\<close>, which one statement creates together; \<open>None\<close> before that), and what
  the closure of \<open>createWriteTx\<close> keeps in memory: \<open>accountPublishedAt\<close>, \<open>accountAppends\<close>,
  \<open>appended\<close>, \<open>archivedRefs\<close>. \<open>warned\<close> collects the \<open>console.warn\<close> calls.
  \<open>outbox_rows\<close> and \<open>event_draft_rows\<close> are (id, account) of the tables that
  \<open>ON DELETE CASCADE\<close> with their account.
\<close>

record store =
  accounts :: "account_row list"
  documents :: "doc_row list"
  changes :: "change_row list"
  change_counter :: nat \<comment> \<open>AUTOINCREMENT: the highest seq ever used\<close>
  documents_fts :: "nat \<rightharpoonup> fts_row"
  documents_tri :: "nat \<rightharpoonup> tri_row"
  consumers :: "string \<rightharpoonup> nat"
  work_ledger :: "ledger_row list"
  work_attempts :: "(string \<times> string \<times> string) list" \<comment> \<open>(consumer, doc_id, key)\<close>
  vault :: "vault_row list"
  meta_rekeyed :: bool
  meta_rekey_cursor :: "(string \<times> nat) option"
  outbox_rows :: "(string \<times> string) list"
  event_draft_rows :: "(string \<times> string) list"
  sync_state :: sync_state_row
  sync_offers :: "string list"
  reconcile_temp :: "((string \<times> external_ref) list \<times> string list) option"
  accountPublishedAt :: "string \<rightharpoonup> time"
  accountAppends :: "(string \<times> time) list"
  appended :: nat
  archivedRefs :: "external_ref list option"
  warned :: "(string \<times> string \<times> string) list"

record deps =
  detectLanguages :: "string \<Rightarrow> string list"
  digest :: "json \<Rightarrow> string" \<comment> \<open>SHA-256, in hex, of the value's JSON text\<close>
  sha256 :: "string \<Rightarrow> byte list"
  buildStemView :: "string \<Rightarrow> string list \<Rightarrow> string"

section \<open>Low-level helpers\<close>

definition opt_str :: "string option \<Rightarrow> json" where
  "opt_str s = (case s of None \<Rightarrow> JNull | Some t \<Rightarrow> JStr t)"

definition contentHash :: "deps \<Rightarrow> doc_input \<Rightarrow> string" where
  "contentHash D d = digest D (JObj
     [(''title'', opt_str (in_title d)),
      (''markdown'', opt_str (in_markdown d)),
      (''url'', opt_str (in_url d)),
      (''metadata'', JObj (in_metadata d)),
      (''createdAt'', opt_str (in_createdAt d))])"

definition isFolderScopedAccount :: "account_row \<Rightarrow> bool" where
  "isFolderScopedAccount acc = (case config acc of
     None \<Rightarrow> False
   | Some c \<Rightarrow> (case obj_get ''folderRoots'' c of Some (JArr _) \<Rightarrow> True | _ \<Rightarrow> False))"

text \<open>The change just appended carries the returned seq.\<close>

definition appendChange :: "time \<Rightarrow> change_kind \<Rightarrow> string \<Rightarrow> store \<Rightarrow> nat \<times> store" where
  "appendChange now k ref s = (let n = Suc (change_counter s) in
     (n, s\<lparr>changes := changes s @ [\<lparr>cseq = n, kind = k, ref_id = ref, cat = now\<rparr>],
           change_counter := n,
           appended := appended s + 1,
           accountAppends := (if k = AccountChange then accountAppends s @ [(ref, now)]
                              else accountAppends s)\<rparr>))"

definition getAccountRow :: "string \<Rightarrow> store \<Rightarrow> account_row option" where
  "getAccountRow i s = find (\<lambda>a. aid a = i) (accounts s)"

definition has_key :: "string \<Rightarrow> external_ref \<Rightarrow> doc_row \<Rightarrow> bool" where
  "has_key acct r d \<longleftrightarrow> account_id d = acct \<and> external_id d = externalId r \<and> dtype d = rtype r"

definition findDocRow :: "string \<Rightarrow> external_ref \<Rightarrow> store \<Rightarrow> doc_row option" where
  "findDocRow acct r s = find (has_key acct r) (documents s)"

definition docById :: "string \<Rightarrow> store \<Rightarrow> doc_row option" where
  "docById i s = find (\<lambda>d. did d = i) (documents s)"

definition updDoc :: "string \<Rightarrow> (doc_row \<Rightarrow> doc_row) \<Rightarrow> store \<Rightarrow> store" where
  "updDoc i f s = s\<lparr>documents := upd_where (\<lambda>d. did d = i) f (documents s)\<rparr>"

text \<open>\<open>(SELECT rowid FROM documents WHERE id = ?)\<close>; NULL matches no index row.\<close>

definition rowidOf :: "string \<Rightarrow> store \<Rightarrow> nat option" where
  "rowidOf i s = map_option rowid (docById i s)"

definition ftsDelete :: "string \<Rightarrow> store \<Rightarrow> store" where
  "ftsDelete i s = (case rowidOf i s of
     None \<Rightarrow> s
   | Some r \<Rightarrow> s\<lparr>documents_fts := (documents_fts s)(r := None),
                 documents_tri := (documents_tri s)(r := None)\<rparr>)"

definition or_empty :: "string option \<Rightarrow> string" where
  "or_empty s = (case s of None \<Rightarrow> '''' | Some t \<Rightarrow> t)"

definition ftsRow :: "deps \<Rightarrow> string \<Rightarrow> string option \<Rightarrow> string option \<Rightarrow> string list \<Rightarrow> fts_row" where
  "ftsRow D i t m langs = \<lparr>fts_doc_id = i, fts_title = or_empty t, fts_markdown = or_empty m,
     fts_title_stem = buildStemView D (or_empty t) langs,
     fts_markdown_stem = buildStemView D (or_empty m) langs\<rparr>"

definition docText :: "string option \<Rightarrow> string option \<Rightarrow> string" where
  "docText t m = js_trim (or_empty t @ [CHR 0x0A] @ or_empty m)"

definition triRow :: "string \<Rightarrow> string option \<Rightarrow> string option \<Rightarrow> tri_row" where
  "triRow i t m = \<lparr>tri_doc_id = i, tri_body = docText t m\<rparr>"

text \<open>
  Insert-only: a rowid that is already taken is a constraint error. (The subselect always
  resolves: both callers have written the documents row.)
\<close>

definition ftsInsert :: "deps \<Rightarrow> string \<Rightarrow> string option \<Rightarrow> string option \<Rightarrow> string list \<Rightarrow>
    store \<Rightarrow> tx_error + store" where
  "ftsInsert D i t m langs s = (case rowidOf i s of
     None \<Rightarrow> Inl (ConstraintFailed ''rowid'')
   | Some r \<Rightarrow>
       if documents_fts s r \<noteq> None \<or> documents_tri s r \<noteq> None
       then Inl (ConstraintFailed ''rowid'')
       else Inr (s\<lparr>documents_fts := (documents_fts s)(r \<mapsto> ftsRow D i t m langs),
                   documents_tri := (documents_tri s)(r \<mapsto> triRow i t m)\<rparr>))"

definition ftsUpsert :: "deps \<Rightarrow> string \<Rightarrow> string option \<Rightarrow> string option \<Rightarrow> string list \<Rightarrow>
    store \<Rightarrow> tx_error + store" where
  "ftsUpsert D i t m langs s = ftsInsert D i t m langs (ftsDelete i s)"

definition detect :: "deps \<Rightarrow> string \<Rightarrow> string list" where
  "detect D text = (if text = [] then [] else detectLanguages D text)"

section \<open>Upserting a document\<close>

definition new_rowid :: "store \<Rightarrow> nat" where
  "new_rowid s = Suc (foldr max (map rowid (documents s)) 0)"

text \<open>
  INSERT INTO documents: the primary key, UNIQUE(account_id, external_id, type) and the foreign
  key to accounts.
\<close>

definition insertDoc :: "doc_row \<Rightarrow> store \<Rightarrow> tx_error + store" where
  "insertDoc d s =
     (if account_id d \<notin> aid ` set (accounts s) \<or>
         (\<exists>x \<in> set (documents s). did x = did d \<or>
            (account_id x = account_id d \<and> external_id x = external_id d \<and> dtype x = dtype d))
      then Inl (ConstraintFailed ''documents'')
      else Inr (s\<lparr>documents := documents s @ [d\<lparr>rowid := new_rowid s\<rparr>]\<rparr>))"

definition resolveParent :: "string \<Rightarrow> external_ref option \<Rightarrow> store \<Rightarrow> string option" where
  "resolveParent acct p s = (case p of
     None \<Rightarrow> None | Some r \<Rightarrow> map_option did (findDocRow acct r s))"

definition unchanged :: "deps \<Rightarrow> doc_input \<Rightarrow> doc_row \<Rightarrow> bool" where
  "unchanged D input ex \<longleftrightarrow> content_hash ex = contentHash D input \<and> archived_at ex = None"

definition coalesce :: "'a option \<Rightarrow> 'a option \<Rightarrow> 'a option" where
  "coalesce a b = (case a of None \<Rightarrow> b | Some x \<Rightarrow> Some x)"

definition updatedRow :: "deps \<Rightarrow> time \<Rightarrow> doc_input \<Rightarrow> string option \<Rightarrow> string list \<Rightarrow> nat \<Rightarrow>
    doc_row \<Rightarrow> doc_row" where
  "updatedRow D now input parent langs n d = d\<lparr>
     title := in_title input, markdown := in_markdown input, url := in_url input,
     metadata := in_metadata input, created_at := in_createdAt input, parent_id := parent,
     content_hash := contentHash D input, seq := n, archived_at := None,
     languages := langs, updated_at := now,
     scope_root_id := coalesce (in_scopeRootId input) (scope_root_id d)\<rparr>"

definition newRow :: "deps \<Rightarrow> time \<Rightarrow> string \<Rightarrow> string \<Rightarrow> doc_input \<Rightarrow> string option \<Rightarrow>
    string list \<Rightarrow> nat \<Rightarrow> doc_row" where
  "newRow D now i acct input parent langs n = \<lparr>
     rowid = 0, did = i, account_id = acct, external_id = externalId (in_ref input),
     dtype = rtype (in_ref input), title = in_title input, markdown = in_markdown input,
     url = in_url input, metadata = in_metadata input, created_at = in_createdAt input,
     parent_id = parent, content_hash = contentHash D input, seq = n, ingest_seq = n,
     archived_at = None, languages = langs, ingested_at = now, updated_at = now,
     scope_root_id = in_scopeRootId input\<rparr>"

definition docHashedId :: "deps \<Rightarrow> string \<Rightarrow> external_ref \<Rightarrow> string" where
  "docHashedId D acct r = hashedId (sha256 D) ''document'' [acct, externalId r, rtype r]"

text \<open>Returns the seq of the document's change, or None when nothing changed.\<close>

definition upsertDocument :: "deps \<Rightarrow> time \<Rightarrow> string \<Rightarrow> doc_input \<Rightarrow> store \<Rightarrow>
    tx_error + (nat option \<times> store)" where
  "upsertDocument D now acct input s =
     (let existing = findDocRow acct (in_ref input) s;
          parent = resolveParent acct (in_parent input) s;
          langs = detect D (docText (in_title input) (in_markdown input))
      in case existing of
        Some ex \<Rightarrow>
          if unchanged D input ex then Inr (None, s)
          else let (n, s1) = appendChange now DocumentChange (did ex) s;
                   s2 = updDoc (did ex) (updatedRow D now input parent langs n) s1
               in ebind (ftsUpsert D (did ex) (in_title input) (in_markdown input) langs s2)
                    (\<lambda>s3. Inr (Some n, s3))
      | None \<Rightarrow>
          let i = docHashedId D acct (in_ref input);
              (n, s1) = appendChange now DocumentChange i s
          in ebind (insertDoc (newRow D now i acct input parent langs n) s1) (\<lambda>s2.
             ebind (ftsInsert D i (in_title input) (in_markdown input) langs s2)
               (\<lambda>s3. Inr (Some n, s3))))"

section \<open>Parent links\<close>

definition relinkOne :: "time \<Rightarrow> string \<Rightarrow> external_ref \<times> external_ref \<Rightarrow>
    nat option \<times> store \<Rightarrow> nat option \<times> store" where
  "relinkOne now acct cp ls = (case (cp, ls) of ((c, p), (lst, s)) \<Rightarrow>
     (case findDocRow acct c s of
        None \<Rightarrow> (lst, s)
      | Some child \<Rightarrow>
          let parentId = map_option did (findDocRow acct p s)
          in if parent_id child = parentId then (lst, s)
             else let (n, s1) = appendChange now DocumentChange (did child) s
                  in (Some n, updDoc (did child)
                        (\<lambda>d. d\<lparr>parent_id := parentId, seq := n, updated_at := now\<rparr>) s1)))"

definition relinkPairs :: "time \<Rightarrow> string \<Rightarrow> (external_ref \<times> external_ref) list \<Rightarrow>
    store \<Rightarrow> nat option \<times> store" where
  "relinkPairs now acct pairs s = fold (relinkOne now acct) pairs (None, s)"

definition parentPairs :: "doc_input list \<Rightarrow> (external_ref \<times> external_ref) list" where
  "parentPairs docs = concat (map (\<lambda>d. case in_parent d of
     None \<Rightarrow> [] | Some p \<Rightarrow> [(in_ref d, p)]) docs)"

definition reconcileParents :: "time \<Rightarrow> string \<Rightarrow> doc_input list \<Rightarrow> store \<Rightarrow> nat option \<times> store" where
  "reconcileParents now acct docs s = relinkPairs now acct (parentPairs docs) s"

section \<open>Archiving\<close>

definition archiveRow :: "time \<Rightarrow> string \<Rightarrow> store \<Rightarrow> nat \<times> store" where
  "archiveRow now i s = (let (n, s1) = appendChange now DocumentChange i s in
     (n, updDoc i (\<lambda>d. d\<lparr>archived_at := Some now, seq := n, updated_at := now\<rparr>) s1))"

definition archiveKid :: "time \<Rightarrow> string \<Rightarrow> nat option \<times> store \<Rightarrow> nat option \<times> store" where
  "archiveKid now i ls = (let (n, s1) = archiveRow now i (snd ls) in (Some n, s1))"

definition liveChildren :: "string \<Rightarrow> store \<Rightarrow> string list" where
  "liveChildren p s =
     map did (filter (\<lambda>d. parent_id d = Some p \<and> archived_at d = None) (documents s))"

definition archiveChildren :: "time \<Rightarrow> string \<Rightarrow> store \<Rightarrow> nat option \<times> store" where
  "archiveChildren now p s = fold (archiveKid now) (liveChildren p s) (None, s)"

definition archiveByRef :: "time \<Rightarrow> string \<Rightarrow> external_ref \<Rightarrow> store \<Rightarrow> nat option \<times> store" where
  "archiveByRef now acct r s = (case findDocRow acct r s of
     None \<Rightarrow> (None, s)
   | Some row \<Rightarrow>
       if archived_at row \<noteq> None then (None, s)
       else let (n, s1) = archiveRow now (did row) s;
                (k, s2) = archiveChildren now (did row) s1
            in (coalesce k (Some n), s2))"

end
