(* ===== verification/StoreInv.thy ===== *)
theory StoreInv
  imports Store
begin

text \<open>
  The invariant of the corpus database and the lemma of each helper that keeps it: unique keys,
  search indexes that are a function of the documents table, a change feed in which a document's
  seq is its latest change, and foreign keys.
\<close>

section \<open>The invariant\<close>

definition nat_key :: "doc_row \<Rightarrow> string \<times> string \<times> string" where
  "nat_key d = (account_id d, external_id d, dtype d)"

definition keys_ok :: "store \<Rightarrow> bool" where
  "keys_ok s \<longleftrightarrow> distinct (map did (documents s)) \<and> distinct (map nat_key (documents s)) \<and>
     distinct (map rowid (documents s))"

definition fts_view :: "deps \<Rightarrow> doc_row list \<Rightarrow> nat \<Rightarrow> fts_row option" where
  "fts_view D ds r = map_option (\<lambda>d. ftsRow D (did d) (title d) (markdown d) (languages d))
     (find (\<lambda>d. rowid d = r) ds)"

definition tri_view :: "doc_row list \<Rightarrow> nat \<Rightarrow> tri_row option" where
  "tri_view ds r = map_option (\<lambda>d. triRow (did d) (title d) (markdown d))
     (find (\<lambda>d. rowid d = r) ds)"

definition index_ok :: "deps \<Rightarrow> store \<Rightarrow> bool" where
  "index_ok D s \<longleftrightarrow> documents_fts s = fts_view D (documents s) \<and>
     documents_tri s = tri_view (documents s)"

definition is_doc_change :: "string \<Rightarrow> change_row \<Rightarrow> bool" where
  "is_doc_change i c \<longleftrightarrow> kind c = DocumentChange \<and> ref_id c = i"

definition feed_ok :: "store \<Rightarrow> bool" where
  "feed_ok s \<longleftrightarrow> sorted_wrt (<) (map cseq (changes s)) \<and>
     (\<forall>c \<in> set (changes s). cseq c \<le> change_counter s) \<and>
     (\<forall>d \<in> set (documents s). seq d \<le> change_counter s \<and>
        (\<exists>c \<in> set (changes s). is_doc_change (did d) c \<and> cseq c = seq d) \<and>
        (\<forall>c \<in> set (changes s). is_doc_change (did d) c \<longrightarrow> cseq c \<le> seq d))"

definition refs_ok :: "store \<Rightarrow> bool" where
  "refs_ok s \<longleftrightarrow> distinct (map aid (accounts s)) \<and>
     (\<forall>d \<in> set (documents s). account_id d \<in> aid ` set (accounts s))"

definition store_inv :: "deps \<Rightarrow> store \<Rightarrow> bool" where
  "store_inv D s \<longleftrightarrow> keys_ok s \<and> index_ok D s \<and> feed_ok s \<and> refs_ok s"

lemma store_invD:
  assumes "store_inv D s"
  shows "keys_ok s" "index_ok D s" "feed_ok s" "refs_ok s"
  using assms by (simp_all add: store_inv_def)

section \<open>Looking rows up\<close>

lemma has_key_nat_key: "has_key a r d \<longleftrightarrow> nat_key d = (a, externalId r, rtype r)"
  by (auto simp: has_key_def nat_key_def)

lemma findDocRow_Some:
  "findDocRow a r s = Some d \<Longrightarrow> d \<in> set (documents s) \<and> has_key a r d"
  unfolding findDocRow_def by (rule find_Some_set)

lemma findDocRow_None: "findDocRow a r s = None \<longleftrightarrow> (\<forall>d \<in> set (documents s). \<not> has_key a r d)"
  by (simp add: findDocRow_def find_None_iff_all)

lemma findDocRow_unique:
  assumes "keys_ok s" "d \<in> set (documents s)" "has_key a r d"
  shows "findDocRow a r s = Some d"
  unfolding findDocRow_def
proof (rule find_unique)
  fix d' assume "d' \<in> set (documents s)" "has_key a r d'"
  then show "d' = d"
    using assms distinct_map_inj [of nat_key "documents s" d' d]
    by (simp add: keys_ok_def has_key_nat_key)
qed (use assms in auto)

lemma docById_Some: "docById i s = Some d \<Longrightarrow> d \<in> set (documents s) \<and> did d = i"
  unfolding docById_def by (rule find_Some_set)

lemma docById_unique:
  assumes "keys_ok s" "d \<in> set (documents s)"
  shows "docById (did d) s = Some d"
  unfolding docById_def
  by (rule find_key) (use assms in \<open>auto simp: keys_ok_def\<close>)

lemma find_rowid:
  "keys_ok s \<Longrightarrow> d \<in> set (documents s) \<Longrightarrow> find (\<lambda>x. rowid x = rowid d) (documents s) = Some d"
  by (rule find_key) (auto simp: keys_ok_def)

lemma same_did: "keys_ok s \<Longrightarrow> d \<in> set (documents s) \<Longrightarrow> e \<in> set (documents s) \<Longrightarrow>
    did d = did e \<Longrightarrow> d = e"
  by (auto simp: keys_ok_def dest: distinct_map_inj)

lemma rowid_less_new: "d \<in> set (documents s) \<Longrightarrow> rowid d < new_rowid s"
proof -
  have "r \<in> set rs \<Longrightarrow> r \<le> foldr max rs (0::nat)" for r rs
    by (induction rs) auto
  then show "d \<in> set (documents s) \<Longrightarrow> rowid d < new_rowid s"
    by (auto simp: new_rowid_def less_Suc_eq_le)
qed

section \<open>A change and the row it is about\<close>

text \<open>Every write to an existing document is this pair of statements, for some row update.\<close>

definition touch :: "time \<Rightarrow> string \<Rightarrow> (nat \<Rightarrow> doc_row \<Rightarrow> doc_row) \<Rightarrow> store \<Rightarrow> store" where
  "touch now i f s = (case appendChange now DocumentChange i s of (n, s1) \<Rightarrow> updDoc i (f n) s1)"

text \<open>The row update keeps the row's keys and stamps it with the change's seq.\<close>

definition stamps :: "(nat \<Rightarrow> doc_row \<Rightarrow> doc_row) \<Rightarrow> bool" where
  "stamps f \<longleftrightarrow> (\<forall>n d. did (f n d) = did d \<and> nat_key (f n d) = nat_key d \<and>
     rowid (f n d) = rowid d \<and> seq (f n d) = n)"

definition keeps_text :: "(nat \<Rightarrow> doc_row \<Rightarrow> doc_row) \<Rightarrow> bool" where
  "keeps_text f \<longleftrightarrow> (\<forall>n d. title (f n d) = title d \<and> markdown (f n d) = markdown d \<and>
     languages (f n d) = languages d)"

lemma touch_fields [simp]:
  "accounts (touch now i f s) = accounts s"
  "documents_fts (touch now i f s) = documents_fts s"
  "documents_tri (touch now i f s) = documents_tri s"
  "change_counter (touch now i f s) = Suc (change_counter s)"
  "changes (touch now i f s) = changes s @
     [\<lparr>cseq = Suc (change_counter s), kind = DocumentChange, ref_id = i, cat = now\<rparr>]"
  "documents (touch now i f s) =
     upd_where (\<lambda>d. did d = i) (f (Suc (change_counter s))) (documents s)"
  by (simp_all add: touch_def appendChange_def updDoc_def Let_def)

lemma stampsD:
  assumes "stamps f"
  shows "did (f n d) = did d" "nat_key (f n d) = nat_key d" "rowid (f n d) = rowid d"
    "seq (f n d) = n" "account_id (f n d) = account_id d"
  using assms by (auto simp: stamps_def nat_key_def)

lemma keys_ok_upd:
  assumes "\<And>d. did (f d) = did d" "\<And>d. nat_key (f d) = nat_key d" "\<And>d. rowid (f d) = rowid d"
    and "documents t = upd_where P f (documents s)" and "keys_ok s"
  shows "keys_ok t"
  using assms by (simp add: keys_ok_def map_upd_where)

lemma keys_ok_touch: "stamps f \<Longrightarrow> keys_ok s \<Longrightarrow> keys_ok (touch now i f s)"
  by (rule keys_ok_upd [of "f (Suc (change_counter s))"]) (auto simp: stampsD)

lemma feed_ok_touch:
  assumes "stamps f" and "feed_ok s"
  shows "feed_ok (touch now i f s)"
proof -
  let ?n = "Suc (change_counter s)"
  have le: "cseq c < ?n" if "c \<in> set (changes s)" for c
    using assms(2) that by (auto simp: feed_ok_def less_Suc_eq_le)
  have sorted: "sorted_wrt (<) (map cseq (changes (touch now i f s)))"
    using assms(2) le by (auto simp: feed_ok_def sorted_wrt_append)
  have docs: "seq d \<le> ?n \<and>
      (\<exists>c \<in> set (changes (touch now i f s)). is_doc_change (did d) c \<and> cseq c = seq d) \<and>
      (\<forall>c \<in> set (changes (touch now i f s)). is_doc_change (did d) c \<longrightarrow> cseq c \<le> seq d)"
    if d: "d \<in> set (documents (touch now i f s))" for d
  proof -
    obtain d0 where d0: "d0 \<in> set (documents s)" and d_eq: "d = (if did d0 = i then f ?n d0 else d0)"
      using d by (auto simp: set_upd_where)
    show ?thesis
    proof (cases "did d0 = i")
      case True
      then show ?thesis
        using d_eq le stampsD [OF assms(1), of ?n d0]
        by (auto simp: is_doc_change_def less_imp_le)
    next
      case False
      then show ?thesis
        using d_eq d0 assms(2) by (auto simp: feed_ok_def is_doc_change_def le_SucI)
    qed
  qed
  show ?thesis
    unfolding feed_ok_def using sorted docs le by (auto simp: less_imp_le)
qed

lemma refs_ok_touch: "stamps f \<Longrightarrow> refs_ok s \<Longrightarrow> refs_ok (touch now i f s)"
  by (auto simp: refs_ok_def set_upd_where stampsD)

lemma find_rowid_upd:
  assumes "\<And>d. rowid (f d) = rowid d"
  shows "find (\<lambda>d. rowid d = r) (upd_where P f ds) =
    map_option (\<lambda>d. if P d then f d else d) (find (\<lambda>d. rowid d = r) ds)"
  by (rule find_upd_where) (simp add: assms)

lemma index_ok_upd:
  assumes "\<And>d. rowid (f d) = rowid d" "\<And>d. did (f d) = did d"
    and "\<And>d. title (f d) = title d" "\<And>d. markdown (f d) = markdown d"
      "\<And>d. languages (f d) = languages d"
    and "documents t = upd_where P f (documents s)"
    and "documents_fts t = documents_fts s" "documents_tri t = documents_tri s"
    and "index_ok D s"
  shows "index_ok D t"
  using assms
  by (auto simp: index_ok_def fts_view_def tri_view_def find_rowid_upd option.map_comp o_def
      intro!: ext option.map_cong0)

lemma index_ok_touch: "stamps f \<Longrightarrow> keeps_text f \<Longrightarrow> index_ok D s \<Longrightarrow> index_ok D (touch now i f s)"
  by (rule index_ok_upd [of "f (Suc (change_counter s))"]) (auto simp: stampsD keeps_text_def)

lemma store_inv_touch [invar_intros]:
  "stamps f \<Longrightarrow> keeps_text f \<Longrightarrow> store_inv D s \<Longrightarrow> store_inv D (touch now i f s)"
  by (simp add: store_inv_def keys_ok_touch index_ok_touch feed_ok_touch refs_ok_touch)

section \<open>The search index follows the documents\<close>

text \<open>
  A row update that changes the text, then ftsUpsert with the row's new text: the statement pair
  cannot fail and the index is again the view of the documents table.
\<close>

lemma ftsUpsert_ok:
  assumes "docById i s = Some d"
  shows "ftsUpsert D i t m l s = Inr (s\<lparr>documents_fts := (documents_fts s)(rowid d \<mapsto> ftsRow D i t m l),
      documents_tri := (documents_tri s)(rowid d \<mapsto> triRow i t m)\<rparr>)"
  using assms by (simp add: ftsUpsert_def ftsInsert_def ftsDelete_def rowidOf_def docById_def)

lemma index_ok_reindex:
  assumes keys: "keys_ok s0" and idx: "index_ok D s0"
    and d: "d \<in> set (documents s0)" "did d = i"
    and f: "\<And>x. rowid (f x) = rowid x" "\<And>x. did (f x) = did x"
    and new_text: "title (f d) = t" "markdown (f d) = m" "languages (f d) = l"
    and docs: "documents s = upd_where (\<lambda>x. did x = i) f (documents s0)"
    and ix: "documents_fts s = (documents_fts s0)(rowid d \<mapsto> ftsRow D i t m l)"
      "documents_tri s = (documents_tri s0)(rowid d \<mapsto> triRow i t m)"
  shows "index_ok D s"
proof -
  have find_d: "find (\<lambda>x. rowid x = rowid d) (documents s0) = Some d"
    by (rule find_rowid [OF keys d(1)])
  have other: "did x \<noteq> i" if "find (\<lambda>x. rowid x = r) (documents s0) = Some x" "r \<noteq> rowid d" for r x
    using that find_Some_set [OF that(1)] same_did [OF keys, of x d] d by auto
  have look: "map_option (\<lambda>x. if did x = i then f x else x) (find (\<lambda>x. rowid x = r) (documents s0)) =
      find (\<lambda>x. rowid x = r) (documents s0)" if "r \<noteq> rowid d" for r
    using other [OF _ that] by (cases "find (\<lambda>x. rowid x = r) (documents s0)") auto
  have "fts_view D (documents s) r = documents_fts s r" for r
  proof (cases "r = rowid d")
    case True
    then show ?thesis
      using find_d d f new_text by (simp add: fts_view_def docs find_rowid_upd ix)
  next
    case False
    then show ?thesis
      using look [OF False] idx f by (simp add: fts_view_def docs find_rowid_upd ix index_ok_def)
  qed
  moreover have "tri_view (documents s) r = documents_tri s r" for r
  proof (cases "r = rowid d")
    case True
    then show ?thesis
      using find_d d f new_text by (simp add: tri_view_def docs find_rowid_upd ix)
  next
    case False
    then show ?thesis
      using look [OF False] idx f by (simp add: tri_view_def docs find_rowid_upd ix index_ok_def)
  qed
  ultimately show ?thesis by (simp add: index_ok_def fun_eq_iff)
qed

section \<open>Upserting keeps the invariant\<close>

lemma index_fields [simp]:
  "keys_ok (s\<lparr>documents_fts := x, documents_tri := y\<rparr>) = keys_ok s"
  "feed_ok (s\<lparr>documents_fts := x, documents_tri := y\<rparr>) = feed_ok s"
  "refs_ok (s\<lparr>documents_fts := x, documents_tri := y\<rparr>) = refs_ok s"
  by (simp_all add: keys_ok_def feed_ok_def refs_ok_def)

lemma stamps_updatedRow [simp]: "stamps (\<lambda>n. updatedRow D now inp p l n)"
  by (simp add: stamps_def updatedRow_def nat_key_def)

definition reindexed :: "deps \<Rightarrow> doc_row \<Rightarrow> string option \<Rightarrow> string option \<Rightarrow> string list \<Rightarrow>
    store \<Rightarrow> store" where
  "reindexed D d t m l s = s\<lparr>documents_fts := (documents_fts s)(rowid d \<mapsto> ftsRow D (did d) t m l),
     documents_tri := (documents_tri s)(rowid d \<mapsto> triRow (did d) t m)\<rparr>"

lemma reindexed_fields [simp]:
  "accounts (reindexed D d t m l s) = accounts s"
  "documents (reindexed D d t m l s) = documents s"
  "changes (reindexed D d t m l s) = changes s"
  "change_counter (reindexed D d t m l s) = change_counter s"
  "accountPublishedAt (reindexed D d t m l s) = accountPublishedAt s"
  by (simp_all add: reindexed_def)

lemma ftsUpsert_touch:
  assumes keys: "keys_ok s" and d: "d \<in> set (documents s)" and st: "stamps f"
  shows "ftsUpsert D (did d) t m l (touch now (did d) f s) =
    Inr (reindexed D d t m l (touch now (did d) f s))"
proof -
  let ?n = "Suc (change_counter s)"
  have "docById (did d) (touch now (did d) f s) = Some (f ?n d)"
    using docById_unique [OF keys_ok_touch [OF st keys], of "f ?n d"] d
    by (auto simp: set_upd_where stampsD [OF st] image_iff)
  from ftsUpsert_ok [OF this] show ?thesis
    by (simp add: reindexed_def stampsD [OF st])
qed

lemma store_inv_touch_reindexed [invar_intros]:
  assumes "store_inv D s" "d \<in> set (documents s)" "stamps f"
    and "\<And>n. title (f n d) = t" "\<And>n. markdown (f n d) = m" "\<And>n. languages (f n d) = l"
  shows "store_inv D (reindexed D d t m l (touch now (did d) f s))"
  unfolding store_inv_def
proof (intro conjI)
  note inv = store_invD [OF assms(1)]
  show "keys_ok (reindexed D d t m l (touch now (did d) f s))"
    "feed_ok (reindexed D d t m l (touch now (did d) f s))"
    "refs_ok (reindexed D d t m l (touch now (did d) f s))"
    by (simp_all add: reindexed_def keys_ok_touch feed_ok_touch refs_ok_touch inv assms(3))
  show "index_ok D (reindexed D d t m l (touch now (did d) f s))"
    by (rule index_ok_reindex [OF inv(1,2) assms(2) refl, of "f (Suc (change_counter s))"])
      (simp_all add: reindexed_def stampsD [OF assms(3)] assms)
qed

text \<open>A new document, its change and its index rows.\<close>

definition inserted :: "deps \<Rightarrow> time \<Rightarrow> doc_row \<Rightarrow> store \<Rightarrow> store" where
  "inserted D now d s = (let d' = d\<lparr>rowid := new_rowid s\<rparr> in
     reindexed D d' (title d) (markdown d) (languages d)
       ((snd (appendChange now DocumentChange (did d) s))\<lparr>documents := documents s @ [d']\<rparr>))"

lemma inserted_fields [simp]:
  "accounts (inserted D now d s) = accounts s"
  "documents (inserted D now d s) = documents s @ [d\<lparr>rowid := new_rowid s\<rparr>]"
  "change_counter (inserted D now d s) = Suc (change_counter s)"
  "changes (inserted D now d s) = changes s @
     [\<lparr>cseq = Suc (change_counter s), kind = DocumentChange, ref_id = did d, cat = now\<rparr>]"
  by (simp_all add: inserted_def Let_def appendChange_def)

definition fresh :: "doc_row \<Rightarrow> store \<Rightarrow> bool" where
  "fresh d s \<longleftrightarrow> account_id d \<in> aid ` set (accounts s) \<and>
     (\<forall>x \<in> set (documents s). did x \<noteq> did d \<and> nat_key x \<noteq> nat_key d)"

lemma insertDoc_Inr:
  "insertDoc d s = Inr t \<longleftrightarrow>
     fresh d s \<and> t = s\<lparr>documents := documents s @ [d\<lparr>rowid := new_rowid s\<rparr>]\<rparr>"
proof -
  have "fresh d s \<longleftrightarrow> \<not> (account_id d \<notin> aid ` set (accounts s) \<or>
      (\<exists>x \<in> set (documents s). did x = did d \<or>
        (account_id x = account_id d \<and> external_id x = external_id d \<and> dtype x = dtype d)))"
    by (auto simp: fresh_def nat_key_def)
  then show ?thesis by (auto simp: insertDoc_def)
qed

lemma fresh_cong: "accounts s = accounts t \<Longrightarrow> documents s = documents t \<Longrightarrow> fresh d s = fresh d t"
  by (simp add: fresh_def)

lemma no_index_at_new_rowid:
  assumes "index_ok D s"
  shows "documents_fts s (new_rowid s) = None" "documents_tri s (new_rowid s) = None"
proof -
  have "find (\<lambda>d. rowid d = new_rowid s) (documents s) = None"
    by (auto simp: find_None_iff_all dest: rowid_less_new)
  then show "documents_fts s (new_rowid s) = None" "documents_tri s (new_rowid s) = None"
    using assms by (simp_all add: index_ok_def fts_view_def tri_view_def)
qed

lemma feed_ok_insert:
  assumes "feed_ok s" "fresh d s" "seq d = Suc (change_counter s)"
  shows "feed_ok (inserted D now d s)"
  using assms
  by (auto simp: feed_ok_def fresh_def sorted_wrt_append less_Suc_eq_le is_doc_change_def
      intro: le_SucI)

lemma index_ok_insert:
  assumes "index_ok D s"
  shows "index_ok D (inserted D now d s)"
proof -
  have none: "find (\<lambda>d. rowid d = new_rowid s) (documents s) = None"
    by (auto simp: find_None_iff_all dest: rowid_less_new)
  show ?thesis
    using assms none
    by (auto simp: index_ok_def fts_view_def tri_view_def inserted_def reindexed_def Let_def
        appendChange_def find_append fun_eq_iff split: option.splits)
qed

lemma store_inv_insert [invar_intros]:
  assumes "store_inv D s" "fresh d s" "seq d = Suc (change_counter s)"
  shows "store_inv D (inserted D now d s)"
proof -
  note inv = store_invD [OF assms(1)]
  have "keys_ok (inserted D now d s)"
    using inv(1) assms(2)
    by (force simp: keys_ok_def fresh_def nat_key_def dest: rowid_less_new)
  moreover have "refs_ok (inserted D now d s)"
    using inv(4) assms(2) by (simp add: refs_ok_def fresh_def)
  ultimately show ?thesis
    using feed_ok_insert [OF inv(3) assms(2,3)] index_ok_insert [OF inv(2)]
    by (simp add: store_inv_def)
qed

text \<open>The three ways an upsert ends.\<close>

definition inputLangs :: "deps \<Rightarrow> doc_input \<Rightarrow> string list" where
  "inputLangs D inp = detect D (docText (in_title inp) (in_markdown inp))"

lemma newRow_fields [simp]:
  "did (newRow D now i acct inp p l n) = i"
  "account_id (newRow D now i acct inp p l n) = acct"
  "external_id (newRow D now i acct inp p l n) = externalId (in_ref inp)"
  "dtype (newRow D now i acct inp p l n) = rtype (in_ref inp)"
  "title (newRow D now i acct inp p l n) = in_title inp"
  "markdown (newRow D now i acct inp p l n) = in_markdown inp"
  "languages (newRow D now i acct inp p l n) = l"
  "seq (newRow D now i acct inp p l n) = n"
  "parent_id (newRow D now i acct inp p l n) = p"
  "archived_at (newRow D now i acct inp p l n) = None"
  "content_hash (newRow D now i acct inp p l n) = contentHash D inp"
  by (simp_all add: newRow_def)

lemma upsertDocument_cases [consumes 2, case_names skip update insert]:
  assumes "upsertDocument D now acct inp s = Inr (r, t)" and inv: "store_inv D s"
  obtains
    (skip) ex where "findDocRow acct (in_ref inp) s = Some ex" "unchanged D inp ex"
      "r = None" "t = s"
  | (update) ex where "findDocRow acct (in_ref inp) s = Some ex" "\<not> unchanged D inp ex"
      "r = Some (Suc (change_counter s))"
      "t = reindexed D ex (in_title inp) (in_markdown inp) (inputLangs D inp)
         (touch now (did ex) (\<lambda>n. updatedRow D now inp (resolveParent acct (in_parent inp) s)
            (inputLangs D inp) n) s)"
  | (insert) d where "findDocRow acct (in_ref inp) s = None"
      "r = Some (Suc (change_counter s))" "fresh d s"
      "d = newRow D now (docHashedId D acct (in_ref inp)) acct inp
         (resolveParent acct (in_parent inp) s) (inputLangs D inp) (Suc (change_counter s))"
      "t = inserted D now d s"
proof (cases "findDocRow acct (in_ref inp) s")
  case (Some ex)
  note ex = findDocRow_Some [OF Some]
  show thesis
  proof (cases "unchanged D inp ex")
    case True
    with assms(1) Some show thesis
      by (intro skip) (auto simp: upsertDocument_def Let_def)
  next
    case False
    let ?f = "\<lambda>n. updatedRow D now inp (resolveParent acct (in_parent inp) s) (inputLangs D inp) n"
    have "upsertDocument D now acct inp s =
        ebind (ftsUpsert D (did ex) (in_title inp) (in_markdown inp) (inputLangs D inp)
          (touch now (did ex) ?f s)) (\<lambda>s3. Inr (Some (Suc (change_counter s)), s3))"
      using Some False
      by (simp add: upsertDocument_def touch_def appendChange_def Let_def inputLangs_def)
    also have "\<dots> = Inr (Some (Suc (change_counter s)), reindexed D ex (in_title inp)
        (in_markdown inp) (inputLangs D inp) (touch now (did ex) ?f s))"
      using ftsUpsert_touch [OF store_invD(1) [OF inv] conjunct1 [OF ex] stamps_updatedRow] by simp
    finally show thesis
      using assms(1) Some False by (intro update) auto
  qed
next
  case None
  let ?i = "docHashedId D acct (in_ref inp)"
  let ?d = "newRow D now ?i acct inp (resolveParent acct (in_parent inp) s) (inputLangs D inp)
      (Suc (change_counter s))"
  let ?s1 = "snd (appendChange now DocumentChange ?i s)"
  let ?d' = "?d\<lparr>rowid := new_rowid s\<rparr>"
  have app: "documents ?s1 = documents s" "accounts ?s1 = accounts s" "new_rowid ?s1 = new_rowid s"
      "documents_fts ?s1 = documents_fts s" "documents_tri ?s1 = documents_tri s"
    by (simp_all add: appendChange_def new_rowid_def Let_def)
  have eq: "upsertDocument D now acct inp s = ebind (insertDoc ?d ?s1) (\<lambda>s2.
      ebind (ftsInsert D ?i (in_title inp) (in_markdown inp) (inputLangs D inp) s2)
        (\<lambda>s3. Inr (Some (Suc (change_counter s)), s3)))"
    using None by (simp add: upsertDocument_def appendChange_def Let_def inputLangs_def)
  with assms(1) obtain s2 where s2: "insertDoc ?d ?s1 = Inr s2" by auto
  then have fr: "fresh ?d s" and s2_eq: "s2 = ?s1\<lparr>documents := documents s @ [?d']\<rparr>"
    using fresh_cong [OF app(2,1)] by (simp_all only: insertDoc_Inr app)
  have "find (\<lambda>d. did d = ?i) (documents s) = None"
    using fr by (simp add: find_None_iff_all fresh_def)
  then have "rowidOf ?i s2 = Some (new_rowid s)"
    by (simp add: rowidOf_def docById_def s2_eq find_append)
  moreover have "documents_fts s2 (new_rowid s) = None" "documents_tri s2 (new_rowid s) = None"
    using no_index_at_new_rowid [OF store_invD(2) [OF inv]] by (simp_all add: s2_eq app)
  ultimately have "upsertDocument D now acct inp s = Inr (Some (Suc (change_counter s)),
      reindexed D ?d' (in_title inp) (in_markdown inp) (inputLangs D inp) s2)"
    using eq s2 by (simp add: ftsInsert_def reindexed_def)
  then have "t = inserted D now ?d s"
    using assms(1) by (simp add: inserted_def Let_def s2_eq)
  moreover have "r = Some (Suc (change_counter s))"
    using assms(1) eq s2 by auto
  ultimately show thesis
    using None fr by (intro insert [of ?d]) auto
qed

lemma upsertDocument_inv [invar_intros]:
  assumes "upsertDocument D now acct inp s = Inr (r, t)" "store_inv D s"
  shows "store_inv D t"
  using assms
proof (cases rule: upsertDocument_cases)
  case (update ex)
  then show ?thesis
    using findDocRow_Some [OF update(1)] assms(2)
    by (auto intro!: store_inv_touch_reindexed simp: updatedRow_def)
next
  case (insert d)
  then show ?thesis
    using assms(2) by (auto intro!: store_inv_insert simp: newRow_def)
qed (use assms in auto)

end
