(* ===== verification/Commit.thy ===== *)
theory Commit
  imports StoreInv
begin

text \<open>
  \<open>commitTx\<close> of src/main/core/store/write-tx.ts: the one write primitive, in its four forms
  (an account's batch, a worker's batch, the removal of an account, the purge of old archived
  documents), and the \<open>publishing\<close> wrapper that remembers when an account was last announced.
\<close>

section \<open>Batches\<close>

record enrich_input =
  en_documentId :: string
  en_markdown :: "string option"
  en_metadata :: "jobj option"

record ledger_entry =
  le_seq :: nat
  le_attempts :: nat
  le_outcome :: "outcome option"

text \<open>
  \<open>ab_error\<close>: \<open>None\<close> is \<open>undefined\<close>, \<open>Some None\<close> is \<open>null\<close>. An absent list is the empty one.
\<close>

record account_batch =
  ab_account :: string
  ab_documents :: "doc_input list"
  ab_deletions :: "external_ref list"
  ab_cursor :: "json option"
  ab_status :: "sync_status option"
  ab_progress :: "json option"
  ab_error :: "string option option"
  ab_errorScope :: "error_scope option"
  ab_relink :: "(external_ref \<times> external_ref) list"

record consumer_batch =
  cb_consumer :: string
  cb_cursor :: "nat option"
  cb_documents :: "doc_input list"
  cb_enrich :: "enrich_input list"
  cb_clearAttempts :: "string list"
  cb_seedCursor :: "nat option"
  cb_ledger :: "ledger_entry list"

datatype commit_batch =
    AccountBatch account_batch
  | ConsumerBatch consumer_batch
  | RemoveAccount string
  | PurgeArchived time

section \<open>lastErrorAssignment (src/main/core/store/last-error.ts)\<close>

definition RECONCILE_ERROR_PREFIX :: string where
  "RECONCILE_ERROR_PREFIX = ''reconcile: ''"

text \<open>The value the assignment gives to a \<open>last_error\<close> column that holds \<open>cur\<close>.\<close>

definition lastErrorAssignment :: "string option option \<Rightarrow> error_scope option \<Rightarrow>
    string option \<Rightarrow> string option" where
  "lastErrorAssignment error scope cur =
     (case error of
        None \<Rightarrow> cur
      | Some e \<Rightarrow>
          if e \<noteq> None \<or> scope = None then e
          else let like = (case cur of None \<Rightarrow> False | Some c \<Rightarrow> like_prefix RECONCILE_ERROR_PREFIX c)
               in if scope = Some ReconcileScope then (if like then None else cur)
                  else (if like then cur else None))"

section \<open>Accounts\<close>

definition updAccount :: "string \<Rightarrow> (account_row \<Rightarrow> account_row) \<Rightarrow> store \<Rightarrow> store" where
  "updAccount i f s = s\<lparr>accounts := upd_where (\<lambda>a. aid a = i) f (accounts s)\<rparr>"

definition findAccount :: "string \<Rightarrow> string \<Rightarrow> store \<Rightarrow> account_row option" where
  "findAccount src idt s = find (\<lambda>a. source a = src \<and> ident a = idt) (accounts s)"

text \<open>INSERT INTO accounts: the primary key and UNIQUE(source, identifier).\<close>

definition insertAccount :: "account_row \<Rightarrow> store \<Rightarrow> tx_error + store" where
  "insertAccount a s =
     (if \<exists>x \<in> set (accounts s). aid x = aid a \<or> (source x = source a \<and> ident x = ident a)
      then Inl (ConstraintFailed ''accounts'')
      else Inr (s\<lparr>accounts := accounts s @ [a]\<rparr>))"

definition accountHashedId :: "deps \<Rightarrow> string \<Rightarrow> string \<Rightarrow> string" where
  "accountHashedId D src idt = hashedId (sha256 D) ''account'' [src, idt]"

definition blankAccount :: "deps \<Rightarrow> time \<Rightarrow> string \<Rightarrow> string \<Rightarrow> account_row" where
  "blankAccount D now src idt = \<lparr>aid = accountHashedId D src idt, source = src, ident = idt,
     config = Some [], status = Live, acursor = None, progress = None, last_sync_at = None,
     last_error = None, cadence = None, acreated_at = now, owner_device_id = None\<rparr>"

definition getOrCreateAccountTx :: "deps \<Rightarrow> time \<Rightarrow> string \<Rightarrow> string \<Rightarrow> store \<Rightarrow>
    tx_error + (string \<times> store)" where
  "getOrCreateAccountTx D now src idt s = (case findAccount src idt s of
     Some a \<Rightarrow> Inr (aid a, s)
   | None \<Rightarrow> ebind (insertAccount (blankAccount D now src idt) s) (\<lambda>s1.
       Inr (accountHashedId D src idt,
            snd (appendChange now AccountChange (accountHashedId D src idt) s1))))"

section \<open>A worker's batch\<close>

definition seedConsumerName :: "string \<Rightarrow> string" where
  "seedConsumerName c = ''seed:'' @ c"

definition setCursor :: "string \<Rightarrow> nat option \<Rightarrow> store \<Rightarrow> store" where
  "setCursor name c s = (case c of None \<Rightarrow> s | Some n \<Rightarrow> s\<lparr>consumers := (consumers s)(name \<mapsto> n)\<rparr>)"

text \<open>UPDATE only: an absent row stays absent.\<close>

definition moveCursor :: "string \<Rightarrow> nat option \<Rightarrow> store \<Rightarrow> store" where
  "moveCursor name c s = (case c of
     None \<Rightarrow> s
   | Some n \<Rightarrow> if consumers s name = None then s else s\<lparr>consumers := (consumers s)(name \<mapsto> n)\<rparr>)"

definition ledger_key :: "ledger_row \<Rightarrow> string \<times> nat" where
  "ledger_key r = (lconsumer r, lseq r)"

definition ledgerUpsert :: "ledger_row \<Rightarrow> store \<Rightarrow> store" where
  "ledgerUpsert r s =
     (if ledger_key r \<in> ledger_key ` set (work_ledger s)
      then s\<lparr>work_ledger := upd_where (\<lambda>x. ledger_key x = ledger_key r) (\<lambda>_. r) (work_ledger s)\<rparr>
      else s\<lparr>work_ledger := work_ledger s @ [r]\<rparr>)"

definition recordEntry :: "time \<Rightarrow> string \<Rightarrow> ledger_entry \<Rightarrow> store \<Rightarrow> store" where
  "recordEntry now c e s = ledgerUpsert \<lparr>lconsumer = c, lseq = le_seq e, lattempts = le_attempts e,
     loutcome = le_outcome e, lupdated_at = now\<rparr> s"

definition clearAttempts :: "string \<Rightarrow> string \<Rightarrow> store \<Rightarrow> store" where
  "clearAttempts c i s =
     s\<lparr>work_attempts := filter (\<lambda>(c', d, _). \<not> (c' = c \<and> d = i)) (work_attempts s)\<rparr>"

definition upsertStep :: "deps \<Rightarrow> time \<Rightarrow> string \<Rightarrow> doc_input \<Rightarrow> nat \<times> store \<Rightarrow>
    tx_error + (nat \<times> store)" where
  "upsertStep D now acct doc ls = ebind (upsertDocument D now acct doc (snd ls)) (\<lambda>(q, s1).
     Inr (case q of None \<Rightarrow> fst ls | Some n \<Rightarrow> n, s1))"

definition then_last :: "nat \<Rightarrow> nat option \<times> store \<Rightarrow> nat \<times> store" where
  "then_last l qs = (case fst qs of None \<Rightarrow> l | Some n \<Rightarrow> n, snd qs)"

definition enrichOne :: "deps \<Rightarrow> time \<Rightarrow> enrich_input \<Rightarrow> nat \<times> store \<Rightarrow> tx_error + (nat \<times> store)" where
  "enrichOne D now e ls = (case docById (en_documentId e) (snd ls) of
     None \<Rightarrow> Inr ls
   | Some row \<Rightarrow>
       let (n, s1) = appendChange now DocumentChange (did row) (snd ls);
           md = (case en_metadata e of None \<Rightarrow> metadata row | Some m \<Rightarrow> obj_spread (metadata row) m)
       in case en_markdown e of
            None \<Rightarrow>
              Inr (n, updDoc (did row) (\<lambda>d. d\<lparr>metadata := md, seq := n, updated_at := now\<rparr>) s1)
          | Some m \<Rightarrow>
              let langs = detect D (docText (title row) (Some m));
                  s2 = updDoc (did row) (\<lambda>d. d\<lparr>markdown := Some m, metadata := md, seq := n,
                         languages := langs, updated_at := now\<rparr>) s1
              in ebind (ftsUpsert D (did row) (title row) (Some m) langs s2) (\<lambda>s3. Inr (n, s3)))"

definition consumerDocuments :: "deps \<Rightarrow> time \<Rightarrow> consumer_batch \<Rightarrow> nat \<times> store \<Rightarrow>
    tx_error + (nat \<times> store)" where
  "consumerDocuments D now b ls =
     (if cb_documents b = [] then Inr ls
      else ebind (getOrCreateAccountTx D now ''worker'' (cb_consumer b) (snd ls)) (\<lambda>(acct, s1).
        ebind (efold (upsertStep D now acct) (cb_documents b) (fst ls, s1)) (\<lambda>(l, s2).
          Inr (then_last l (reconcileParents now acct (cb_documents b) s2)))))"

definition commitConsumer :: "deps \<Rightarrow> time \<Rightarrow> consumer_batch \<Rightarrow> nat \<Rightarrow> store \<Rightarrow>
    tx_error + (nat \<times> store)" where
  "commitConsumer D now b last0 s =
     (let c = cb_consumer b;
          s1 = setCursor c (cb_cursor b) s;
          s2 = moveCursor (seedConsumerName c) (cb_seedCursor b) s1;
          s3 = fold (recordEntry now c) (cb_ledger b) s2;
          s4 = fold (clearAttempts c) (cb_clearAttempts b) s3
      in ebind (consumerDocuments D now b (last0, s4)) (efold (enrichOne D now) (cb_enrich b)))"

section \<open>Removing an account, purging\<close>

text \<open>\<open>DELETE FROM documents_fts/documents_tri WHERE rowid IN (SELECT rowid ...)\<close>.\<close>

definition dropIndex :: "(doc_row \<Rightarrow> bool) \<Rightarrow> store \<Rightarrow> store" where
  "dropIndex P s = (let rs = map rowid (filter P (documents s)) in
     s\<lparr>documents_fts := (\<lambda>r. if r \<in> set rs then None else documents_fts s r),
       documents_tri := (\<lambda>r. if r \<in> set rs then None else documents_tri s r)\<rparr>)"

definition deleteDocs :: "(doc_row \<Rightarrow> bool) \<Rightarrow> store \<Rightarrow> store" where
  "deleteDocs P s = s\<lparr>documents := filter (\<lambda>d. \<not> P d) (documents s)\<rparr>"

definition commitRemove :: "time \<Rightarrow> string \<Rightarrow> nat \<Rightarrow> store \<Rightarrow> nat \<times> store" where
  "commitRemove now i last0 s = (case getAccountRow i s of
     None \<Rightarrow> (last0, s)
   | Some acc \<Rightarrow>
       let mine = (\<lambda>d. account_id d = aid acc);
           s1 = deleteDocs mine (dropIndex mine s);
           s2 = s1\<lparr>vault := filter (\<lambda>v. vaccount v \<noteq> aid acc) (vault s1),
                   accounts := filter (\<lambda>a. aid a \<noteq> aid acc) (accounts s1),
                   outbox_rows := filter (\<lambda>p. snd p \<noteq> aid acc) (outbox_rows s1),
                   event_draft_rows := filter (\<lambda>p. snd p \<noteq> aid acc) (event_draft_rows s1)\<rparr>
       in appendChange now AccountRemoved (aid acc) s2)"

definition purgeable :: "time \<Rightarrow> doc_row \<Rightarrow> bool" where
  "purgeable before d \<longleftrightarrow> (case archived_at d of None \<Rightarrow> False | Some t \<Rightarrow> t < before)"

definition purgeOne :: "time \<Rightarrow> string \<Rightarrow> nat \<times> store \<Rightarrow> nat \<times> store" where
  "purgeOne now i ls = appendChange now PurgeChange i (deleteDocs (\<lambda>d. did d = i) (snd ls))"

definition commitPurge :: "time \<Rightarrow> time \<Rightarrow> nat \<Rightarrow> store \<Rightarrow> nat \<times> store" where
  "commitPurge now before last0 s =
     (let rows = map did (filter (purgeable before) (documents s))
      in fold (purgeOne now) rows (last0, dropIndex (purgeable before) s))"

section \<open>An account's batch\<close>

definition ACCOUNT_SYNC_TICK_MS :: int where
  "ACCOUNT_SYNC_TICK_MS = 60000"

text \<open>An upsert of the account branch also warns when a folder-scoped account writes an unstamped row.\<close>

definition accountStep :: "deps \<Rightarrow> time \<Rightarrow> account_row \<Rightarrow> doc_input \<Rightarrow> nat \<times> store \<Rightarrow>
    tx_error + (nat \<times> store)" where
  "accountStep D now acc doc ls = ebind (upsertDocument D now (aid acc) doc (snd ls)) (\<lambda>(q, s1).
     case q of
       None \<Rightarrow> Inr (fst ls, s1)
     | Some n \<Rightarrow> Inr (n,
         if isFolderScopedAccount acc \<and> in_scopeRootId doc = None
         then s1\<lparr>warned := warned s1 @ [(aid acc, source acc, externalId (in_ref doc))]\<rparr>
         else s1))"

definition deletionStep :: "time \<Rightarrow> string \<Rightarrow> external_ref \<Rightarrow> nat \<times> store \<Rightarrow> nat \<times> store" where
  "deletionStep now acct r ls = then_last (fst ls) (archiveByRef now acct r (snd ls))"

definition tickDue :: "time \<Rightarrow> time option \<Rightarrow> bool" where
  "tickDue now publishedAt = (case publishedAt of
     None \<Rightarrow> True | Some p \<Rightarrow> now - p \<ge> ACCOUNT_SYNC_TICK_MS)"

text \<open>A feed reader can see something new: status or last_error moves.\<close>

definition visibleChange :: "account_batch \<Rightarrow> account_row \<Rightarrow> bool" where
  "visibleChange b acc \<longleftrightarrow>
     (ab_status b \<noteq> None \<and> ab_status b \<noteq> Some (status acc)) \<or>
     lastErrorAssignment (ab_error b) (ab_errorScope b) (last_error acc) \<noteq> last_error acc"

definition committedAccount :: "time \<Rightarrow> account_batch \<Rightarrow> account_row \<Rightarrow> account_row" where
  "committedAccount now b a = a\<lparr>
     acursor := Some (case ab_cursor b of None \<Rightarrow> JNull | Some c \<Rightarrow> c),
     status := (case ab_status b of None \<Rightarrow> status a | Some st \<Rightarrow> st),
     progress := coalesce (ab_progress b) (progress a),
     last_error := lastErrorAssignment (ab_error b) (ab_errorScope b) (last_error a),
     last_sync_at := Some now\<rparr>"

definition announceAccount :: "time \<Rightarrow> account_batch \<Rightarrow> account_row \<Rightarrow> nat \<times> store \<Rightarrow> nat \<times> store" where
  "announceAccount now b acc ls =
     (if visibleChange b acc \<or> tickDue now (accountPublishedAt (snd ls) (aid acc))
      then appendChange now AccountChange (aid acc) (snd ls) else ls)"

definition commitAccount :: "deps \<Rightarrow> time \<Rightarrow> account_batch \<Rightarrow> nat \<Rightarrow> store \<Rightarrow>
    tx_error + (nat \<times> store)" where
  "commitAccount D now b last0 s = (case getAccountRow (ab_account b) s of
     None \<Rightarrow> Inl (UnknownAccount (ab_account b))
   | Some acc \<Rightarrow>
       ebind (efold (accountStep D now acc) (ab_documents b) (last0, s)) (\<lambda>(l1, s1).
         let (l2, s2) = then_last l1 (reconcileParents now (aid acc) (ab_documents b) s1);
             (l3, s3) = then_last l2 (relinkPairs now (aid acc) (ab_relink b) s2);
             (l4, s4) = fold (deletionStep now (aid acc)) (ab_deletions b) (l3, s3);
             (l5, s5) = announceAccount now b acc (l4, s4)
         in Inr (l5, updAccount (aid acc) (committedAccount now b) s5)))"

section \<open>The transaction and its publishing wrapper\<close>

definition maxSeq :: "store \<Rightarrow> nat" where
  "maxSeq s = foldr max (map cseq (changes s)) 0"

fun commitTx :: "deps \<Rightarrow> time \<Rightarrow> commit_batch \<Rightarrow> store \<Rightarrow> tx_error + (nat \<times> store)" where
  "commitTx D now (ConsumerBatch b) s = commitConsumer D now b (maxSeq s) s"
| "commitTx D now (RemoveAccount i) s = Inr (commitRemove now i (maxSeq s) s)"
| "commitTx D now (PurgeArchived before) s = Inr (commitPurge now before (maxSeq s) s)"
| "commitTx D now (AccountBatch b) s = commitAccount D now b (maxSeq s) s"

text \<open>
  \<open>publishing\<close>: the appends of a transaction that returned are marked as published; a throw
  (Inl) marks nothing, and the database is the one before the transaction.
\<close>

definition publishing :: "(store \<Rightarrow> tx_error + ('r \<times> store)) \<Rightarrow> store \<Rightarrow> tx_error + ('r \<times> store)" where
  "publishing f s = ebind (f (s\<lparr>accountAppends := []\<rparr>)) (\<lambda>(r, t).
     Inr (r, t\<lparr>accountPublishedAt := fold (\<lambda>(i, at) m. m(i \<mapsto> at)) (accountAppends t)
                  (accountPublishedAt t),
               accountAppends := []\<rparr>))"

definition commit :: "deps \<Rightarrow> time \<Rightarrow> commit_batch \<Rightarrow> store \<Rightarrow> tx_error + ((nat \<times> bool) \<times> store)" where
  "commit D now b = publishing (\<lambda>s. ebind (commitTx D now b (s\<lparr>appended := 0\<rparr>)) (\<lambda>(q, t).
     Inr ((q, appended t > 0), t)))"

end
