(* ===== verification/CommitInv.thy ===== *)
theory CommitInv
  imports Commit
begin

text \<open>
  Every form of \<open>commit\<close> keeps the invariant of the database, only appends to the change log,
  and returns the newest seq. The helpers are lifted through induction rules that say which
  statement pairs (\<open>touch\<close>) they are made of.
\<close>

section \<open>The log is append-only, with consecutive seqs\<close>

definition extends :: "store \<Rightarrow> store \<Rightarrow> bool" where
  "extends s t \<longleftrightarrow> (\<exists>cs. changes t = changes s @ cs \<and>
     map cseq cs = [Suc (change_counter s) ..< Suc (change_counter s + length cs)] \<and>
     change_counter t = change_counter s + length cs \<and>
     appended t = appended s + length cs)"

lemma extends_refl [simp, intro]: "extends s s"
  by (auto simp: extends_def)

lemma extends_trans [trans]:
  assumes "extends s t" "extends t u"
  shows "extends s u"
proof -
  obtain cs where cs: "changes t = changes s @ cs"
      "map cseq cs = [Suc (change_counter s) ..< Suc (change_counter s + length cs)]"
      "change_counter t = change_counter s + length cs" "appended t = appended s + length cs"
    using assms(1) by (auto simp: extends_def)
  obtain ds where ds: "changes u = changes t @ ds"
      "map cseq ds = [Suc (change_counter t) ..< Suc (change_counter t + length ds)]"
      "change_counter u = change_counter t + length ds" "appended u = appended t + length ds"
    using assms(2) by (auto simp: extends_def)
  have "map cseq (cs @ ds) =
      [Suc (change_counter s) ..< Suc (change_counter s + length (cs @ ds))]"
    using cs ds upt_add_eq_append [of "Suc (change_counter s)"
      "Suc (change_counter s + length cs)" "length ds"]
    by (simp add: add.assoc del: upt_Suc)
  then show ?thesis
    unfolding extends_def using cs ds by (intro exI [of _ "cs @ ds"]) simp
qed

lemma extends_appendChange: "extends s (snd (appendChange now k r s))"
  by (auto simp: extends_def appendChange_def Let_def)

lemma extends_cong:
  "changes t = changes t' \<Longrightarrow> change_counter t = change_counter t' \<Longrightarrow> appended t = appended t' \<Longrightarrow>
    extends s t = extends s t'"
  by (simp add: extends_def)

lemma extends_same:
  "changes t = changes s \<Longrightarrow> change_counter t = change_counter s \<Longrightarrow> appended t = appended s \<Longrightarrow>
    extends s t"
  by (simp add: extends_def)

lemma extends_prefix: "extends s t \<Longrightarrow> prefix (changes s) (changes t)"
  by (auto simp: extends_def)

lemma extends_touch: "extends s (touch now i f s)"
  by (rule extends_cong [THEN iffD1, OF _ _ _ extends_appendChange [of s now DocumentChange i]])
    (simp_all add: touch_def appendChange_def updDoc_def Let_def)

lemma extends_reindexed: "extends s t \<Longrightarrow> extends s (reindexed D d a b c t)"
  by (erule extends_cong [THEN iffD1, rotated 3]) (simp_all add: reindexed_def)

lemma extends_inserted: "extends s (inserted D now d s)"
  by (rule extends_cong [THEN iffD1, OF _ _ _ extends_appendChange [of s now DocumentChange "did d"]])
    (simp_all add: inserted_def reindexed_def appendChange_def Let_def)

section \<open>The newest seq\<close>

lemma maxSeq_append: "changes t = changes s @ [c] \<Longrightarrow> maxSeq t = max (maxSeq s) (cseq c)"
proof -
  have "foldr max xs (max a b) = max b (foldr max xs a)" for xs :: "nat list" and a b
    by (induction xs) auto
  from this [of "map cseq (changes s)" 0 "cseq c"]
  show "changes t = changes s @ [c] \<Longrightarrow> maxSeq t = max (maxSeq s) (cseq c)"
    by (simp add: maxSeq_def)
qed

lemma maxSeq_le_counter: "feed_ok s \<Longrightarrow> maxSeq s \<le> change_counter s"
proof -
  have "\<forall>x \<in> set xs. x \<le> n \<Longrightarrow> foldr max xs 0 \<le> n" for xs and n :: nat
    by (induction xs) auto
  then show "feed_ok s \<Longrightarrow> maxSeq s \<le> change_counter s"
    by (simp add: maxSeq_def feed_ok_def)
qed

lemma maxSeq_cong: "changes t = changes s \<Longrightarrow> maxSeq t = maxSeq s"
  by (simp add: maxSeq_def)

lemma maxSeq_touch [simp]: "feed_ok s \<Longrightarrow> maxSeq (touch now i f s) = Suc (change_counter s)"
  using maxSeq_le_counter [of s] by (simp add: maxSeq_append [OF touch_fields(5)])

lemma maxSeq_inserted [simp]: "feed_ok s \<Longrightarrow> maxSeq (inserted D now d s) = Suc (change_counter s)"
  using maxSeq_le_counter [of s] by (simp add: maxSeq_append [OF inserted_fields(4)])

lemma maxSeq_reindexed [simp]: "maxSeq (reindexed D d t m l s) = maxSeq s"
  by (simp add: maxSeq_def)

lemma maxSeq_appendChange [simp]:
  "feed_ok s \<Longrightarrow> maxSeq (snd (appendChange now k r s)) = Suc (change_counter s)"
proof -
  have "changes (snd (appendChange now k r s)) =
      changes s @ [\<lparr>cseq = Suc (change_counter s), kind = k, ref_id = r, cat = now\<rparr>]"
    by (simp add: appendChange_def Let_def)
  from maxSeq_append [OF this] show "feed_ok s \<Longrightarrow> ?thesis"
    using maxSeq_le_counter [of s] by simp
qed

text \<open>What every step of a commit keeps, from the database \<open>s0\<close> it started on.\<close>

definition going :: "deps \<Rightarrow> store \<Rightarrow> nat \<times> store \<Rightarrow> bool" where
  "going D s0 ls \<longleftrightarrow> store_inv D (snd ls) \<and> extends s0 (snd ls) \<and> fst ls = maxSeq (snd ls)"

lemma going_feed: "going D s0 (l, s) \<Longrightarrow> feed_ok s"
  by (simp add: going_def store_inv_def)

section \<open>Induction over the statement pairs of the helpers\<close>

definition relinkRow :: "time \<Rightarrow> string option \<Rightarrow> nat \<Rightarrow> doc_row \<Rightarrow> doc_row" where
  "relinkRow now p n d = d\<lparr>parent_id := p, seq := n, updated_at := now\<rparr>"

definition archivedRow :: "time \<Rightarrow> nat \<Rightarrow> doc_row \<Rightarrow> doc_row" where
  "archivedRow now n d = d\<lparr>archived_at := Some now, seq := n, updated_at := now\<rparr>"

lemma row_updates [simp]:
  "stamps (relinkRow now p)" "keeps_text (relinkRow now p)"
  "stamps (archivedRow now)" "keeps_text (archivedRow now)"
  by (simp_all add: stamps_def keeps_text_def relinkRow_def archivedRow_def nat_key_def)

lemma relinkOne_cases:
  obtains "relinkOne now acct (c, p) (l, s) = (l, s)"
    "\<And>d. findDocRow acct c s = Some d \<Longrightarrow> parent_id d = map_option did (findDocRow acct p s)"
  | d where "findDocRow acct c s = Some d" "parent_id d \<noteq> map_option did (findDocRow acct p s)"
      "relinkOne now acct (c, p) (l, s) = (Some (Suc (change_counter s)),
         touch now (did d) (relinkRow now (map_option did (findDocRow acct p s))) s)"
proof (cases "findDocRow acct c s")
  case None
  then show thesis by (intro that(1)) (simp_all add: relinkOne_def)
next
  case (Some d)
  show thesis
  proof (cases "parent_id d = map_option did (findDocRow acct p s)")
    case True
    with Some show thesis by (intro that(1)) (simp_all add: relinkOne_def Let_def)
  next
    case False
    with Some show thesis
      by (intro that(2) [of d])
        (simp_all add: relinkOne_def Let_def touch_def appendChange_def relinkRow_def [abs_def])
  qed
qed

lemma archiveRow_touch: "archiveRow now i s = (Suc (change_counter s), touch now i (archivedRow now) s)"
  by (simp add: archiveRow_def touch_def appendChange_def archivedRow_def [abs_def] Let_def)

lemma archiveKid_touch:
  "archiveKid now i ls = (Some (Suc (change_counter (snd ls))), touch now i (archivedRow now) (snd ls))"
  by (simp add: archiveKid_def archiveRow_touch)

lemma going_then_last_touch:
  "going D s0 (l, s) \<Longrightarrow> stamps f \<Longrightarrow> keeps_text f \<Longrightarrow>
    going D s0 (Suc (change_counter s), touch now i f s)"
  using extends_trans [OF _ extends_touch] going_feed [of D s0 l s]
  by (simp add: going_def store_inv_touch)

lemma going_relinkPairs:
  assumes "going D s0 (l, s)"
  shows "going D s0 (then_last l (relinkPairs now acct pairs s))"
proof -
  have "going D s0 (then_last l qs) \<Longrightarrow> going D s0 (then_last l (fold (relinkOne now acct) pairs qs))"
    for qs
  proof (induction pairs arbitrary: qs)
    case (Cons cp pairs)
    obtain c p where cp: "cp = (c, p)" by (cases cp)
    obtain q s' where qs: "qs = (q, s')" by (cases qs)
    have "going D s0 (then_last l (relinkOne now acct cp qs))"
      unfolding cp qs
      by (rule relinkOne_cases [of now acct c p q s'])
        (use Cons.prems in \<open>auto simp: qs then_last_def intro: going_then_last_touch\<close>)
    then show ?case by (simp add: Cons.IH)
  qed simp
  from this [of "(None, s)"] assms show ?thesis
    by (simp add: relinkPairs_def then_last_def)
qed

lemma going_archiveChildren:
  assumes "going D s0 (l, s)"
  shows "going D s0 (then_last l (archiveChildren now p s))"
proof -
  have "going D s0 (then_last l qs) \<Longrightarrow> going D s0 (then_last l (fold (archiveKid now) ks qs))" for ks qs
  proof (induction ks arbitrary: qs)
    case (Cons k ks)
    have "going D s0 (then_last l (archiveKid now k qs))"
      using going_then_last_touch [of D s0 _ "snd qs"] Cons.prems
      by (simp add: archiveKid_touch then_last_def)
    then show ?case by (simp add: Cons.IH)
  qed simp
  from this [of "(None, s)"] assms show ?thesis
    by (simp add: archiveChildren_def then_last_def)
qed

lemma archiveByRef_eq:
  "archiveByRef now acct r s = (case findDocRow acct r s of
     None \<Rightarrow> (None, s)
   | Some d \<Rightarrow> if archived_at d \<noteq> None then (None, s)
       else let t = touch now (did d) (archivedRow now) s
            in (coalesce (fst (archiveChildren now (did d) t)) (Some (change_counter t)),
                snd (archiveChildren now (did d) t)))"
  by (auto simp: archiveByRef_def archiveRow_touch Let_def split: option.splits prod.splits)

lemma going_deletionStep: "going D s0 ls \<Longrightarrow> going D s0 (deletionStep now acct r ls)"
proof -
  assume going: "going D s0 ls"
  obtain l s where ls: "ls = (l, s)" by (cases ls)
  show "going D s0 (deletionStep now acct r ls)"
  proof (cases "\<exists>d. findDocRow acct r s = Some d \<and> archived_at d = None")
    case False
    then have "archiveByRef now acct r s = (None, s)"
      by (auto simp: archiveByRef_eq split: option.splits)
    with going show ?thesis by (simp add: deletionStep_def ls then_last_def)
  next
    case True
    then obtain d where d: "findDocRow acct r s = Some d" "archived_at d = None" by blast
    let ?t = "touch now (did d) (archivedRow now) s"
    have "going D s0 (change_counter ?t, ?t)"
      using going_then_last_touch [of D s0 l s] going by (simp add: ls)
    from going_archiveChildren [OF this, of now "did d"] d show ?thesis
      by (simp add: deletionStep_def ls archiveByRef_eq Let_def then_last_def coalesce_def
          split: option.splits)
  qed
qed

lemma going_upsertStep:
  assumes "going D s0 (l, s)" "upsertDocument D now acct doc s = Inr (q, t)"
  shows "going D s0 (case q of None \<Rightarrow> l | Some n \<Rightarrow> n, t)"
proof -
  have inv: "store_inv D s" "extends s0 s" "l = maxSeq s" "feed_ok s"
    using assms(1) by (auto simp: going_def store_inv_def)
  have inv_t: "store_inv D t" by (rule upsertDocument_inv [OF assms(2) inv(1)])
  from assms(2) inv(1) show ?thesis
  proof (cases rule: upsertDocument_cases)
    case (update ex)
    then show ?thesis
      using inv inv_t extends_trans [OF inv(2) extends_reindexed [OF extends_touch]]
      by (simp add: going_def)
  next
    case (insert d)
    then show ?thesis
      using inv inv_t extends_trans [OF inv(2) extends_inserted] by (simp add: going_def)
  qed (use assms inv in auto)
qed

section \<open>The loops and branches of commitTx\<close>

lemma upsertStep_Inr:
  "upsertStep D now acct d (l, s) = Inr m \<longleftrightarrow>
     (\<exists>q t. upsertDocument D now acct d s = Inr (q, t) \<and>
        m = (case q of None \<Rightarrow> l | Some n \<Rightarrow> n, t))"
  by (cases "upsertDocument D now acct d s") (auto simp: upsertStep_def cong: option.case_cong)

lemma going_efold_upsertStep:
  assumes "efold (upsertStep D now acct) docs ls = Inr lt" "going D s0 ls"
  shows "going D s0 lt"
proof (rule efold_invariant [where P = "going D s0", OF assms])
  fix x and s t :: "nat \<times> store"
  assume "going D s0 s" "upsertStep D now acct x s = Inr t"
  then show "going D s0 t"
    by (cases s) (auto simp: upsertStep_Inr intro: going_upsertStep)
qed

lemma going_warned:
  "going D s0 (l, s) \<Longrightarrow> going D s0 (l, s\<lparr>warned := w\<rparr>)"
  by (auto simp: going_def store_inv_def keys_ok_def index_ok_def feed_ok_def refs_ok_def
      extends_def maxSeq_def)

lemma going_efold_accountStep:
  assumes "efold (accountStep D now acc) docs ls = Inr lt" "going D s0 ls"
  shows "going D s0 lt"
proof (rule efold_invariant [where P = "going D s0", OF assms])
  fix x and ls ms :: "nat \<times> store"
  assume ls: "going D s0 ls" and step: "accountStep D now acc x ls = Inr ms"
  obtain l s where [simp]: "ls = (l, s)" by (cases ls)
  from step obtain q t where up: "upsertDocument D now (aid acc) x s = Inr (q, t)"
    by (auto simp: accountStep_def)
  from going_upsertStep [OF _ up, of s0 l] ls step up show "going D s0 ms"
    by (auto simp: accountStep_def intro: going_warned split: option.splits if_splits)
qed

lemma going_fold_deletion: "going D s0 ls \<Longrightarrow> going D s0 (fold (deletionStep now acct) refs ls)"
  by (rule fold_invariant_set) (auto intro: going_deletionStep)

lemma store_inv_appendChange:
  assumes "store_inv D s" "k \<noteq> DocumentChange"
  shows "store_inv D (snd (appendChange now k r s))"
  using assms
  by (auto simp: store_inv_def keys_ok_def index_ok_def refs_ok_def feed_ok_def appendChange_def
      Let_def sorted_wrt_append is_doc_change_def less_Suc_eq_le intro: le_SucI)

lemma going_appendChange:
  assumes "going D s0 (l, s)" "k \<noteq> DocumentChange"
  shows "going D s0 (appendChange now k r s)"
proof -
  have "appendChange now k r s = (Suc (change_counter s), snd (appendChange now k r s))"
    by (simp add: appendChange_def Let_def)
  moreover have "going D s0 (Suc (change_counter s), snd (appendChange now k r s))"
    using assms extends_trans [OF _ extends_appendChange] going_feed [OF assms(1)]
    by (simp add: going_def store_inv_appendChange)
  ultimately show ?thesis by simp
qed

text \<open>A step that writes neither documents, changes nor index rows.\<close>

definition same_corpus :: "store \<Rightarrow> store \<Rightarrow> bool" where
  "same_corpus s t \<longleftrightarrow> documents t = documents s \<and> changes t = changes s \<and>
     change_counter t = change_counter s \<and> documents_fts t = documents_fts s \<and>
     documents_tri t = documents_tri s \<and> appended t = appended s \<and>
     map aid (accounts t) = map aid (accounts s)"

lemma same_corpus_refl [simp]: "same_corpus s s"
  by (simp add: same_corpus_def)

lemma same_corpus_trans: "same_corpus s t \<Longrightarrow> same_corpus t u \<Longrightarrow> same_corpus s u"
  by (simp add: same_corpus_def)

lemma same_corpus_inv:
  assumes "same_corpus s t"
  shows "store_inv D t = store_inv D s"
proof -
  have "aid ` set (accounts t) = aid ` set (accounts s)"
    using assms by (simp add: same_corpus_def flip: set_map)
  then show ?thesis
    using assms by (simp add: same_corpus_def store_inv_def keys_ok_def index_ok_def feed_ok_def
        refs_ok_def)
qed

lemma going_same_corpus: "same_corpus s t \<Longrightarrow> going D s0 (l, s) \<Longrightarrow> going D s0 (l, t)"
  using same_corpus_inv [of s t D]
  by (simp add: going_def same_corpus_def extends_def maxSeq_def)

lemma same_corpus_cursors [simp]:
  "same_corpus s (setCursor n c s)" "same_corpus s (moveCursor n c s)"
  by (simp_all add: same_corpus_def setCursor_def moveCursor_def split: option.splits)

lemma same_corpus_updAccount:
  assumes "\<And>a. aid (f a) = aid a"
  shows "same_corpus s (updAccount i f s)"
  using assms by (simp add: same_corpus_def updAccount_def map_upd_where)

lemma same_corpus_fold:
  assumes "\<And>x s. same_corpus s (f x s)"
  shows "same_corpus s (fold f xs s)"
  by (induction xs arbitrary: s) (auto intro: same_corpus_trans assms)

lemma same_corpus_ledger: "same_corpus s (recordEntry now c e s)" "same_corpus s (clearAttempts c i s)"
  by (simp_all add: same_corpus_def recordEntry_def ledgerUpsert_def clearAttempts_def)

section \<open>Workers' batches\<close>

lemma insertAccount_Inr:
  "insertAccount a s = Inr t \<longleftrightarrow>
     (\<forall>x \<in> set (accounts s). aid x \<noteq> aid a \<and> (source x \<noteq> source a \<or> ident x \<noteq> ident a)) \<and>
     t = s\<lparr>accounts := accounts s @ [a]\<rparr>"
  unfolding insertAccount_def by auto

lemma store_inv_insertAccount:
  "insertAccount a s = Inr t \<Longrightarrow> store_inv D s \<Longrightarrow> store_inv D t"
  by (auto simp: insertAccount_Inr store_inv_def keys_ok_def index_ok_def feed_ok_def refs_ok_def)

lemma getOrCreateAccountTx_cases [consumes 1, case_names found created]:
  assumes "getOrCreateAccountTx D now src idt s = Inr (i, t)"
  obtains (found) a where "findAccount src idt s = Some a" "i = aid a" "t = s"
  | (created) s1 where "findAccount src idt s = None" "i = accountHashedId D src idt"
      "insertAccount (blankAccount D now src idt) s = Inr s1"
      "t = snd (appendChange now AccountChange i s1)"
  using assms by (auto simp: getOrCreateAccountTx_def split: option.splits)

lemma insertAccount_same:
  assumes "insertAccount a s = Inr t"
  shows "documents t = documents s" "changes t = changes s" "change_counter t = change_counter s"
    "appended t = appended s"
  using assms by (simp_all add: insertAccount_Inr)

lemma no_docs_of_new_account:
  assumes "insertAccount a s = Inr t" "refs_ok s"
  shows "findDocRow (aid a) r t = None"
  using assms by (auto simp: insertAccount_Inr findDocRow_None has_key_def refs_ok_def)

text \<open>A fresh worker account is announced first, then its documents all insert: the seq catches up.\<close>

lemma going_consumerDocuments:
  assumes run: "consumerDocuments D now b (l, s) = Inr lt" and going: "going D s0 (l, s)"
  shows "going D s0 lt"
proof (cases "cb_documents b")
  case Nil
  with run going show ?thesis by (simp add: consumerDocuments_def)
next
  case (Cons d ds)
  from run obtain acct s1 l2 s2 where
    acct: "getOrCreateAccountTx D now ''worker'' (cb_consumer b) s = Inr (acct, s1)" and
    loop: "efold (upsertStep D now acct) (cb_documents b) (l, s1) = Inr (l2, s2)" and
    lt: "lt = then_last l2 (reconcileParents now acct (cb_documents b) s2)"
    by (auto simp: consumerDocuments_def Cons)
  have "going D s0 (l2, s2)"
    using acct
  proof (cases rule: getOrCreateAccountTx_cases)
    case (found a)
    with loop going show ?thesis by (auto intro: going_efold_upsertStep)
  next
    case (created s')
    have inv: "store_inv D s'" "refs_ok s"
      using going store_inv_insertAccount [OF created(3)] by (auto simp: going_def store_inv_def)
    have going1: "going D s0 (maxSeq s1, s1)"
    proof -
      have "extends s0 s'"
        using going insertAccount_same [OF created(3)]
        by (auto simp: going_def elim: extends_cong [THEN iffD1, rotated 3])
      then have "going D s0 (maxSeq s', s')" using inv by (simp add: going_def)
      from going_appendChange [OF this, of AccountChange now acct] show ?thesis
        using maxSeq_appendChange [OF store_invD(3) [OF inv(1)], of now AccountChange acct]
        by (simp add: created(4) appendChange_def Let_def going_def)
    qed
    from loop obtain m where m: "upsertStep D now acct d (l, s1) = Inr m"
        "efold (upsertStep D now acct) ds m = Inr (l2, s2)"
      by (auto simp: Cons)
    then obtain q t where up: "upsertDocument D now acct d s1 = Inr (q, t)"
        "m = (case q of None \<Rightarrow> l | Some n \<Rightarrow> n, t)"
      by (auto simp: upsertStep_Inr)
    have "findDocRow acct (in_ref d) s1 = None"
      using no_docs_of_new_account [OF created(3) inv(2), of "in_ref d"] created(2,4)
      by (simp add: blankAccount_def findDocRow_def appendChange_def Let_def)
    then have "q \<noteq> None"
      using up(1) by (auto simp: upsertDocument_def appendChange_def Let_def)
    then have "going D s0 m"
      using going_upsertStep [OF going1 up(1)] up(2) by auto
    with m(2) show ?thesis by (auto intro: going_efold_upsertStep)
  qed
  then show ?thesis
    unfolding lt reconcileParents_def by (rule going_relinkPairs)
qed

lemma docById_touch_target:
  assumes "keys_ok s" "docById i s = Some d"
  shows "d \<in> set (documents s)" "did d = i" "docById (did d) s = Some d"
  using docById_Some [OF assms(2)] assms(2) by auto

lemma going_enrichOne:
  assumes run: "enrichOne D now e ls = Inr ms" and going: "going D s0 ls"
  shows "going D s0 ms"
proof (cases "docById (en_documentId e) (snd ls)")
  case None
  with run going show ?thesis by (simp add: enrichOne_def)
next
  case (Some row)
  obtain l s where ls: "ls = (l, s)" by (cases ls)
  note row = docById_Some [OF Some]
  let ?md = "case en_metadata e of None \<Rightarrow> metadata row | Some m \<Rightarrow> obj_spread (metadata row) m"
  show ?thesis
  proof (cases "en_markdown e")
    case None
    let ?f = "\<lambda>n d. d\<lparr>metadata := ?md, seq := n, updated_at := now\<rparr> :: doc_row"
    have "ms = (Suc (change_counter s), touch now (did row) ?f s)"
      using run Some None by (simp add: enrichOne_def ls touch_def appendChange_def Let_def)
    then show ?thesis
      using going_then_last_touch [of D s0 l s ?f now "did row"] going
      by (simp add: ls stamps_def keeps_text_def nat_key_def)
  next
    case (Some m)
    let ?l = "detect D (docText (title row) (Some m))"
    let ?f = "\<lambda>n d. d\<lparr>markdown := Some m, metadata := ?md, seq := n, languages := ?l,
        updated_at := now\<rparr> :: doc_row"
    have st: "stamps ?f" by (simp add: stamps_def nat_key_def)
    have inv: "store_inv D s" "extends s0 s" "feed_ok s"
      using going by (auto simp: going_def ls store_inv_def)
    have "enrichOne D now e ls = ebind (ftsUpsert D (did row) (title row) (Some m) ?l
        (touch now (did row) ?f s)) (\<lambda>s3. Inr (Suc (change_counter s), s3))"
      using \<open>docById (en_documentId e) (snd ls) = Some row\<close> Some
      by (simp add: enrichOne_def ls touch_def appendChange_def Let_def)
    then have "ms = (Suc (change_counter s), reindexed D row (title row) (Some m) ?l
        (touch now (did row) ?f s))"
      using run ftsUpsert_touch [OF store_invD(1) [OF inv(1)] _ st, of row] row by (simp add: ls)
    moreover have "store_inv D (reindexed D row (title row) (Some m) ?l (touch now (did row) ?f s))"
      using row by (intro store_inv_touch_reindexed inv st) (auto simp: ls)
    ultimately show ?thesis
      using extends_trans [OF inv(2) extends_reindexed [OF extends_touch]] inv by (simp add: going_def)
  qed
qed

lemma going_commitConsumer:
  assumes run: "commitConsumer D now b l s = Inr lt" and going: "going D s0 (l, s)"
  shows "going D s0 lt"
proof -
  let ?c = "cb_consumer b"
  let ?s2 = "moveCursor (seedConsumerName ?c) (cb_seedCursor b) (setCursor ?c (cb_cursor b) s)"
  let ?s4 = "fold (clearAttempts ?c) (cb_clearAttempts b) (fold (recordEntry now ?c) (cb_ledger b) ?s2)"
  have s2: "same_corpus s ?s2"
    using same_corpus_cursors by (rule same_corpus_trans)
  have "same_corpus s ?s4"
    by (rule same_corpus_trans [OF same_corpus_trans [OF s2 same_corpus_fold] same_corpus_fold])
      (rule same_corpus_ledger)+
  then have going4: "going D s0 (l, ?s4)" using going by (rule going_same_corpus)
  have "commitConsumer D now b l s =
      ebind (consumerDocuments D now b (l, ?s4)) (efold (enrichOne D now) (cb_enrich b))"
    by (simp only: commitConsumer_def Let_def)
  with run obtain m where m: "consumerDocuments D now b (l, ?s4) = Inr m"
      "efold (enrichOne D now) (cb_enrich b) m = Inr lt"
    by (simp only: ebind_eq_Inr) (elim exE conjE, rule that)
  have "going D s0 m" by (rule going_consumerDocuments [OF m(1) going4])
  with m(2) show ?thesis
    by (rule efold_invariant) (auto intro: going_enrichOne)
qed

section \<open>An account's batch\<close>

lemma going_commitAccount:
  assumes run: "commitAccount D now b l s = Inr lt" and going: "going D s0 (l, s)"
  shows "going D s0 lt"
proof -
  from run obtain acc l1 s1 where acc: "getAccountRow (ab_account b) s = Some acc"
    and loop: "efold (accountStep D now acc) (ab_documents b) (l, s) = Inr (l1, s1)"
    by (auto simp: commitAccount_def split: option.splits)
  have going1: "going D s0 (l1, s1)" by (rule going_efold_accountStep [OF loop going])
  obtain l2 s2 where 2: "then_last l1 (reconcileParents now (aid acc) (ab_documents b) s1) = (l2, s2)"
    by fastforce
  obtain l3 s3 where 3: "then_last l2 (relinkPairs now (aid acc) (ab_relink b) s2) = (l3, s3)"
    by fastforce
  obtain l4 s4 where 4: "fold (deletionStep now (aid acc)) (ab_deletions b) (l3, s3) = (l4, s4)"
    by fastforce
  obtain l5 s5 where 5: "announceAccount now b acc (l4, s4) = (l5, s5)" by fastforce
  have "going D s0 (l2, s2)"
    using going_relinkPairs [OF going1] 2 by (metis reconcileParents_def)
  then have "going D s0 (l3, s3)"
    using going_relinkPairs 3 by metis
  then have "going D s0 (l4, s4)"
    using going_fold_deletion 4 by metis
  then have "going D s0 (l5, s5)"
    using going_appendChange [of D s0 l4 s4 AccountChange now "aid acc"] 5
    by (auto simp: announceAccount_def split: if_splits)
  then have "going D s0 (l5, updAccount (aid acc) (committedAccount now b) s5)"
    by (rule going_same_corpus [rotated]) (simp add: same_corpus_updAccount committedAccount_def)
  moreover have "lt = (l5, updAccount (aid acc) (committedAccount now b) s5)"
    using run acc loop 2 3 4 5 by (simp add: commitAccount_def Let_def)
  ultimately show ?thesis by simp
qed

section \<open>Removing an account and purging\<close>

lemma find_filter_rowid:
  assumes "keys_ok s"
  shows "find (\<lambda>d. rowid d = r) (filter (\<lambda>d. \<not> P d) (documents s)) =
    (if r \<in> rowid ` set (filter P (documents s)) then None
     else find (\<lambda>d. rowid d = r) (documents s))"
proof (cases "find (\<lambda>d. rowid d = r) (documents s)")
  case None
  then have "find (\<lambda>d. rowid d = r) (filter (\<lambda>d. \<not> P d) (documents s)) = None"
    by (simp add: find_None_iff_all)
  with None show ?thesis by simp
next
  case (Some d)
  note d = find_Some_set [OF Some]
  have uniq: "x = d" if "x \<in> set (documents s)" "rowid x = r" for x
    using distinct_map_inj [of rowid "documents s" x d] assms that d by (simp add: keys_ok_def)
  show ?thesis
  proof (cases "P d")
    case True
    then show ?thesis using d uniq Some by (force simp: find_None_iff_all)
  next
    case False
    then have "find (\<lambda>d. rowid d = r) (filter (\<lambda>d. \<not> P d) (documents s)) = Some d"
      using d uniq by (intro find_unique) auto
    moreover have "r \<notin> rowid ` set (filter P (documents s))"
      using uniq False by auto
    ultimately show ?thesis using Some by simp
  qed
qed

lemma index_ok_drop:
  assumes "keys_ok s" "index_ok D s"
    and "documents t = filter (\<lambda>d. \<not> P d) (documents s)"
    and "documents_fts t = documents_fts (dropIndex P s)"
    and "documents_tri t = documents_tri (dropIndex P s)"
  shows "index_ok D t"
  using assms
  by (auto simp: index_ok_def fts_view_def tri_view_def dropIndex_def Let_def fun_eq_iff
      find_filter_rowid)

lemma feed_ok_drop:
  assumes "feed_ok s" "documents t = filter P (documents s)" "changes t = changes s"
    "change_counter t = change_counter s"
  shows "feed_ok t"
  using assms by (auto simp: feed_ok_def)

lemma keys_ok_drop:
  "keys_ok s \<Longrightarrow> documents t = filter P (documents s) \<Longrightarrow> keys_ok t"
  by (simp add: keys_ok_def distinct_map_filter_key)

lemma purge_fold:
  assumes "fold (purgeOne now) is (l, s) = (l', t)" "keys_ok s" "feed_ok s" "refs_ok s" "l = maxSeq s"
  shows "documents t = filter (\<lambda>d. did d \<notin> set is) (documents s) \<and>
    documents_fts t = documents_fts s \<and> documents_tri t = documents_tri s \<and>
    keys_ok t \<and> feed_ok t \<and> refs_ok t \<and> extends s t \<and> l' = maxSeq t"
  using assms
proof (induction "is" arbitrary: l s)
  case Nil
  then show ?case by auto
next
  case (Cons i "is")
  let ?d = "deleteDocs (\<lambda>d. did d = i) s"
  let ?u = "snd (appendChange now PurgeChange i ?d)"
  have step: "purgeOne now i (l, s) = (Suc (change_counter s), ?u)"
    by (simp add: purgeOne_def appendChange_def deleteDocs_def Let_def)
  have feed_d: "feed_ok ?d"
    by (rule feed_ok_drop [OF Cons.prems(3)]) (simp_all add: deleteDocs_def)
  have ch: "changes ?u = changes ?d @ [\<lparr>cseq = Suc (change_counter s), kind = PurgeChange,
      ref_id = i, cat = now\<rparr>]"
    by (simp add: appendChange_def deleteDocs_def Let_def)
  have ext: "extends s ?u"
    by (rule extends_cong [THEN iffD1, OF _ _ _ extends_appendChange [of s now PurgeChange i]])
      (simp_all add: appendChange_def deleteDocs_def Let_def)
  have "feed_ok ?u"
    using feed_d
    by (auto simp: feed_ok_def appendChange_def deleteDocs_def Let_def sorted_wrt_append
        is_doc_change_def less_Suc_eq_le intro: le_SucI)
  moreover have "keys_ok ?u"
    by (rule keys_ok_drop [OF Cons.prems(2), where P = "\<lambda>d. did d \<noteq> i"])
      (simp add: appendChange_def deleteDocs_def Let_def)
  moreover have "refs_ok ?u"
    using Cons.prems(4) by (auto simp: refs_ok_def appendChange_def deleteDocs_def Let_def)
  moreover have "Suc (change_counter s) = maxSeq ?u"
    using maxSeq_appendChange [OF feed_d, of now PurgeChange i] by (simp add: deleteDocs_def)
  ultimately have "documents t = filter (\<lambda>d. did d \<notin> set is) (documents ?u) \<and>
      documents_fts t = documents_fts ?u \<and> documents_tri t = documents_tri ?u \<and>
      keys_ok t \<and> feed_ok t \<and> refs_ok t \<and> extends ?u t \<and> l' = maxSeq t"
    using Cons.prems(1) step by (intro Cons.IH) simp_all
  moreover have "documents ?u = filter (\<lambda>d. did d \<noteq> i) (documents s)"
      "documents_fts ?u = documents_fts s" "documents_tri ?u = documents_tri s"
    by (simp_all add: appendChange_def deleteDocs_def Let_def)
  ultimately show ?case
    using extends_trans [OF ext] by (simp add: conj_commute)
qed

lemma dropIndex_fields [simp]:
  "documents (dropIndex P s) = documents s" "changes (dropIndex P s) = changes s"
  "change_counter (dropIndex P s) = change_counter s" "appended (dropIndex P s) = appended s"
  "accounts (dropIndex P s) = accounts s"
  by (simp_all add: dropIndex_def Let_def)

lemma going_commitPurge:
  assumes "going D s0 (l, s)"
  shows "going D s0 (commitPurge now before l s)"
proof -
  let ?is = "map did (filter (purgeable before) (documents s))"
  let ?s1 = "dropIndex (purgeable before) s"
  obtain l' t where t: "fold (purgeOne now) ?is (l, ?s1) = (l', t)" by fastforce
  have inv: "keys_ok s" "index_ok D s" "feed_ok s" "refs_ok s" "extends s0 s" "l = maxSeq s"
    using assms by (auto simp: going_def store_inv_def)
  have pre: "keys_ok ?s1" "feed_ok ?s1" "refs_ok ?s1" "l = maxSeq ?s1"
    using inv by (simp_all add: keys_ok_def feed_ok_def refs_ok_def maxSeq_def)
  note post = purge_fold [OF t pre]
  have "documents t = filter (\<lambda>d. \<not> purgeable before d) (documents s)"
  proof -
    have "did d \<notin> set ?is \<longleftrightarrow> \<not> purgeable before d" if "d \<in> set (documents s)" for d
      using that same_did [OF inv(1)] by (auto simp: image_iff)
    then have "filter (\<lambda>d. did d \<notin> set ?is) (documents s) =
        filter (\<lambda>d. \<not> purgeable before d) (documents s)"
      by (intro filter_cong) auto
    with post show ?thesis by simp
  qed
  then have "index_ok D t"
    using post by (intro index_ok_drop [OF inv(1,2)]) auto
  moreover have "extends s0 t"
    using inv(5) post by (meson extends_same extends_trans dropIndex_fields)
  ultimately show ?thesis
    using post t by (simp add: commitPurge_def Let_def going_def store_inv_def)
qed

lemma going_commitRemove:
  assumes "going D s0 (l, s)"
  shows "going D s0 (commitRemove now i l s)"
proof (cases "getAccountRow i s")
  case None
  with assms show ?thesis by (simp add: commitRemove_def)
next
  case (Some acc)
  let ?mine = "\<lambda>d. account_id d = aid acc"
  let ?s1 = "deleteDocs ?mine (dropIndex ?mine s)"
  let ?s2 = "?s1\<lparr>vault := filter (\<lambda>v. vaccount v \<noteq> aid acc) (vault ?s1),
      accounts := filter (\<lambda>a. aid a \<noteq> aid acc) (accounts ?s1),
      outbox_rows := filter (\<lambda>p. snd p \<noteq> aid acc) (outbox_rows ?s1),
      event_draft_rows := filter (\<lambda>p. snd p \<noteq> aid acc) (event_draft_rows ?s1)\<rparr>"
  have inv: "keys_ok s" "index_ok D s" "feed_ok s" "refs_ok s" "extends s0 s" "l = maxSeq s"
    using assms by (auto simp: going_def store_inv_def)
  have docs: "documents ?s2 = filter (\<lambda>d. \<not> ?mine d) (documents s)"
    by (simp add: deleteDocs_def)
  have "keys_ok ?s2" by (rule keys_ok_drop [OF inv(1) docs])
  moreover have "index_ok D ?s2"
    by (rule index_ok_drop [OF inv(1,2) docs]) (simp_all add: deleteDocs_def)
  moreover have "feed_ok ?s2"
    by (rule feed_ok_drop [OF inv(3) docs]) (simp_all add: deleteDocs_def)
  moreover have "refs_ok ?s2"
    using inv(4) by (auto simp: refs_ok_def deleteDocs_def intro: distinct_map_filter_key)
  ultimately have "going D s0 (l, ?s2)"
    using inv(5,6) by (simp add: going_def store_inv_def extends_def maxSeq_def deleteDocs_def)
  from going_appendChange [OF this, of AccountRemoved now "aid acc"] Some show ?thesis
    by (simp add: commitRemove_def Let_def)
qed

section \<open>commit\<close>

lemma going_commitTx:
  assumes "commitTx D now b s = Inr lt" "store_inv D s"
  shows "going D s lt"
proof -
  have start: "going D s (maxSeq s, s)" using assms(2) by (simp add: going_def)
  show ?thesis
  proof (cases b)
    case (AccountBatch x)
    with assms start show ?thesis by (auto intro: going_commitAccount)
  next
    case (ConsumerBatch x)
    with assms start show ?thesis by (auto intro: going_commitConsumer)
  next
    case (RemoveAccount x)
    with assms going_commitRemove [OF start] show ?thesis by auto
  next
    case (PurgeArchived x)
    with assms going_commitPurge [OF start] show ?thesis by auto
  qed
qed

lemma in_memory_inv [simp]:
  "store_inv D (s\<lparr>accountAppends := a\<rparr>) = store_inv D s"
  "store_inv D (s\<lparr>appended := n\<rparr>) = store_inv D s"
  "store_inv D (s\<lparr>accountPublishedAt := m\<rparr>) = store_inv D s"
  "store_inv D (s\<lparr>accountPublishedAt := m, accountAppends := a\<rparr>) = store_inv D s"
  by (simp_all add: store_inv_def keys_ok_def index_ok_def feed_ok_def refs_ok_def)

lemma commit_going:
  assumes "commit D now b s = Inr ((q, logged), t)" "store_inv D s"
  obtains t' where
    "going D (s\<lparr>accountAppends := [], appended := 0\<rparr>) (q, t')" "logged \<longleftrightarrow> appended t' > 0"
    "commitTx D now b (s\<lparr>accountAppends := [], appended := 0\<rparr>) = Inr (q, t')"
    "t = t'\<lparr>accountPublishedAt := fold (\<lambda>(i, at) m. m(i \<mapsto> at)) (accountAppends t')
           (accountPublishedAt t'), accountAppends := []\<rparr>"
proof -
  from assms(1) obtain t' where t': "commitTx D now b (s\<lparr>accountAppends := [], appended := 0\<rparr>) = Inr (q, t')"
    and rest: "logged \<longleftrightarrow> appended t' > 0"
      "t = t'\<lparr>accountPublishedAt := fold (\<lambda>(i, at) m. m(i \<mapsto> at)) (accountAppends t')
           (accountPublishedAt t'), accountAppends := []\<rparr>"
    by (auto simp: commit_def publishing_def)
  from t' have "going D (s\<lparr>accountAppends := [], appended := 0\<rparr>) (q, t')"
    by (rule going_commitTx) (simp add: assms(2))
  with t' rest show thesis by (intro that) auto
qed

end
