(* ===== verification/CommitEffect.thy ===== *)
theory CommitEffect
  imports CommitInv
begin

text \<open>
  What a commit does to the document a natural key names: the effect of an upsert, of the parent
  links and of the loops over a batch, seen through \<open>findDocRow\<close>.
\<close>

section \<open>The row a key names, after each statement pair\<close>

lemma has_key_inj: "has_key a r d \<Longrightarrow> has_key a' r' d \<Longrightarrow> a = a' \<and> r = r'"
  by (cases r; cases r') (simp add: has_key_def)

lemma has_key_stamps: "stamps f \<Longrightarrow> has_key a r (f n d) = has_key a r d"
  by (simp add: has_key_nat_key stampsD)

lemma findDocRow_touch:
  "stamps f \<Longrightarrow> findDocRow a r (touch now i f s) =
    map_option (\<lambda>d. if did d = i then f (Suc (change_counter s)) d else d) (findDocRow a r s)"
  by (simp add: findDocRow_def) (rule find_upd_where, simp add: has_key_stamps)

lemma findDocRow_docs: "documents t = documents s \<Longrightarrow> findDocRow a r t = findDocRow a r s"
  by (simp add: findDocRow_def)

lemma findDocRow_reindexed [simp]: "findDocRow a r (reindexed D d t m l s) = findDocRow a r s"
  by (simp add: findDocRow_def)

lemma findDocRow_inserted:
  "findDocRow a r (inserted D now d s) =
    (case findDocRow a r s of Some x \<Rightarrow> Some x
     | None \<Rightarrow> if has_key a r d then Some (d\<lparr>rowid := new_rowid s\<rparr>) else None)"
  by (simp add: findDocRow_def find_append has_key_def split: option.splits)

text \<open>Only the row named by the batch's key moves, and it ends live with the batch's content.\<close>

lemma upsertDocument_lands:
  assumes "upsertDocument D now acct inp s = Inr (q, t)" "store_inv D s"
  shows "\<exists>d. findDocRow acct (in_ref inp) t = Some d \<and> unchanged D inp d"
  using assms
proof (cases rule: upsertDocument_cases)
  case (insert d)
  have "has_key acct (in_ref inp) d" using insert by (simp add: has_key_def)
  then show ?thesis using insert by (simp add: findDocRow_inserted unchanged_def)
qed (auto simp: findDocRow_touch unchanged_def updatedRow_def)

lemma upsertDocument_other:
  assumes "upsertDocument D now acct inp s = Inr (q, t)" "store_inv D s"
    and other: "(a, r) \<noteq> (acct, in_ref inp)"
  shows "findDocRow a r t = findDocRow a r s"
  using assms(1,2)
proof (cases rule: upsertDocument_cases)
  case (update ex)
  have "did d \<noteq> did ex" if "findDocRow a r s = Some d" for d
    using findDocRow_Some [OF that] findDocRow_Some [OF update(1)] other
      has_key_inj [of a r d acct "in_ref inp"]
      same_did [OF store_invD(1) [OF assms(2)], of d ex] by auto
  then show ?thesis
    using update by (cases "findDocRow a r s") (auto simp: findDocRow_touch)
next
  case (insert d)
  have "has_key acct (in_ref inp) d" using insert by (simp add: has_key_def)
  then have "\<not> has_key a r d"
    using other has_key_inj [of a r d acct "in_ref inp"] by auto
  then show ?thesis
    using insert by (simp add: findDocRow_inserted split: option.splits)
qed auto

lemma upsertDocument_accounts:
  assumes "upsertDocument D now acct inp s = Inr (q, t)" "store_inv D s"
  shows "accounts t = accounts s" "accountPublishedAt t = accountPublishedAt s"
    "accountAppends t = accountAppends s"
  using assms
  by (cases rule: upsertDocument_cases;
      simp add: inserted_def reindexed_def appendChange_def touch_def updDoc_def Let_def)+

text \<open>A batch whose keys are distinct lands whole.\<close>

lemma warned_same: "s\<lparr>warned := warned s\<rparr> = s"
  by simp

lemma accountStep_Inr:
  assumes "accountStep D now acc inp (l, s) = Inr (l', t)"
  shows "\<exists>q t' w. upsertDocument D now (aid acc) inp s = Inr (q, t') \<and>
    t = t'\<lparr>warned := w\<rparr> \<and> l' = (case q of None \<Rightarrow> l | Some n \<Rightarrow> n)"
proof -
  obtain q t' where qt: "upsertDocument D now (aid acc) inp s = Inr (q, t')"
    using assms by (auto simp: accountStep_def)
  define w where "w = (if q \<noteq> None \<and> isFolderScopedAccount acc \<and> in_scopeRootId inp = None
    then warned t' @ [(aid acc, source acc, externalId (in_ref inp))] else warned t')"
  have "t = t'\<lparr>warned := w\<rparr> \<and> l' = (case q of None \<Rightarrow> l | Some n \<Rightarrow> n)"
    using assms
    by (cases "isFolderScopedAccount acc \<and> in_scopeRootId inp = None"; cases q)
      (simp_all add: accountStep_def qt w_def)
  then show ?thesis using qt by blast
qed

lemma warned_fields [simp]:
  "store_inv D (s\<lparr>warned := w\<rparr>) = store_inv D s"
  "findDocRow a r (s\<lparr>warned := w\<rparr>) = findDocRow a r s"
  by (simp_all add: store_inv_def keys_ok_def index_ok_def feed_ok_def refs_ok_def findDocRow_def)

definition settled :: "store \<Rightarrow> store \<Rightarrow> bool" where
  "settled s t \<longleftrightarrow> accounts t = accounts s \<and> accountPublishedAt t = accountPublishedAt s \<and>
     accountAppends t = accountAppends s"

lemma settled_refl [simp]: "settled s s" by (simp add: settled_def)

lemma settled_trans: "settled s t \<Longrightarrow> settled t u \<Longrightarrow> settled s u" by (simp add: settled_def)

lemma accountStep_effect:
  assumes "accountStep D now acc inp (l, s) = Inr (l', t)" "store_inv D s"
  shows "store_inv D t" "settled s t"
    "\<exists>d. findDocRow (aid acc) (in_ref inp) t = Some d \<and> unchanged D inp d"
    "(a, r) \<noteq> (aid acc, in_ref inp) \<Longrightarrow> findDocRow a r t = findDocRow a r s"
proof -
  from assms(1) obtain q t' w where
    t': "upsertDocument D now (aid acc) inp s = Inr (q, t')" "t = t'\<lparr>warned := w\<rparr>"
    using accountStep_Inr by blast
  note up = upsertDocument_lands [OF t'(1) assms(2)] upsertDocument_inv [OF t'(1) assms(2)]
    upsertDocument_accounts [OF t'(1) assms(2)]
  show "store_inv D t" "settled s t"
    "\<exists>d. findDocRow (aid acc) (in_ref inp) t = Some d \<and> unchanged D inp d"
    using t'(2) up by (auto simp: settled_def)
  show "(a, r) \<noteq> (aid acc, in_ref inp) \<Longrightarrow> findDocRow a r t = findDocRow a r s"
    using t'(2) upsertDocument_other [OF t'(1) assms(2)] by auto
qed

lemma efold_accountStep_effect:
  assumes "efold (accountStep D now acc) docs (l, s) = Inr (l', t)" "store_inv D s"
    and "distinct (map in_ref docs)"
  shows "store_inv D t \<and> settled s t \<and>
    (\<forall>inp \<in> set docs. \<exists>d. findDocRow (aid acc) (in_ref inp) t = Some d \<and> unchanged D inp d) \<and>
    (\<forall>a r. a \<noteq> aid acc \<or> r \<notin> in_ref ` set docs \<longrightarrow> findDocRow a r t = findDocRow a r s)"
  using assms
proof (induction docs arbitrary: l s)
  case (Cons inp docs)
  from Cons.prems(1) obtain l1 s1 where
    step: "accountStep D now acc inp (l, s) = Inr (l1, s1)" and
    rest: "efold (accountStep D now acc) docs (l1, s1) = Inr (l', t)"
    by auto
  note eff = accountStep_effect [OF step Cons.prems(2)]
  have IH: "store_inv D t \<and> settled s1 t \<and>
    (\<forall>inp \<in> set docs. \<exists>d. findDocRow (aid acc) (in_ref inp) t = Some d \<and> unchanged D inp d) \<and>
    (\<forall>a r. a \<noteq> aid acc \<or> r \<notin> in_ref ` set docs \<longrightarrow> findDocRow a r t = findDocRow a r s1)"
    using Cons.IH [OF rest eff(1)] Cons.prems(3) by simp
  moreover have "in_ref inp \<notin> in_ref ` set docs"
    using Cons.prems(3) by simp
  ultimately show ?case
    using eff(3,4) settled_trans [OF eff(2)] by auto
qed auto

section \<open>Parent links\<close>

definition sameButParent :: "doc_row \<Rightarrow> doc_row \<Rightarrow> bool" where
  "sameButParent d e \<longleftrightarrow> did e = did d \<and> content_hash e = content_hash d \<and>
     archived_at e = archived_at d \<and> title e = title d \<and> markdown e = markdown d"

text \<open>The row each key names keeps its identity, content and archival; keys keep naming rows.\<close>

definition relinks :: "store \<Rightarrow> store \<Rightarrow> bool" where
  "relinks s t \<longleftrightarrow> (\<forall>a r. rel_option sameButParent (findDocRow a r s) (findDocRow a r t)) \<and>
     settled s t"

lemma relinks_refl [simp]: "relinks s s"
  by (auto simp: relinks_def sameButParent_def intro: option.rel_refl)

lemma relinks_trans: "relinks s t \<Longrightarrow> relinks t u \<Longrightarrow> relinks s u"
proof -
  assume "relinks s t" "relinks t u"
  moreover have "rel_option sameButParent x y \<Longrightarrow> rel_option sameButParent y z \<Longrightarrow>
      rel_option sameButParent x z" for x y z
    by (cases x; cases y; cases z) (auto simp: sameButParent_def)
  ultimately show "relinks s u"
    unfolding relinks_def by (blast intro: settled_trans)
qed

lemma relinks_did:
  "relinks s t \<Longrightarrow> map_option did (findDocRow a r t) = map_option did (findDocRow a r s)"
  unfolding relinks_def
  by (erule conjE, drule spec [of _ a], drule spec [of _ r])
    (cases "findDocRow a r s"; cases "findDocRow a r t"; simp add: sameButParent_def)

lemma relinks_unchanged:
  assumes "relinks s t" "findDocRow a r s = Some d" "unchanged D inp d"
  shows "\<exists>e. findDocRow a r t = Some e \<and> unchanged D inp e"
proof -
  have "rel_option sameButParent (Some d) (findDocRow a r t)"
    using assms(1,2) unfolding relinks_def by metis
  then show ?thesis
    using assms(3) by (cases "findDocRow a r t") (auto simp: sameButParent_def unchanged_def)
qed

lemma settled_touch [simp]: "settled s (touch now i f s)"
  by (simp add: settled_def touch_def appendChange_def updDoc_def Let_def)

lemma relinks_touch: "relinks s (touch now i (relinkRow now p) s)"
  unfolding relinks_def
  by (auto simp: findDocRow_touch option.rel_map relinkRow_def sameButParent_def
      intro!: option.rel_refl)

lemma relinkOne_effect:
  assumes "relinkOne now acct (c, p) (l, s) = (l', t)" "keys_ok s"
  shows "relinks s t \<and> keys_ok t \<and>
    (\<forall>d. findDocRow acct c t = Some d \<longrightarrow> parent_id d = map_option did (findDocRow acct p s)) \<and>
    (\<forall>r d. r \<noteq> c \<longrightarrow> findDocRow acct r t = findDocRow acct r s)"
  using assms(2)
proof (cases rule: relinkOne_cases [of now acct c p l s])
  case 1
  then show ?thesis using assms by auto
next
  case (2 d)
  let ?f = "relinkRow now (map_option did (findDocRow acct p s))"
  have t: "t = touch now (did d) ?f s" using 2 assms(1) by simp
  have other: "did e \<noteq> did d" if "findDocRow acct r s = Some e" "r \<noteq> c" for r e
    using findDocRow_Some [OF that(1)] findDocRow_Some [OF 2(1)] that(2)
      has_key_inj [of acct r e acct c] same_did [OF assms(2), of e d] by auto
  have "findDocRow acct r t = findDocRow acct r s" if "r \<noteq> c" for r
    using other [OF _ that] by (cases "findDocRow acct r s") (auto simp: t findDocRow_touch)
  then show ?thesis
    using relinks_touch keys_ok_touch [OF _ assms(2)] 2
    by (auto simp: t findDocRow_touch relinkRow_def)
qed

lemma relinkPairs_effect:
  assumes "fold (relinkOne now acct) pairs (l, s) = (l', t)" "keys_ok s"
    and "single_valued (set pairs)"
  shows "relinks s t \<and> keys_ok t \<and>
    (\<forall>(c, p) \<in> set pairs. \<forall>d. findDocRow acct c t = Some d \<longrightarrow>
       parent_id d = map_option did (findDocRow acct p s)) \<and>
    (\<forall>r. r \<notin> fst ` set pairs \<longrightarrow> findDocRow acct r t = findDocRow acct r s)"
  using assms
proof (induction pairs arbitrary: l s)
  case (Cons cp pairs)
  obtain c p where cp: "cp = (c, p)" by (cases cp)
  obtain l1 s1 where step: "relinkOne now acct (c, p) (l, s) = (l1, s1)" by fastforce
  note eff = relinkOne_effect [OF step Cons.prems(2)]
  have sv: "single_valued (set pairs)"
    by (rule single_valued_subset [OF _ Cons.prems(3)]) auto
  have IH: "relinks s1 t \<and> keys_ok t \<and>
    (\<forall>(c, p) \<in> set pairs. \<forall>d. findDocRow acct c t = Some d \<longrightarrow>
       parent_id d = map_option did (findDocRow acct p s1)) \<and>
    (\<forall>r. r \<notin> fst ` set pairs \<longrightarrow> findDocRow acct r t = findDocRow acct r s1)"
    using Cons.IH [of l1 s1] Cons.prems(1) eff sv step by (simp add: cp)
  have did: "map_option did (findDocRow acct r s1) = map_option did (findDocRow acct r s)" for r
    using relinks_did [of s s1 acct r] eff by simp
  have head: "parent_id d = map_option did (findDocRow acct p s)"
    if "findDocRow acct c t = Some d" for d
  proof (cases "c \<in> fst ` set pairs")
    case True
    then obtain p' where p': "(c, p') \<in> set pairs" by auto
    with Cons.prems(3) have "p' = p" by (auto simp: cp dest: single_valuedD)
    with IH p' that did show ?thesis by auto
  next
    case False
    with IH that eff show ?thesis by auto
  qed
  show ?case
    using IH eff head did by (auto simp: cp intro: relinks_trans)
qed auto

lemma relinkPairs_idle:
  assumes "\<forall>(c, p) \<in> set pairs. \<forall>d. findDocRow acct c s = Some d \<longrightarrow>
    parent_id d = map_option did (findDocRow acct p s)"
  shows "relinkPairs now acct pairs s = (None, s)"
proof -
  have "fold (relinkOne now acct) pairs (None, s) = (None, s)"
    using assms
  proof (induction pairs)
    case (Cons cp pairs)
    obtain c p where cp: "cp = (c, p)" by (cases cp)
    have "relinkOne now acct (c, p) (None, s) = (None, s)"
      using Cons.prems by (auto simp: cp relinkOne_def split: option.splits)
    then show ?case using Cons by (simp add: cp)
  qed simp
  then show ?thesis by (simp add: relinkPairs_def)
qed

end
