(* ===== verification/Samples.thy ===== *)
theory Samples
  imports CommitEffect
begin

text \<open>
  Concrete instances at which the properties are applied: a stand-in for the hash, the language
  detector and the stemmer, an empty database, accounts, documents and batches.
\<close>

fun flat :: "json \<Rightarrow> string" where
  "flat JNull = ''~''"
| "flat (JBool b) = (if b then ''T'' else ''F'')"
| "flat (JNum n) = ''#'' @ show_nat (nat n)"
| "flat (JStr s) = ''$'' @ s"
| "flat (JArr js) = ''A'' @ concat (map flat js)"
| "flat (JObj ps) = ''O'' @ concat (map (\<lambda>(k, v). k @ flat v) ps)"

text \<open>Tells the sample keys apart, and is cheap to evaluate.\<close>

definition mark :: "char \<Rightarrow> byte" where
  "mark c = (if c = CHR ''a'' then 1 else if c = CHR ''b'' then 2 else if c = CHR ''c'' then 3
     else if c = CHR ''p'' then 4 else if c = CHR ''q'' then 5 else 0)"

definition sample_sha :: "string \<Rightarrow> byte list" where
  "sample_sha s = take 32 (map mark (rev s) @ replicate 32 0)"

definition sample_deps :: deps where
  "sample_deps = \<lparr>detectLanguages = (\<lambda>_. [''en'']), digest = flat, sha256 = sample_sha,
     buildStemView = (\<lambda>t _. t)\<rparr>"

definition empty_sync :: sync_state_row where
  "empty_sync = \<lparr>device_id = Some ''dev'', role = Normal, joining = False, joined = False,
     tracking = False, epoch = 0\<rparr>"

definition empty_store :: store where
  "empty_store = \<lparr>accounts = [], documents = [], changes = [], change_counter = 0,
     documents_fts = Map.empty, documents_tri = Map.empty, consumers = Map.empty,
     work_ledger = [], work_attempts = [], vault = [], meta_rekeyed = False,
     meta_rekey_cursor = None, outbox_rows = [], event_draft_rows = [],
     sync_state = empty_sync, sync_offers = [], reconcile_temp = None, accountPublishedAt = Map.empty, accountAppends = [],
     appended = 0, archivedRefs = None, warned = []\<rparr>"

definition sample_account :: "string \<Rightarrow> account_row" where
  "sample_account i = \<lparr>aid = i, source = ''gmail'', ident = i, config = Some [],
     status = Live, acursor = None, progress = None, last_sync_at = None, last_error = None,
     cadence = None, acreated_at = 0, owner_device_id = None\<rparr>"

definition two_accounts :: store where
  "two_accounts = empty_store\<lparr>accounts := [sample_account ''a'', sample_account ''b'']\<rparr>"

definition sample_ref :: "string \<Rightarrow> external_ref" where
  "sample_ref x = \<lparr>externalId = x, rtype = ''file''\<rparr>"

definition sample_input :: "string \<Rightarrow> string \<Rightarrow> external_ref option \<Rightarrow> doc_input" where
  "sample_input x body p = \<lparr>in_ref = sample_ref x, in_title = Some x, in_markdown = Some body,
     in_url = None, in_metadata = [], in_createdAt = None, in_parent = p,
     in_scopeRootId = None\<rparr>"

definition sample_batch :: "string \<Rightarrow> doc_input list \<Rightarrow> account_batch" where
  "sample_batch i docs = \<lparr>ab_account = i, ab_documents = docs, ab_deletions = [],
     ab_cursor = Some (JNum 1), ab_status = None, ab_progress = None, ab_error = None,
     ab_errorScope = None, ab_relink = []\<rparr>"

definition parent_and_child :: account_batch where
  "parent_and_child = sample_batch ''a''
     [sample_input ''c'' ''child'' (Some (sample_ref ''p'')), sample_input ''p'' ''parent'' None]"

definition after :: "tx_error + ('r \<times> store) \<Rightarrow> store" where
  "after m = (case m of Inl _ \<Rightarrow> empty_store | Inr (_, t) \<Rightarrow> t)"

definition one_commit :: store where
  "one_commit = after (commit sample_deps 1000 (AccountBatch parent_and_child) two_accounts)"

lemma store_inv_empty: "store_inv D empty_store"
  by (simp add: store_inv_def keys_ok_def index_ok_def feed_ok_def refs_ok_def empty_store_def
      fts_view_def tri_view_def fun_eq_iff)

lemma store_inv_two_accounts: "store_inv D two_accounts"
  by (simp add: store_inv_def keys_ok_def index_ok_def feed_ok_def refs_ok_def empty_store_def
      fts_view_def tri_view_def fun_eq_iff two_accounts_def sample_account_def)

text \<open>A database that holds a parent and its child, the child possibly archived.\<close>

definition sample_doc :: "nat \<Rightarrow> string \<Rightarrow> string \<Rightarrow> string option \<Rightarrow> time option \<Rightarrow> doc_row" where
  "sample_doc n i x p arch = \<lparr>rowid = n, did = i, account_id = ''a'', external_id = x,
     dtype = ''file'', title = Some x, markdown = Some x, url = None, metadata = [],
     created_at = None, parent_id = p, content_hash = contentHash sample_deps (sample_input x x None),
     seq = n, ingest_seq = n, archived_at = arch, languages = [''en''], ingested_at = 0,
     updated_at = 0, scope_root_id = None\<rparr>"

definition stocked :: "time option \<Rightarrow> store" where
  "stocked arch = (let p = sample_doc 1 ''P'' ''p'' None None;
       c = sample_doc 2 ''C'' ''c'' (Some ''P'') arch in
     two_accounts\<lparr>documents := [p, c],
       changes := [\<lparr>cseq = 1, kind = DocumentChange, ref_id = ''P'', cat = 0\<rparr>,
                   \<lparr>cseq = 2, kind = DocumentChange, ref_id = ''C'', cat = 0\<rparr>],
       change_counter := 2,
       documents_fts := [1 \<mapsto> ftsRow sample_deps ''P'' (Some ''p'') (Some ''p'') [''en''],
                         2 \<mapsto> ftsRow sample_deps ''C'' (Some ''c'') (Some ''c'') [''en'']],
       documents_tri := [1 \<mapsto> triRow ''P'' (Some ''p'') (Some ''p''),
                         2 \<mapsto> triRow ''C'' (Some ''c'') (Some ''c'')]\<rparr>)"

lemma store_inv_stocked: "store_inv sample_deps (stocked arch)"
  by (simp add: store_inv_def keys_ok_def index_ok_def feed_ok_def refs_ok_def stocked_def Let_def
      fts_view_def tri_view_def fun_eq_iff two_accounts_def sample_account_def sample_doc_def
      nat_key_def is_doc_change_def)

lemma after_Inr:
  "(case m of Inr _ \<Rightarrow> True | Inl _ \<Rightarrow> False) \<Longrightarrow> \<exists>r. m = Inr (r, after m)"
  by (cases m) (auto simp: after_def)

end
