(* ===== verification/CommitProps.thy ===== *)
theory CommitProps
  imports Samples
begin

text \<open>
  What a commit promises: the invariant and the log for every form of batch, and what an account's
  batch, a worker's batch, the removal of an account and the purge each leave behind.
\<close>

section \<open>Shared facts\<close>

lemma after_commit: "commit D now b s = Inr (r, t) \<Longrightarrow> after (commit D now b s) = t"
  by (simp add: after_def)

lemma sample_commit:
  "commit sample_deps 1000 (AccountBatch parent_and_child) two_accounts = Inr ((4, True), one_commit)"
proof -
  have "(case commit sample_deps 1000 (AccountBatch parent_and_child) two_accounts of
      Inr (r, _) \<Rightarrow> r = (4, True) | Inl _ \<Rightarrow> False)"
    by code_simp
  then show ?thesis
    by (auto simp: one_commit_def after_def split: sum.splits)
qed

lemma going_inv: "going D s0 (l, s) \<Longrightarrow> store_inv D s \<and> extends s0 s \<and> l = maxSeq s"
  by (simp add: going_def)

section \<open>Every batch\<close>

lemma commit_keeps_invariant_lib:
  assumes "store_inv D s" "commit D now b s = Inr (r, t)"
  shows "store_inv D t"
proof -
  obtain q logged where "r = (q, logged)" by (cases r)
  with assms(2) have "commit D now b s = Inr ((q, logged), t)" by simp
  from commit_going [OF this assms(1)] obtain t' where
    "going D (s\<lparr>accountAppends := [], appended := 0\<rparr>) (q, t')"
    "t = t'\<lparr>accountPublishedAt := fold (\<lambda>(i, at) m. m(i \<mapsto> at)) (accountAppends t')
           (accountPublishedAt t'), accountAppends := []\<rparr>" by blast
  then show ?thesis by (simp add: going_def)
qed

text \<open>
  C1: a commit of any form that returns keeps the invariant of the corpus: ids, natural keys and
  rowids stay unique, both search indexes stay the function of the documents table they are, the
  latest change of every document carries the document's seq, and no document outlives its account.
\<close>

theorem commit_keeps_invariant:
  assumes "store_inv D s" "commit D now b s = Inr (r, t)"
  shows "store_inv D t"
  by (rule commit_keeps_invariant_lib [OF assms])

theorem commit_keeps_invariant_witness: "store_inv sample_deps one_commit"
  by (rule commit_keeps_invariant [OF store_inv_two_accounts sample_commit])

text \<open>
  a commit of any form only appends to the change log, with consecutive seqs above every seq
  the log ever had; it reports whether it appended anything, and returns the log's highest seq.
\<close>

theorem commit_appends_log:
  assumes "store_inv D s" "commit D now b s = Inr ((q, logged), t)"
  shows "\<exists>new. changes t = changes s @ new \<and>
    map cseq new = [Suc (change_counter s) ..< Suc (change_counter s + length new)] \<and>
    change_counter t = change_counter s + length new \<and>
    logged = (new \<noteq> []) \<and> q = maxSeq t"
proof -
  from commit_going [OF assms(2,1)] obtain t' where
    going: "going D (s\<lparr>accountAppends := [], appended := 0\<rparr>) (q, t')" "logged \<longleftrightarrow> appended t' > 0"
    and t: "t = t'\<lparr>accountPublishedAt := fold (\<lambda>(i, at) m. m(i \<mapsto> at)) (accountAppends t')
           (accountPublishedAt t'), accountAppends := []\<rparr>" by blast
  have same: "changes t = changes t'" "change_counter t = change_counter t'" by (simp_all add: t)
  from going have "extends (s\<lparr>accountAppends := [], appended := 0\<rparr>) t'" "q = maxSeq t'"
    by (simp_all add: going_def)
  then show ?thesis
    using going(2) by (auto simp: extends_def same maxSeq_cong [OF same(1)])
qed

theorem commit_appends_log_witness:
  "\<exists>new. changes one_commit = changes two_accounts @ new \<and> new \<noteq> []"
  using commit_appends_log [OF store_inv_two_accounts sample_commit] by auto

section \<open>An account's batch\<close>

text \<open>The transaction's store as it starts, and as the wrapper returns it.\<close>

abbreviation txStart :: "store \<Rightarrow> store" where
  "txStart s \<equiv> s\<lparr>accountAppends := [], appended := 0\<rparr>"

abbreviation published :: "store \<Rightarrow> store" where
  "published t \<equiv> t\<lparr>accountPublishedAt := fold (\<lambda>(i, at) m. m(i \<mapsto> at)) (accountAppends t)
     (accountPublishedAt t), accountAppends := []\<rparr>"

lemma commit_AccountBatch:
  assumes "commit D now (AccountBatch b) s = Inr ((q, logged), t)"
  obtains acc l1 s1 l2 s2 l3 s3 l4 s4 l5 s5 where
    "getAccountRow (ab_account b) s = Some acc"
    "efold (accountStep D now acc) (ab_documents b) (maxSeq s, txStart s) = Inr (l1, s1)"
    "then_last l1 (reconcileParents now (aid acc) (ab_documents b) s1) = (l2, s2)"
    "then_last l2 (relinkPairs now (aid acc) (ab_relink b) s2) = (l3, s3)"
    "fold (deletionStep now (aid acc)) (ab_deletions b) (l3, s3) = (l4, s4)"
    "announceAccount now b acc (l4, s4) = (l5, s5)"
    "t = published (updAccount (aid acc) (committedAccount now b) s5)" "q = l5"
    "logged \<longleftrightarrow> appended (updAccount (aid acc) (committedAccount now b) s5) > 0"
proof -
  from assms obtain t' where c: "commitAccount D now b (maxSeq (txStart s)) (txStart s) = Inr (q, t')"
    and t: "t = published t'" and logged: "logged \<longleftrightarrow> appended t' > 0"
    by (auto simp: commit_def publishing_def)
  have m: "maxSeq (txStart s) = maxSeq s" by (rule maxSeq_cong) simp
  have g: "getAccountRow i (txStart s) = getAccountRow i s" for i by (simp add: getAccountRow_def)
  from c obtain acc where acc: "getAccountRow (ab_account b) s = Some acc"
    by (simp add: commitAccount_def g split: option.splits)
  from c obtain l1 s1 where
    e: "efold (accountStep D now acc) (ab_documents b) (maxSeq s, txStart s) = Inr (l1, s1)"
    by (auto simp: commitAccount_def g acc m)
  obtain l2 s2 where p: "then_last l1 (reconcileParents now (aid acc) (ab_documents b) s1) = (l2, s2)"
    by fastforce
  obtain l3 s3 where r: "then_last l2 (relinkPairs now (aid acc) (ab_relink b) s2) = (l3, s3)"
    by fastforce
  obtain l4 s4 where d: "fold (deletionStep now (aid acc)) (ab_deletions b) (l3, s3) = (l4, s4)"
    by fastforce
  obtain l5 s5 where a: "announceAccount now b acc (l4, s4) = (l5, s5)"
    by fastforce
  have "t' = updAccount (aid acc) (committedAccount now b) s5 \<and> q = l5"
    using c by (simp add: commitAccount_def g acc m e p r d a)
  with t logged show thesis by (intro that [OF acc e p r d a]) auto
qed

text \<open>Every child of the pairs that has a row points at its parent's row, if that exists.\<close>

definition linked :: "string \<Rightarrow> (external_ref \<times> external_ref) list \<Rightarrow> store \<Rightarrow> bool" where
  "linked acct pairs s \<longleftrightarrow> (\<forall>(c, p) \<in> set pairs. \<forall>d. findDocRow acct c s = Some d \<longrightarrow>
     parent_id d = map_option did (findDocRow acct p s))"

lemma linked_append [simp]: "linked a (ps @ qs) s \<longleftrightarrow> linked a ps s \<and> linked a qs s"
  by (auto simp: linked_def)

lemma then_last_relinkPairs:
  assumes "then_last l (relinkPairs now acct pairs s) = (l', t)" "keys_ok s"
    and "single_valued (set pairs)"
  shows "relinks s t" "keys_ok t" "linked acct pairs t"
    "\<And>r. r \<notin> fst ` set pairs \<Longrightarrow> findDocRow acct r t = findDocRow acct r s"
proof -
  obtain k where "fold (relinkOne now acct) pairs (None, s) = (k, t)"
    using assms(1) by (cases "fold (relinkOne now acct) pairs (None, s)")
      (simp add: then_last_def relinkPairs_def)
  note eff = relinkPairs_effect [OF this assms(2,3)]
  show "relinks s t" "keys_ok t" "\<And>r. r \<notin> fst ` set pairs \<Longrightarrow> findDocRow acct r t = findDocRow acct r s"
    using eff by auto
  have "map_option did (findDocRow acct p t) = map_option did (findDocRow acct p s)" for p
    using eff by (intro relinks_did) simp
  then show "linked acct pairs t"
    using eff by (auto simp: linked_def)
qed

text \<open>The second pass of links keeps those of the first that it does not contradict.\<close>

lemma linked_again:
  assumes "linked acct ps s" "relinks s t" "linked acct qs t" "single_valued (set (ps @ qs))"
    and "\<And>r. r \<notin> fst ` set qs \<Longrightarrow> findDocRow acct r t = findDocRow acct r s"
  shows "linked acct ps t"
  unfolding linked_def
proof clarify
  fix c p d assume cp: "(c, p) \<in> set ps" and d: "findDocRow acct c t = Some d"
  have did: "map_option did (findDocRow acct p t) = map_option did (findDocRow acct p s)"
    by (rule relinks_did [OF assms(2)])
  show "parent_id d = map_option did (findDocRow acct p t)"
  proof (cases "c \<in> fst ` set qs")
    case True
    then obtain p' where p': "(c, p') \<in> set qs" by auto
    have "p' = p" by (rule single_valuedD [OF assms(4)]) (use p' cp in auto)
    with p' assms(3) d show ?thesis by (auto simp: linked_def)
  next
    case False
    with assms(1,5) cp d did show ?thesis by (auto simp: linked_def)
  qed
qed

lemma announceAccount_documents:
  "announceAccount now b acc (l, s) = (l', t) \<Longrightarrow>
    documents t = documents s \<and> accounts t = accounts s"
  by (auto simp: announceAccount_def appendChange_def Let_def split: if_splits)

lemma findDocRow_published [simp]:
  "findDocRow a r (published (updAccount i f s)) = findDocRow a r s"
  by (simp add: findDocRow_def updAccount_def)

lemma getAccountRow_Some: "getAccountRow i s = Some a \<Longrightarrow> a \<in> set (accounts s) \<and> aid a = i"
  unfolding getAccountRow_def by (rule find_Some_set)

lemma getAccountRow_committed:
  assumes "getAccountRow i s = Some a" "accounts t = accounts s"
  shows "getAccountRow i (published (updAccount i (committedAccount now b) t)) =
    Some (committedAccount now b a)"
proof -
  have "find (\<lambda>a. aid a = i) (upd_where (\<lambda>a. aid a = i) (committedAccount now b) (accounts s)) =
      map_option (\<lambda>r. if aid r = i then committedAccount now b r else r)
        (find (\<lambda>a. aid a = i) (accounts s))"
    by (rule find_upd_where) (simp add: committedAccount_def)
  then show ?thesis
    using assms getAccountRow_Some [OF assms(1)] by (simp add: getAccountRow_def updAccount_def)
qed

lemma documents_linked:
  assumes "linked acct (parentPairs docs) s" "inp \<in> set docs" "in_parent inp = Some p"
    and "findDocRow acct (in_ref inp) s = Some d"
  shows "parent_id d = map_option did (findDocRow acct p s)"
proof -
  have "(in_ref inp, p) \<in> set (parentPairs docs)"
    using assms(2,3) by (force simp: parentPairs_def)
  with assms(1,4) show ?thesis by (auto simp: linked_def)
qed

text \<open>A batch is consistent when no key comes twice and no child is given two parents.\<close>

definition consistent :: "account_batch \<Rightarrow> bool" where
  "consistent b \<longleftrightarrow> distinct (map in_ref (ab_documents b)) \<and>
     single_valued (set (parentPairs (ab_documents b) @ ab_relink b)) \<and> ab_deletions b = []"

lemma commit_lands_aux:
  assumes "store_inv D s" "commit D now (AccountBatch b) s = Inr (r, t)" "consistent b"
  obtains acc where "getAccountRow (ab_account b) s = Some acc"
    "getAccountRow (ab_account b) t = Some (committedAccount now b acc)"
    "\<forall>inp \<in> set (ab_documents b).
       \<exists>d. findDocRow (ab_account b) (in_ref inp) t = Some d \<and> unchanged D inp d"
    "linked (ab_account b) (parentPairs (ab_documents b) @ ab_relink b) t"
    "accounts t = upd_where (\<lambda>a. aid a = ab_account b) (committedAccount now b) (accounts s)"
proof -
  obtain q logged where r: "r = (q, logged)" by (cases r)
  from assms(2) [unfolded r] show thesis
  proof (rule commit_AccountBatch)
    fix acc l1 s1 l2 s2 l3 s3 l4 s4 l5 s5
    assume acc: "getAccountRow (ab_account b) s = Some acc"
      and e: "efold (accountStep D now acc) (ab_documents b) (maxSeq s, txStart s) = Inr (l1, s1)"
      and p: "then_last l1 (reconcileParents now (aid acc) (ab_documents b) s1) = (l2, s2)"
      and rl: "then_last l2 (relinkPairs now (aid acc) (ab_relink b) s2) = (l3, s3)"
      and dl: "fold (deletionStep now (aid acc)) (ab_deletions b) (l3, s3) = (l4, s4)"
      and an: "announceAccount now b acc (l4, s4) = (l5, s5)"
      and t: "t = published (updAccount (aid acc) (committedAccount now b) s5)"
    from acc have aid: "aid acc = ab_account b" by (blast dest: getAccountRow_Some)
    from assms(3) have c: "distinct (map in_ref (ab_documents b))" "ab_deletions b = []"
      "single_valued (set (parentPairs (ab_documents b) @ ab_relink b))"
      by (simp_all add: consistent_def)
    have sv: "single_valued (set (parentPairs (ab_documents b)))" "single_valued (set (ab_relink b))"
      by (rule single_valued_subset [OF _ c(3)]; simp)+
    have docs: "documents s5 = documents s3" "accounts s5 = accounts s3"
      using announceAccount_documents [OF an] dl c(2) by auto
    note eff = efold_accountStep_effect [OF e _ c(1)]
    have inv1: "store_inv D s1" and set1: "settled (txStart s) s1"
      using eff assms(1) by auto
    note r1 = then_last_relinkPairs [OF p [unfolded reconcileParents_def] store_invD(1) [OF inv1] sv(1)]
    note r2 = then_last_relinkPairs [OF rl r1(2) sv(2)]
    have accs: "accounts s5 = accounts s"
      using docs(2) set1 r1(1) r2(1) by (simp add: relinks_def settled_def)
    have find: "findDocRow a k t = findDocRow a k s3" for a k
      by (simp add: t findDocRow_docs [OF docs(1)])
    show thesis
    proof (rule that [OF acc])
      show "getAccountRow (ab_account b) t = Some (committedAccount now b acc)"
        unfolding t aid by (rule getAccountRow_committed [OF acc accs])
      have "relinks s1 s3" by (rule relinks_trans [OF r1(1) r2(1)])
      then show "\<forall>inp \<in> set (ab_documents b).
          \<exists>d. findDocRow (ab_account b) (in_ref inp) t = Some d \<and> unchanged D inp d"
        using eff assms(1) relinks_unchanged unfolding find aid [symmetric] by fastforce
      have "linked (aid acc) (parentPairs (ab_documents b)) s3"
        by (rule linked_again [OF r1(3) r2(1,3) c(3) r2(4)])
      with r2(3) have "linked (aid acc) (parentPairs (ab_documents b) @ ab_relink b) s3"
        by simp
      then show "linked (ab_account b) (parentPairs (ab_documents b) @ ab_relink b) t"
        by (simp only: linked_def find aid)
      show "accounts t = upd_where (\<lambda>a. aid a = ab_account b) (committedAccount now b) (accounts s)"
        by (simp add: t updAccount_def accs aid)
    qed
  qed
qed

lemma commit_lands_lib:
  assumes "store_inv D s" "commit D now (AccountBatch b) s = Inr (r, t)" "consistent b"
  shows "(\<forall>inp \<in> set (ab_documents b). \<exists>d. findDocRow (ab_account b) (in_ref inp) t = Some d \<and>
      archived_at d = None \<and> content_hash d = contentHash D inp \<and>
      (\<forall>p. in_parent inp = Some p \<longrightarrow>
         parent_id d = map_option did (findDocRow (ab_account b) p t))) \<and>
    (\<exists>a. getAccountRow (ab_account b) t = Some a \<and> last_sync_at a = Some now \<and>
      acursor a = Some (case ab_cursor b of None \<Rightarrow> JNull | Some c \<Rightarrow> c))"
proof (rule commit_lands_aux [OF assms], rule conjI)
  fix acc
  assume acc: "getAccountRow (ab_account b) t = Some (committedAccount now b acc)" and
    land: "\<forall>inp \<in> set (ab_documents b).
       \<exists>d. findDocRow (ab_account b) (in_ref inp) t = Some d \<and> unchanged D inp d" and
    link: "linked (ab_account b) (parentPairs (ab_documents b) @ ab_relink b) t"
  from land link show "\<forall>inp \<in> set (ab_documents b).
      \<exists>d. findDocRow (ab_account b) (in_ref inp) t = Some d \<and>
      archived_at d = None \<and> content_hash d = contentHash D inp \<and>
      (\<forall>p. in_parent inp = Some p \<longrightarrow>
         parent_id d = map_option did (findDocRow (ab_account b) p t))"
    by (fastforce simp: unchanged_def intro: documents_linked)
  from acc show "\<exists>a. getAccountRow (ab_account b) t = Some a \<and> last_sync_at a = Some now \<and>
      acursor a = Some (case ab_cursor b of None \<Rightarrow> JNull | Some c \<Rightarrow> c)"
    by (simp add: committedAccount_def)
qed

text \<open>
  C8: after a consistent batch (no key twice, no child with two parents, no deletions) every
  document of the batch is there, live, with the batch's content hash and its parent resolved to
  the parent's row, also when the parent came after the child; and the account row carries the
  batch's cursor and the time of the commit.
\<close>

theorem commit_lands_documents:
  assumes "store_inv D s" "commit D now (AccountBatch b) s = Inr (r, t)" "consistent b"
  shows "(\<forall>inp \<in> set (ab_documents b). \<exists>d. findDocRow (ab_account b) (in_ref inp) t = Some d \<and>
      archived_at d = None \<and> content_hash d = contentHash D inp \<and>
      (\<forall>p. in_parent inp = Some p \<longrightarrow>
         parent_id d = map_option did (findDocRow (ab_account b) p t))) \<and>
    (\<exists>a. getAccountRow (ab_account b) t = Some a \<and> last_sync_at a = Some now \<and>
      acursor a = Some (case ab_cursor b of None \<Rightarrow> JNull | Some c \<Rightarrow> c))"
  using assms by (rule commit_lands_lib)

lemma consistent_sample: "consistent parent_and_child"
  by (auto simp: consistent_def parent_and_child_def sample_batch_def sample_input_def
      sample_ref_def parentPairs_def single_valued_def)

theorem commit_lands_documents_witness:
  "\<exists>d. findDocRow ''a'' (sample_ref ''c'') one_commit = Some d \<and> archived_at d = None \<and>
    parent_id d = map_option did (findDocRow ''a'' (sample_ref ''p'') one_commit)"
  using commit_lands_documents [OF store_inv_two_accounts sample_commit consistent_sample]
  by (auto simp: parent_and_child_def sample_batch_def sample_input_def)

section \<open>Committing again\<close>

lemma upsertDocument_idle:
  "findDocRow acct (in_ref inp) s = Some d \<Longrightarrow> unchanged D inp d \<Longrightarrow>
    upsertDocument D now acct inp s = Inr (None, s)"
  by (simp add: upsertDocument_def Let_def)

lemma accountStep_idle:
  assumes "\<exists>d. findDocRow (aid acc) (in_ref inp) s = Some d \<and> unchanged D inp d"
  shows "accountStep D now acc inp (l, s) = Inr (l, s)"
proof -
  have "upsertDocument D now (aid acc) inp s = Inr (None, s)"
    using assms upsertDocument_idle by blast
  then show ?thesis by (simp add: accountStep_def)
qed

lemma efold_accountStep_idle:
  "\<forall>inp \<in> set docs. \<exists>d. findDocRow (aid acc) (in_ref inp) s = Some d \<and> unchanged D inp d \<Longrightarrow>
    efold (accountStep D now acc) docs (l, s) = Inr (l, s)"
  by (induction docs) (simp_all add: accountStep_idle)

lemma then_last_idle [simp]: "then_last l (None, s) = (l, s)"
  by (simp add: then_last_def)

lemma commit_again_lib:
  assumes "store_inv D s" "commit D now (AccountBatch b) s = Inr (r, t)" "consistent b"
  shows "\<exists>q logged u. commit D now' (AccountBatch b) t = Inr ((q, logged), u) \<and>
    documents u = documents t \<and> documents_fts u = documents_fts t \<and>
    documents_tri u = documents_tri t \<and>
    (\<exists>cs. changes u = changes t @ cs \<and> length cs \<le> 1 \<and>
      (\<forall>c \<in> set cs. kind c = AccountChange \<and> ref_id c = ab_account b))"
proof (rule commit_lands_aux [OF assms])
  fix acc
  assume acc: "getAccountRow (ab_account b) t = Some (committedAccount now b acc)" and
    land: "\<forall>inp \<in> set (ab_documents b).
       \<exists>d. findDocRow (ab_account b) (in_ref inp) t = Some d \<and> unchanged D inp d" and
    link: "linked (ab_account b) (parentPairs (ab_documents b) @ ab_relink b) t"
  define a where "a = committedAccount now b acc"
  define t0 where "t0 = txStart t"
  have aid: "aid a = ab_account b" using getAccountRow_Some [OF acc] by (simp add: a_def)
  have find: "findDocRow x k t0 = findDocRow x k t" for x k by (simp add: t0_def findDocRow_def)
  have get: "getAccountRow (ab_account b) t0 = Some a"
    using acc by (simp add: t0_def getAccountRow_def a_def)
  have e: "efold (accountStep D now' a) (ab_documents b) (l, t0) = Inr (l, t0)" for l
    using land by (intro efold_accountStep_idle) (simp add: find aid)
  have "linked (ab_account b) (parentPairs (ab_documents b)) t0"
    "linked (ab_account b) (ab_relink b) t0"
    using link by (simp_all add: linked_def find)
  then have rl: "reconcileParents now' (ab_account b) (ab_documents b) t0 = (None, t0)"
    "relinkPairs now' (ab_account b) (ab_relink b) t0 = (None, t0)"
    unfolding reconcileParents_def linked_def by (auto intro: relinkPairs_idle)
  have "ab_deletions b = []" using assms(3) by (simp add: consistent_def)
  then have c: "commitAccount D now' b l t0 =
      Inr (case announceAccount now' b a (l, t0) of (l5, s5) \<Rightarrow>
        (l5, updAccount (ab_account b) (committedAccount now' b) s5))" for l
    by (simp add: commitAccount_def get e rl aid split: prod.splits)
  define ls where "ls = announceAccount now' b a (maxSeq t0, t0)"
  define u' where "u' = updAccount (ab_account b) (committedAccount now' b) (snd ls)"
  have "commit D now' (AccountBatch b) t = Inr ((fst ls, appended u' > 0), published u')"
    by (simp add: commit_def publishing_def c flip: t0_def ls_def add: u'_def split: prod.split)
  moreover have "documents u' = documents t \<and> documents_fts u' = documents_fts t \<and>
      documents_tri u' = documents_tri t \<and>
      (\<exists>cs. changes u' = changes t @ cs \<and> length cs \<le> 1 \<and>
        (\<forall>c \<in> set cs. kind c = AccountChange \<and> ref_id c = ab_account b))"
    by (simp add: u'_def ls_def updAccount_def announceAccount_def appendChange_def t0_def aid Let_def)
  ultimately show ?thesis
    by (intro exI [of _ "fst ls"] exI [of _ "appended u' > 0"] exI [of _ "published u'"]) simp
qed

text \<open>
  committing a consistent batch a second time returns, writes no document and no index row,
  and appends nothing but at most the account's own change: a re-pull is idempotent.
\<close>

theorem commit_again_writes_nothing:
  assumes "store_inv D s" "commit D now (AccountBatch b) s = Inr (r, t)" "consistent b"
  shows "\<exists>q logged u. commit D now' (AccountBatch b) t = Inr ((q, logged), u) \<and>
    documents u = documents t \<and> documents_fts u = documents_fts t \<and>
    documents_tri u = documents_tri t \<and>
    (\<exists>cs. changes u = changes t @ cs \<and> length cs \<le> 1 \<and>
      (\<forall>c \<in> set cs. kind c = AccountChange \<and> ref_id c = ab_account b))"
  using assms by (rule commit_again_lib)

theorem commit_again_writes_nothing_witness:
  "\<exists>q logged u. commit sample_deps 5000 (AccountBatch parent_and_child) one_commit = Inr ((q, logged), u) \<and>
    documents u = documents one_commit"
  using commit_again_writes_nothing [OF store_inv_two_accounts sample_commit consistent_sample, of 5000]
  by blast

end
