(* ===== verification/DocWrites.thy ===== *)
theory DocWrites
  imports CommitProps
begin

text \<open>
  The document statements of an account's commit as a client of one contract: a relation between
  the database before and after, kept by every statement, is kept by the whole sequence
  (upserts, parent links, deletions). Three relations meet the contract: the feed gets document
  changes only, the account tables stay, the other accounts' documents stay.
\<close>

section \<open>The contract\<close>

locale doc_writes =
  fixes D :: deps and acct :: string
    and R :: "store \<Rightarrow> store \<Rightarrow> bool"
    and good :: "store \<Rightarrow> bool"
    and writable :: "store \<Rightarrow> string \<Rightarrow> bool"
  assumes R_refl: "R s s"
    and R_trans: "R s t \<Longrightarrow> R t u \<Longrightarrow> R s u"
    and own: "good s \<Longrightarrow> d \<in> set (documents s) \<Longrightarrow> account_id d = acct \<Longrightarrow> writable s (did d)"
    and kid: "good s \<Longrightarrow> writable s i \<Longrightarrow> d \<in> set (documents s) \<Longrightarrow> parent_id d = Some i \<Longrightarrow>
      writable s (did d)"
    and touching: "good s \<Longrightarrow> writable s i \<Longrightarrow> stamps f \<Longrightarrow>
      R s (touch now i f s) \<and> good (touch now i f s)"
    and stays: "R s t \<Longrightarrow> good s \<Longrightarrow> writable s i \<Longrightarrow> writable t i"
    and reindexing: "good s \<Longrightarrow> R s (reindexed D d a b l s) \<and> good (reindexed D d a b l s)"
    and inserting: "good s \<Longrightarrow> fresh d s \<Longrightarrow> account_id d = acct \<Longrightarrow> did d = docHashedId D acct r \<Longrightarrow>
      seq d = Suc (change_counter s) \<Longrightarrow> R s (inserted D now d s) \<and> good (inserted D now d s)"
    and warning: "good s \<Longrightarrow> R s (s\<lparr>warned := w\<rparr>) \<and> good (s\<lparr>warned := w\<rparr>)"
begin

lemma upsert_keeps:
  assumes "upsertDocument D now acct inp s = Inr (q, t)" "store_inv D s" "good s"
  shows "R s t \<and> good t"
  using assms(1,2)
proof (cases rule: upsertDocument_cases)
  case skip
  then show ?thesis using assms(3) by (simp add: R_refl)
next
  case (update ex)
  from findDocRow_Some [OF update(1)] have "writable s (did ex)"
    by (intro own [OF assms(3)]) (auto simp: has_key_def)
  note t = touching [OF assms(3) this stamps_updatedRow]
  show ?thesis
    unfolding update(4) using t reindexing R_trans by blast
next
  case (insert d)
  have "account_id d = acct" "did d = docHashedId D acct (in_ref inp)" "seq d = Suc (change_counter s)"
    using insert by simp_all
  then show ?thesis
    unfolding insert using inserting [OF assms(3) insert(3)] insert(4) by blast
qed

lemma accountStep_keeps:
  assumes "accountStep D now acc inp (l, s) = Inr (l', t)" "store_inv D s" "good s" "aid acc = acct"
  shows "R s t \<and> good t \<and> store_inv D t"
proof -
  from accountStep_Inr [OF assms(1)] obtain q t' w where
    t: "upsertDocument D now acct inp s = Inr (q, t')" "t = t'\<lparr>warned := w\<rparr>"
    unfolding assms(4) by blast
  from upsert_keeps [OF t(1) assms(2,3)] warning [of t' w] upsertDocument_inv [OF t(1) assms(2)]
  show ?thesis using t(2) R_trans by auto
qed

lemma accountSteps_keep:
  "efold (accountStep D now acc) docs (l, s) = Inr (l', t) \<Longrightarrow> store_inv D s \<Longrightarrow> good s \<Longrightarrow>
    aid acc = acct \<Longrightarrow> R s t \<and> good t \<and> store_inv D t"
proof (induction docs arbitrary: l s)
  case Nil
  then show ?case by (simp add: R_refl)
next
  case (Cons inp docs)
  then obtain l1 s1 where
    step: "accountStep D now acc inp (l, s) = Inr (l1, s1)" and
    rest: "efold (accountStep D now acc) docs (l1, s1) = Inr (l', t)"
    by auto
  note s1 = accountStep_keeps [OF step Cons.prems(2,3,4)]
  from Cons.IH [OF rest] s1 Cons.prems(4) show ?case using R_trans by blast
qed

lemma relinkOne_keeps:
  assumes "relinkOne now acct (c, p) (l, s) = (l', t)" "good s"
  shows "R s t \<and> good t"
proof (cases rule: relinkOne_cases [of now acct c p l s])
  case 1
  then show ?thesis using assms R_refl by auto
next
  case (2 d)
  from findDocRow_Some [OF 2(1)] have "writable s (did d)"
    by (intro own [OF assms(2)]) (auto simp: has_key_def)
  from touching [OF assms(2) this row_updates(1)] 2 assms(1) show ?thesis by auto
qed

lemma relinkPairs_keep:
  assumes "then_last l (relinkPairs now acct pairs s) = (l', t)" "good s"
  shows "R s t \<and> good t"
proof -
  have "R s (snd (fold (relinkOne now acct) pairs (k, s))) \<and>
      good (snd (fold (relinkOne now acct) pairs (k, s)))" for k
    using assms(2)
  proof (induction pairs arbitrary: k s)
    case (Cons cp pairs)
    obtain c p where cp: "cp = (c, p)" by (cases cp)
    obtain k1 s1 where step: "relinkOne now acct (c, p) (k, s) = (k1, s1)" by fastforce
    from relinkOne_keeps [OF step Cons.prems] Cons.IH [of s1 k1] show ?case
      using R_trans by (auto simp: cp step)
  qed (simp add: R_refl)
  then show ?thesis using assms(1) by (auto simp: then_last_def relinkPairs_def)
qed

lemma archiveKids_keep:
  "good s \<Longrightarrow> \<forall>i \<in> set is. writable s i \<Longrightarrow>
    R s (snd (fold (archiveKid now) is (k, s))) \<and> good (snd (fold (archiveKid now) is (k, s)))"
proof (induction "is" arbitrary: k s)
  case (Cons i "is")
  let ?t = "touch now i (archivedRow now) s"
  have t: "R s ?t \<and> good ?t" using Cons.prems by (intro touching) auto
  have "R ?t (snd (fold (archiveKid now) is (Some (Suc (change_counter s)), ?t))) \<and>
      good (snd (fold (archiveKid now) is (Some (Suc (change_counter s)), ?t)))"
    by (rule Cons.IH) (use t Cons.prems stays in auto)
  moreover have "archiveKid now i (k, s) = (Some (Suc (change_counter s)), ?t)"
    by (simp add: archiveKid_touch)
  ultimately show ?case using t R_trans by (simp only: fold_simps) blast
qed (simp add: R_refl)

lemma deletionStep_keeps:
  assumes "deletionStep now acct r (l, s) = (l', t)" "good s"
  shows "R s t \<and> good t"
proof (cases "\<exists>d. findDocRow acct r s = Some d \<and> archived_at d = None")
  case False
  then have "archiveByRef now acct r s = (None, s)"
    by (auto simp: archiveByRef_eq split: option.splits)
  with assms R_refl show ?thesis by (simp add: deletionStep_def then_last_def)
next
  case True
  then obtain d where d: "findDocRow acct r s = Some d" "archived_at d = None" by blast
  let ?t = "touch now (did d) (archivedRow now) s"
  from findDocRow_Some [OF d(1)] have w: "writable s (did d)"
    by (intro own [OF assms(2)]) (auto simp: has_key_def)
  have t: "R s ?t \<and> good ?t" by (intro touching assms w) simp
  have w': "writable ?t (did d)" using stays [OF _ assms(2) w] t by blast
  have "\<forall>i \<in> set (liveChildren (did d) ?t). writable ?t i"
    using kid [OF _ w'] t by (auto simp: liveChildren_def)
  from archiveKids_keep [OF _ this, of now None] t
  have "R ?t (snd (archiveChildren now (did d) ?t)) \<and> good (snd (archiveChildren now (did d) ?t))"
    unfolding archiveChildren_def by blast
  then show ?thesis
    using assms(1) d t R_trans
    by (auto simp: deletionStep_def then_last_def archiveByRef_eq Let_def)
qed

lemma deletionSteps_keep:
  "fold (deletionStep now acct) refs (l, s) = (l', t) \<Longrightarrow> good s \<Longrightarrow> R s t \<and> good t"
proof (induction refs arbitrary: l s)
  case (Cons r refs)
  obtain l1 s1 where step: "deletionStep now acct r (l, s) = (l1, s1)" by fastforce
  from deletionStep_keeps [OF step Cons.prems(2)] Cons.IH [of l1 s1] Cons.prems(1) step
  show ?case using R_trans by auto
qed (simp add: R_refl)

text \<open>Everything an account's commit does before it writes the account row.\<close>

lemma documents_part:
  assumes "commit D now (AccountBatch b) s = Inr ((q, logged), t)" "ab_account b = acct"
    and "store_inv D s" "good (txStart s)"
  shows "\<exists>acc l4 s4 l5 s5. getAccountRow acct s = Some acc \<and> R (txStart s) s4 \<and> good s4 \<and>
    announceAccount now b acc (l4, s4) = (l5, s5) \<and>
    t = published (updAccount acct (committedAccount now b) s5)"
  using assms(1)
proof (rule commit_AccountBatch)
  fix acc l1 s1 l2 s2 l3 s3 l4 s4 l5 s5
  assume acc: "getAccountRow (ab_account b) s = Some acc"
    and e: "efold (accountStep D now acc) (ab_documents b) (maxSeq s, txStart s) = Inr (l1, s1)"
    and p: "then_last l1 (reconcileParents now (aid acc) (ab_documents b) s1) = (l2, s2)"
    and rl: "then_last l2 (relinkPairs now (aid acc) (ab_relink b) s2) = (l3, s3)"
    and dl: "fold (deletionStep now (aid acc)) (ab_deletions b) (l3, s3) = (l4, s4)"
    and an: "announceAccount now b acc (l4, s4) = (l5, s5)"
    and t: "t = published (updAccount (aid acc) (committedAccount now b) s5)"
  have aid: "aid acc = acct" using getAccountRow_Some [OF acc] assms(2) by simp
  have s1: "R (txStart s) s1 \<and> good s1"
    using accountSteps_keep [OF e _ assms(4) aid] assms(3) by simp
  have s2: "R s1 s2 \<and> good s2"
    by (rule relinkPairs_keep [OF p [unfolded reconcileParents_def aid]]) (use s1 in blast)
  have s3: "R s2 s3 \<and> good s3"
    by (rule relinkPairs_keep [OF rl [unfolded aid]]) (use s2 in blast)
  have s4: "R s3 s4 \<and> good s4"
    by (rule deletionSteps_keep [OF dl [unfolded aid]]) (use s3 in blast)
  have "R (txStart s) s4"
    using s1 s2 s3 s4 R_trans by blast
  with s4 acc an t show ?thesis
    unfolding aid assms(2) by blast
qed

end

section \<open>The feed\<close>

text \<open>Only document changes are appended; nothing is announced; the account rows stay.\<close>

definition quiet :: "store \<Rightarrow> store \<Rightarrow> bool" where
  "quiet s t \<longleftrightarrow> (\<exists>cs. changes t = changes s @ cs \<and> (\<forall>c \<in> set cs. kind c = DocumentChange)) \<and>
     accountAppends t = accountAppends s \<and> accountPublishedAt t = accountPublishedAt s \<and>
     accounts t = accounts s"

lemma quiet_trans: "quiet s t \<Longrightarrow> quiet t u \<Longrightarrow> quiet s u"
  by (force simp: quiet_def)

lemma quiet_steps:
  "quiet s (touch now i f s)" "quiet s (reindexed D d a b l s)" "quiet s (inserted D now d s)"
  "quiet s (s\<lparr>warned := w\<rparr>)"
  by (simp_all add: quiet_def touch_def appendChange_def updDoc_def reindexed_def inserted_def Let_def)

interpretation quiet: doc_writes D acct quiet "\<lambda>_. True" "\<lambda>_ _. True" for D acct
  by unfold_locales (auto intro: quiet_trans quiet_steps simp: quiet_def [of s s for s])

section \<open>The other accounts\<close>

definition others :: "string \<Rightarrow> store \<Rightarrow> doc_row list" where
  "others acct s = filter (\<lambda>d. account_id d \<noteq> acct) (documents s)"

text \<open>
  No document of another account has for parent an id this account's documents have or could
  be given. (A document's parent is looked up in its own account.)
\<close>

definition apart :: "deps \<Rightarrow> string \<Rightarrow> store \<Rightarrow> bool" where
  "apart D acct s \<longleftrightarrow> distinct (map did (documents s)) \<and>
     (\<forall>d \<in> set (documents s). account_id d \<noteq> acct \<longrightarrow>
       (\<forall>r. parent_id d \<noteq> Some (docHashedId D acct r)) \<and>
       (\<forall>e \<in> set (documents s). account_id e = acct \<longrightarrow> parent_id d \<noteq> Some (did e)))"

definition owned_by :: "string \<Rightarrow> store \<Rightarrow> string \<Rightarrow> bool" where
  "owned_by acct s i \<longleftrightarrow> (\<exists>d \<in> set (documents s). did d = i \<and> account_id d = acct)"

definition spares :: "string \<Rightarrow> store \<Rightarrow> store \<Rightarrow> bool" where
  "spares acct s t \<longleftrightarrow> others acct t = others acct s \<and> (\<forall>i. owned_by acct s i \<longrightarrow> owned_by acct t i)"

lemma filter_upd_where:
  "(\<And>r. r \<in> set rs \<Longrightarrow> P r \<Longrightarrow> \<not> Q r \<and> \<not> Q (f r)) \<Longrightarrow> filter Q (upd_where P f rs) = filter Q rs"
  by (induction rs) auto

lemma owned_only: "apart D acct s \<Longrightarrow> owned_by acct s i \<Longrightarrow> x \<in> set (documents s) \<Longrightarrow> did x = i \<Longrightarrow>
    account_id x = acct"
  by (auto simp: apart_def owned_by_def dest: distinct_map_inj)

lemma spares_touch:
  assumes "apart D acct s" "owned_by acct s i" "stamps f"
  shows "spares acct s (touch now i f s) \<and> apart D acct (touch now i f s)"
proof -
  let ?g = "f (Suc (change_counter s))"
  have f: "account_id (?g d) = account_id d" "did (?g d) = did d" for d
    using stampsD [OF assms(3)] by auto
  have docs: "documents (touch now i f s) = upd_where (\<lambda>d. did d = i) ?g (documents s)" by simp
  have others: "others acct (touch now i f s) = others acct s"
    unfolding others_def docs
    by (rule filter_upd_where) (use owned_only [OF assms(1,2)] f in auto)
  have dids: "map did (upd_where (\<lambda>d. did d = i) ?g (documents s)) = map did (documents s)"
    by (rule map_upd_where) (rule f)
  have image: "e \<in> set (documents (touch now i f s)) \<Longrightarrow>
      \<exists>e' \<in> set (documents s). did e' = did e \<and> account_id e' = account_id e \<and>
        (account_id e \<noteq> acct \<longrightarrow> e' = e)" for e
    unfolding docs set_upd_where using owned_only [OF assms(1,2)] f by fastforce
  have "owned_by acct (touch now i f s) j" if "owned_by acct s j" for j
  proof -
    from that obtain d where "d \<in> set (documents s)" "did d = j" "account_id d = acct"
      by (auto simp: owned_by_def)
    then show ?thesis
      unfolding owned_by_def docs set_upd_where
      by (intro bexI [of _ "if did d = i then ?g d else d"]) (auto simp: f)
  qed
  moreover have "apart D acct (touch now i f s)"
    using assms(1) image unfolding apart_def docs dids by metis
  ultimately show ?thesis using others by (simp add: spares_def)
qed

lemma spares_inserted:
  assumes "apart D acct s" "fresh d s" "account_id d = acct" "did d = docHashedId D acct r"
  shows "spares acct s (inserted D now d s) \<and> apart D acct (inserted D now d s)"
  using assms by (auto simp: spares_def apart_def others_def owned_by_def fresh_def)

lemma same_documents_apart:
  assumes "documents t = documents s"
  shows "apart D acct t = apart D acct s" "owned_by acct t i = owned_by acct s i"
    "spares acct s t" "others acct t = others acct s"
  by (simp_all add: assms apart_def owned_by_def spares_def others_def)

interpretation spares: doc_writes D acct "spares acct" "apart D acct" "owned_by acct" for D acct
proof unfold_locales
  show "spares acct s s" for s by (simp add: spares_def)
  show "spares acct s t \<Longrightarrow> spares acct t u \<Longrightarrow> spares acct s u" for s t u
    by (simp add: spares_def)
  show "d \<in> set (documents s) \<Longrightarrow> account_id d = acct \<Longrightarrow> owned_by acct s (did d)" for s d
    by (auto simp: owned_by_def)
  show "owned_by acct s (did d)" if "apart D acct s" "owned_by acct s i"
    "d \<in> set (documents s)" "parent_id d = Some i" for s i d
    using that by (auto simp: owned_by_def apart_def)
  show "spares acct s t \<Longrightarrow> owned_by acct s i \<Longrightarrow> owned_by acct t i" for s t i
    by (simp add: spares_def)
  show "apart D acct s \<Longrightarrow> owned_by acct s i \<Longrightarrow> stamps f \<Longrightarrow>
      spares acct s (touch now i f s) \<and> apart D acct (touch now i f s)" for s i f now
    by (rule spares_touch)
  show "apart D acct s \<Longrightarrow> spares acct s (reindexed D d a b l s) \<and>
      apart D acct (reindexed D d a b l s)" for s d a b l
    by (simp add: same_documents_apart [of "reindexed D d a b l s" s])
  show "apart D acct s \<Longrightarrow> fresh d s \<Longrightarrow> account_id d = acct \<Longrightarrow> did d = docHashedId D acct r \<Longrightarrow>
      spares acct s (inserted D now d s) \<and> apart D acct (inserted D now d s)" for s d r now
    by (rule spares_inserted)
  show "apart D acct s \<Longrightarrow> spares acct s (s\<lparr>warned := w\<rparr>) \<and> apart D acct (s\<lparr>warned := w\<rparr>)" for s w
    by (simp add: same_documents_apart [of "s\<lparr>warned := w\<rparr>" s])
qed

section \<open>The properties\<close>

lemma announce_fields:
  "announceAccount now b acc (l, s) = (l', t) \<Longrightarrow> documents t = documents s \<and>
    (let a = visibleChange b acc \<or> tickDue now (accountPublishedAt s (aid acc)) in
     changes t = changes s @ (if a then [\<lparr>cseq = Suc (change_counter s), kind = AccountChange,
       ref_id = aid acc, cat = now\<rparr>] else []) \<and>
     accountAppends t = accountAppends s @ (if a then [(aid acc, now)] else []) \<and>
     accountPublishedAt t = accountPublishedAt s)"
  by (auto simp: announceAccount_def appendChange_def Let_def split: if_splits)

text \<open>
  C19: the account change of a commit is throttled: it is appended exactly when a feed reader can
  see a new status or error, or the account was last announced 60 seconds ago or never; then, and
  only then, the time of the announcement is remembered.
\<close>

theorem commit_throttles_account_change:
  assumes "store_inv D s" "commit D now (AccountBatch b) s = Inr (r, t)"
    and "getAccountRow (ab_account b) s = Some acc"
  shows "\<exists>cs. changes t = changes s @ cs \<and>
    (let a = visibleChange b acc \<or> tickDue now (accountPublishedAt s (ab_account b)) in
     ((\<exists>c \<in> set cs. kind c = AccountChange) \<longleftrightarrow> a) \<and>
     accountPublishedAt t = (if a then (accountPublishedAt s)(ab_account b \<mapsto> now)
                             else accountPublishedAt s))"
proof -
  obtain q logged where r: "r = (q, logged)" by (cases r)
  from quiet.documents_part [OF assms(2) [unfolded r] refl assms(1)]
  obtain l4 s4 l5 s5 where q: "quiet (txStart s) s4"
    and a: "announceAccount now b acc (l4, s4) = (l5, s5)"
    and t: "t = published (updAccount (ab_account b) (committedAccount now b) s5)"
    using assms(3) by auto
  have aid: "aid acc = ab_account b" using getAccountRow_Some [OF assms(3)] by simp
  from q obtain cs where cs: "changes s4 = changes s @ cs" "\<forall>c \<in> set cs. kind c = DocumentChange"
    and f: "accountAppends s4 = []" "accountPublishedAt s4 = accountPublishedAt s"
    by (auto simp: quiet_def)
  define k where "k = \<lparr>cseq = Suc (change_counter s4), kind = AccountChange,
    ref_id = aid acc, cat = now\<rparr>"
  have k: "kind k = AccountChange" by (simp add: k_def)
  from announce_fields [OF a] cs f have g:
    "let a = visibleChange b acc \<or> tickDue now (accountPublishedAt s (ab_account b)) in
     changes s5 = changes s @ cs @ (if a then [k] else []) \<and>
     accountAppends s5 = (if a then [(ab_account b, now)] else []) \<and>
     accountPublishedAt s5 = accountPublishedAt s"
    by (auto simp: aid Let_def k_def)
  have t': "changes t = changes s5" "accountPublishedAt t =
      fold (\<lambda>(i, at) m. m(i \<mapsto> at)) (accountAppends s5) (accountPublishedAt s5)"
    by (simp_all add: t updAccount_def)
  show ?thesis
    using g cs(2) k unfolding t' Let_def
    by (cases "visibleChange b acc \<or> tickDue now (accountPublishedAt s (ab_account b))") fastforce+
qed

theorem commit_throttles_account_change_witness:
  "accountPublishedAt one_commit = (accountPublishedAt two_accounts)(''a'' \<mapsto> 1000)"
  using commit_throttles_account_change [OF store_inv_two_accounts sample_commit,
      of "sample_account ''a''"]
  by (auto simp: parent_and_child_def sample_batch_def two_accounts_def empty_store_def
      getAccountRow_def sample_account_def tickDue_def Let_def)

text \<open>Three documents: a parent and its child in one account, one document in the other.\<close>

definition neighbour :: doc_row where
  "neighbour = (sample_doc 3 ''B'' ''b'' None None)\<lparr>account_id := ''b''\<rparr>"

definition neighbours :: store where
  "neighbours = (let s = stocked None in
     s\<lparr>documents := documents s @ [neighbour],
       changes := changes s @ [\<lparr>cseq = 3, kind = DocumentChange, ref_id = ''B'', cat = 0\<rparr>],
       change_counter := 3,
       documents_fts := (documents_fts s)(3 \<mapsto> ftsRow sample_deps ''B'' (Some ''b'') (Some ''b'') [''en'']),
       documents_tri := (documents_tri s)(3 \<mapsto> triRow ''B'' (Some ''b'') (Some ''b'')),
       vault := [\<lparr>vaccount = ''a'', vblob = [1], vepoch = 0, vn = 0\<rparr>,
                 \<lparr>vaccount = ''b'', vblob = [2], vepoch = 0, vn = 0\<rparr>],
       outbox_rows := [(''m1'', ''a''), (''m2'', ''b'')],
       event_draft_rows := [(''e1'', ''a''), (''e2'', ''b'')]\<rparr>)"

lemma store_inv_neighbours: "store_inv sample_deps neighbours"
  by (simp add: store_inv_def keys_ok_def index_ok_def feed_ok_def refs_ok_def neighbours_def
      neighbour_def stocked_def Let_def fts_view_def tri_view_def fun_eq_iff two_accounts_def
      sample_account_def sample_doc_def nat_key_def is_doc_change_def)

text \<open>A batch that deletes the parent, and adds a document.\<close>

definition deleting_batch :: account_batch where
  "deleting_batch = (sample_batch ''a'' [sample_input ''q'' ''new'' None])\<lparr>ab_deletions := [sample_ref ''p'']\<rparr>"

definition one_deleted :: store where
  "one_deleted = after (commit sample_deps 1000 (AccountBatch deleting_batch) neighbours)"

lemma deleting_commit: "\<exists>r. commit sample_deps 1000 (AccountBatch deleting_batch) neighbours = Inr (r, one_deleted)"
  unfolding one_deleted_def by (rule after_Inr) code_simp



end
