(* ===== verification/Removal.thy ===== *)
theory Removal
  imports DocWrites
begin

text \<open>
  The other three forms of a commit: what an enrichment leaves of a document's identity and
  content hash, what is left after an account is removed, and what a purge takes.
\<close>

section \<open>Enrichment\<close>

text \<open>A row update that keeps what the next pull compares, and takes the enriched text.\<close>

definition enriches :: "enrich_input list \<Rightarrow> (doc_row \<Rightarrow> doc_row) \<Rightarrow> bool" where
  "enriches es h \<longleftrightarrow> (\<forall>d. did (h d) = did d \<and> nat_key (h d) = nat_key d \<and>
     content_hash (h d) = content_hash d \<and> archived_at (h d) = archived_at d \<and>
     (did d \<notin> en_documentId ` set es \<longrightarrow> h d = d) \<and>
     (\<forall>e \<in> set es. \<forall>m. en_documentId e = did d \<longrightarrow> en_markdown e = Some m \<longrightarrow>
        markdown (h d) = Some m))"

lemma enriches_Cons:
  assumes "enriches [e] g" "enriches es h" "en_documentId e \<notin> en_documentId ` set es"
  shows "enriches (e # es) (h \<circ> g)"
  using assms unfolding enriches_def by (auto simp: image_iff)

definition enrichedRow :: "deps \<Rightarrow> time \<Rightarrow> enrich_input \<Rightarrow> doc_row \<Rightarrow> nat \<Rightarrow> doc_row \<Rightarrow> doc_row" where
  "enrichedRow D now e row n d =
     (let md = (case en_metadata e of None \<Rightarrow> metadata row | Some m \<Rightarrow> obj_spread (metadata row) m)
      in case en_markdown e of
           None \<Rightarrow> d\<lparr>metadata := md, seq := n, updated_at := now\<rparr>
         | Some m \<Rightarrow> d\<lparr>markdown := Some m, metadata := md, seq := n,
             languages := detect D (docText (title row) (Some m)), updated_at := now\<rparr>)"

lemma enrichOne_documents:
  assumes run: "enrichOne D now e (l, s) = Inr (l', t)" and inv: "store_inv D s"
  shows "\<exists>g. enriches [e] g \<and> documents t = map g (documents s)"
proof (cases "docById (en_documentId e) s")
  case None
  then have none: "\<forall>d \<in> set (documents s). did d \<noteq> en_documentId e"
    by (simp add: docById_def find_None_iff_all)
  let ?g = "\<lambda>d. if did d = en_documentId e then d\<lparr>markdown := en_markdown e\<rparr> else d"
  have "t = s" using run None by (simp add: enrichOne_def)
  then have "documents t = map ?g (documents s)"
    using none by (auto intro: map_idI [symmetric])
  moreover have "enriches [e] ?g" by (simp add: enriches_def nat_key_def)
  ultimately show ?thesis by blast
next
  case (Some row)
  note row = docById_Some [OF Some]
  let ?f = "enrichedRow D now e row"
  let ?g = "\<lambda>d. if did d = en_documentId e then ?f (Suc (change_counter s)) d else d"
  have st: "stamps ?f"
    by (simp add: stamps_def nat_key_def enrichedRow_def Let_def split: option.splits)
  have "documents t = documents (touch now (did row) ?f s)"
  proof (cases "en_markdown e")
    case None
    have "enrichOne D now e (l, s) = Inr (Suc (change_counter s), touch now (did row) ?f s)"
      using Some None
      by (simp add: enrichOne_def touch_def appendChange_def Let_def enrichedRow_def [abs_def])
    then show ?thesis using run by simp
  next
    case (Some m)
    let ?l = "detect D (docText (title row) (Some m))"
    have "enrichOne D now e (l, s) = ebind (ftsUpsert D (did row) (title row) (Some m) ?l
        (touch now (did row) ?f s)) (\<lambda>s3. Inr (Suc (change_counter s), s3))"
      using \<open>docById (en_documentId e) s = Some row\<close> Some
      by (simp add: enrichOne_def touch_def appendChange_def Let_def enrichedRow_def [abs_def])
    then show ?thesis
      using run ftsUpsert_touch [OF store_invD(1) [OF inv] _ st, of row] row by auto
  qed
  then have "documents t = map ?g (documents s)"
    using row by (simp add: upd_where_def)
  moreover have "enriches [e] ?g"
    by (auto simp: enriches_def nat_key_def enrichedRow_def Let_def split: option.splits)
  ultimately show ?thesis by blast
qed

lemma efold_enrichOne_documents:
  assumes "efold (enrichOne D now) es (l, s) = Inr (l', t)" "going D s0 (l, s)"
    "distinct (map en_documentId es)"
  shows "\<exists>g. enriches es g \<and> documents t = map g (documents s)"
  using assms
proof (induction es arbitrary: l s)
  case Nil
  then show ?case by (intro exI [of _ id]) (simp add: enriches_def)
next
  case (Cons e es)
  then obtain l1 s1 where
    step: "enrichOne D now e (l, s) = Inr (l1, s1)" and
    rest: "efold (enrichOne D now) es (l1, s1) = Inr (l', t)" by auto
  have g1: "going D s0 (l1, s1)" by (rule going_enrichOne [OF step Cons.prems(2)])
  obtain g where g: "enriches [e] g" "documents s1 = map g (documents s)"
    using enrichOne_documents [OF step] Cons.prems(2) by (auto simp: going_def)
  obtain h where h: "enriches es h" "documents t = map h (documents s1)"
    using Cons.IH [OF rest g1] Cons.prems(3) by auto
  have "enriches (e # es) (h \<circ> g)"
    by (rule enriches_Cons [OF g(1) h(1)]) (use Cons.prems(3) in simp)
  moreover have "documents t = map (h \<circ> g) (documents s)" by (simp add: g(2) h(2))
  ultimately show ?case by blast
qed

lemma commitConsumer_documents:
  assumes "commitConsumer D now b l s = Inr (l', t)" "store_inv D s" "l = maxSeq s"
    "cb_documents b = []" "distinct (map en_documentId (cb_enrich b))"
  shows "\<exists>g. enriches (cb_enrich b) g \<and> documents t = map g (documents s)"
proof -
  let ?c = "cb_consumer b"
  let ?s2 = "moveCursor (seedConsumerName ?c) (cb_seedCursor b) (setCursor ?c (cb_cursor b) s)"
  let ?s4 = "fold (clearAttempts ?c) (cb_clearAttempts b) (fold (recordEntry now ?c) (cb_ledger b) ?s2)"
  have same: "same_corpus s ?s4"
    by (rule same_corpus_trans [OF same_corpus_trans [OF same_corpus_trans [OF
          same_corpus_cursors(1) same_corpus_cursors(2)] same_corpus_fold] same_corpus_fold])
      (rule same_corpus_ledger)+
  have "going D s (l, s)" using assms(2,3) by (simp add: going_def)
  then have going: "going D s (l, ?s4)" by (rule going_same_corpus [OF same])
  have "efold (enrichOne D now) (cb_enrich b) (l, ?s4) = Inr (l', t)"
    using assms(1,4) by (simp add: commitConsumer_def consumerDocuments_def Let_def)
  from efold_enrichOne_documents [OF this going assms(5)] same show ?thesis
    by (simp add: same_corpus_def)
qed

lemma find_map_keeps:
  "(\<And>x. Q (h x) = Q x) \<Longrightarrow> find Q (map h xs) = map_option h (find Q xs)"
  by (induction xs) auto

lemma txStart_maxSeq [simp]: "maxSeq (txStart s) = maxSeq s"
  by (rule maxSeq_cong) simp

lemma commit_consumer_documents:
  assumes "commit D now (ConsumerBatch b) s = Inr (r, t)" "store_inv D s"
    "cb_documents b = []" "distinct (map en_documentId (cb_enrich b))"
  shows "\<exists>g. enriches (cb_enrich b) g \<and> documents t = map g (documents s)"
proof -
  from assms(1) obtain q t' where c: "commitConsumer D now b (maxSeq (txStart s)) (txStart s) = Inr (q, t')"
    and t: "documents t = documents t'"
    by (auto simp: commit_def publishing_def)
  from commitConsumer_documents [OF c _ refl assms(3,4)] assms(2) t show ?thesis by simp
qed

text \<open>
  C21: a worker's enrichment survives the next pull, for a batch that enriches no document twice
  and emits no documents of its own: the enriched text is stored and the content hash is not
  moved, so pulling the unchanged document again writes nothing.
\<close>

theorem enrichment_survives_repull:
  assumes "store_inv D s" "commit D now (ConsumerBatch b) s = Inr (r, t)"
    and "cb_documents b = []" "distinct (map en_documentId (cb_enrich b))"
    and "findDocRow acct (in_ref inp) s = Some ex" "unchanged D inp ex"
  shows "upsertDocument D now' acct inp t = Inr (None, t) \<and>
    (\<forall>e \<in> set (cb_enrich b). \<forall>m. en_documentId e = did ex \<longrightarrow> en_markdown e = Some m \<longrightarrow>
       (\<exists>d. findDocRow acct (in_ref inp) t = Some d \<and> markdown d = Some m))"
proof -
  from commit_consumer_documents [OF assms(2,1,3,4)] obtain g where
    g: "enriches (cb_enrich b) g" "documents t = map g (documents s)" by blast
  have "has_key acct (in_ref inp) (g d) = has_key acct (in_ref inp) d" for d
    using g(1) by (simp add: has_key_nat_key enriches_def)
  then have row: "findDocRow acct (in_ref inp) t = Some (g ex)"
    using assms(5) by (simp add: findDocRow_def g(2) find_map_keeps)
  have "unchanged D inp (g ex)"
    using assms(6) g(1) by (simp add: unchanged_def enriches_def)
  with row upsertDocument_idle g(1) show ?thesis
    by (auto simp: enriches_def)
qed

definition sample_enrich :: consumer_batch where
  "sample_enrich = \<lparr>cb_consumer = ''ocr'', cb_cursor = Some 2, cb_documents = [],
     cb_enrich = [\<lparr>en_documentId = ''C'', en_markdown = Some ''seen'', en_metadata = None\<rparr>],
     cb_clearAttempts = [], cb_seedCursor = None, cb_ledger = []\<rparr>"

definition one_enriched :: store where
  "one_enriched = after (commit sample_deps 2000 (ConsumerBatch sample_enrich) (stocked None))"

theorem enrichment_survives_repull_witness:
  "upsertDocument sample_deps 3000 ''a'' (sample_input ''c'' ''c'' None) one_enriched =
     Inr (None, one_enriched)"
proof -
  let ?c = "sample_input ''c'' ''c'' None"
  have ex: "findDocRow ''a'' (in_ref ?c) (stocked None) = Some (sample_doc 2 ''C'' ''c'' (Some ''P'') None)"
    by (simp add: findDocRow_def stocked_def Let_def has_key_def sample_doc_def sample_input_def
        sample_ref_def)
  have un: "unchanged sample_deps ?c (sample_doc 2 ''C'' ''c'' (Some ''P'') None)"
    by (simp add: unchanged_def sample_doc_def)
  have "\<exists>r. commit sample_deps 2000 (ConsumerBatch sample_enrich) (stocked None) =
      Inr (r, one_enriched)"
    unfolding one_enriched_def by (rule after_Inr) code_simp
  then obtain r where r: "commit sample_deps 2000 (ConsumerBatch sample_enrich) (stocked None) =
      Inr (r, one_enriched)" by blast
  show ?thesis
    using enrichment_survives_repull [OF store_inv_stocked r _ _ ex un] by (simp add: sample_enrich_def)
qed

section \<open>Removing an account\<close>

lemma commit_remove:
  assumes "commit D now (RemoveAccount i) s = Inr ((q, logged), t)"
  shows "\<exists>t'. commitRemove now i (maxSeq s) (txStart s) = (q, t') \<and> t = published t'"
  using assms
  by (cases "commitRemove now i (maxSeq s) (txStart s)") (auto simp: commit_def publishing_def)

text \<open>
  C22: removing an account leaves nothing of it: its documents, its vault, its outbox and calendar
  drafts and its row are gone, in neither search index (words, trigrams) a row is left without a
  document, every other row of these tables stays, and the feed says so in one change.
\<close>

theorem commit_remove_leaves_nothing:
  assumes "store_inv D s" "commit D now (RemoveAccount i) s = Inr (r, t)"
    and "getAccountRow i s = Some acc"
  shows "documents t = filter (\<lambda>d. account_id d \<noteq> i) (documents s) \<and>
    accounts t = filter (\<lambda>a. aid a \<noteq> i) (accounts s) \<and>
    vault t = filter (\<lambda>v. vaccount v \<noteq> i) (vault s) \<and>
    outbox_rows t = filter (\<lambda>p. snd p \<noteq> i) (outbox_rows s) \<and>
    event_draft_rows t = filter (\<lambda>p. snd p \<noteq> i) (event_draft_rows s) \<and>
    (\<forall>n f. documents_fts t n = Some f \<longrightarrow> fts_doc_id f \<in> did ` set (documents t)) \<and>
    (\<forall>n f. documents_tri t n = Some f \<longrightarrow> tri_doc_id f \<in> did ` set (documents t)) \<and>
    (\<exists>n. changes t = changes s @ [\<lparr>cseq = n, kind = AccountRemoved, ref_id = i, cat = now\<rparr>])"
proof -
  obtain q logged where r: "r = (q, logged)" by (cases r)
  from commit_remove [OF assms(2) [unfolded r]] obtain t' where
    t': "commitRemove now i (maxSeq s) (txStart s) = (q, t')" and t: "t = published t'"
    by blast
  have aid: "aid acc = i" using getAccountRow_Some [OF assms(3)] by simp
  have "getAccountRow i (txStart s) = Some acc" using assms(3) by (simp add: getAccountRow_def)
  with t' have eq: "documents t = filter (\<lambda>d. account_id d \<noteq> i) (documents s) \<and>
    accounts t = filter (\<lambda>a. aid a \<noteq> i) (accounts s) \<and>
    vault t = filter (\<lambda>v. vaccount v \<noteq> i) (vault s) \<and>
    outbox_rows t = filter (\<lambda>p. snd p \<noteq> i) (outbox_rows s) \<and>
    event_draft_rows t = filter (\<lambda>p. snd p \<noteq> i) (event_draft_rows s) \<and>
    changes t = changes s @ [\<lparr>cseq = Suc (change_counter s), kind = AccountRemoved, ref_id = i, cat = now\<rparr>]"
    by (auto simp: t commitRemove_def aid Let_def deleteDocs_def dropIndex_def appendChange_def)
  have "store_inv D t" by (rule commit_keeps_invariant_lib [OF assms(1,2)])
  then have "documents_fts t = fts_view D (documents t)" "documents_tri t = tri_view (documents t)"
    by (simp_all add: store_inv_def index_ok_def)
  then have "\<forall>n f. documents_fts t n = Some f \<longrightarrow> fts_doc_id f \<in> did ` set (documents t)"
    "\<forall>n f. documents_tri t n = Some f \<longrightarrow> tri_doc_id f \<in> did ` set (documents t)"
    by (auto simp: fts_view_def ftsRow_def tri_view_def triRow_def dest!: find_Some_set)
  with eq show ?thesis by blast
qed

definition one_removed :: store where
  "one_removed = after (commit sample_deps 2000 (RemoveAccount ''a'') neighbours)"

theorem commit_remove_leaves_nothing_witness:
  "map did (documents neighbours) = [''P'', ''C'', ''B''] \<and> documents one_removed = [neighbour] \<and>
   accounts one_removed = [sample_account ''b''] \<and> map vaccount (vault one_removed) = [''b''] \<and>
   outbox_rows one_removed = [(''m2'', ''b'')] \<and> event_draft_rows one_removed = [(''e2'', ''b'')]"
proof -
  have "\<exists>r. commit sample_deps 2000 (RemoveAccount ''a'') neighbours = Inr (r, one_removed)"
    unfolding one_removed_def by (rule after_Inr) code_simp
  then obtain r where
    r: "commit sample_deps 2000 (RemoveAccount ''a'') neighbours = Inr (r, one_removed)" by blast
  have "getAccountRow ''a'' neighbours = Some (sample_account ''a'')"
    by (simp add: getAccountRow_def neighbours_def stocked_def Let_def two_accounts_def sample_account_def)
  from commit_remove_leaves_nothing [OF store_inv_neighbours r this] show ?thesis
    by (simp add: neighbours_def neighbour_def stocked_def Let_def sample_doc_def two_accounts_def
        sample_account_def)
qed

section \<open>Purging\<close>

lemma purge_changes:
  "fold (purgeOne now) is (l, s) = (l', t) \<Longrightarrow>
    \<exists>cs. changes t = changes s @ cs \<and> map ref_id cs = is \<and> (\<forall>c \<in> set cs. kind c = PurgeChange)"
proof (induction "is" arbitrary: l s)
  case (Cons i "is")
  let ?c = "\<lparr>cseq = Suc (change_counter s), kind = PurgeChange, ref_id = i, cat = now\<rparr>"
  obtain l1 s1 where step: "purgeOne now i (l, s) = (l1, s1)" by fastforce
  then have "changes s1 = changes s @ [?c]"
    by (auto simp: purgeOne_def appendChange_def deleteDocs_def Let_def)
  moreover obtain cs where "changes t = changes s1 @ cs" "map ref_id cs = is"
    "\<forall>c \<in> set cs. kind c = PurgeChange"
    using Cons.IH [of l1 s1] Cons.prems step by auto
  ultimately show ?case by (intro exI [of _ "?c # cs"]) auto
qed simp

text \<open>
  C23: a purge takes exactly the documents archived before the given instant, live ones never,
  and appends one purge change for each, in rowid order.
\<close>

theorem commit_purge_takes_the_archived:
  assumes "store_inv D s" "commit D now (PurgeArchived before) s = Inr (r, t)"
  shows "documents t = filter (\<lambda>d. \<not> purgeable before d) (documents s) \<and>
    (\<exists>cs. changes t = changes s @ cs \<and> (\<forall>c \<in> set cs. kind c = PurgeChange) \<and>
       map ref_id cs = map did (filter (purgeable before) (documents s)))"
proof -
  obtain q logged where r: "r = (q, logged)" by (cases r)
  let ?is = "map did (filter (purgeable before) (documents s))"
  let ?s1 = "dropIndex (purgeable before) (txStart s)"
  from assms(2) obtain t' where
    f: "fold (purgeOne now) ?is (maxSeq s, ?s1) = (q, t')" and
    t: "documents t = documents t'" "changes t = changes t'"
    by (auto simp: commit_def publishing_def commitPurge_def Let_def r split: prod.splits)
  have inv: "keys_ok s" "feed_ok s" "refs_ok s" using store_invD [OF assms(1)] by blast+
  have pre: "keys_ok ?s1" "feed_ok ?s1" "refs_ok ?s1" "maxSeq s = maxSeq ?s1"
    using inv by (simp_all add: keys_ok_def feed_ok_def refs_ok_def maxSeq_def)
  have "documents t' = filter (\<lambda>d. did d \<notin> set ?is) (documents s)"
    using purge_fold [OF f pre] by simp
  also have "\<dots> = filter (\<lambda>d. \<not> purgeable before d) (documents s)"
    using same_did [OF inv(1)] by (intro filter_cong) (auto simp: image_iff)
  finally show ?thesis
    using purge_changes [OF f] t by auto
qed

definition one_purged :: store where
  "one_purged = after (commit sample_deps 9000 (PurgeArchived 5000) (stocked (Some 4000)))"

theorem commit_purge_takes_the_archived_witness:
  "map external_id (documents one_purged) = [''p'']"
proof -
  have "\<exists>r. commit sample_deps 9000 (PurgeArchived 5000) (stocked (Some 4000)) = Inr (r, one_purged)"
    unfolding one_purged_def by (rule after_Inr) code_simp
  then obtain r where
    r: "commit sample_deps 9000 (PurgeArchived 5000) (stocked (Some 4000)) = Inr (r, one_purged)"
    by blast
  have "map external_id (filter (\<lambda>d. \<not> purgeable 5000 d) (documents (stocked (Some 4000)))) = [''p'']"
    by (simp add: stocked_def Let_def sample_doc_def purgeable_def)
  with commit_purge_takes_the_archived [OF store_inv_stocked r] show ?thesis by simp
qed

end
