(* ===== verification/AccountWrite.thy ===== *)
theory AccountWrite
  imports Commit
begin

text \<open>
  The account writers of src/main/core/store/write-tx.ts: \<open>accountWriteTx\<close>, the offer of a
  joining device (\<open>importSourcesTx\<close>) and the logins a leader sends (\<open>importSecretsTx\<close>), with
  what they use of src/main/core/sync/sources.ts and src/main/core/sync/vault-stamp.ts.
\<close>

section \<open>src/main/core/sync/sources.ts\<close>

definition DEVICE_OWNED_SOURCES :: "string list" where
  "DEVICE_OWNED_SOURCES = [''local-folder'', ''meetings'', ''assistant'', ''whatsapp'',
     ''claude-code'', ''codex'']"

definition STABLE_IDENTITY_SOURCES :: "string list" where
  "STABLE_IDENTITY_SOURCES = [''gmail'', ''imap'', ''ms365'', ''onedrive'', ''github'',
     ''google-calendar'', ''google-docs'', ''hubspot'', ''telegram'', ''instagram'']"

definition isDeviceOwned :: "string \<Rightarrow> bool" where
  "isDeviceOwned src \<longleftrightarrow> src \<in> set DEVICE_OWNED_SOURCES"

definition isStableIdentity :: "string \<Rightarrow> bool" where
  "isStableIdentity src \<longleftrightarrow> src \<in> set STABLE_IDENTITY_SOURCES"

definition deviceSuffix :: "string \<Rightarrow> string" where
  "deviceSuffix d = take 8 d"

definition notMineToRun :: "account_row \<Rightarrow> string option \<Rightarrow> bool" where
  "notMineToRun a me \<longleftrightarrow> isDeviceOwned (source a) \<and> owner_device_id a \<noteq> me"

text \<open>\<open>ownedByThisDeviceSql\<close>: the accounts this device runs while it follows.\<close>

definition ownerOpen :: "sync_state_row \<Rightarrow> bool" where
  "ownerOpen y \<longleftrightarrow> device_id y \<noteq> None \<and> role y = Follower \<and> joined y \<and> \<not> joining y"

definition ownedByThisDevice :: "store \<Rightarrow> account_row \<Rightarrow> bool" where
  "ownedByThisDevice s a \<longleftrightarrow> ownerOpen (sync_state s) \<and>
     owner_device_id a = device_id (sync_state s) \<and> isDeviceOwned (source a)"

section \<open>Account writes\<close>

datatype account_write_op =
    CreateOp string string "jobj option" "sync_status option" "json option"
  | GetOrCreateOp string string
  | CadenceOp string "json option"
  | ConfigOp string jobj
  | OptionOp string string bool
  | StatusOp string "sync_status option" "string option option" "error_scope option"

text \<open>The row's config text: None when there is no row, \<open>Some None\<close> when it does not parse.\<close>

definition keepOptions :: "jobj option option \<Rightarrow> jobj \<Rightarrow> jobj" where
  "keepOptions rowConfig next_config =
     (let rest = obj_drop ''options'' next_config;
          row = (case rowConfig of Some (Some c) \<Rightarrow> obj_get ''options'' c | _ \<Rightarrow> None)
      in case row of
           Some v \<Rightarrow> if isPlainObject row then rest @ [(''options'', v)] else rest
         | None \<Rightarrow> rest)"

definition configById :: "string \<Rightarrow> store \<Rightarrow> jobj option option" where
  "configById i s = map_option config (getAccountRow i s)"

definition ends_with :: "string \<Rightarrow> string \<Rightarrow> bool" where
  "ends_with tail s = suffix tail s"

definition ownedName :: "store \<Rightarrow> string \<Rightarrow> string \<Rightarrow> string \<times> string option" where
  "ownedName s src idt =
     (if \<not> isDeviceOwned src then (idt, None)
      else case device_id (sync_state s) of
        None \<Rightarrow> (idt, None)
      | Some me \<Rightarrow>
          if me = [] then (idt, None)
          else let tail = ''#'' @ deviceSuffix me
               in (if ends_with tail idt then idt else idt @ tail, Some me))"

text \<open>
  \<open>UPDATE accounts SET ... WHERE id = ? AND <a column differs>\<close>, followed by one change
  when it changed a row.
\<close>

definition changeAccount :: "time \<Rightarrow> string \<Rightarrow> (account_row \<Rightarrow> bool) \<Rightarrow>
    (account_row \<Rightarrow> account_row) \<Rightarrow> store \<Rightarrow> (string \<times> bool) \<times> store" where
  "changeAccount now i differs f s = (case getAccountRow i s of
     None \<Rightarrow> ((i, False), s)
   | Some a \<Rightarrow>
       if differs a
       then ((i, True), snd (appendChange now AccountChange i (updAccount i f s)))
       else ((i, False), s))"

definition setConfig :: "time \<Rightarrow> string \<Rightarrow> jobj \<Rightarrow> store \<Rightarrow> (string \<times> bool) \<times> store" where
  "setConfig now i v = changeAccount now i (\<lambda>a. config a \<noteq> Some v) (\<lambda>a. a\<lparr>config := Some v\<rparr>)"

definition createOp :: "deps \<Rightarrow> time \<Rightarrow> string \<Rightarrow> string \<Rightarrow> jobj option \<Rightarrow> sync_status option \<Rightarrow>
    json option \<Rightarrow> store \<Rightarrow> tx_error + ((string \<times> bool) \<times> store)" where
  "createOp D now src ident0 cfg st cad s =
     (let (idt, owner) = ownedName s src ident0;
          prior = findAccount src idt s;
          newConfig = keepOptions (map_option config prior) (case cfg of None \<Rightarrow> [] | Some c \<Rightarrow> c);
          newStatus = (case st of None \<Rightarrow> Connecting | Some x \<Rightarrow> x)
      in case prior of
           Some a \<Rightarrow>
             Inr ((aid a, True), snd (appendChange now AccountChange (aid a)
               (updAccount (aid a) (\<lambda>r. r\<lparr>config := Some newConfig, status := newStatus\<rparr>) s)))
         | None \<Rightarrow>
             ebind (insertAccount ((blankAccount D now src idt)\<lparr>config := Some newConfig,
                     status := newStatus, cadence := cad, owner_device_id := owner\<rparr>) s) (\<lambda>s1.
               Inr ((accountHashedId D src idt, True),
                    snd (appendChange now AccountChange (accountHashedId D src idt) s1))))"

definition getOrCreateOp :: "deps \<Rightarrow> time \<Rightarrow> string \<Rightarrow> string \<Rightarrow> store \<Rightarrow>
    tx_error + ((string \<times> bool) \<times> store)" where
  "getOrCreateOp D now src ident0 s =
     (let (idt, owner) = ownedName s src ident0 in
      case findAccount src idt s of
        Some a \<Rightarrow> Inr ((aid a, False), s)
      | None \<Rightarrow>
          ebind (insertAccount ((blankAccount D now src idt)\<lparr>owner_device_id := owner\<rparr>) s) (\<lambda>s1.
            Inr ((accountHashedId D src idt, True),
                 snd (appendChange now AccountChange (accountHashedId D src idt) s1))))"

definition optionOp :: "time \<Rightarrow> string \<Rightarrow> string \<Rightarrow> bool \<Rightarrow> store \<Rightarrow>
    tx_error + ((string \<times> bool) \<times> store)" where
  "optionOp now i key v s = (case configById i s of
     None \<Rightarrow> Inr ((i, False), s)
   | Some None \<Rightarrow> Inl BadJson
   | Some (Some cfg) \<Rightarrow>
       let options = (case obj_get ''options'' cfg of Some (JObj os) \<Rightarrow> os | _ \<Rightarrow> [])
       in Inr (setConfig now i
            (obj_put ''options'' (JObj (obj_put key (JBool v) options)) cfg) s))"

definition statusOp :: "time \<Rightarrow> string \<Rightarrow> sync_status option \<Rightarrow> string option option \<Rightarrow>
    error_scope option \<Rightarrow> store \<Rightarrow> (string \<times> bool) \<times> store" where
  "statusOp now i st err scope =
     (let newStatus = (\<lambda>a. case st of None \<Rightarrow> status a | Some x \<Rightarrow> x);
          newError = (\<lambda>a. lastErrorAssignment err scope (last_error a))
      in changeAccount now i (\<lambda>a. newStatus a \<noteq> status a \<or> newError a \<noteq> last_error a)
           (\<lambda>a. a\<lparr>status := newStatus a, last_error := newError a\<rparr>))"

fun accountWriteTx :: "deps \<Rightarrow> time \<Rightarrow> account_write_op \<Rightarrow> store \<Rightarrow>
    tx_error + ((string \<times> bool) \<times> store)" where
  "accountWriteTx D now (CreateOp src idt cfg st cad) s = createOp D now src idt cfg st cad s"
| "accountWriteTx D now (GetOrCreateOp src idt) s = getOrCreateOp D now src idt s"
| "accountWriteTx D now (CadenceOp i c) s =
     Inr (changeAccount now i (\<lambda>a. cadence a \<noteq> c) (\<lambda>a. a\<lparr>cadence := c\<rparr>) s)"
| "accountWriteTx D now (ConfigOp i c) s =
     Inr (setConfig now i (keepOptions (configById i s) c) s)"
| "accountWriteTx D now (OptionOp i k v) s = optionOp now i k v s"
| "accountWriteTx D now (StatusOp i st err scope) s = Inr (statusOp now i st err scope s)"

definition accountWrite :: "deps \<Rightarrow> time \<Rightarrow> account_write_op \<Rightarrow> store \<Rightarrow>
    tx_error + ((string \<times> bool) \<times> store)" where
  "accountWrite D now w = publishing (accountWriteTx D now w)"

section \<open>Taking over another device's accounts\<close>

record import_entry =
  ie_source :: string
  ie_identifier :: string
  ie_config :: "jobj option"
  ie_cadence :: "json option"
  ie_blob :: "nat list option"
  ie_owner :: "string option"
  ie_stable :: bool
  ie_installed :: bool

record import_result =
  ir_created :: "string list"
  ir_existing :: "string list"
  ir_needsConnector :: "string list"
  ir_needsSources :: "(string \<times> string) list"

definition stampEpoch :: "store \<Rightarrow> nat" where
  "stampEpoch s = (if tracking (sync_state s) then epoch (sync_state s) else 0)"

definition stampN :: "store \<Rightarrow> nat" where
  "stampN s = (if tracking (sync_state s)
     then foldr max (map vn (filter (\<lambda>v. vepoch v = epoch (sync_state s)) (vault s))) 0 + 1
     else 0)"

definition vaultRow :: "string \<Rightarrow> store \<Rightarrow> vault_row option" where
  "vaultRow i s = find (\<lambda>v. vaccount v = i) (vault s)"

text \<open>INSERT INTO vault ... ON CONFLICT(account_id) DO NOTHING\<close>

definition vaultInsert :: "string \<Rightarrow> nat list option \<Rightarrow> store \<Rightarrow> store" where
  "vaultInsert i blob s = (case blob of
     None \<Rightarrow> s
   | Some b \<Rightarrow>
       if vaultRow i s \<noteq> None then s
       else s\<lparr>vault := vault s @ [\<lparr>vaccount = i, vblob = b, vepoch = stampEpoch s, vn = stampN s\<rparr>]\<rparr>)"

definition lacking :: "import_entry \<Rightarrow> string \<Rightarrow> import_result \<Rightarrow> import_result" where
  "lacking e i out = out\<lparr>ir_needsConnector := ir_needsConnector out @ [i],
     ir_needsSources := ir_needsSources out @ [(ie_source e, ie_identifier e)]\<rparr>"

definition seenAccount :: "import_entry \<Rightarrow> account_row \<Rightarrow> import_result \<Rightarrow> import_result" where
  "seenAccount e a out =
     (let out1 = out\<lparr>ir_existing := ir_existing out @ [aid a]\<rparr>
      in if status a = NeedsConnector then lacking e (aid a) out1 else out1)"

definition importIdentifier :: "string \<Rightarrow> import_entry \<Rightarrow> string" where
  "importIdentifier sfx e =
     (if ie_owner e = None \<and> \<not> ie_stable e then ie_identifier e @ ''#'' @ sfx else ie_identifier e)"

definition importStatus :: "import_entry \<Rightarrow> sync_status" where
  "importStatus e = (if ie_owner e \<noteq> None then Paused
     else if ie_installed e then Connecting else NeedsConnector)"

definition importedAccount :: "deps \<Rightarrow> time \<Rightarrow> string \<Rightarrow> import_entry \<Rightarrow> account_row" where
  "importedAccount D now sfx e = (blankAccount D now (ie_source e) (importIdentifier sfx e))\<lparr>
     config := ie_config e, status := importStatus e,
     last_error := map_option (\<lambda>d. ''Owned by '' @ take 8 d) (ie_owner e),
     cadence := ie_cadence e, owner_device_id := ie_owner e\<rparr>"

text \<open>
  Both look-ups of the code ask for the row of the identifier the entry will be stored under;
  \<open>ON CONFLICT DO NOTHING\<close> after them finds the row that raced, which the same look-up sees.
\<close>

definition importOne :: "deps \<Rightarrow> time \<Rightarrow> bool \<Rightarrow> string \<Rightarrow> import_entry \<Rightarrow>
    import_result \<times> store \<Rightarrow> tx_error + (import_result \<times> store)" where
  "importOne D now repeated sfx e os = (case os of (out, s) \<Rightarrow>
     case findAccount (ie_source e) (importIdentifier sfx e) s of
       Some a \<Rightarrow> Inr (seenAccount e a out, s)
     | None \<Rightarrow>
         if repeated then Inr (out, s)
         else let row = importedAccount D now sfx e in
           ebind (insertAccount row s) (\<lambda>s1.
             let s2 = snd (appendChange now AccountChange (aid row) s1);
                 s3 = vaultInsert (aid row) (ie_blob e) s2;
                 out1 = out\<lparr>ir_created := ir_created out @ [aid row]\<rparr>
             in Inr (if status row = NeedsConnector then lacking e (aid row) out1 else out1, s3)))"

definition importSourcesTx :: "deps \<Rightarrow> time \<Rightarrow> string \<Rightarrow> string \<Rightarrow> import_entry list \<Rightarrow> store \<Rightarrow>
    tx_error + (import_result \<times> store)" where
  "importSourcesTx D now offerId from_device entries s =
     (let repeated = offerId \<in> set (sync_offers s);
          s1 = (if repeated then s else s\<lparr>sync_offers := sync_offers s @ [offerId]\<rparr>)
      in efold (importOne D now repeated (take 8 from_device)) entries
           (\<lparr>ir_created = [], ir_existing = [], ir_needsConnector = [], ir_needsSources = []\<rparr>, s1))"

definition importSources :: "deps \<Rightarrow> time \<Rightarrow> string \<Rightarrow> string \<Rightarrow> import_entry list \<Rightarrow> store \<Rightarrow>
    tx_error + (import_result \<times> store)" where
  "importSources D now offerId from_device entries =
     publishing (importSourcesTx D now offerId from_device entries)"

section \<open>Logins from the leader\<close>

record secret_entry =
  se_account :: string
  se_epoch :: nat
  se_n :: nat
  se_blob :: "nat list"

definition NEWER :: "nat \<times> nat \<Rightarrow> nat \<times> nat \<Rightarrow> bool" where
  "NEWER a b \<longleftrightarrow> fst a > fst b \<or> (fst a = fst b \<and> snd a > snd b)"

definition vaultStamp :: "vault_row \<Rightarrow> nat \<times> nat" where
  "vaultStamp v = (vepoch v, vn v)"

definition secretRow :: "secret_entry \<Rightarrow> vault_row" where
  "secretRow e = \<lparr>vaccount = se_account e, vblob = se_blob e, vepoch = se_epoch e, vn = se_n e\<rparr>"

definition putSecret :: "secret_entry \<Rightarrow> nat \<times> store \<Rightarrow> nat \<times> store" where
  "putSecret e ns = (case ns of (applied, s) \<Rightarrow>
     case vaultRow (se_account e) s of
       None \<Rightarrow> (applied + 1, s\<lparr>vault := vault s @ [secretRow e]\<rparr>)
     | Some v \<Rightarrow>
         if NEWER (se_epoch e, se_n e) (vaultStamp v)
         then (applied + 1, s\<lparr>vault := upd_where (\<lambda>v. vaccount v = se_account e)
                (\<lambda>_. secretRow e) (vault s)\<rparr>)
         else (applied, s))"

definition importSecretsTx :: "secret_entry list \<Rightarrow> store \<Rightarrow> tx_error + (nat \<times> store)" where
  "importSecretsTx entries s =
     (if role (sync_state s) \<noteq> Follower then Inl OnlyFollower
      else Inr (fold putSecret entries (0, s)))"

end
