(* ===== verification/Reconcile.thy ===== *)
theory Reconcile
  imports AccountWrite
begin

text \<open>
  The reconcile procedures of src/main/core/store/write-tx.ts: a connector's full listing is
  staged in a TEMP table of this connection, the documents it does not mention are counted and
  archived in chunks. A restart of the DB worker is a new connection, without the TEMP tables.
\<close>

section \<open>Staging\<close>

text \<open>The rows of the two TEMP tables.\<close>

definition listingRows :: "store \<Rightarrow> (string \<times> external_ref) list" where
  "listingRows s = (case reconcile_temp s of None \<Rightarrow> [] | Some (l, _) \<Rightarrow> l)"

definition passRows :: "store \<Rightarrow> string list" where
  "passRows s = (case reconcile_temp s of None \<Rightarrow> [] | Some (_, p) \<Rightarrow> p)"

definition beginPass :: "string \<Rightarrow> store \<Rightarrow> store" where
  "beginPass acct s = s\<lparr>reconcile_temp := Some
     (filter (\<lambda>l. fst l \<noteq> acct) (listingRows s), List.insert acct (passRows s))\<rparr>"

definition requirePass :: "string \<Rightarrow> store \<Rightarrow> tx_error + unit" where
  "requirePass acct s =
     (if reconcile_temp s = None \<or> acct \<notin> set (passRows s) then Inl (StagingLost acct) else Inr ())"

definition endPass :: "string \<Rightarrow> store \<Rightarrow> store" where
  "endPass acct s = s\<lparr>reconcile_temp := map_option
     (\<lambda>(l, p). (filter (\<lambda>l. fst l \<noteq> acct) l, filter (\<lambda>a. a \<noteq> acct) p)) (reconcile_temp s)\<rparr>"

text \<open>INSERT OR IGNORE; an absent listing table is an error of the statement.\<close>

definition stageOne :: "string \<Rightarrow> external_ref \<Rightarrow> store \<Rightarrow> tx_error + store" where
  "stageOne acct r s = (case reconcile_temp s of
     None \<Rightarrow> Inl (ConstraintFailed ''reconcile_listing'')
   | Some (l, p) \<Rightarrow>
       Inr (s\<lparr>reconcile_temp := Some (if (acct, r) \<in> set l then l else l @ [(acct, r)], p)\<rparr>))"

definition stageTx :: "string \<Rightarrow> external_ref list \<Rightarrow> store \<Rightarrow> tx_error + store" where
  "stageTx acct refs s = efold (stageOne acct) refs s"

definition reconcileStage :: "string \<Rightarrow> external_ref list \<Rightarrow> store \<Rightarrow> tx_error + store" where
  "reconcileStage acct refs s = ebind (requirePass acct s) (\<lambda>_.
     if refs = [] then Inr s else stageTx acct refs s)"

section \<open>The diff\<close>

definition refOf :: "doc_row \<Rightarrow> external_ref" where
  "refOf d = \<lparr>externalId = external_id d, rtype = dtype d\<rparr>"

definition eligible :: "string \<Rightarrow> nat \<Rightarrow> doc_row \<Rightarrow> bool" where
  "eligible acct startSeq d \<longleftrightarrow> account_id d = acct \<and> archived_at d = None \<and> seq d \<le> startSeq"

definition listed :: "store \<Rightarrow> doc_row \<Rightarrow> bool" where
  "listed s d \<longleftrightarrow> (account_id d, refOf d) \<in> set (listingRows s)"

text \<open>A child is kept while its parent is live and either listed or newer than the snapshot.\<close>

definition keptByParent :: "nat \<Rightarrow> store \<Rightarrow> doc_row \<Rightarrow> bool" where
  "keptByParent startSeq s d = (case parent_id d of
     None \<Rightarrow> False
   | Some i \<Rightarrow> (case docById i s of
       None \<Rightarrow> False
     | Some p \<Rightarrow> archived_at p = None \<and> (seq p > startSeq \<or> listed s p)))"

definition unlisted :: "nat \<Rightarrow> store \<Rightarrow> doc_row \<Rightarrow> bool" where
  "unlisted startSeq s d \<longleftrightarrow> \<not> listed s d \<and> \<not> keptByParent startSeq s d"

record reconcile_counts =
  listedCount :: nat
  liveCount :: nat
  deletionCount :: nat

definition reconcileDiff :: "string \<Rightarrow> nat \<Rightarrow> store \<Rightarrow> tx_error + reconcile_counts" where
  "reconcileDiff acct startSeq s = ebind (requirePass acct s) (\<lambda>_.
     let top = filter (\<lambda>d. eligible acct startSeq d \<and> parent_id d = None) (documents s) in
     Inr \<lparr>listedCount = length (filter (\<lambda>l. fst l = acct) (listingRows s)),
          liveCount = length top,
          deletionCount = length (filter (unlisted startSeq s) top)\<rparr>)"

section \<open>Archiving a chunk\<close>

text \<open>LIMIT without ORDER BY: the rows are taken in rowid order.\<close>

definition chunkRows :: "string \<Rightarrow> nat \<Rightarrow> nat \<Rightarrow> store \<Rightarrow> doc_row list" where
  "chunkRows acct startSeq limit s =
     take limit (filter (\<lambda>d. eligible acct startSeq d \<and> unlisted startSeq s d) (documents s))"

definition archiveFamily :: "time \<Rightarrow> string \<Rightarrow> store \<Rightarrow> store" where
  "archiveFamily now i s = snd (archiveChildren now i (snd (archiveRow now i s)))"

definition archiveBatchTx :: "time \<Rightarrow> string \<Rightarrow> nat \<Rightarrow> nat \<Rightarrow> store \<Rightarrow> nat \<times> store" where
  "archiveBatchTx now acct startSeq limit s =
     (let rows = chunkRows acct startSeq limit s;
          s1 = s\<lparr>archivedRefs := map_option (\<lambda>rs. rs @ map refOf rows) (archivedRefs s)\<rparr>
      in (length rows, fold (archiveFamily now) (map did rows) s1))"

definition RECONCILE_ARCHIVE_BATCH :: nat where
  "RECONCILE_ARCHIVE_BATCH = 5000"

record chunk_result =
  archived :: nat
  chunk_done :: bool

definition reconcileArchiveChunk :: "time \<Rightarrow> string \<Rightarrow> nat \<Rightarrow> nat \<Rightarrow> store \<Rightarrow>
    tx_error + (chunk_result \<times> store)" where
  "reconcileArchiveChunk now acct startSeq limit s = ebind (requirePass acct s) (\<lambda>_.
     let (n, s1) = archiveBatchTx now acct startSeq limit s in
     if n < limit then Inr (\<lparr>archived = n, chunk_done = True\<rparr>, endPass acct s1)
     else Inr (\<lparr>archived = n, chunk_done = False\<rparr>, s1))"

text \<open>A new connection: the TEMP tables and the closure's memory are gone.\<close>

definition reconnect :: "store \<Rightarrow> store" where
  "reconnect s = s\<lparr>reconcile_temp := None,
     accountPublishedAt := Map.empty, accountAppends := [], appended := 0, archivedRefs := None\<rparr>"

end
