(* ===== verification/EnginePass.thy ===== *)
theory EnginePass
  imports Reconcile
begin

text \<open>
  \<open>reconcilePass\<close> of src/main/core/engine/engine.ts: one pass drains a source's listing into the
  store, asks for the diff, refuses a suspicious one and archives in chunks.

  Between two awaits of the pass anything else may run: \<open>env k\<close> is what the rest of the system
  does to the store after the pass's k-th call (other accounts' commits, the concurrent pull, a
  restart of the DB worker). \<open>aborts k\<close> is the state of the abort signal then. The chunk loop
  runs on fuel; None is running out of it.
\<close>

section \<open>Calls to the store\<close>

type_synonym world = "nat \<times> store"

type_synonym 'a io = "world \<Rightarrow> ((tx_error + 'a) \<times> world) option"

record pass_env =
  env :: "nat \<Rightarrow> store \<Rightarrow> store"
  aborts :: "nat \<Rightarrow> bool"
  clock :: "nat \<Rightarrow> time"
  errText :: "tx_error \<Rightarrow> string" \<comment> \<open>\<open>err.message\<close>\<close>

definition io_ret :: "'a \<Rightarrow> 'a io" where
  "io_ret a w = Some (Inr a, w)"

definition io_throw :: "tx_error \<Rightarrow> 'a io" where
  "io_throw e w = Some (Inl e, w)"

definition io_bind :: "'a io \<Rightarrow> ('a \<Rightarrow> 'b io) \<Rightarrow> 'b io" where
  "io_bind m f w = (case m w of
     None \<Rightarrow> None
   | Some (Inl e, w') \<Rightarrow> Some (Inl e, w')
   | Some (Inr a, w') \<Rightarrow> f a w')"

text \<open>\<open>try { m } catch (err) { h(err) }\<close>\<close>

definition io_catch :: "'a io \<Rightarrow> (tx_error \<Rightarrow> 'a io) \<Rightarrow> 'a io" where
  "io_catch m h w = (case m w of
     None \<Rightarrow> None
   | Some (Inl e, w') \<Rightarrow> h e w'
   | Some (Inr a, w') \<Rightarrow> Some (Inr a, w'))"

text \<open>One awaited transaction: a throw leaves the store, and the world moves on either way.\<close>

definition call :: "pass_env \<Rightarrow> (time \<Rightarrow> store \<Rightarrow> tx_error + ('a \<times> store)) \<Rightarrow> 'a io" where
  "call E f w = (case w of (k, s) \<Rightarrow> (case f (clock E k) s of
     Inl e \<Rightarrow> Some (Inl e, (Suc k, env E k s))
   | Inr (a, t) \<Rightarrow> Some (Inr a, (Suc k, env E k t))))"

definition signalAborted :: "pass_env \<Rightarrow> bool io" where
  "signalAborted E w = Some (Inr (aborts E (fst w)), w)"

definition returning_unit :: "tx_error + store \<Rightarrow> tx_error + (unit \<times> store)" where
  "returning_unit m = ebind m (\<lambda>t. Inr ((), t))"

section \<open>Draining the listing\<close>

definition RECONCILE_STAGE_BATCH :: nat where
  "RECONCILE_STAGE_BATCH = 10000"

text \<open>\<open>batch.push(ref); if (batch.length >= N) { stage(batch); batch = [] }\<close>\<close>

definition pushRef :: "nat \<Rightarrow> (external_ref list \<Rightarrow> unit io) \<Rightarrow> external_ref \<Rightarrow>
    external_ref list \<Rightarrow> external_ref list io" where
  "pushRef N stage r batch =
     (let b = batch @ [r] in
      if length b \<ge> N then io_bind (stage b) (\<lambda>_. io_ret []) else io_ret b)"

fun pushRefs :: "nat \<Rightarrow> (external_ref list \<Rightarrow> unit io) \<Rightarrow> external_ref list \<Rightarrow>
    external_ref list \<Rightarrow> external_ref list io" where
  "pushRefs N stage [] batch = io_ret batch"
| "pushRefs N stage (r # rs) batch = io_bind (pushRef N stage r batch) (pushRefs N stage rs)"

text \<open>The pages the source yields before it returns or throws; \<open>abortable\<close> stops on abort.\<close>

record listing =
  pages :: "external_ref list list"
  failure :: "string option"

fun drainPages :: "pass_env \<Rightarrow> nat \<Rightarrow> (external_ref list \<Rightarrow> unit io) \<Rightarrow> external_ref list list \<Rightarrow>
    string option \<Rightarrow> external_ref list \<Rightarrow> external_ref list io" where
  "drainPages E N stage [] fl batch = io_bind (signalAborted E) (\<lambda>ab.
     if ab then io_ret batch
     else case fl of None \<Rightarrow> io_ret batch | Some msg \<Rightarrow> io_throw (Thrown msg))"
| "drainPages E N stage (p # ps) fl batch = io_bind (signalAborted E) (\<lambda>ab.
     if ab then io_ret batch
     else io_bind (pushRefs N stage p batch) (drainPages E N stage ps fl))"

definition drain :: "pass_env \<Rightarrow> nat \<Rightarrow> (external_ref list \<Rightarrow> unit io) \<Rightarrow> listing \<Rightarrow> unit io" where
  "drain E N stage l = io_bind (drainPages E N stage (pages l) (failure l) []) (\<lambda>batch.
     if batch = [] then io_ret () else stage batch)"

section \<open>The breaker\<close>

definition MASS_ARCHIVE_MIN_DOCS :: nat where
  "MASS_ARCHIVE_MIN_DOCS = 100"

datatype allowance_kind = FullAllowance | RatioAllowance

text \<open>\<open>deletionCount > liveCount * 0.5\<close>, without the fraction.\<close>

definition refusal :: "allowance_kind option \<Rightarrow> reconcile_counts \<Rightarrow> string option" where
  "refusal allowance c =
     (if allowance = Some FullAllowance then None
      else if listedCount c = 0 then Some ''the listing came back empty''
      else if allowance \<noteq> Some RatioAllowance \<and> deletionCount c > MASS_ARCHIVE_MIN_DOCS \<and>
              2 * deletionCount c > liveCount c
      then Some ''the listing shrank suspiciously'' else None)"

definition refusalText :: "reconcile_counts \<Rightarrow> string \<Rightarrow> string" where
  "refusalText c why = RECONCILE_ERROR_PREFIX @ ''refusing to archive '' @
     show_nat (deletionCount c) @ '' of '' @ show_nat (liveCount c) @ '' documents ('' @ why @
     ''). If this shrinkage is real, re-save the account's settings to apply the cleanup.''"

section \<open>The pass\<close>

definition setAccountStatus :: "deps \<Rightarrow> pass_env \<Rightarrow> string \<Rightarrow> sync_status option \<Rightarrow>
    string option option \<Rightarrow> error_scope option \<Rightarrow> unit io" where
  "setAccountStatus D E acct st err scope = call E (\<lambda>now s.
     ebind (accountWrite D now (StatusOp acct st err scope) s) (\<lambda>(_, t). Inr ((), t)))"

definition finishPass :: "deps \<Rightarrow> pass_env \<Rightarrow> string \<Rightarrow> string option \<Rightarrow> unit io" where
  "finishPass D E acct err = setAccountStatus D E acct None (Some err)
     (if err = None then Some ReconcileScope else None)"

definition endCall :: "pass_env \<Rightarrow> string \<Rightarrow> unit io" where
  "endCall E acct = call E (\<lambda>now s. Inr ((), endPass acct s))"

definition stageCall :: "pass_env \<Rightarrow> string \<Rightarrow> external_ref list \<Rightarrow> unit io" where
  "stageCall E acct refs = call E (\<lambda>now s. returning_unit (reconcileStage acct refs s))"

definition diffCall :: "pass_env \<Rightarrow> string \<Rightarrow> nat \<Rightarrow> reconcile_counts io" where
  "diffCall E acct startSeq = call E (\<lambda>now s.
     ebind (reconcileDiff acct startSeq s) (\<lambda>c. Inr (c, s)))"

text \<open>\<open>admission.acquire\<close> rejects when the signal is aborted.\<close>

definition admitChunk :: "pass_env \<Rightarrow> unit io" where
  "admitChunk E = io_bind (signalAborted E) (\<lambda>ab. if ab then io_throw Aborted else io_ret ())"

definition chunkCall :: "pass_env \<Rightarrow> string \<Rightarrow> nat \<Rightarrow> chunk_result io" where
  "chunkCall E acct startSeq = call E (\<lambda>now s.
     reconcileArchiveChunk now acct startSeq RECONCILE_ARCHIVE_BATCH s)"

fun archiveLoop :: "nat \<Rightarrow> pass_env \<Rightarrow> string \<Rightarrow> nat \<Rightarrow> unit io" where
  "archiveLoop 0 E acct startSeq = (\<lambda>w. None)"
| "archiveLoop (Suc fuel) E acct startSeq = io_bind (admitChunk E) (\<lambda>_.
     io_bind (chunkCall E acct startSeq) (\<lambda>r.
       if chunk_done r then io_ret () else archiveLoop fuel E acct startSeq))"

definition afterDiff :: "nat \<Rightarrow> deps \<Rightarrow> pass_env \<Rightarrow> string \<Rightarrow> nat \<Rightarrow> allowance_kind option \<Rightarrow>
    reconcile_counts \<Rightarrow> unit io" where
  "afterDiff fuel D E acct startSeq allowance c =
     (if deletionCount c = 0
      then io_bind (endCall E acct) (\<lambda>_. finishPass D E acct None)
      else case refusal allowance c of
        Some why \<Rightarrow> io_bind (endCall E acct) (\<lambda>_. finishPass D E acct (Some (refusalText c why)))
      | None \<Rightarrow> io_bind (archiveLoop fuel E acct startSeq) (\<lambda>_. finishPass D E acct None))"

definition passBody :: "nat \<Rightarrow> deps \<Rightarrow> pass_env \<Rightarrow> string \<Rightarrow> nat \<Rightarrow> allowance_kind option \<Rightarrow>
    listing \<Rightarrow> unit io" where
  "passBody fuel D E acct startSeq allowance l =
     io_bind (drain E RECONCILE_STAGE_BATCH (stageCall E acct) l) (\<lambda>_.
     io_bind (signalAborted E) (\<lambda>ab.
       if ab then endCall E acct
       else io_bind (diffCall E acct startSeq) (afterDiff fuel D E acct startSeq allowance)))"

definition passFailed :: "deps \<Rightarrow> pass_env \<Rightarrow> string \<Rightarrow> tx_error \<Rightarrow> unit io" where
  "passFailed D E acct e = io_bind (endCall E acct) (\<lambda>_.
     io_bind (signalAborted E) (\<lambda>ab.
       if ab then io_ret ()
       else finishPass D E acct (Some (RECONCILE_ERROR_PREFIX @ errText E e))))"

text \<open>\<open>l\<close> is None when the source has no \<open>reconcile\<close>.\<close>

definition reconcilePass :: "nat \<Rightarrow> deps \<Rightarrow> pass_env \<Rightarrow> string \<Rightarrow> allowance_kind option \<Rightarrow>
    listing option \<Rightarrow> unit io" where
  "reconcilePass fuel D E acct allowance lst = (case lst of
     None \<Rightarrow> io_ret ()
   | Some l \<Rightarrow>
       io_bind (call E (\<lambda>now s. Inr (maxSeq s, s))) (\<lambda>startSeq.
       io_bind (call E (\<lambda>now s. Inr ((), beginPass acct s))) (\<lambda>_.
         io_catch (passBody fuel D E acct startSeq allowance l) (passFailed D E acct))))"

section \<open>What a config says of its scope\<close>

text \<open>\<open>String(v)\<close> of the values a config holds (a string is itself).\<close>

definition declaredScopeIds :: "(json option \<Rightarrow> string) \<Rightarrow> jobj \<Rightarrow> string list option" where
  "declaredScopeIds stringOf c = (case obj_get ''folderRoots'' c of
     Some (JArr rs) \<Rightarrow> Some (map (\<lambda>r. stringOf (case r of JObj ob \<Rightarrow> obj_get ''id'' ob | _ \<Rightarrow> None)) rs)
   | _ \<Rightarrow> (case obj_get ''roots'' c of
       Some (JArr rs) \<Rightarrow>
         Some (map (\<lambda>r. stringOf (case r of JObj ob \<Rightarrow> obj_get ''rootFolderId'' ob | _ \<Rightarrow> None)) rs)
     | _ \<Rightarrow> (case obj_get ''paths'' c of
         Some (JArr ps) \<Rightarrow>
           if \<forall>p \<in> set ps. case p of JStr _ \<Rightarrow> True | _ \<Rightarrow> False
           then Some (map (\<lambda>p. case p of JStr t \<Rightarrow> t | _ \<Rightarrow> []) ps) else None
       | _ \<Rightarrow> None)))"

definition SCOPE_KEYS :: "string list" where
  "SCOPE_KEYS = [''folderRoots'', ''roots'', ''paths'']"

definition pickScopeKeys :: "jobj \<Rightarrow> jobj" where
  "pickScopeKeys c = concat (map (\<lambda>k. case obj_get k c of None \<Rightarrow> [] | Some v \<Rightarrow> [(k, v)]) SCOPE_KEYS)"

end
