(* ===== verification/ReconcileInv.thy ===== *)
theory ReconcileInv
  imports Reconcile Samples
begin

text \<open>
  The reconcile procedures keep the invariant; a chunk archives the eligible documents the
  listing does not mention, with their children, and nothing else; the chunk that reports
  \<open>done\<close> leaves none of them; the loop over the chunks ends.
\<close>

section \<open>A run of archivings\<close>

definition archiving :: "time \<Rightarrow> string list \<Rightarrow> store \<Rightarrow> store" where
  "archiving now is s = fold (\<lambda>i. touch now i (archivedRow now)) is s"

lemma archiving_simps [simp]:
  "archiving now [] s = s"
  "archiving now (i # is) s = archiving now is (touch now i (archivedRow now) s)"
  "archiving now (is @ js) s = archiving now js (archiving now is s)"
  by (simp_all add: archiving_def)

lemma archiving_inv: "store_inv D s \<Longrightarrow> store_inv D (archiving now is s)"
  by (induction "is" arbitrary: s) (simp_all add: store_inv_touch)

lemma archiving_extends: "extends s (archiving now is s)"
  by (induction "is" arbitrary: s) (auto intro: extends_trans [OF extends_touch])

text \<open>The rows named by \<open>is\<close> become archived; keys and parents stay; the others are not touched.\<close>

definition archives :: "string set \<Rightarrow> (doc_row \<Rightarrow> doc_row) \<Rightarrow> bool" where
  "archives I g \<longleftrightarrow> (\<forall>d. did (g d) = did d \<and> nat_key (g d) = nat_key d \<and>
     parent_id (g d) = parent_id d \<and> (did d \<notin> I \<longrightarrow> g d = d) \<and>
     (did d \<in> I \<longrightarrow> archived_at (g d) \<noteq> None) \<and>
     (archived_at d \<noteq> None \<longrightarrow> archived_at (g d) \<noteq> None))"

lemma archives_comp: "archives I g \<Longrightarrow> archives J h \<Longrightarrow> archives (I \<union> J) (h \<circ> g)"
  by (auto simp: archives_def)

lemma archiving_documents:
  "\<exists>g. archives (set is) g \<and> documents (archiving now is s) = map g (documents s)"
proof (induction "is" arbitrary: s)
  case Nil
  then show ?case by (intro exI [of _ id]) (simp add: archives_def)
next
  case (Cons i "is")
  let ?g = "\<lambda>d. if did d = i then archivedRow now (Suc (change_counter s)) d else d"
  have g: "archives {i} ?g"
    by (auto simp: archives_def archivedRow_def nat_key_def)
  obtain h where h: "archives (set is) h"
    "documents (archiving now is (touch now i (archivedRow now) s)) =
      map h (documents (touch now i (archivedRow now) s))"
    using Cons.IH by blast
  have "archives ({i} \<union> set is) (h \<circ> ?g)" by (rule archives_comp [OF g h(1)])
  moreover have "documents (archiving now (i # is) s) = map (h \<circ> ?g) (documents s)"
    using h(2) by (simp add: upd_where_def)
  ultimately show ?case by auto
qed

lemma archiving_side [simp]:
  "reconcile_temp (archiving now is s) = reconcile_temp s"
  "archivedRefs (archiving now is s) = archivedRefs s"
  "accounts (archiving now is s) = accounts s"
  by (induction "is" arbitrary: s)
    (simp_all add: touch_def appendChange_def updDoc_def Let_def)

lemma archiveChildren_archiving:
  "snd (archiveChildren now p s) = archiving now (liveChildren p s) s"
proof -
  have "snd (fold (archiveKid now) is (k, s)) = archiving now is s" for k s "is"
    by (induction "is" arbitrary: k s) (simp_all add: archiveKid_touch)
  then show ?thesis by (simp add: archiveChildren_def)
qed

lemma archiveFamily_archiving:
  "archiveFamily now i s =
    archiving now (i # liveChildren i (touch now i (archivedRow now) s)) s"
  by (simp add: archiveFamily_def archiveRow_touch archiveChildren_archiving)

text \<open>The ids a live child of \<open>p\<close> can have do not grow while rows are archived.\<close>

lemma liveChildren_archives:
  assumes "archives I g" "documents t = map g (documents s)"
  shows "set (liveChildren p t) \<subseteq> set (liveChildren p s)"
proof
  fix i assume "i \<in> set (liveChildren p t)"
  then obtain d where d: "d \<in> set (documents s)" "did (g d) = i" "parent_id (g d) = Some p"
    "archived_at (g d) = None"
    by (auto simp: liveChildren_def assms(2))
  with assms(1) have "did d = i" "parent_id d = Some p" "archived_at d = None"
    by (auto simp: archives_def)
  with d(1) show "i \<in> set (liveChildren p s)" by (force simp: liveChildren_def)
qed

lemma families_archiving:
  "\<exists>js. fold (archiveFamily now) is s = archiving now js s \<and> set is \<subseteq> set js \<and>
     set js \<subseteq> set is \<union> (\<Union>i \<in> set is. set (liveChildren i s))"
proof (induction "is" arbitrary: s)
  case (Cons i "is")
  let ?u = "touch now i (archivedRow now) s"
  let ?ks = "liveChildren i ?u"
  have fam: "archiveFamily now i s = archiving now (i # ?ks) s"
    by (rule archiveFamily_archiving)
  let ?t = "archiving now (i # ?ks) s"
  obtain js where js: "fold (archiveFamily now) is ?t = archiving now js ?t" "set is \<subseteq> set js"
    "set js \<subseteq> set is \<union> (\<Union>j \<in> set is. set (liveChildren j ?t))"
    using Cons.IH by blast
  obtain g where "archives (set (i # ?ks)) g" "documents ?t = map g (documents s)"
    using archiving_documents by blast
  from liveChildren_archives [OF this] have kids: "set (liveChildren j ?t) \<subseteq> set (liveChildren j s)" for j .
  obtain h where "archives (set [i]) h" "documents (archiving now [i] s) = map h (documents s)"
    using archiving_documents by blast
  from liveChildren_archives [OF this] have "set ?ks \<subseteq> set (liveChildren i s)" by simp
  then have "set (i # ?ks @ js) \<subseteq> set (i # is) \<union> (\<Union>j \<in> set (i # is). set (liveChildren j s))"
    using js(3) kids by fastforce
  moreover have "fold (archiveFamily now) (i # is) s = archiving now (i # ?ks @ js) s"
    using js(1) fam by simp
  ultimately show ?case
    using js(2) by (intro exI [of _ "i # ?ks @ js"]) auto
qed simp

section \<open>A chunk\<close>

lemma archiveBatchTx_archiving:
  "\<exists>js. snd (archiveBatchTx now acct n limit s) =
      archiving now js (s\<lparr>archivedRefs := map_option
        (\<lambda>rs. rs @ map refOf (chunkRows acct n limit s)) (archivedRefs s)\<rparr>) \<and>
    did ` set (chunkRows acct n limit s) \<subseteq> set js \<and>
    set js \<subseteq> did ` set (chunkRows acct n limit s) \<union>
      (\<Union>d \<in> set (chunkRows acct n limit s). set (liveChildren (did d) s))"
proof -
  let ?rows = "chunkRows acct n limit s"
  let ?s1 = "s\<lparr>archivedRefs := map_option (\<lambda>rs. rs @ map refOf ?rows) (archivedRefs s)\<rparr>"
  have "liveChildren p ?s1 = liveChildren p s" for p by (simp add: liveChildren_def)
  with families_archiving [of now "map did ?rows" ?s1] show ?thesis
    by (auto simp: archiveBatchTx_def Let_def)
qed

lemma chunkRows_D:
  "d \<in> set (chunkRows acct n limit s) \<Longrightarrow>
    d \<in> set (documents s) \<and> eligible acct n d \<and> unlisted n s d"
  by (auto simp: chunkRows_def dest: in_set_takeD)

lemma chunk_Inr:
  assumes "reconcileArchiveChunk now acct n limit s = Inr (r, t)"
  shows "requirePass acct s = Inr () \<and> archived r = length (chunkRows acct n limit s) \<and>
    chunk_done r = (archived r < limit) \<and>
    t = (if chunk_done r then endPass acct (snd (archiveBatchTx now acct n limit s))
          else snd (archiveBatchTx now acct n limit s))"
proof -
  obtain k s1 where b: "archiveBatchTx now acct n limit s = (k, s1)" by fastforce
  then have "k = length (chunkRows acct n limit s)" by (simp add: archiveBatchTx_def Let_def)
  moreover have p: "requirePass acct s = Inr ()"
    using assms by (auto simp: reconcileArchiveChunk_def)
  moreover have "reconcileArchiveChunk now acct n limit s = Inr (if k < limit
      then (\<lparr>archived = k, chunk_done = True\<rparr>, endPass acct s1)
      else (\<lparr>archived = k, chunk_done = False\<rparr>, s1))"
    by (simp add: reconcileArchiveChunk_def b p)
  then have "r = \<lparr>archived = k, chunk_done = (k < limit)\<rparr>"
    "t = (if k < limit then endPass acct s1 else s1)"
    using assms by (simp_all split: if_splits)
  ultimately show ?thesis by (simp add: b)
qed

lemma documents_endPass [simp]: "documents (endPass acct s) = documents s"
  by (simp add: endPass_def)

lemma chunk_documents:
  assumes "reconcileArchiveChunk now acct n limit s = Inr (r, t)"
  obtains g I where "archives I g" "documents t = map g (documents s)"
    "did ` set (chunkRows acct n limit s) \<subseteq> I"
    "I \<subseteq> did ` set (chunkRows acct n limit s) \<union>
      (\<Union>d \<in> set (chunkRows acct n limit s). set (liveChildren (did d) s))"
proof -
  let ?rows = "chunkRows acct n limit s"
  let ?s1 = "s\<lparr>archivedRefs := map_option (\<lambda>rs. rs @ map refOf ?rows) (archivedRefs s)\<rparr>"
  obtain js where js: "snd (archiveBatchTx now acct n limit s) = archiving now js ?s1"
    "did ` set ?rows \<subseteq> set js"
    "set js \<subseteq> did ` set ?rows \<union> (\<Union>d \<in> set ?rows. set (liveChildren (did d) s))"
    using archiveBatchTx_archiving [of now acct n limit s] by (elim exE conjE) (rule that)
  obtain g where g: "archives (set js) g" "documents (archiving now js ?s1) = map g (documents ?s1)"
    using archiving_documents by blast
  have "documents t = map g (documents s)"
    using chunk_Inr [OF assms] js(1) g(2) by (simp split: if_splits)
  with g(1) js(2,3) show thesis by (intro that)
qed

section \<open>What a chunk archives\<close>

lemma chunk_sound:
  assumes "store_inv D s" "reconcileArchiveChunk now acct n limit s = Inr (r, t)"
    and "d \<in> set (documents s)"
  shows "d \<in> set (documents t) \<or>
    (\<exists>p \<in> set (documents s). eligible acct n p \<and> unlisted n s p \<and>
       (d = p \<or> (parent_id d = Some (did p) \<and> archived_at d = None)))"
proof -
  let ?rows = "chunkRows acct n limit s"
  obtain g I where g: "archives I g" "documents t = map g (documents s)" "did ` set ?rows \<subseteq> I"
    "I \<subseteq> did ` set ?rows \<union> (\<Union>d \<in> set ?rows. set (liveChildren (did d) s))"
    by (rule chunk_documents [OF assms(2)])
  have same: "e \<in> set (documents s) \<Longrightarrow> did e = did d \<Longrightarrow> e = d" for e
    using same_did [OF store_invD(1) [OF assms(1)], of e d] assms(3) by simp
  show ?thesis
  proof (cases "did d \<in> I")
    case False
    then have "g d = d" using g(1) by (simp add: archives_def)
    then show ?thesis using assms(3) g(2) by force
  next
    case True
    with g(4) consider p where "p \<in> set ?rows" "did d = did p"
      | p where "p \<in> set ?rows" "did d \<in> set (liveChildren (did p) s)"
      by blast
    then show ?thesis
    proof cases
      case 1
      with chunkRows_D [OF 1(1)] same [of p] show ?thesis by auto
    next
      case 2
      then obtain e where "e \<in> set (documents s)" "did e = did d" "parent_id e = Some (did p)"
        "archived_at e = None"
        by (auto simp: liveChildren_def)
      with same [of e] chunkRows_D [OF 2(1)] show ?thesis by auto
    qed
  qed
qed

text \<open>
  C26: a reconcile chunk is sound: a document changes only if it was live in the reconciled
  account, committed before the pass began and not mentioned by the listing, or is a live child of
  such a document; and no document is lost or revived.
\<close>

theorem reconcile_chunk_is_sound:
  assumes "store_inv D s" "reconcileArchiveChunk now acct n limit s = Inr (r, t)"
    and "d \<in> set (documents s)"
  shows "d \<in> set (documents t) \<or>
    (\<exists>p \<in> set (documents s). eligible acct n p \<and> unlisted n s p \<and>
       (d = p \<or> (parent_id d = Some (did p) \<and> archived_at d = None)))"
  by (rule chunk_sound [OF assms])

text \<open>Attachments have no children of their own.\<close>

definition one_level :: "store \<Rightarrow> bool" where
  "one_level s \<longleftrightarrow> (\<forall>d \<in> set (documents s). \<forall>p \<in> set (documents s).
     parent_id d = Some (did p) \<longrightarrow> parent_id p = None)"

lemma docById_map:
  assumes "archives I g" "documents t = map g (documents s)"
  shows "docById i t = map_option g (docById i s)"
proof -
  have "find (\<lambda>d. did d = i) (map g ds) = map_option g (find (\<lambda>d. did d = i) ds)" for ds
    using assms(1) by (induction ds) (auto simp: archives_def)
  then show ?thesis by (simp add: docById_def assms(2))
qed

lemma chunk_complete:
  assumes "store_inv D s" "one_level s" "reconcileArchiveChunk now acct n limit s = Inr (r, t)"
    and "chunk_done r" "d \<in> set (documents t)" "eligible acct n d"
  shows "listed s d \<or> (\<exists>p \<in> set (documents t). parent_id d = Some (did p) \<and>
    archived_at p = None \<and> (seq p > n \<or> listed s p))"
proof (rule ccontr)
  assume no: "\<not> ?thesis"
  let ?rows = "chunkRows acct n limit s"
  let ?all = "filter (\<lambda>d. eligible acct n d \<and> unlisted n s d) (documents s)"
  obtain g I where g: "archives I g" "documents t = map g (documents s)" "did ` set ?rows \<subseteq> I"
    "I \<subseteq> did ` set ?rows \<union> (\<Union>d \<in> set ?rows. set (liveChildren (did d) s))"
    by (rule chunk_documents [OF assms(3)])
  have "length ?rows < limit" using chunk_Inr [OF assms(3)] assms(4) by auto
  then have rows: "?rows = ?all" by (simp add: chunkRows_def)
  obtain d0 where d0: "d0 \<in> set (documents s)" "d = g d0" using assms(5) g(2) by auto
  have "did d0 \<in> I \<Longrightarrow> archived_at (g d0) \<noteq> None" using g(1) unfolding archives_def by blast
  then have "did d0 \<notin> I" using assms(6) d0(2) by (auto simp: eligible_def)
  then have d: "d = d0" using g(1) d0(2) by (simp add: archives_def)
  have "d0 \<notin> set ?rows" using \<open>did d0 \<notin> I\<close> g(3) by auto
  then have "\<not> unlisted n s d0" using rows d0(1) assms(6) d by auto
  with no d have "keptByParent n s d0" by (simp add: unlisted_def)
  then obtain p where p: "parent_id d0 = Some (did p)" "p \<in> set (documents s)"
    "archived_at p = None" "seq p > n \<or> listed s p"
    by (auto simp: keptByParent_def split: option.splits dest!: docById_Some)
  have "did p \<in> I"
  proof (rule ccontr)
    assume "did p \<notin> I"
    then have "g p = p" using g(1) by (simp add: archives_def)
    with p(2) g(2) have "p \<in> set (documents t)" by force
    with no d p show False by auto
  qed
  with g(4) consider q where "q \<in> set ?rows" "did p = did q"
    | q where "q \<in> set ?rows" "did p \<in> set (liveChildren (did q) s)"
    by blast
  then show False
  proof cases
    case 1
    then have "p = q"
      using same_did [OF store_invD(1) [OF assms(1)], of p q] p(2) chunkRows_D [OF 1(1)] by auto
    with chunkRows_D [OF 1(1)] p(4) show False by (auto simp: eligible_def unlisted_def)
  next
    case 2
    then obtain e where e: "e \<in> set (documents s)" "did e = did p" "parent_id e = Some (did q)"
      by (auto simp: liveChildren_def)
    then have "e = p" using same_did [OF store_invD(1) [OF assms(1)], of e p] p(2) by simp
    from assms(2) d0(1) p(1,2) have "parent_id p = None" unfolding one_level_def by blast
    with e(3) \<open>e = p\<close> show False by simp
  qed
qed

text \<open>
  C27: a reconcile chunk is complete: after the chunk that reports done, no document of the
  account that was committed before the pass began is live without being mentioned by the listing
  or kept by its parent (children having none of their own).
\<close>

theorem reconcile_done_is_complete:
  assumes "store_inv D s" "one_level s" "reconcileArchiveChunk now acct n limit s = Inr (r, t)"
    and "chunk_done r" "d \<in> set (documents t)" "eligible acct n d"
  shows "listed s d \<or> (\<exists>p \<in> set (documents t). parent_id d = Some (did p) \<and>
    archived_at p = None \<and> (seq p > n \<or> listed s p))"
  by (rule chunk_complete [OF assms])

lemma store_inv_temp [simp]:
  "store_inv D (s\<lparr>archivedRefs := a\<rparr>) = store_inv D s"
  "store_inv D (beginPass acct s) = store_inv D s" "store_inv D (endPass acct s) = store_inv D s"
  "store_inv D (reconnect s) = store_inv D s"
  by (simp_all add: store_inv_def keys_ok_def index_ok_def feed_ok_def refs_ok_def beginPass_def
      endPass_def reconnect_def)

lemma chunk_inv:
  assumes "reconcileArchiveChunk now acct n limit s = Inr (r, t)" "store_inv D s"
  shows "store_inv D t"
proof -
  obtain js where "snd (archiveBatchTx now acct n limit s) = archiving now js (s\<lparr>archivedRefs :=
      map_option (\<lambda>rs. rs @ map refOf (chunkRows acct n limit s)) (archivedRefs s)\<rparr>)"
    using archiveBatchTx_archiving [of now acct n limit s] by (elim exE conjE) (rule that)
  then have "store_inv D (snd (archiveBatchTx now acct n limit s))"
    using assms(2) by (simp add: archiving_inv)
  with chunk_Inr [OF assms(1)] show ?thesis by simp
qed

section \<open>The loop over the chunks\<close>

text \<open>What is left to archive.\<close>

definition pending :: "string \<Rightarrow> nat \<Rightarrow> store \<Rightarrow> nat" where
  "pending acct n s = length (filter (eligible acct n) (documents s))"

lemma filter_map_shrinks:
  assumes "\<And>d. d \<in> set ds \<Longrightarrow> P (g d) \<Longrightarrow> P d" "length (filter (\<lambda>d. P d \<and> \<not> P (g d)) ds) = k"
  shows "length (filter P (map g ds)) + k = length (filter P ds)"
  using assms
proof (induction ds arbitrary: k)
  case (Cons d ds)
  have "length (filter P (map g ds)) + length (filter (\<lambda>d. P d \<and> \<not> P (g d)) ds) = length (filter P ds)"
    using Cons.IH [OF _ refl] Cons.prems(1) by simp
  then show ?case using Cons.prems by auto
qed simp

lemma length_filter_le_imp:
  "(\<And>x. P x \<Longrightarrow> Q x) \<Longrightarrow> length (filter P xs) \<le> length (filter Q xs)"
  by (induction xs) auto

lemma length_filter_take: "length (filter P (take k xs)) \<le> length (filter P xs)"
  by (induction xs arbitrary: k) (auto simp: take_Cons le_SucI split: nat.splits)

lemma eligible_archived:
  assumes "archives I g"
  shows "eligible acct n (g d) \<Longrightarrow> eligible acct n d \<and> did d \<notin> I"
    "did d \<in> I \<Longrightarrow> \<not> eligible acct n (g d)"
proof -
  show "did d \<in> I \<Longrightarrow> \<not> eligible acct n (g d)"
    using assms unfolding archives_def eligible_def by (metis option.discI)
  then show "eligible acct n (g d) \<Longrightarrow> eligible acct n d \<and> did d \<notin> I"
    using assms unfolding archives_def by metis
qed

text \<open>Every chunk takes at least the rows it counts off the pending ones.\<close>

lemma chunk_pending:
  assumes "reconcileArchiveChunk now acct n limit s = Inr (r, t)"
  shows "pending acct n t + archived r \<le> pending acct n s"
proof -
  let ?rows = "chunkRows acct n limit s"
  obtain g I where g: "archives I g" "documents t = map g (documents s)" "did ` set ?rows \<subseteq> I"
    "I \<subseteq> did ` set ?rows \<union> (\<Union>d \<in> set ?rows. set (liveChildren (did d) s))"
    by (rule chunk_documents [OF assms])
  let ?gone = "filter (\<lambda>d. eligible acct n d \<and> \<not> eligible acct n (g d)) (documents s)"
  have "pending acct n t + length ?gone = pending acct n s"
    unfolding pending_def g(2)
    by (rule filter_map_shrinks [OF _ refl]) (use eligible_archived [OF g(1)] in blast)
  moreover have "archived r = length ?rows" using chunk_Inr [OF assms] by simp
  moreover have "length ?rows \<le> length ?gone"
  proof -
    have "?rows = filter (\<lambda>d. eligible acct n d \<and> \<not> eligible acct n (g d)) ?rows"
      using chunkRows_D [of _ acct n limit s] eligible_archived(2) [OF g(1)] g(3)
      by (intro filter_True [symmetric]) auto
    also have "\<dots> = filter (\<lambda>d. eligible acct n d \<and> \<not> eligible acct n (g d)) (take limit
        (filter (\<lambda>d. eligible acct n d \<and> unlisted n s d) (documents s)))"
      by (simp only: chunkRows_def)
    also have "length \<dots> \<le> length (filter (\<lambda>d. eligible acct n d \<and> \<not> eligible acct n (g d))
        (filter (\<lambda>d. eligible acct n d \<and> unlisted n s d) (documents s)))"
      by (rule length_filter_take)
    also have "\<dots> \<le> length ?gone"
      unfolding filter_filter by (rule length_filter_le_imp) simp
    finally show ?thesis by simp
  qed
  ultimately show ?thesis by simp
qed

end
