(* ===== verification/AccountProps.thy ===== *)
theory AccountProps
  imports AccountWrite Samples
begin

text \<open>
  What the account writers promise: the options belong to the option write alone, a change is
  logged exactly when a row moved, names and ids stay unique, a repeated offer is a no-op, and a
  login only ever gives way to a newer one.
\<close>

section \<open>Shared facts\<close>

definition accounts_ok :: "store \<Rightarrow> bool" where
  "accounts_ok s \<longleftrightarrow> distinct (map aid (accounts s)) \<and>
     distinct (map (\<lambda>a. (source a, ident a)) (accounts s))"

lemma accounts_appendChange [simp]: "accounts (snd (appendChange now k i s)) = accounts s"
  by (simp add: appendChange_def Let_def)

lemma accounts_updAccount [simp]:
  "accounts (updAccount i f s) = upd_where (\<lambda>a. aid a = i) f (accounts s)"
  by (simp add: updAccount_def)

lemma publishing_Inr:
  assumes "publishing f s = Inr (r, t)"
  obtains t' where "f (s\<lparr>accountAppends := []\<rparr>) = Inr (r, t')"
    "t = t'\<lparr>accountPublishedAt := fold (\<lambda>(i, at) m. m(i \<mapsto> at)) (accountAppends t')
       (accountPublishedAt t'), accountAppends := []\<rparr>"
  using assms by (auto simp: publishing_def)

lemma getAccountRow_in: "getAccountRow i s = Some a \<Longrightarrow> a \<in> set (accounts s) \<and> aid a = i"
  unfolding getAccountRow_def by (rule find_Some_set)

lemma findAccount_in:
  "findAccount src idt s = Some a \<Longrightarrow> a \<in> set (accounts s) \<and> source a = src \<and> ident a = idt"
  unfolding findAccount_def by (drule find_Some_set) simp

text \<open>Every account write is one of four shapes; \<open>f\<close> keeps the row's id and name.\<close>

definition keeps_name :: "(account_row \<Rightarrow> account_row) \<Rightarrow> bool" where
  "keeps_name f \<longleftrightarrow> (\<forall>a. aid (f a) = aid a \<and> source (f a) = source a \<and> ident (f a) = ident a)"

definition updated :: "time \<Rightarrow> string \<Rightarrow> (account_row \<Rightarrow> account_row) \<Rightarrow> store \<Rightarrow> store" where
  "updated now i f s = snd (appendChange now AccountChange i (updAccount i f s))"

definition created :: "time \<Rightarrow> account_row \<Rightarrow> store \<Rightarrow> store" where
  "created now a s = snd (appendChange now AccountChange (aid a) (s\<lparr>accounts := accounts s @ [a]\<rparr>))"

lemma changeAccount_cases:
  obtains (same) "changeAccount now i differs f s = ((i, False), s)"
      "\<And>a. getAccountRow i s = Some a \<Longrightarrow> \<not> differs a"
  | (moved) a where "getAccountRow i s = Some a" "differs a"
      "changeAccount now i differs f s = ((i, True), updated now i f s)"
proof (cases "getAccountRow i s")
  case None
  then show ?thesis by (intro same) (simp_all add: changeAccount_def)
next
  case (Some a)
  show ?thesis
  proof (cases "differs a")
    case True
    with Some show ?thesis by (intro moved [of a]) (simp_all add: changeAccount_def updated_def)
  next
    case False
    with Some show ?thesis by (intro same) (simp_all add: changeAccount_def)
  qed
qed

lemma insertAccount_cases:
  "insertAccount a s = Inr t \<longleftrightarrow> t = s\<lparr>accounts := accounts s @ [a]\<rparr> \<and>
     (\<forall>x \<in> set (accounts s). aid x \<noteq> aid a \<and> \<not> (source x = source a \<and> ident x = ident a))"
  by (auto simp: insertAccount_def)

text \<open>The options of a config: what \<open>config.options\<close> holds when it is a plain object.\<close>

definition optionsOf :: "jobj option \<Rightarrow> json option" where
  "optionsOf c = (case c of None \<Rightarrow> None
     | Some ob \<Rightarrow> if isPlainObject (obj_get ''options'' ob) then obj_get ''options'' ob else None)"

lemma obj_get_append: "obj_get k (a @ b) = (case obj_get k a of Some v \<Rightarrow> Some v | None \<Rightarrow> obj_get k b)"
  by (simp add: obj_get_def map_add_def split: option.splits)

lemma optionsOf_keepOptions: "optionsOf (Some (keepOptions rowConfig c)) =
    (case rowConfig of Some r \<Rightarrow> optionsOf r | None \<Rightarrow> None)"
  by (cases rowConfig)
    (auto simp: optionsOf_def keepOptions_def Let_def obj_get_append split: option.splits)

text \<open>The three shapes of an account write.\<close>

definition isOptionOp :: "account_write_op \<Rightarrow> bool" where
  "isOptionOp w = (case w of OptionOp _ _ _ \<Rightarrow> True | _ \<Rightarrow> False)"

definition isCreateOp :: "account_write_op \<Rightarrow> bool" where
  "isCreateOp w = (case w of CreateOp _ _ _ _ _ \<Rightarrow> True | _ \<Rightarrow> False)"

definition moves :: "account_write_op \<Rightarrow> account_row \<Rightarrow> (account_row \<Rightarrow> account_row) \<Rightarrow> bool" where
  "moves w a f \<longleftrightarrow> keeps_name f \<and> (isCreateOp w \<or> f a \<noteq> a) \<and>
     (isOptionOp w \<or> optionsOf (config (f a)) = optionsOf (config a))"

definition new_name :: "account_row \<Rightarrow> store \<Rightarrow> bool" where
  "new_name a s \<longleftrightarrow> (\<forall>x \<in> set (accounts s).
     aid x \<noteq> aid a \<and> \<not> (source x = source a \<and> ident x = ident a))"

definition writes :: "time \<Rightarrow> account_write_op \<Rightarrow> store \<Rightarrow> string \<Rightarrow> bool \<Rightarrow> store \<Rightarrow> bool" where
  "writes now w s i logged t \<longleftrightarrow>
     (\<not> logged \<and> t = s \<and> \<not> isCreateOp w) \<or>
     (logged \<and> (\<exists>a f. a \<in> set (accounts s) \<and> aid a = i \<and> moves w a f \<and> t = updated now i f s)) \<or>
     (logged \<and> (\<exists>a. new_name a s \<and> aid a = i \<and> t = created now a s))"

lemma writes_changeAccount:
  assumes "changeAccount now i differs f s = ((j, logged), t)" "\<not> isCreateOp w"
    and "\<And>a. getAccountRow i s = Some a \<Longrightarrow> differs a \<Longrightarrow> moves w a f"
  shows "writes now w s j logged t"
proof (cases rule: changeAccount_cases [of now i differs f s])
  case same
  then show ?thesis using assms by (auto simp: writes_def)
next
  case (moved a)
  then show ?thesis
    using assms getAccountRow_in [OF moved(1)] by (auto simp: writes_def)
qed

lemma writes_insert:
  assumes "insertAccount a s = Inr s1" "aid a = i"
  shows "writes now w s i True (snd (appendChange now AccountChange i s1))"
  using assms by (auto simp: writes_def insertAccount_cases created_def new_name_def)

lemma account_moved:
  "config a \<noteq> c \<Longrightarrow> a\<lparr>config := c\<rparr> \<noteq> a" "cadence a \<noteq> d \<Longrightarrow> a\<lparr>cadence := d\<rparr> \<noteq> a"
  "x \<noteq> status a \<or> e \<noteq> last_error a \<Longrightarrow> a\<lparr>status := x, last_error := e\<rparr> \<noteq> a"
  by (cases a; auto)+

lemma setConfig_writes:
  assumes "setConfig now i v s = ((j, logged), t)" "\<not> isCreateOp w"
    and "\<And>a. getAccountRow i s = Some a \<Longrightarrow> isOptionOp w \<or> optionsOf (Some v) = optionsOf (config a)"
  shows "writes now w s j logged t"
  using assms(1) unfolding setConfig_def
proof (rule writes_changeAccount [OF _ assms(2)])
  fix a assume "getAccountRow i s = Some a" "config a \<noteq> Some v"
  then show "moves w a (\<lambda>a. a\<lparr>config := Some v\<rparr>)"
    using assms(3) account_moved(1) by (auto simp: moves_def keeps_name_def)
qed

lemma accountHashedId_aid: "aid (blankAccount D now src idt) = accountHashedId D src idt"
  by (simp add: blankAccount_def)

lemma createOp_writes:
  assumes "createOp D now src ident0 cfg st cad s = Inr ((i, logged), t)"
  shows "writes now (CreateOp src ident0 cfg st cad) s i logged t"
proof -
  obtain idt owner where o: "ownedName s src ident0 = (idt, owner)" by fastforce
  show ?thesis
  proof (cases "findAccount src idt s")
    case (Some a)
    let ?c = "keepOptions (Some (config a)) (case cfg of None \<Rightarrow> [] | Some c \<Rightarrow> c)"
    let ?st = "case st of None \<Rightarrow> Connecting | Some x \<Rightarrow> x"
    have "createOp D now src ident0 cfg st cad s =
        Inr ((aid a, True), updated now (aid a) (\<lambda>r. r\<lparr>config := Some ?c, status := ?st\<rparr>) s)"
      using Some by (simp add: createOp_def o updated_def)
    moreover have "moves (CreateOp src ident0 cfg st cad) a (\<lambda>r. r\<lparr>config := Some ?c, status := ?st\<rparr>)"
      by (simp add: moves_def keeps_name_def isCreateOp_def optionsOf_keepOptions)
    ultimately show ?thesis using assms findAccount_in [OF Some] by (auto simp: writes_def)
  next
    case None
    with assms show ?thesis
      by (auto simp: createOp_def o accountHashedId_aid elim!: writes_insert)
  qed
qed

lemma getOrCreateOp_writes:
  assumes "getOrCreateOp D now src ident0 s = Inr ((i, logged), t)"
  shows "writes now (GetOrCreateOp src ident0) s i logged t"
proof -
  obtain idt owner where o: "ownedName s src ident0 = (idt, owner)" by fastforce
  show ?thesis
  proof (cases "findAccount src idt s")
    case (Some a)
    then show ?thesis using assms by (simp add: getOrCreateOp_def o writes_def isCreateOp_def)
  next
    case None
    with assms show ?thesis
      by (auto simp: getOrCreateOp_def o accountHashedId_aid elim!: writes_insert)
  qed
qed

lemma optionOp_writes:
  assumes "optionOp now i k v s = Inr ((j, logged), t)"
  shows "writes now (OptionOp i k v) s j logged t"
proof (cases "configById i s")
  case None
  then show ?thesis using assms by (simp add: optionOp_def writes_def isCreateOp_def)
next
  case (Some c)
  with assms show ?thesis
    by (cases c) (auto simp: optionOp_def Let_def isCreateOp_def isOptionOp_def intro!: setConfig_writes)
qed

lemma statusOp_writes:
  assumes "statusOp now i st err scope s = ((j, logged), t)"
  shows "writes now (StatusOp i st err scope) s j logged t"
  using assms unfolding statusOp_def Let_def
proof (rule writes_changeAccount)
  show "\<not> isCreateOp (StatusOp i st err scope)" by (simp add: isCreateOp_def)
  fix a :: account_row
  let ?st = "case st of None \<Rightarrow> status a | Some x \<Rightarrow> x"
  let ?e = "lastErrorAssignment err scope (last_error a)"
  assume "?st \<noteq> status a \<or> ?e \<noteq> last_error a"
  from account_moved(3) [OF this]
  show "moves (StatusOp i st err scope) a (\<lambda>a. a\<lparr>status := case st of None \<Rightarrow> status a | Some x \<Rightarrow> x,
      last_error := lastErrorAssignment err scope (last_error a)\<rparr>)"
    by (simp add: moves_def keeps_name_def)
qed

lemma cadence_writes:
  assumes "changeAccount now i (\<lambda>a. cadence a \<noteq> c) (\<lambda>a. a\<lparr>cadence := c\<rparr>) s = ((j, logged), t)"
  shows "writes now (CadenceOp i c) s j logged t"
  using assms
proof (rule writes_changeAccount)
  show "\<not> isCreateOp (CadenceOp i c)" by (simp add: isCreateOp_def)
  fix a :: account_row assume "cadence a \<noteq> c"
  from account_moved(2) [OF this] show "moves (CadenceOp i c) a (\<lambda>a. a\<lparr>cadence := c\<rparr>)"
    by (simp add: moves_def keeps_name_def)
qed

lemma accountWriteTx_writes:
  assumes "accountWriteTx D now w s = Inr ((i, logged), t)"
  shows "writes now w s i logged t"
proof (cases w)
  case (ConfigOp j c)
  with assms have "setConfig now j (keepOptions (configById j s) c) s = ((i, logged), t)" by simp
  then show ?thesis
    unfolding ConfigOp
    by (rule setConfig_writes) (auto simp: isCreateOp_def optionsOf_keepOptions configById_def)
qed (use assms createOp_writes getOrCreateOp_writes optionOp_writes statusOp_writes cadence_writes
  in auto)

section \<open>The invariants of the account table\<close>

lemma map_upd_names:
  "keeps_name f \<Longrightarrow> map aid (upd_where P f as) = map aid as"
  "keeps_name f \<Longrightarrow> map (\<lambda>a. (source a, ident a)) (upd_where P f as) = map (\<lambda>a. (source a, ident a)) as"
  by (simp_all add: keeps_name_def map_upd_where)

lemma accounts_ok_created: "accounts_ok s \<Longrightarrow> new_name a s \<Longrightarrow> accounts_ok (created now a s)"
  by (auto simp: accounts_ok_def new_name_def created_def)

lemma store_inv_created: "store_inv D s \<Longrightarrow> new_name a s \<Longrightarrow> store_inv D (created now a s)"
  unfolding created_def
  by (rule store_inv_appendChange, rule store_inv_insertAccount [of a s])
    (auto simp: insertAccount_cases new_name_def)

lemma store_inv_updated: "store_inv D s \<Longrightarrow> keeps_name f \<Longrightarrow> store_inv D (updated now i f s)"
  unfolding updated_def
  by (rule store_inv_appendChange, subst same_corpus_inv [OF same_corpus_updAccount])
    (simp_all add: keeps_name_def)

lemma writes_invariant:
  assumes "writes now w s i logged t" "store_inv D s" "accounts_ok s"
  shows "store_inv D t \<and> accounts_ok t"
  using assms store_inv_updated store_inv_created accounts_ok_created
  by (auto simp: writes_def moves_def accounts_ok_def updated_def map_upd_names)

text \<open>The published store differs in memory only.\<close>

lemma accountWrite_writes:
  assumes "accountWrite D now w s = Inr ((i, logged), t)"
  obtains t' where "writes now w (s\<lparr>accountAppends := []\<rparr>) i logged t'"
    "t = t'\<lparr>accountPublishedAt := fold (\<lambda>(i, at) m. m(i \<mapsto> at)) (accountAppends t')
       (accountPublishedAt t'), accountAppends := []\<rparr>"
  using assms unfolding accountWrite_def
  by (elim publishing_Inr) (blast intro: accountWriteTx_writes that)

section \<open>The properties of account writes\<close>

lemma in_updated:
  assumes "accounts_ok s" "a \<in> set (accounts s)" "x \<in> set (accounts s)" "aid a = i"
  shows "(if x = a then f a else x) \<in> set (accounts (updated now i f s))"
proof -
  have "(if aid x = i then f x else x) \<in> set (accounts (updated now i f s))"
    using assms(3) by (auto simp: updated_def set_upd_where)
  moreover have "aid x = i \<longleftrightarrow> x = a"
    using assms by (auto simp: accounts_ok_def dest: distinct_map_inj)
  ultimately show ?thesis by auto
qed

text \<open>
  C13: the options of an account belong to the option write alone: every other account write,
  a re-connect or a whole new config included, leaves every account there with the options it had.
\<close>

theorem account_write_keeps_options:
  assumes "accounts_ok s" "accountWrite D now w s = Inr ((i, logged), t)" "\<not> isOptionOp w"
    and "x \<in> set (accounts s)"
  shows "\<exists>x' \<in> set (accounts t). aid x' = aid x \<and> optionsOf (config x') = optionsOf (config x)"
proof -
  let ?s = "s\<lparr>accountAppends := []\<rparr>"
  from assms(2) obtain t' where w: "writes now w ?s i logged t'" and t: "accounts t = accounts t'"
    by (elim accountWrite_writes) auto
  from assms(1,4) have s: "accounts_ok ?s" "x \<in> set (accounts ?s)" by (simp_all add: accounts_ok_def)
  show ?thesis
    using w unfolding writes_def
  proof (elim disjE conjE exE)
    fix a f assume a: "a \<in> set (accounts ?s)" "aid a = i" "moves w a f" "t' = updated now i f ?s"
    from in_updated [OF s(1) a(1) s(2) a(2), of f now] a(3,4) assms(3) show ?thesis
      by (intro bexI [of _ "if x = a then f a else x"]) (auto simp: t moves_def keeps_name_def)
  qed (use assms(4) in \<open>auto simp: t created_def\<close>)
qed

lemma accounts_ok_two_accounts: "accounts_ok two_accounts"
  by (simp add: accounts_ok_def two_accounts_def sample_account_def)

text \<open>An account whose options hold one flag.\<close>

definition opted :: store where
  "opted = empty_store\<lparr>accounts := [(sample_account ''a'')\<lparr>config :=
     Some [(''options'', JObj [(''k'', JBool True)])]\<rparr>]\<rparr>"

definition rewrite_config :: account_write_op where
  "rewrite_config = ConfigOp ''a'' [(''options'', JObj []), (''x'', JNum 1)]"

definition opted_after :: store where
  "opted_after = after (accountWrite sample_deps 1000 rewrite_config opted)"

lemma opted_write: "\<exists>r. accountWrite sample_deps 1000 rewrite_config opted = Inr (r, opted_after)"
  unfolding opted_after_def by (rule after_Inr) code_simp

theorem account_write_keeps_options_witness:
  "\<exists>x' \<in> set (accounts opted_after). optionsOf (config x') = Some (JObj [(''k'', JBool True)])"
proof -
  obtain i logged where w: "accountWrite sample_deps 1000 rewrite_config opted = Inr ((i, logged), opted_after)"
    using opted_write by auto
  let ?a = "(sample_account ''a'')\<lparr>config := Some [(''options'', JObj [(''k'', JBool True)])]\<rparr>"
  have "accounts_ok opted" "?a \<in> set (accounts opted)" "\<not> isOptionOp rewrite_config"
    by (simp_all add: accounts_ok_def opted_def isOptionOp_def rewrite_config_def)
  with account_write_keeps_options [OF _ w] show ?thesis
    by (fastforce simp: optionsOf_def)
qed

text \<open>
  C24: a write that is not a (re)connect logs one account change exactly when the account table
  moved, and otherwise writes nothing at all.
\<close>

theorem account_write_logs_exactly_changes:
  assumes "accounts_ok s" "accountWrite D now w s = Inr ((i, logged), t)" "\<not> isCreateOp w"
  shows "(logged \<longleftrightarrow> accounts t \<noteq> accounts s) \<and>
    changes t = changes s @ (if logged
      then [\<lparr>cseq = Suc (change_counter s), kind = AccountChange, ref_id = i, cat = now\<rparr>] else [])"
proof -
  let ?s = "s\<lparr>accountAppends := []\<rparr>"
  from assms(2) obtain t' where w: "writes now w ?s i logged t'"
    and t: "accounts t = accounts t'" "changes t = changes t'"
    by (elim accountWrite_writes) auto
  show ?thesis
    using w unfolding writes_def
  proof (elim disjE conjE exE)
    fix a f assume a: "logged" "a \<in> set (accounts ?s)" "aid a = i" "moves w a f"
      "t' = updated now i f ?s"
    have "f a \<noteq> a" using a(4) assms(3) by (simp add: moves_def)
    moreover have "upd_where (\<lambda>x. aid x = i) f as = as \<Longrightarrow> a \<in> set as \<Longrightarrow> f a = a" for as
      using a(3) by (induction as) auto
    ultimately have "accounts t' \<noteq> accounts s" using a(2,5) by (auto simp: updated_def)
    moreover have "changes t' = changes s @ [\<lparr>cseq = Suc (change_counter s), kind = AccountChange,
        ref_id = i, cat = now\<rparr>]"
      by (simp add: a(5) updated_def appendChange_def updAccount_def Let_def)
    ultimately show ?thesis using a(1) by (simp add: t)
  next
    fix a assume "logged" "aid a = i" "t' = created now a ?s"
    then show ?thesis by (simp add: t created_def appendChange_def Let_def)
  qed (simp_all add: t)
qed

definition pause_a :: account_write_op where
  "pause_a = StatusOp ''a'' (Some Paused) None None"

definition paused_after :: store where
  "paused_after = after (accountWrite sample_deps 1000 pause_a two_accounts)"

lemma pause_write: "accountWrite sample_deps 1000 pause_a two_accounts = Inr ((''a'', True), paused_after)"
proof -
  have "(case accountWrite sample_deps 1000 pause_a two_accounts of
      Inr (r, _) \<Rightarrow> r = (''a'', True) | Inl _ \<Rightarrow> False)"
    by code_simp
  then show ?thesis by (auto simp: paused_after_def after_def split: sum.splits)
qed

theorem account_write_logs_exactly_changes_witness:
  "changes paused_after = [\<lparr>cseq = 1, kind = AccountChange, ref_id = ''a'', cat = 1000\<rparr>]"
  using account_write_logs_exactly_changes [OF accounts_ok_two_accounts pause_write]
  by (simp add: isCreateOp_def pause_a_def two_accounts_def empty_store_def)

text \<open>
  an account write keeps the invariant of the corpus, account ids unique and one account per
  (source, identifier).
\<close>

theorem account_write_keeps_invariant:
  assumes "store_inv D s" "accounts_ok s" "accountWrite D now w s = Inr ((i, logged), t)"
  shows "store_inv D t \<and> accounts_ok t"
proof -
  from assms(3) obtain t' where w: "writes now w (s\<lparr>accountAppends := []\<rparr>) i logged t'"
    and t: "t = t'\<lparr>accountPublishedAt := fold (\<lambda>(i, at) m. m(i \<mapsto> at)) (accountAppends t')
       (accountPublishedAt t'), accountAppends := []\<rparr>"
    by (elim accountWrite_writes)
  from writes_invariant [OF w, of D] assms(1,2) show ?thesis
    by (simp add: t accounts_ok_def)
qed

theorem account_write_keeps_invariant_witness: "store_inv sample_deps paused_after"
  using account_write_keeps_invariant [OF store_inv_two_accounts accounts_ok_two_accounts pause_write]
  by simp

text \<open>
  asking for an account twice creates it once: the second call finds the id the first
  returned, whether or not this device's suffix had been put on the identifier.
\<close>

theorem get_or_create_is_idempotent:
  assumes "accountWrite D now (GetOrCreateOp src idt) s = Inr ((i, logged), t)"
    and "idt' = idt \<or> idt' = fst (ownedName s src idt)"
  shows "\<exists>u. accountWrite D now' (GetOrCreateOp src idt') t = Inr ((i, False), u) \<and>
    accounts u = accounts t \<and> changes u = changes t"
proof -
  let ?s = "s\<lparr>accountAppends := []\<rparr>"
  from assms(1) obtain t' where op: "getOrCreateOp D now src idt ?s = Inr ((i, logged), t')"
    and t: "t = t'\<lparr>accountPublishedAt := fold (\<lambda>(i, at) m. m(i \<mapsto> at)) (accountAppends t')
       (accountPublishedAt t'), accountAppends := []\<rparr>"
    unfolding accountWrite_def by (elim publishing_Inr) auto
  obtain name owner where o: "ownedName s src idt = (name, owner)" by fastforce
  have idem: "fst (ownedName s src idt') = name"
    using assms(2) o by (auto simp: ownedName_def Let_def ends_with_def suffix_def split: if_splits option.splits)
  have same_device: "ownedName ?s = ownedName s" "ownedName u = ownedName s"
    if "sync_state u = sync_state s" for u
    using that by (auto simp: ownedName_def fun_eq_iff)
  have "sync_state t' = sync_state s \<and> (\<exists>a. findAccount src name t' = Some a \<and> aid a = i)"
  proof (cases "findAccount src name ?s")
    case (Some a)
    with op same_device [OF refl] o show ?thesis
      by (auto simp: getOrCreateOp_def)
  next
    case None
    with op same_device [OF refl] o obtain s1 where
      s1: "insertAccount ((blankAccount D now src name)\<lparr>owner_device_id := owner\<rparr>) ?s = Inr s1"
      "i = accountHashedId D src name" "t' = snd (appendChange now AccountChange i s1)"
      by (auto simp: getOrCreateOp_def)
    then show ?thesis
      using None
      by (auto simp: insertAccount_cases appendChange_def findAccount_def find_append
          blankAccount_def Let_def)
  qed
  then obtain a where a: "findAccount src name t' = Some a" "aid a = i"
    and sync: "sync_state t' = sync_state s" by blast
  have "ownedName (t\<lparr>accountAppends := []\<rparr>) = ownedName s"
    by (rule same_device) (simp add: t sync)
  then have "getOrCreateOp D now' src idt' (t\<lparr>accountAppends := []\<rparr>) =
      Inr ((i, False), t\<lparr>accountAppends := []\<rparr>)"
    using a idem by (cases "ownedName s src idt'") (simp add: getOrCreateOp_def t findAccount_def)
  then show ?thesis
    by (simp add: accountWrite_def publishing_def)
qed

definition asked_for :: store where
  "asked_for = after (accountWrite sample_deps 1000 (GetOrCreateOp ''whatsapp'' ''me'') two_accounts)"

theorem get_or_create_is_idempotent_witness:
  "\<exists>i u. accountWrite sample_deps 2000 (GetOrCreateOp ''whatsapp'' ''me#dev'') asked_for = Inr ((i, False), u)"
proof -
  have "\<exists>r. accountWrite sample_deps 1000 (GetOrCreateOp ''whatsapp'' ''me'') two_accounts =
      Inr (r, asked_for)"
    unfolding asked_for_def by (rule after_Inr) code_simp
  then obtain i logged where
    w: "accountWrite sample_deps 1000 (GetOrCreateOp ''whatsapp'' ''me'') two_accounts =
      Inr ((i, logged), asked_for)" by auto
  have "fst (ownedName two_accounts ''whatsapp'' ''me'') = ''me#dev''" by code_simp
  with get_or_create_is_idempotent [OF w, of "''me#dev''" 2000]
  have "\<exists>u. accountWrite sample_deps 2000 (GetOrCreateOp ''whatsapp'' ''me#dev'') asked_for = Inr ((i, False), u)"
    by auto
  then show ?thesis by blast
qed

section \<open>Offers\<close>

lemma findAccount_append:
  "findAccount src idt s = Some a \<Longrightarrow> accounts t = accounts s @ as \<Longrightarrow> findAccount src idt t = Some a"
  by (simp add: findAccount_def find_append)

lemma vaultInsert_fields [simp]:
  "accounts (vaultInsert i b s) = accounts s" "changes (vaultInsert i b s) = changes s"
  "sync_offers (vaultInsert i b s) = sync_offers s"
  by (simp_all add: vaultInsert_def split: option.splits)

lemma lacking_fields [simp]:
  "ir_created (lacking e i out) = ir_created out" "ir_existing (lacking e i out) = ir_existing out"
  by (simp_all add: lacking_def)

lemma seenAccount_fields [simp]:
  "ir_created (seenAccount e a out) = ir_created out"
  "ir_existing (seenAccount e a out) = ir_existing out @ [aid a]"
  by (simp_all add: seenAccount_def Let_def)

text \<open>The row the entry's name has, if any.\<close>

definition entryAccount :: "string \<Rightarrow> import_entry \<Rightarrow> store \<Rightarrow> account_row option" where
  "entryAccount sfx e s = findAccount (ie_source e) (importIdentifier sfx e) s"

lemma entryAccount_imported:
  "entryAccount sfx e s = None \<Longrightarrow> accounts t = accounts s @ [importedAccount D now sfx e] \<Longrightarrow>
    entryAccount sfx e t = Some (importedAccount D now sfx e)"
  by (simp add: entryAccount_def findAccount_def find_append importedAccount_def blankAccount_def)

lemma importOne_effect:
  assumes "importOne D now repeated sfx e (out, s) = Inr (out', t)"
  shows "sync_offers t = sync_offers s \<and> (\<exists>as. accounts t = accounts s @ as) \<and>
    (\<not> repeated \<longrightarrow> entryAccount sfx e t \<noteq> None) \<and>
    (\<forall>i \<in> set (ir_created out'). i \<in> set (ir_created out) \<or>
       (\<exists>a. entryAccount sfx e t = Some a \<and> aid a = i))"
proof (cases "findAccount (ie_source e) (importIdentifier sfx e) s")
  case (Some a)
  then show ?thesis using assms by (auto simp: importOne_def entryAccount_def)
next
  case None
  show ?thesis
  proof (cases repeated)
    case True
    then show ?thesis using assms None by (simp add: importOne_def)
  next
    case False
    let ?row = "importedAccount D now sfx e"
    from assms None False obtain s1 where s1: "insertAccount ?row s = Inr s1"
      "t = vaultInsert (aid ?row) (ie_blob e) (snd (appendChange now AccountChange (aid ?row) s1))"
      "ir_created out' = ir_created out @ [aid ?row]"
      by (auto simp: importOne_def Let_def split: if_splits)
    then have t: "accounts t = accounts s @ [?row]" "sync_offers t = sync_offers s"
      by (auto simp: insertAccount_cases appendChange_def Let_def)
    moreover have "entryAccount sfx e t = Some ?row"
      using None t(1) by (intro entryAccount_imported [of sfx e s]) (simp_all add: entryAccount_def)
    ultimately show ?thesis using s1(3) by simp
  qed
qed

lemma efold_importOne_effect:
  assumes "efold (importOne D now False sfx) es (out, s) = Inr (out', t)"
  shows "sync_offers t = sync_offers s \<and> (\<exists>as. accounts t = accounts s @ as) \<and>
    (\<forall>i \<in> set (ir_created out'). i \<in> set (ir_created out) \<or>
       (\<exists>e \<in> set es. \<exists>a. entryAccount sfx e t = Some a \<and> aid a = i))"
  using assms
proof (induction es arbitrary: out s)
  case (Cons e es)
  then obtain out1 s1 where
    step: "importOne D now False sfx e (out, s) = Inr (out1, s1)" and
    rest: "efold (importOne D now False sfx) es (out1, s1) = Inr (out', t)" by auto
  note one = importOne_effect [OF step]
  note all = Cons.IH [OF rest]
  then obtain as where "accounts t = accounts s1 @ as" by blast
  then have keep: "entryAccount sfx e s1 = Some a \<Longrightarrow> entryAccount sfx e t = Some a" for a
    unfolding entryAccount_def by (blast intro: findAccount_append)
  show ?case
    using one all keep by fastforce
qed simp

lemma efold_importOne_repeated:
  "\<exists>out'. efold (importOne D now True sfx) es (out, s) = Inr (out', s) \<and>
    ir_created out' = ir_created out \<and>
    set (ir_existing out) \<subseteq> set (ir_existing out') \<and>
    (\<forall>e \<in> set es. \<forall>a. entryAccount sfx e s = Some a \<longrightarrow> aid a \<in> set (ir_existing out'))"
proof (induction es arbitrary: out)
  case (Cons e es)
  show ?case
  proof (cases "findAccount (ie_source e) (importIdentifier sfx e) s")
    case None
    then show ?thesis using Cons.IH [of out] by (simp add: importOne_def entryAccount_def)
  next
    case (Some a)
    then show ?thesis
      using Cons.IH [of "seenAccount e a out"] by (fastforce simp: importOne_def entryAccount_def)
  qed
qed simp

text \<open>
  An offer taken twice is taken once: the second import of the same offer creates no account,
  writes no row and no change, and reports every account the first one created as existing.
\<close>

theorem import_again_is_a_no_op:
  assumes "importSources D now offer dev es s = Inr (r, t)" "offer \<notin> set (sync_offers s)"
  shows "\<exists>out u. importSources D now' offer dev es t = Inr (out, u) \<and> ir_created out = [] \<and>
    set (ir_created r) \<subseteq> set (ir_existing out) \<and> accounts u = accounts t \<and>
    vault u = vault t \<and> changes u = changes t"
proof -
  let ?none = "\<lparr>ir_created = [], ir_existing = [], ir_needsConnector = [], ir_needsSources = []\<rparr>"
  from assms obtain t' where
    f: "efold (importOne D now False (take 8 dev)) es (?none, s\<lparr>accountAppends := [],
      sync_offers := sync_offers s @ [offer]\<rparr>) = Inr (r, t')"
    and t: "t = t'\<lparr>accountPublishedAt := fold (\<lambda>(i, at) m. m(i \<mapsto> at)) (accountAppends t')
       (accountPublishedAt t'), accountAppends := []\<rparr>"
    unfolding importSources_def by (elim publishing_Inr) (auto simp: importSourcesTx_def)
  note eff = efold_importOne_effect [OF f]
  let ?t = "t\<lparr>accountAppends := []\<rparr>"
  have entry: "entryAccount sfx e ?t = entryAccount sfx e t'" for sfx e
    by (simp add: entryAccount_def findAccount_def t)
  obtain out where out: "efold (importOne D now' True (take 8 dev)) es (?none, ?t) = Inr (out, ?t)"
    "ir_created out = []"
    "\<forall>e \<in> set es. \<forall>a. entryAccount (take 8 dev) e ?t = Some a \<longrightarrow> aid a \<in> set (ir_existing out)"
    using efold_importOne_repeated [of D now' "take 8 dev" es ?none ?t] by auto
  have "offer \<in> set (sync_offers ?t)" using eff by (simp add: t)
  with out(1) have "importSourcesTx D now' offer dev es ?t = Inr (out, ?t)"
    by (simp add: importSourcesTx_def)
  then have "importSources D now' offer dev es t = Inr (out, ?t)"
    by (simp add: importSources_def publishing_def)
  moreover have "set (ir_created r) \<subseteq> set (ir_existing out)"
    using eff out(3) by (auto simp: entry)
  ultimately show ?thesis using out(2) by auto
qed

definition sample_offer :: "import_entry list" where
  "sample_offer = [\<lparr>ie_source = ''slack'', ie_identifier = ''team'', ie_config = Some [],
     ie_cadence = None, ie_blob = Some [1], ie_owner = None, ie_stable = False,
     ie_installed = True\<rparr>]"

definition offered :: store where
  "offered = after (importSources sample_deps 1000 ''o1'' ''device12345'' sample_offer two_accounts)"

theorem import_again_is_a_no_op_witness:
  "\<exists>out u. importSources sample_deps 2000 ''o1'' ''device12345'' sample_offer offered = Inr (out, u) \<and>
    ir_created out = []"
proof -
  have "\<exists>r. importSources sample_deps 1000 ''o1'' ''device12345'' sample_offer two_accounts =
      Inr (r, offered)"
    unfolding offered_def by (rule after_Inr) code_simp
  then obtain r where
    r: "importSources sample_deps 1000 ''o1'' ''device12345'' sample_offer two_accounts =
      Inr (r, offered)" by auto
  have "''o1'' \<notin> set (sync_offers two_accounts)" by (simp add: two_accounts_def empty_store_def)
  from import_again_is_a_no_op [OF r this] show ?thesis by blast
qed

section \<open>Logins\<close>

lemma NEWER_trans: "NEWER a b \<Longrightarrow> NEWER b c \<Longrightarrow> NEWER a c"
  by (auto simp: NEWER_def)

lemma not_NEWER_trans: "\<not> NEWER b a \<Longrightarrow> \<not> NEWER c b \<Longrightarrow> \<not> NEWER c a"
  by (auto simp: NEWER_def)

definition stampAt :: "string \<Rightarrow> store \<Rightarrow> (nat \<times> nat) option" where
  "stampAt i s = map_option vaultStamp (vaultRow i s)"

text \<open>\<open>t\<close>'s login of an account is not older than \<open>s\<close>'s.\<close>

definition no_older :: "store \<Rightarrow> store \<Rightarrow> bool" where
  "no_older s t \<longleftrightarrow> (\<forall>i x. stampAt i s = Some x \<longrightarrow> (\<exists>y. stampAt i t = Some y \<and> \<not> NEWER x y))"

lemma no_older_trans: "no_older s t \<Longrightarrow> no_older t u \<Longrightarrow> no_older s u"
  unfolding no_older_def by (meson not_NEWER_trans)

lemma vaultRow_upd:
  assumes "vaccount r = i"
  shows "find (\<lambda>v. vaccount v = j) (upd_where (\<lambda>v. vaccount v = i) (\<lambda>_. r) vs) =
    (if j = i then map_option (\<lambda>_. r) (find (\<lambda>v. vaccount v = j) vs)
     else find (\<lambda>v. vaccount v = j) vs)"
  using assms by (induction vs) auto

lemma putSecret_row:
  assumes "putSecret e (n, s) = (n', t)"
  shows "vaultRow j t = (if j = se_account e then
     (case vaultRow j s of None \<Rightarrow> Some (secretRow e)
      | Some v \<Rightarrow> Some (if NEWER (se_epoch e, se_n e) (vaultStamp v) then secretRow e else v))
     else vaultRow j s)"
  using assms
  by (auto simp: putSecret_def vaultRow_def find_append vaultRow_upd secretRow_def
      split: option.splits if_splits)

text \<open>The login of account \<open>j\<close> after the entries is one of theirs or the old one, and none is newer.\<close>

definition newest :: "string \<Rightarrow> secret_entry list \<Rightarrow> vault_row option \<Rightarrow> vault_row option \<Rightarrow> bool" where
  "newest j es old r \<longleftrightarrow>
     (r = old \<or> (\<exists>e \<in> set es. se_account e = j \<and> r = Some (secretRow e))) \<and>
     (\<forall>v. old = Some v \<longrightarrow> (\<exists>x. r = Some x \<and> \<not> NEWER (vaultStamp v) (vaultStamp x))) \<and>
     (\<forall>e \<in> set es. se_account e = j \<longrightarrow>
        (\<exists>x. r = Some x \<and> \<not> NEWER (se_epoch e, se_n e) (vaultStamp x)))"

lemma newest_Cons:
  assumes "newest j es mid r"
    and "mid = (if j = se_account e then
     (case old of None \<Rightarrow> Some (secretRow e)
      | Some v \<Rightarrow> Some (if NEWER (se_epoch e, se_n e) (vaultStamp v) then secretRow e else v))
     else old)"
  shows "newest j (e # es) old r"
proof -
  have self: "vaultStamp (secretRow e) = (se_epoch e, se_n e)"
    by (simp add: vaultStamp_def secretRow_def)
  have asym: "NEWER a b \<Longrightarrow> \<not> NEWER b a" for a b by (auto simp: NEWER_def)
  have irr: "\<not> NEWER a a" for a by (auto simp: NEWER_def)
  show ?thesis
    using assms unfolding newest_def
    by (cases old) (auto simp: self irr asym split: if_splits dest: NEWER_trans not_NEWER_trans)
qed

lemma putSecrets_newest:
  "fold putSecret es (n, s) = (n', t) \<Longrightarrow> newest j es (vaultRow j s) (vaultRow j t)"
proof (induction es arbitrary: n s)
  case Nil
  then show ?case by (auto simp: newest_def NEWER_def)
next
  case (Cons e es)
  obtain n1 s1 where step: "putSecret e (n, s) = (n1, s1)" by fastforce
  with Cons.prems have "fold putSecret es (n1, s1) = (n', t)" by simp
  from newest_Cons [OF Cons.IH [OF this] putSecret_row [OF step]] show ?case .
qed

text \<open>
  C25: a login only gives way to a newer one: after a follower took the leader's logins, each
  account's login is the stored one or one of those sent, none of them is newer than it, and the
  same set sent again changes no login. Any other device refuses them.
\<close>

theorem import_secrets_keeps_the_newest:
  assumes "importSecretsTx es s = Inr (n, t)"
  shows "role (sync_state s) = Follower \<and>
    (\<forall>j. newest j es (vaultRow j s) (vaultRow j t)) \<and>
    (\<forall>e \<in> set es. \<forall>v. vaultRow (se_account e) t = Some v \<longrightarrow>
       (\<forall>m. putSecret e (m, t) = (m, t)))"
proof -
  from assms have f: "role (sync_state s) = Follower" "fold putSecret es (0, s) = (n, t)"
    by (auto simp: importSecretsTx_def split: if_splits)
  note new = putSecrets_newest [OF f(2)]
  have "putSecret e (m, t) = (m, t)" if "e \<in> set es" "vaultRow (se_account e) t = Some v" for e v m
    using new [of "se_account e"] that by (auto simp: newest_def putSecret_def)
  with f(1) new show ?thesis by blast
qed

definition following :: store where
  "following = empty_store\<lparr>sync_state := empty_sync\<lparr>role := Follower\<rparr>\<rparr>"

definition two_logins :: "secret_entry list" where
  "two_logins = [\<lparr>se_account = ''a'', se_epoch = 1, se_n = 2, se_blob = [2]\<rparr>,
     \<lparr>se_account = ''a'', se_epoch = 1, se_n = 1, se_blob = [1]\<rparr>]"

theorem import_secrets_keeps_the_newest_witness:
  "\<exists>n t. importSecretsTx two_logins following = Inr (n, t) \<and>
    newest ''a'' two_logins None (vaultRow ''a'' t)"
proof -
  obtain n t where t: "fold putSecret two_logins (0, following) = (n, t)" by fastforce
  then have "importSecretsTx two_logins following = Inr (n, t)"
    by (simp add: importSecretsTx_def following_def)
  moreover from import_secrets_keeps_the_newest [OF this]
  have "newest ''a'' two_logins (vaultRow ''a'' following) (vaultRow ''a'' t)" by blast
  moreover have "vaultRow ''a'' following = None"
    by (simp add: vaultRow_def following_def empty_store_def)
  ultimately show ?thesis by auto
qed

end
