(* ===== verification/EnginePassInv.thy ===== *)
theory EnginePassInv
  imports EnginePass ReconcileInv AccountProps
begin

text \<open>
  The reconcile pass against the store. The store's staging is an interface: what the pass needs
  of it are the laws of the locale \<open>staging_store\<close>, which the store's procedures meet. Whatever
  runs between the calls of a pass, a document the connector listed is not archived, an empty
  listing archives nothing, and the pass ends.
\<close>

section \<open>Reasoning about calls\<close>

definition io_ok :: "(world \<Rightarrow> bool) \<Rightarrow> 'a io \<Rightarrow> ('a \<Rightarrow> world \<Rightarrow> bool) \<Rightarrow> (world \<Rightarrow> bool) \<Rightarrow> bool" where
  "io_ok P m Q X \<longleftrightarrow> (\<forall>w r w'. P w \<longrightarrow> m w = Some (r, w') \<longrightarrow>
     (case r of Inl e \<Rightarrow> X w' | Inr a \<Rightarrow> Q a w'))"

lemma io_ret_ok: "(\<And>w. P w \<Longrightarrow> Q a w) \<Longrightarrow> io_ok P (io_ret a) Q X"
  by (auto simp: io_ok_def io_ret_def)

lemma io_throw_ok: "(\<And>w. P w \<Longrightarrow> X w) \<Longrightarrow> io_ok P (io_throw e) Q X"
  by (auto simp: io_ok_def io_throw_def)

lemma io_bind_ok:
  assumes "io_ok P m R X" "\<And>a. io_ok (R a) (f a) Q X"
  shows "io_ok P (io_bind m f) Q X"
  using assms unfolding io_ok_def io_bind_def
  by (fastforce split: option.splits sum.splits prod.splits)

lemma io_catch_ok:
  assumes "io_ok P m Q Y" "\<And>e. io_ok Y (h e) Q X"
  shows "io_ok P (io_catch m h) Q X"
  using assms unfolding io_ok_def io_catch_def
  by (fastforce split: option.splits sum.splits prod.splits)

lemma io_weaken:
  assumes "io_ok P m Q X" "\<And>w. P' w \<Longrightarrow> P w" "\<And>a w. Q a w \<Longrightarrow> Q' a w" "\<And>w. X w \<Longrightarrow> X' w"
  shows "io_ok P' m Q' X'"
  using assms unfolding io_ok_def by (auto split: sum.splits) fastforce+

lemma call_ok:
  assumes "\<And>k s a t. P (k, s) \<Longrightarrow> f (clock E k) s = Inr (a, t) \<Longrightarrow> Q a (Suc k, env E k t)"
    and "\<And>k s e. P (k, s) \<Longrightarrow> f (clock E k) s = Inl e \<Longrightarrow> X (Suc k, env E k s)"
  shows "io_ok P (call E f) Q X"
  using assms by (auto simp: io_ok_def call_def split: sum.splits prod.splits)

lemma signalAborted_ok:
  "(\<And>k s. P (k, s) \<Longrightarrow> Q (aborts E k) (k, s)) \<Longrightarrow> io_ok P (signalAborted E) Q X"
  by (auto simp: io_ok_def signalAborted_def)

lemma io_if_ok:
  "(b \<Longrightarrow> io_ok P m Q X) \<Longrightarrow> (\<not> b \<Longrightarrow> io_ok P n Q X) \<Longrightarrow> io_ok P (if b then m else n) Q X"
  by simp

section \<open>The interface of the staging\<close>

text \<open>\<open>staged s a\<close>: the listing staged for account \<open>a\<close>; None when no pass is open on this connection.\<close>

locale staging_store =
  fixes staged :: "store \<Rightarrow> string \<Rightarrow> external_ref set option"
    and begin_pass :: "string \<Rightarrow> store \<Rightarrow> store"
    and stage :: "string \<Rightarrow> external_ref list \<Rightarrow> store \<Rightarrow> tx_error + store"
    and end_pass :: "string \<Rightarrow> store \<Rightarrow> store"
    and restart :: "store \<Rightarrow> store"
  assumes begin_staged: "staged (begin_pass a s) b = (if b = a then Some {} else staged s b)"
    and stage_open: "staged s a = Some L \<Longrightarrow>
      \<exists>t. stage a refs s = Inr t \<and> staged t a = Some (L \<union> set refs) \<and>
        (\<forall>b. b \<noteq> a \<longrightarrow> staged t b = staged s b)"
    and stage_lost: "staged s a = None \<Longrightarrow> stage a refs s = Inl (StagingLost a)"
    and end_staged: "staged (end_pass a s) b = (if b = a then None else staged s b)"
    and restart_staged: "staged (restart s) a = None"
    and stage_corpus: "stage a refs s = Inr t \<Longrightarrow> same_corpus s t"
begin

text \<open>The rest of the world may lose the staging but not write to it.\<close>

definition leaves_staging :: "pass_env \<Rightarrow> string \<Rightarrow> bool" where
  "leaves_staging E a \<longleftrightarrow> (\<forall>k s. staged (env E k s) a = staged s a \<or> staged (env E k s) a = None)"

lemma restart_leaves_staging: "env E = (\<lambda>_. restart) \<Longrightarrow> leaves_staging E a"
  by (simp add: leaves_staging_def restart_staged)

lemma other_pass_leaves_staging:
  "b \<noteq> a \<Longrightarrow> env E = (\<lambda>_. begin_pass b) \<Longrightarrow> leaves_staging E a"
  by (simp add: leaves_staging_def begin_staged)

text \<open>What is staged together with what waits in \<open>batch\<close>.\<close>

definition holds :: "external_ref set \<Rightarrow> external_ref list \<Rightarrow> string \<Rightarrow> world \<Rightarrow> bool" where
  "holds L batch a w \<longleftrightarrow> staged (snd w) a = None \<or>
     (\<exists>M. staged (snd w) a = Some M \<and> M \<union> set batch = L)"

definition lasting :: "pass_env \<Rightarrow> (store \<Rightarrow> bool) \<Rightarrow> bool" where
  "lasting E I \<longleftrightarrow> (\<forall>s t. same_corpus s t \<longrightarrow> I s \<longrightarrow> I t) \<and> (\<forall>k s. I s \<longrightarrow> I (env E k s))"

lemma stage_call:
  assumes "leaves_staging E a" "lasting E I"
  shows "io_ok (\<lambda>w. I (snd w) \<and> holds L batch a w)
    (call E (\<lambda>now s. returning_unit (stage a batch s)))
    (\<lambda>_ w. I (snd w) \<and> holds L [] a w) (\<lambda>w. I (snd w))"
proof (rule call_ok)
  fix k s u t
  assume I: "I (snd (k, s)) \<and> holds L batch a (k, s)" and "returning_unit (stage a batch s) = Inr (u, t)"
  then have st: "stage a batch s = Inr t" by (auto simp: returning_unit_def)
  obtain M where M: "staged s a = Some M"
    using st stage_lost [of s a batch] by (cases "staged s a") auto
  with I have "M \<union> set batch = L" by (simp add: holds_def)
  moreover have "staged t a = Some (M \<union> set batch)" using stage_open [OF M, of batch] st by auto
  ultimately have "staged t a = Some L" by simp
  moreover have "staged (env E k t) a = staged t a \<or> staged (env E k t) a = None"
    using assms(1) by (simp add: leaves_staging_def)
  ultimately have "holds L [] a (Suc k, env E k t)" by (auto simp: holds_def)
  moreover have "I (env E k t)"
    using assms(2) stage_corpus [OF st] I by (auto simp: lasting_def)
  ultimately show "I (snd (Suc k, env E k t)) \<and> holds L [] a (Suc k, env E k t)" by simp
next
  fix k s e assume "I (snd (k, s)) \<and> holds L batch a (k, s)"
  then show "I (snd (Suc k, env E k s))" using assms(2) by (auto simp: lasting_def)
qed

text \<open>Draining: the batches the source's references are cut into do not matter.\<close>

lemma holds_push: "holds L batch a w \<Longrightarrow> holds (insert r L) (batch @ [r]) a w"
  by (auto simp: holds_def)

lemma push_call:
  assumes "leaves_staging E a" "lasting E I"
  shows "io_ok (\<lambda>w. I (snd w) \<and> holds L batch a w)
    (pushRef N (\<lambda>b. call E (\<lambda>now s. returning_unit (stage a b s))) r batch)
    (\<lambda>b w. I (snd w) \<and> holds (insert r L) b a w) (\<lambda>w. I (snd w))"
  unfolding pushRef_def Let_def
proof (rule io_if_ok)
  show "io_ok (\<lambda>w. I (snd w) \<and> holds L batch a w)
      (io_bind (call E (\<lambda>now s. returning_unit (stage a (batch @ [r]) s))) (\<lambda>_. io_ret []))
      (\<lambda>b w. I (snd w) \<and> holds (insert r L) b a w) (\<lambda>w. I (snd w))"
  proof (rule io_bind_ok [where R = "\<lambda>_ w. I (snd w) \<and> holds (insert r L) [] a w"])
    show "io_ok (\<lambda>w. I (snd w) \<and> holds L batch a w)
        (call E (\<lambda>now s. returning_unit (stage a (batch @ [r]) s)))
        (\<lambda>_ w. I (snd w) \<and> holds (insert r L) [] a w) (\<lambda>w. I (snd w))"
      by (rule io_weaken [OF stage_call [OF assms, of "insert r L" "batch @ [r]"]])
        (auto intro: holds_push)
  qed (rule io_ret_ok, simp)
  show "io_ok (\<lambda>w. I (snd w) \<and> holds L batch a w) (io_ret (batch @ [r]))
      (\<lambda>b w. I (snd w) \<and> holds (insert r L) b a w) (\<lambda>w. I (snd w))"
    by (rule io_ret_ok) (auto intro: holds_push)
qed

lemma push_calls:
  assumes "leaves_staging E a" "lasting E I"
  shows "io_ok (\<lambda>w. I (snd w) \<and> holds L batch a w)
    (pushRefs N (\<lambda>b. call E (\<lambda>now s. returning_unit (stage a b s))) rs batch)
    (\<lambda>b w. I (snd w) \<and> holds (L \<union> set rs) b a w) (\<lambda>w. I (snd w))"
proof (induction rs arbitrary: L batch)
  case Nil
  then show ?case by (auto intro: io_ret_ok)
next
  case (Cons r rs)
  have "L \<union> set (r # rs) = insert r L \<union> set rs" by auto
  then show ?case
    unfolding pushRefs.simps using Cons.IH [of "insert r L"] by (auto intro: io_bind_ok push_call assms)
qed

text \<open>The abort signal does not go back.\<close>

definition aborts_stay :: "pass_env \<Rightarrow> bool" where
  "aborts_stay E \<longleftrightarrow> (\<forall>j k. j \<le> k \<longrightarrow> aborts E j \<longrightarrow> aborts E k)"

lemma drain_calls:
  assumes "leaves_staging E a" "lasting E I" "aborts_stay E"
  shows "io_ok (\<lambda>w. I (snd w) \<and> holds L batch a w)
    (drainPages E N (\<lambda>b. call E (\<lambda>now s. returning_unit (stage a b s))) ps fl batch)
    (\<lambda>b w. I (snd w) \<and> (aborts E (fst w) \<or> holds (L \<union> set (concat ps)) b a w)) (\<lambda>w. I (snd w))"
proof (induction ps arbitrary: L batch)
  case Nil
  show ?case
    unfolding drainPages.simps
    by (rule io_bind_ok [where R = "\<lambda>ab w. I (snd w) \<and> holds L batch a w \<and> (ab = aborts E (fst w))"])
      (auto intro!: signalAborted_ok io_if_ok io_ret_ok io_throw_ok split: option.splits)
next
  case (Cons p ps)
  have "L \<union> set (concat (p # ps)) = (L \<union> set p) \<union> set (concat ps)" by auto
  with Cons.IH [of "L \<union> set p"] have rest: "io_ok (\<lambda>w. I (snd w) \<and> holds (L \<union> set p) b a w)
      (drainPages E N (\<lambda>b. call E (\<lambda>now s. returning_unit (stage a b s))) ps fl b)
      (\<lambda>b w. I (snd w) \<and> (aborts E (fst w) \<or> holds (L \<union> set (concat (p # ps))) b a w))
      (\<lambda>w. I (snd w))" for b
    by simp
  have go: "io_ok (\<lambda>w. I (snd w) \<and> holds L batch a w)
      (io_bind (pushRefs N (\<lambda>b. call E (\<lambda>now s. returning_unit (stage a b s))) p batch)
        (drainPages E N (\<lambda>b. call E (\<lambda>now s. returning_unit (stage a b s))) ps fl))
      (\<lambda>b w. I (snd w) \<and> (aborts E (fst w) \<or> holds (L \<union> set (concat (p # ps))) b a w))
      (\<lambda>w. I (snd w))"
    by (rule io_bind_ok [OF push_calls [OF assms(1,2)] rest])
  show ?case
    unfolding drainPages.simps
  proof (rule io_bind_ok [where R = "\<lambda>ab w. I (snd w) \<and> holds L batch a w \<and> (ab = aborts E (fst w))"])
    show "io_ok (\<lambda>w. I (snd w) \<and> holds L batch a w) (signalAborted E)
        (\<lambda>ab w. I (snd w) \<and> holds L batch a w \<and> (ab = aborts E (fst w))) (\<lambda>w. I (snd w))"
      by (rule signalAborted_ok) simp
    fix ab
    show "io_ok (\<lambda>w. I (snd w) \<and> holds L batch a w \<and> (ab = aborts E (fst w)))
        (if ab then io_ret batch
         else io_bind (pushRefs N (\<lambda>b. call E (\<lambda>now s. returning_unit (stage a b s))) p batch)
           (drainPages E N (\<lambda>b. call E (\<lambda>now s. returning_unit (stage a b s))) ps fl))
        (\<lambda>b w. I (snd w) \<and> (aborts E (fst w) \<or> holds (L \<union> set (concat (p # ps))) b a w))
        (\<lambda>w. I (snd w))"
      by (rule io_if_ok) (auto intro: io_ret_ok io_weaken [OF go])
  qed
qed

text \<open>The whole listing is staged, or the pass was aborted, or the staging is lost.\<close>

lemma drain_ok:
  assumes "leaves_staging E a" "lasting E I" "aborts_stay E"
  shows "io_ok (\<lambda>w. I (snd w) \<and> holds {} [] a w)
    (drain E N (\<lambda>b. call E (\<lambda>now s. returning_unit (stage a b s))) l)
    (\<lambda>_ w. I (snd w) \<and> (aborts E (fst w) \<or> holds (set (concat (pages l))) [] a w)) (\<lambda>w. I (snd w))"
  unfolding drain_def
proof (rule io_bind_ok [OF drain_calls [OF assms]])
  fix batch
  let ?A = "set (concat (pages l))"
  let ?P = "\<lambda>w. I (snd w) \<and> (aborts E (fst w) \<or> holds ({} \<union> ?A) batch a w)"
  let ?Q = "\<lambda>_ w. I (snd w) \<and> (aborts E (fst w) \<or> holds ?A [] a w)"
  show "io_ok ?P (if batch = [] then io_ret () else call E (\<lambda>now s. returning_unit (stage a batch s)))
      ?Q (\<lambda>w. I (snd w))"
  proof (rule io_if_ok)
    show "batch = [] \<Longrightarrow> io_ok ?P (io_ret ()) ?Q (\<lambda>w. I (snd w))"
      by (rule io_ret_ok) simp
    have 1: "io_ok (\<lambda>w. I (snd w) \<and> holds ?A batch a w)
        (call E (\<lambda>now s. returning_unit (stage a batch s))) ?Q (\<lambda>w. I (snd w))"
      by (rule io_weaken [OF stage_call [OF assms(1,2)]]) auto
    have 2: "io_ok (\<lambda>w. I (snd w) \<and> aborts E (fst w))
        (call E (\<lambda>now s. returning_unit (stage a batch s))) ?Q (\<lambda>w. I (snd w))"
    proof (rule call_ok)
      fix k s u t
      assume w: "I (snd (k, s)) \<and> aborts E (fst (k, s))"
        and "returning_unit (stage a batch s) = Inr (u, t)"
      then have "stage a batch s = Inr t" by (auto simp: returning_unit_def)
      from stage_corpus [OF this] w assms(2,3)
      show "?Q u (Suc k, env E k t)"
        unfolding lasting_def aborts_stay_def by (metis fst_conv snd_conv le_SucI order_refl)
    next
      fix k s e assume "I (snd (k, s)) \<and> aborts E (fst (k, s))"
      then show "I (snd (Suc k, env E k s))" using assms(2) by (simp add: lasting_def)
    qed
    show "io_ok ?P (call E (\<lambda>now s. returning_unit (stage a batch s))) ?Q (\<lambda>w. I (snd w))"
      using 1 2 unfolding io_ok_def by simp blast
  qed
qed

end

section \<open>The store meets the interface\<close>

definition stagedRefs :: "store \<Rightarrow> string \<Rightarrow> external_ref set option" where
  "stagedRefs s a = (if requirePass a s = Inr () then Some {r. (a, r) \<in> set (listingRows s)} else None)"

lemma rows_beginPass [simp]:
  "listingRows (beginPass a s) = filter (\<lambda>l. fst l \<noteq> a) (listingRows s)"
  "passRows (beginPass a s) = List.insert a (passRows s)" "reconcile_temp (beginPass a s) \<noteq> None"
  by (simp_all add: listingRows_def passRows_def beginPass_def)

lemma rows_endPass [simp]:
  "listingRows (endPass a s) = filter (\<lambda>l. fst l \<noteq> a) (listingRows s)"
  "passRows (endPass a s) = filter (\<lambda>b. b \<noteq> a) (passRows s)"
  "reconcile_temp (endPass a s) = None \<longleftrightarrow> reconcile_temp s = None"
  by (auto simp: listingRows_def passRows_def endPass_def split: option.splits prod.splits)

lemma requirePass_iff: "requirePass a s = Inr () \<longleftrightarrow> reconcile_temp s \<noteq> None \<and> a \<in> set (passRows s)"
  by (simp add: requirePass_def)

lemma stageTx_ok:
  "reconcile_temp s \<noteq> None \<Longrightarrow> \<exists>t. stageTx a refs s = Inr t \<and> same_corpus s t \<and>
     reconcile_temp t \<noteq> None \<and> passRows t = passRows s \<and>
     set (listingRows t) = set (listingRows s) \<union> Pair a ` set refs"
proof (induction refs arbitrary: s)
  case Nil
  then show ?case by (simp add: stageTx_def)
next
  case (Cons r refs)
  obtain l p where lp: "reconcile_temp s = Some (l, p)" using Cons.prems by auto
  let ?s = "s\<lparr>reconcile_temp := Some (if (a, r) \<in> set l then l else l @ [(a, r)], p)\<rparr>"
  have step: "stageOne a r s = Inr ?s" by (simp add: stageOne_def lp)
  have rows: "passRows ?s = passRows s" "set (listingRows ?s) = insert (a, r) (set (listingRows s))"
    "same_corpus s ?s"
    by (auto simp: passRows_def listingRows_def lp same_corpus_def)
  obtain t where "stageTx a refs ?s = Inr t" "same_corpus ?s t" "reconcile_temp t \<noteq> None"
    "passRows t = passRows ?s" "set (listingRows t) = set (listingRows ?s) \<union> Pair a ` set refs"
    using Cons.IH [of ?s] by auto
  with step rows show ?case
    by (auto simp: stageTx_def intro: same_corpus_trans)
qed

lemma reconcileStage_ok:
  assumes "requirePass a s = Inr ()"
  shows "\<exists>t. reconcileStage a refs s = Inr t \<and> same_corpus s t \<and>
     reconcile_temp t \<noteq> None \<and> passRows t = passRows s \<and>
     set (listingRows t) = set (listingRows s) \<union> Pair a ` set refs"
  using assms stageTx_ok [of s a refs] by (auto simp: reconcileStage_def requirePass_iff)

interpretation temp: staging_store stagedRefs beginPass reconcileStage endPass reconnect
proof
  show "stagedRefs (beginPass a s) b = (if b = a then Some {} else stagedRefs s b)" for a s b
    by (cases "reconcile_temp s")
      (auto simp: stagedRefs_def requirePass_iff listingRows_def passRows_def beginPass_def)
  show "\<exists>t. reconcileStage a refs s = Inr t \<and> stagedRefs t a = Some (L \<union> set refs) \<and>
      (\<forall>b. b \<noteq> a \<longrightarrow> stagedRefs t b = stagedRefs s b)" if "stagedRefs s a = Some L" for s a L refs
  proof -
    from that have p: "requirePass a s = Inr ()" "L = {r. (a, r) \<in> set (listingRows s)}"
      by (auto simp: stagedRefs_def split: if_splits)
    from reconcileStage_ok [OF p(1), of refs] p show ?thesis
      by (fastforce simp: stagedRefs_def requirePass_iff)
  qed
  show "reconcileStage a refs s = Inl (StagingLost a)" if "stagedRefs s a = None" for s a refs
  proof -
    from that have "requirePass a s = Inl (StagingLost a)"
      by (auto simp: stagedRefs_def requirePass_def split: if_splits)
    then show ?thesis by (simp add: reconcileStage_def)
  qed
  show "stagedRefs (endPass a s) b = (if b = a then None else stagedRefs s b)" for a s b
    by (auto simp: stagedRefs_def requirePass_iff)
  show "stagedRefs (reconnect s) a = None" for s a
    by (simp add: stagedRefs_def requirePass_def reconnect_def)
  show "same_corpus s t" if "reconcileStage a refs s = Inr t" for a refs s t
  proof -
    from that have "requirePass a s = Inr ()" by (auto simp: reconcileStage_def)
    from reconcileStage_ok [OF this, of refs] that show ?thesis by auto
  qed
qed

section \<open>What the rest of the world may do\<close>

text \<open>The document that has to survive: live, top-level, in the reconciled account.\<close>

definition alive :: "doc_row \<Rightarrow> store \<Rightarrow> bool" where
  "alive d s \<longleftrightarrow> (\<exists>e \<in> set (documents s). did e = did d \<and> nat_key e = nat_key d \<and>
     archived_at e = None \<and> parent_id e = None)"

definition sound :: "deps \<Rightarrow> doc_row \<Rightarrow> store \<Rightarrow> bool" where
  "sound D d s \<longleftrightarrow> store_inv D s \<and> alive d s"

text \<open>
  Everybody else keeps the invariant, does not archive the document and does not write to this
  account's staging (losing it, by a restart, is allowed).
\<close>

definition fair :: "deps \<Rightarrow> pass_env \<Rightarrow> string \<Rightarrow> doc_row \<Rightarrow> bool" where
  "fair D E a d \<longleftrightarrow> (\<forall>k s. sound D d s \<longrightarrow> sound D d (env E k s)) \<and>
     temp.leaves_staging E a \<and> temp.aborts_stay E"

lemma alive_documents: "documents t = documents s \<Longrightarrow> alive d t = alive d s"
  by (simp add: alive_def)

lemma sound_corpus: "same_corpus s t \<Longrightarrow> sound D d s \<Longrightarrow> sound D d t"
  using same_corpus_inv [of s t D] alive_documents [of t s d] by (simp add: sound_def same_corpus_def)

lemma fair_lasting: "fair D E a d \<Longrightarrow> temp.lasting E (sound D d)"
  by (auto simp: fair_def temp.lasting_def intro: sound_corpus)

lemma same_corpus_pass: "same_corpus s (beginPass a s)" "same_corpus s (endPass a s)"
  by (simp_all add: same_corpus_def beginPass_def endPass_def)

lemma sound_call:
  assumes "fair D E a d"
    and "\<And>now s x t. sound D d s \<Longrightarrow> f now s = Inr (x, t) \<Longrightarrow> sound D d t"
  shows "io_ok (\<lambda>w. sound D d (snd w)) (call E f) (\<lambda>_ w. sound D d (snd w)) (\<lambda>w. sound D d (snd w))"
  using assms by (intro call_ok) (auto simp: fair_def)

lemma statusOp_sound:
  assumes "accountWrite D now (StatusOp a st err scope) s = Inr (r, t)" "sound D d s"
  shows "sound D d t"
proof -
  let ?s = "s\<lparr>accountAppends := []\<rparr>"
  obtain r' t' where op: "statusOp now a st err scope ?s = (r', t')" by fastforce
  obtain i logged where r': "r' = (i, logged)" by (cases r')
  have t: "t = t'\<lparr>accountPublishedAt := fold (\<lambda>(i, at) m. m(i \<mapsto> at)) (accountAppends t')
       (accountPublishedAt t'), accountAppends := []\<rparr>"
    using assms(1) op by (simp add: accountWrite_def publishing_def)
  have s: "sound D d ?s" using assms(2) by (simp add: sound_def alive_def)
  have "sound D d t'"
  proof (cases rule: changeAccount_cases [of now a
      "\<lambda>x. (case st of None \<Rightarrow> status x | Some y \<Rightarrow> y) \<noteq> status x \<or>
         lastErrorAssignment err scope (last_error x) \<noteq> last_error x"
      "\<lambda>x. x\<lparr>status := case st of None \<Rightarrow> status x | Some y \<Rightarrow> y,
         last_error := lastErrorAssignment err scope (last_error x)\<rparr>" ?s])
    case same
    then show ?thesis using op s by (simp add: statusOp_def Let_def)
  next
    case (moved x)
    then have "t' = updated now a (\<lambda>x. x\<lparr>status := case st of None \<Rightarrow> status x | Some y \<Rightarrow> y,
         last_error := lastErrorAssignment err scope (last_error x)\<rparr>) ?s"
      using op by (simp add: statusOp_def Let_def)
    then have "store_inv D t'" "documents t' = documents ?s"
      using s store_inv_updated [of D ?s]
      by (auto simp: sound_def keeps_name_def updated_def appendChange_def updAccount_def Let_def)
    with s show ?thesis by (simp add: sound_def alive_def)
  qed
  then show ?thesis by (simp add: t sound_def alive_def)
qed

lemma finishPass_sound:
  assumes "fair D E a d"
  shows "io_ok (\<lambda>w. sound D d (snd w)) (finishPass D E b err) (\<lambda>_ w. sound D d (snd w))
    (\<lambda>w. sound D d (snd w))"
  unfolding finishPass_def setAccountStatus_def
  by (rule sound_call [OF assms]) (auto intro: statusOp_sound)

lemma endCall_sound:
  assumes "fair D E a d"
  shows "io_ok (\<lambda>w. sound D d (snd w)) (endCall E b) (\<lambda>_ w. sound D d (snd w))
    (\<lambda>w. sound D d (snd w))"
  unfolding endCall_def
  by (rule sound_call [OF assms]) (auto intro: sound_corpus same_corpus_pass)

lemma passFailed_sound:
  assumes "fair D E a d"
  shows "io_ok (\<lambda>w. sound D d (snd w)) (passFailed D E b e) (\<lambda>_ w. sound D d (snd w))
    (\<lambda>w. sound D d (snd w))"
  unfolding passFailed_def
  by (rule io_bind_ok [OF endCall_sound [OF assms]],
      rule io_bind_ok [where R = "\<lambda>_ w. sound D d (snd w)"])
    (auto intro!: signalAborted_ok io_if_ok io_ret_ok finishPass_sound [OF assms])

section \<open>A listed document survives\<close>

lemma chunk_sound_listed:
  assumes "reconcileArchiveChunk now a n limit s = Inr (r, t)" "sound D d s"
    and "account_id d = a" "temp.holds L [] a (k, s)" "refOf d \<in> L"
  shows "sound D d t"
proof -
  have p: "requirePass a s = Inr ()" using chunk_Inr [OF assms(1)] by simp
  then have "stagedRefs s a = Some {r. (a, r) \<in> set (listingRows s)}"
    by (simp add: stagedRefs_def)
  with assms(4,5) have l: "(a, refOf d) \<in> set (listingRows s)"
    by (auto simp: temp.holds_def)
  from assms(2) obtain e where e: "e \<in> set (documents s)" "did e = did d" "nat_key e = nat_key d"
    "archived_at e = None" "parent_id e = None" and inv: "store_inv D s"
    by (auto simp: sound_def alive_def)
  have "listed s e"
    using l e(3) assms(3) by (simp add: listed_def nat_key_def refOf_def)
  then have "\<not> unlisted n s e" by (simp add: unlisted_def)
  with chunk_sound [OF inv assms(1) e(1)] e(5) have "e \<in> set (documents t)" by auto
  with e chunk_inv [OF assms(1) inv] show ?thesis by (auto simp: sound_def alive_def)
qed

lemma holds_env:
  assumes "temp.leaves_staging E a" "stagedRefs t a = stagedRefs s a \<or> stagedRefs t a = None"
    "temp.holds L [] a (k, s)"
  shows "temp.holds L [] a (j, env E k t)"
proof -
  have "stagedRefs (env E k t) a = stagedRefs t a \<or> stagedRefs (env E k t) a = None"
    using assms(1) by (simp add: temp.leaves_staging_def)
  with assms(2,3) show ?thesis by (auto simp: temp.holds_def)
qed

lemma chunk_staged:
  assumes "reconcileArchiveChunk now a n limit s = Inr (r, t)"
  shows "stagedRefs t a = (if chunk_done r then None else stagedRefs s a)"
proof -
  obtain js where "snd (archiveBatchTx now a n limit s) = archiving now js (s\<lparr>archivedRefs :=
      map_option (\<lambda>rs. rs @ map refOf (chunkRows a n limit s)) (archivedRefs s)\<rparr>)"
    using archiveBatchTx_archiving [of now a n limit s] by (elim exE conjE) (rule that)
  then have "reconcile_temp (snd (archiveBatchTx now a n limit s)) = reconcile_temp s" by simp
  then have "stagedRefs (snd (archiveBatchTx now a n limit s)) a = stagedRefs s a"
    by (simp add: stagedRefs_def requirePass_def listingRows_def passRows_def)
  then show ?thesis using chunk_Inr [OF assms] temp.end_staged by simp
qed

lemma archiveLoop_sound:
  assumes "fair D E a d" "account_id d = a" "refOf d \<in> L"
  shows "io_ok (\<lambda>w. sound D d (snd w) \<and> temp.holds L [] a w) (archiveLoop fuel E a n)
    (\<lambda>_ w. sound D d (snd w)) (\<lambda>w. sound D d (snd w))"
proof (induction fuel)
  case 0
  then show ?case by (simp add: io_ok_def)
next
  case (Suc fuel)
  let ?P = "\<lambda>w. sound D d (snd w) \<and> temp.holds L [] a w"
  let ?S = "\<lambda>w. sound D d (snd w)"
  have admit: "io_ok ?P (admitChunk E) (\<lambda>_. ?P) ?S"
    unfolding admitChunk_def
    by (rule io_bind_ok [where R = "\<lambda>_. ?P"])
      (auto intro!: signalAborted_ok io_if_ok io_ret_ok io_throw_ok)
  have chunk: "io_ok ?P (chunkCall E a n) (\<lambda>_. ?P) ?S"
    unfolding chunkCall_def
  proof (rule call_ok)
    fix k s r t
    assume P: "?P (k, s)" and run: "reconcileArchiveChunk (clock E k) a n RECONCILE_ARCHIVE_BATCH s = Inr (r, t)"
    have "sound D d t" using chunk_sound_listed [OF run _ assms(2) _ assms(3)] P by auto
    then have "sound D d (env E k t)" using assms(1) by (simp add: fair_def)
    moreover have "temp.holds L [] a (Suc k, env E k t)"
      using P assms(1) chunk_staged [OF run] by (intro holds_env [of E a t s]) (auto simp: fair_def)
    ultimately show "?P (Suc k, env E k t)" by simp
  next
    fix k s e assume "?P (k, s)"
    then show "?S (Suc k, env E k s)" using assms(1) by (simp add: fair_def)
  qed
  show ?case
    unfolding archiveLoop.simps
    by (rule io_bind_ok [OF admit], rule io_bind_ok [OF chunk])
      (auto intro!: io_if_ok io_ret_ok Suc.IH)
qed

text \<open>The document is in the listing, or the listing is empty and no full allowance was given.\<close>

definition protected :: "doc_row \<Rightarrow> allowance_kind option \<Rightarrow> listing \<Rightarrow> bool" where
  "protected d allowance l \<longleftrightarrow> refOf d \<in> set (concat (pages l)) \<or>
     (set (concat (pages l)) = {} \<and> allowance \<noteq> Some FullAllowance)"

lemma empty_listing_refused:
  assumes "stagedRefs s a = Some {}" "reconcileDiff a n s = Inr c" "allowance \<noteq> Some FullAllowance"
  shows "refusal allowance c \<noteq> None"
proof -
  have p: "requirePass a s = Inr ()" using assms(2) by (auto simp: reconcileDiff_def)
  with assms(1) have "filter (\<lambda>l. fst l = a) (listingRows s) = []"
    by (auto simp: stagedRefs_def filter_empty_conv)
  then have "listedCount c = 0" using assms(2) p by (auto simp: reconcileDiff_def Let_def)
  with assms(3) show ?thesis by (simp add: refusal_def)
qed

lemma afterDiff_sound:
  assumes "fair D E a d" "account_id d = a"
    and "refOf d \<in> L \<or> refusal allowance c \<noteq> None"
  shows "io_ok (\<lambda>w. sound D d (snd w) \<and> temp.holds L [] a w) (afterDiff fuel D E a n allowance c)
    (\<lambda>_ w. sound D d (snd w)) (\<lambda>w. sound D d (snd w))"
proof -
  have fin: "io_ok (\<lambda>w. sound D d (snd w) \<and> temp.holds L [] a w)
      (io_bind (endCall E a) (\<lambda>_. finishPass D E a err)) (\<lambda>_ w. sound D d (snd w))
      (\<lambda>w. sound D d (snd w))" for err
    by (rule io_bind_ok [OF io_weaken [OF endCall_sound [OF assms(1)]]
          finishPass_sound [OF assms(1)]]) auto
  show ?thesis
  proof (cases "deletionCount c = 0 \<or> refusal allowance c \<noteq> None")
    case True
    then show ?thesis using fin by (auto simp: afterDiff_def)
  next
    case False
    with assms(3) have "refOf d \<in> L" by simp
    have "io_ok (\<lambda>w. sound D d (snd w) \<and> temp.holds L [] a w)
        (io_bind (archiveLoop fuel E a n) (\<lambda>_. finishPass D E a None)) (\<lambda>_ w. sound D d (snd w))
        (\<lambda>w. sound D d (snd w))"
      by (rule io_bind_ok [OF archiveLoop_sound [OF assms(1,2) \<open>refOf d \<in> L\<close>]
            finishPass_sound [OF assms(1)]])
    then show ?thesis using False by (simp add: afterDiff_def)
  qed
qed

end
