(* ===== verification/EnginePassProps.thy ===== *)
theory EnginePassProps
  imports EnginePassInv
begin

text \<open>The properties of a whole reconcile pass.\<close>

section \<open>Safety\<close>

lemma diffCall_sound:
  assumes "fair D E a d" "protected d allowance l"
  shows "io_ok (\<lambda>w. sound D d (snd w) \<and> temp.holds (set (concat (pages l))) [] a w) (diffCall E a n)
    (\<lambda>c w. (sound D d (snd w) \<and> temp.holds (set (concat (pages l))) [] a w) \<and>
       (refOf d \<in> set (concat (pages l)) \<or> refusal allowance c \<noteq> None))
    (\<lambda>w. sound D d (snd w))"
  unfolding diffCall_def
proof (rule call_ok)
  let ?L = "set (concat (pages l))"
  fix k s c t
  assume P: "sound D d (snd (k, s)) \<and> temp.holds ?L [] a (k, s)"
    and "ebind (reconcileDiff a n s) (\<lambda>c. Inr (c, s)) = Inr (c, t)"
  then have run: "reconcileDiff a n s = Inr c" "t = s" by auto
  have "sound D d (env E k s)" using P assms(1) by (simp add: fair_def)
  moreover have "temp.holds ?L [] a (Suc k, env E k s)"
    using P assms(1) by (intro holds_env [of E a s s]) (auto simp: fair_def)
  moreover have "refOf d \<in> ?L \<or> refusal allowance c \<noteq> None"
  proof (cases "refOf d \<in> ?L")
    case False
    with assms(2) have e: "?L = {}" "allowance \<noteq> Some FullAllowance" by (auto simp: protected_def)
    have "stagedRefs s a \<noteq> None" using run(1) by (auto simp: reconcileDiff_def stagedRefs_def)
    with P e(1) have "stagedRefs s a = Some {}" by (auto simp: temp.holds_def)
    from empty_listing_refused [OF this run(1) e(2)] show ?thesis by simp
  qed simp
  ultimately show "(sound D d (snd (Suc k, env E k t)) \<and> temp.holds ?L [] a (Suc k, env E k t)) \<and>
      (refOf d \<in> ?L \<or> refusal allowance c \<noteq> None)"
    by (simp add: run(2))
next
  fix k s e assume "sound D d (snd (k, s)) \<and> temp.holds (set (concat (pages l))) [] a (k, s)"
  then show "sound D d (snd (Suc k, env E k s))" using assms(1) by (simp add: fair_def)
qed

lemma passBody_sound:
  assumes "fair D E a d" "account_id d = a" "protected d allowance l"
  shows "io_ok (\<lambda>w. sound D d (snd w) \<and> temp.holds {} [] a w) (passBody fuel D E a n allowance l)
    (\<lambda>_ w. sound D d (snd w)) (\<lambda>w. sound D d (snd w))"
proof -
  let ?L = "set (concat (pages l))"
  let ?S = "\<lambda>w. sound D d (snd w)"
  have fair: "temp.leaves_staging E a" "temp.aborts_stay E" using assms(1) by (simp_all add: fair_def)
  have drain: "io_ok (\<lambda>w. ?S w \<and> temp.holds {} [] a w) (drain E RECONCILE_STAGE_BATCH (stageCall E a) l)
      (\<lambda>_ w. ?S w \<and> (aborts E (fst w) \<or> temp.holds ?L [] a w)) ?S"
    unfolding stageCall_def by (rule temp.drain_ok [OF fair(1) fair_lasting [OF assms(1)] fair(2)])
  have after: "io_ok (\<lambda>w. ?S w \<and> temp.holds ?L [] a w)
      (io_bind (diffCall E a n) (afterDiff fuel D E a n allowance)) (\<lambda>_. ?S) ?S"
  proof (rule io_bind_ok [OF diffCall_sound [OF assms(1,3)]])
    fix c
    show "io_ok (\<lambda>w. (?S w \<and> temp.holds ?L [] a w) \<and> (refOf d \<in> ?L \<or> refusal allowance c \<noteq> None))
        (afterDiff fuel D E a n allowance c) (\<lambda>_. ?S) ?S"
      using afterDiff_sound [OF assms(1,2), of ?L allowance c fuel n] unfolding io_ok_def by blast
  qed
  show ?thesis
    unfolding passBody_def
  proof (rule io_bind_ok [OF drain])
    show "io_ok (\<lambda>w. ?S w \<and> (aborts E (fst w) \<or> temp.holds ?L [] a w))
        (io_bind (signalAborted E) (\<lambda>ab. if ab then endCall E a
          else io_bind (diffCall E a n) (afterDiff fuel D E a n allowance))) (\<lambda>_. ?S) ?S"
    proof (rule io_bind_ok [where R = "\<lambda>ab w. ?S w \<and> (ab \<or> temp.holds ?L [] a w)"])
      show "io_ok (\<lambda>w. ?S w \<and> (aborts E (fst w) \<or> temp.holds ?L [] a w)) (signalAborted E)
          (\<lambda>ab w. ?S w \<and> (ab \<or> temp.holds ?L [] a w)) ?S"
        by (rule signalAborted_ok) simp
      fix ab
      show "io_ok (\<lambda>w. ?S w \<and> (ab \<or> temp.holds ?L [] a w)) (if ab then endCall E a
          else io_bind (diffCall E a n) (afterDiff fuel D E a n allowance)) (\<lambda>_. ?S) ?S"
        by (rule io_if_ok) (auto intro: io_weaken [OF endCall_sound [OF assms(1)]] io_weaken [OF after])
    qed
  qed
qed

lemma reconcilePass_sound:
  assumes "fair D E a d" "account_id d = a" "protected d allowance l"
  shows "io_ok (\<lambda>w. sound D d (snd w)) (reconcilePass fuel D E a allowance (Some l))
    (\<lambda>_ w. sound D d (snd w)) (\<lambda>w. sound D d (snd w))"
proof -
  let ?S = "\<lambda>w. sound D d (snd w)"
  have begins: "io_ok ?S (call E (\<lambda>now s. Inr ((), beginPass a s)))
      (\<lambda>_ w. ?S w \<and> temp.holds {} [] a w) ?S"
  proof (rule call_ok)
    fix k :: nat and s x t
    assume S: "?S (k, s)" and "Inr ((), beginPass a s) = (Inr (x, t) :: tx_error + unit \<times> store)"
    then have t: "t = beginPass a s" by simp
    have "sound D d t" using S sound_corpus [OF same_corpus_pass(1)] by (simp add: t)
    then have "sound D d (env E k t)" using assms(1) by (simp add: fair_def)
    moreover have "stagedRefs t a = Some {}" using temp.begin_staged [of a s a] by (simp add: t)
    then have "temp.holds {} [] a (Suc k, env E k t)"
      using assms(1) by (intro holds_env [where s = t]) (simp_all add: fair_def temp.holds_def)
    ultimately show "?S (Suc k, env E k t) \<and> temp.holds {} [] a (Suc k, env E k t)" by simp
  qed simp
  have head: "io_ok ?S (call E (\<lambda>now s. Inr (maxSeq s, s))) (\<lambda>_. ?S) ?S"
    by (rule sound_call [OF assms(1)]) auto
  have body: "io_ok (\<lambda>w. ?S w \<and> temp.holds {} [] a w)
      (io_catch (passBody fuel D E a n allowance l) (passFailed D E a)) (\<lambda>_. ?S) ?S" for n
    by (rule io_catch_ok [OF passBody_sound [OF assms] passFailed_sound [OF assms(1)]])
  show ?thesis
    unfolding reconcilePass_def option.case
    by (rule io_bind_ok [OF head], rule io_bind_ok [OF begins], rule body)
qed

text \<open>
  C7: a document the connector listed is not archived by the pass, whatever happens meanwhile:
  whichever way the connector cuts its listing into pages, whatever the allowance, with other
  accounts' passes and the pull running between the calls, with an abort, a failing listing or a
  restart of the DB worker at any point. And an empty listing archives nothing at all unless the
  user just changed the config (a full allowance). (The document is live, of the account, top
  level: an attachment follows its message.)
\<close>

theorem reconcile_pass_keeps_the_listed:
  assumes "sound D d s" "account_id d = a" "fair D E a d" "protected d allowance l"
    and "reconcilePass fuel D E a allowance (Some l) (k, s) = Some (r, (k', t))"
  shows "\<exists>e \<in> set (documents t). did e = did d \<and> archived_at e = None"
proof -
  have "sound D d (snd (k', t))"
    using reconcilePass_sound [OF assms(3,2,4), of fuel] assms(1,5)
    by (cases r) (auto simp: io_ok_def)
  then show ?thesis by (auto simp: sound_def alive_def)
qed

section \<open>Termination\<close>

definition io_ends :: "(world \<Rightarrow> bool) \<Rightarrow> 'a io \<Rightarrow> (world \<Rightarrow> bool) \<Rightarrow> bool" where
  "io_ends P m Q \<longleftrightarrow> (\<forall>w. P w \<longrightarrow> (\<exists>r w'. m w = Some (r, w') \<and> Q w'))"

lemma io_endsD: "io_ends P m Q \<Longrightarrow> P w \<Longrightarrow> \<exists>r w'. m w = Some (r, w') \<and> Q w'"
  unfolding io_ends_def by blast

lemma ends_bind:
  assumes "io_ends P m R" "\<And>a. io_ends R (f a) Q" "\<And>w. R w \<Longrightarrow> Q w"
  shows "io_ends P (io_bind m f) Q"
  unfolding io_ends_def
proof (intro allI impI)
  fix w assume "P w"
  with assms(1) obtain r w' where m: "m w = Some (r, w')" "R w'" unfolding io_ends_def by blast
  show "\<exists>r w'. io_bind m f w = Some (r, w') \<and> Q w'"
  proof (cases r)
    case (Inl e)
    with m assms(3) show ?thesis by (simp add: io_bind_def)
  next
    case (Inr a)
    have "io_bind m f w = f a w'" by (simp add: io_bind_def m(1) Inr)
    with io_endsD [OF assms(2) [of a] m(2)] show ?thesis by (simp only:)
  qed
qed

lemma ends_catch:
  assumes "io_ends P m R" "\<And>e. io_ends R (h e) Q" "\<And>w. R w \<Longrightarrow> Q w"
  shows "io_ends P (io_catch m h) Q"
  unfolding io_ends_def
proof (intro allI impI)
  fix w assume "P w"
  with assms(1) obtain r w' where m: "m w = Some (r, w')" "R w'" unfolding io_ends_def by blast
  show "\<exists>r w'. io_catch m h w = Some (r, w') \<and> Q w'"
  proof (cases r)
    case (Inl e)
    have "io_catch m h w = h e w'" by (simp add: io_catch_def m(1) Inl)
    with io_endsD [OF assms(2) [of e] m(2)] show ?thesis by (simp only:)
  next
    case (Inr a)
    with m assms(3) show ?thesis by (simp add: io_catch_def)
  qed
qed

lemma ends_simple:
  "io_ends P (io_ret a) P" "io_ends P (io_throw e) P" "io_ends P (signalAborted E) P"
  by (auto simp: io_ends_def io_ret_def io_throw_def signalAborted_def)

text \<open>The rest of the world adds nothing to what is left to archive: new rows are newer.\<close>

definition adds_nothing :: "pass_env \<Rightarrow> string \<Rightarrow> nat \<Rightarrow> bool" where
  "adds_nothing E a n \<longleftrightarrow> (\<forall>k s. pending a n (env E k s) \<le> pending a n s)"

lemma ends_call:
  assumes "adds_nothing E a n" "\<And>now s x t. f now s = Inr (x, t) \<Longrightarrow> pending a n t \<le> pending a n s"
  shows "io_ends (\<lambda>w. pending a n (snd w) \<le> b) (call E f) (\<lambda>w. pending a n (snd w) \<le> b)"
  unfolding io_ends_def
proof (intro allI impI)
  fix w :: world assume b: "pending a n (snd w) \<le> b"
  obtain k s where w: "w = (k, s)" by (cases w)
  show "\<exists>r w'. call E f w = Some (r, w') \<and> pending a n (snd w') \<le> b"
  proof (cases "f (clock E k) s")
    case (Inl e)
    have "pending a n (env E k s) \<le> pending a n s" using assms(1) by (simp add: adds_nothing_def)
    with Inl b show ?thesis by (simp add: call_def w)
  next
    case (Inr xt)
    obtain x t where xt: "xt = (x, t)" by (cases xt)
    have "pending a n (env E k t) \<le> pending a n t" using assms(1) by (simp add: adds_nothing_def)
    with assms(2) [of "clock E k" s x t] Inr b show ?thesis by (simp add: call_def w xt)
  qed
qed

lemma pending_documents: "documents t = documents s \<Longrightarrow> pending a n t = pending a n s"
  by (simp add: pending_def)

lemma statusOp_documents:
  assumes "accountWrite D now (StatusOp x st err scope) s = Inr (r, t)"
  shows "documents t = documents s"
proof -
  obtain r' t' where op: "statusOp now x st err scope (s\<lparr>accountAppends := []\<rparr>) = (r', t')" by fastforce
  have "changeAccount now i differs f u = (q, v) \<Longrightarrow> documents v = documents u" for i differs f u q v
    by (cases "getAccountRow i u")
      (auto simp: changeAccount_def appendChange_def updAccount_def Let_def split: if_splits)
  from this [OF op [unfolded statusOp_def Let_def]] have "documents t' = documents s" by simp
  then show ?thesis using assms op by (auto simp: accountWrite_def publishing_def)
qed

lemma ends_calls:
  assumes "adds_nothing E a n"
  shows "io_ends (\<lambda>w. pending a n (snd w) \<le> b) (endCall E x) (\<lambda>w. pending a n (snd w) \<le> b)"
    "io_ends (\<lambda>w. pending a n (snd w) \<le> b) (stageCall E x refs) (\<lambda>w. pending a n (snd w) \<le> b)"
    "io_ends (\<lambda>w. pending a n (snd w) \<le> b) (diffCall E x m) (\<lambda>w. pending a n (snd w) \<le> b)"
    "io_ends (\<lambda>w. pending a n (snd w) \<le> b) (finishPass D E x err) (\<lambda>w. pending a n (snd w) \<le> b)"
proof -
  show "io_ends (\<lambda>w. pending a n (snd w) \<le> b) (endCall E x) (\<lambda>w. pending a n (snd w) \<le> b)"
    unfolding endCall_def by (rule ends_call [OF assms]) (auto simp: pending_def)
  show "io_ends (\<lambda>w. pending a n (snd w) \<le> b) (diffCall E x m) (\<lambda>w. pending a n (snd w) \<le> b)"
    unfolding diffCall_def by (rule ends_call [OF assms]) auto
  show "io_ends (\<lambda>w. pending a n (snd w) \<le> b) (finishPass D E x err) (\<lambda>w. pending a n (snd w) \<le> b)"
    unfolding finishPass_def setAccountStatus_def
  proof (rule ends_call [OF assms])
    fix now s y t
    assume "ebind (accountWrite D now (StatusOp x None (Some err)
        (if err = None then Some ReconcileScope else None)) s) (\<lambda>(_, t). Inr ((), t)) = Inr (y, t)"
    then obtain r where "accountWrite D now (StatusOp x None (Some err)
        (if err = None then Some ReconcileScope else None)) s = Inr (r, t)"
      by (cases "accountWrite D now (StatusOp x None (Some err)
        (if err = None then Some ReconcileScope else None)) s") auto
    from pending_documents [OF statusOp_documents [OF this]] show "pending a n t \<le> pending a n s"
      by simp
  qed
  show "io_ends (\<lambda>w. pending a n (snd w) \<le> b) (stageCall E x refs) (\<lambda>w. pending a n (snd w) \<le> b)"
    unfolding stageCall_def
  proof (rule ends_call [OF assms])
    fix now s y t assume "returning_unit (reconcileStage x refs s) = Inr (y, t)"
    then have "reconcileStage x refs s = Inr t"
      by (cases "reconcileStage x refs s") (simp_all add: returning_unit_def)
    from temp.stage_corpus [OF this] show "pending a n t \<le> pending a n s"
      by (simp add: pending_def same_corpus_def)
  qed
qed

lemma ends_drain:
  assumes "\<And>b. io_ends P (stage b) P"
  shows "io_ends P (drain E N stage l) P"
proof -
  have push: "io_ends P (pushRefs N stage rs batch) P" for rs batch
  proof (induction rs arbitrary: batch)
    case Nil
    then show ?case by (simp add: ends_simple)
  next
    case (Cons r rs)
    have "io_ends P (pushRef N stage r batch) P"
      by (auto simp: pushRef_def Let_def intro!: ends_bind [OF assms] ends_simple)
    then show ?case by (auto intro: ends_bind Cons.IH)
  qed
  have pages: "io_ends P (drainPages E N stage ps fl batch) P" for ps fl batch
  proof (induction ps arbitrary: batch)
    case Nil
    then show ?case
      by (auto intro!: ends_bind [OF ends_simple(3)] ends_simple split: option.splits)
  next
    case (Cons p ps)
    then show ?case
      by (auto intro!: ends_bind [OF ends_simple(3)] ends_bind [OF push] ends_simple)
  qed
  show ?thesis
    unfolding drain_def by (rule ends_bind [OF pages]) (auto intro: assms ends_simple)
qed

lemma ends_archiveLoop:
  assumes "adds_nothing E a n"
  shows "b < fuel \<Longrightarrow> io_ends (\<lambda>w. pending a n (snd w) \<le> b) (archiveLoop fuel E a n)
    (\<lambda>w. pending a n (snd w) \<le> b)"
proof (induction fuel arbitrary: b)
  case (Suc fuel)
  let ?P = "\<lambda>b w. pending a n (snd w) \<le> b"
  have loop: "\<exists>r w'. io_bind (chunkCall E a n)
      (\<lambda>r. if chunk_done r then io_ret () else archiveLoop fuel E a n) w = Some (r, w') \<and> ?P b w'"
    if b: "?P b w" for w
  proof -
    obtain k s where w: "w = (k, s)" by (cases w)
    let ?f = "reconcileArchiveChunk (clock E k) a n RECONCILE_ARCHIVE_BATCH s"
    have le: "pending a n (env E k t) \<le> pending a n t" for t
      using assms by (simp add: adds_nothing_def)
    show ?thesis
    proof (cases ?f)
      case (Inl e)
      then show ?thesis using b le [of s] by (simp add: io_bind_def chunkCall_def call_def w)
    next
      case (Inr rt)
      obtain r t where rt: "rt = (r, t)" by (cases rt)
      note run = Inr [unfolded rt]
      have shrink: "pending a n t + archived r \<le> b"
        using chunk_pending [OF run] b by (simp add: w)
      show ?thesis
      proof (cases "chunk_done r")
        case True
        then show ?thesis
          using run shrink le [of t] by (simp add: io_bind_def chunkCall_def call_def w io_ret_def)
      next
        case False
        then have "archived r \<ge> 1"
          using chunk_Inr [OF run] by (simp add: RECONCILE_ARCHIVE_BATCH_def)
        then have small: "pending a n (env E k t) \<le> b - 1" "0 < b" using shrink le [of t] by simp_all
        then have "io_ends (?P (b - 1)) (archiveLoop fuel E a n) (?P (b - 1))"
          using Suc.prems by (intro Suc.IH) simp
        with small(1) obtain r' w' where
          "archiveLoop fuel E a n (Suc k, env E k t) = Some (r', w')" "?P (b - 1) w'"
          unfolding io_ends_def by (metis snd_conv)
        then show ?thesis
          using run False by (simp add: io_bind_def chunkCall_def call_def w)
      qed
    qed
  qed
  have admit: "io_ends (?P b) (admitChunk E) (?P b)"
    unfolding admitChunk_def by (auto intro!: ends_bind [OF ends_simple(3)] ends_simple)
  show ?case
    unfolding archiveLoop.simps
    by (rule ends_bind [OF admit]) (use loop in \<open>auto simp: io_ends_def\<close>)
qed simp

lemma pass_ends:
  assumes "adds_nothing E a (maxSeq s)" "pending a (maxSeq s) s < fuel"
  shows "\<exists>r w. reconcilePass fuel D E a allowance lst (k, s) = Some (r, w)"
proof (cases lst)
  case None
  then show ?thesis by (simp add: reconcilePass_def io_ret_def)
next
  case (Some l)
  let ?n = "maxSeq s"
  let ?P = "\<lambda>w. pending a ?n (snd w) \<le> pending a ?n s"
  note calls = ends_calls [OF assms(1)]
  have fin: "io_ends ?P (io_bind (endCall E a) (\<lambda>_. finishPass D E a err)) ?P" for err
    by (rule ends_bind [OF calls(1) calls(4)]) simp
  have after: "io_ends ?P (afterDiff fuel D E a ?n allowance c) ?P" for c
    using fin ends_bind [OF ends_archiveLoop [OF assms(1,2)] calls(4)]
    by (auto simp: afterDiff_def split: option.split)
  have rest: "io_ends ?P (io_bind (signalAborted E) (\<lambda>ab. if ab then endCall E a
      else io_bind (diffCall E a ?n) (afterDiff fuel D E a ?n allowance))) ?P"
  proof (rule ends_bind [OF ends_simple(3)])
    fix ab
    have "io_ends ?P (io_bind (diffCall E a ?n) (afterDiff fuel D E a ?n allowance)) ?P"
      by (rule ends_bind [OF calls(3) after]) simp
    then show "io_ends ?P (if ab then endCall E a
        else io_bind (diffCall E a ?n) (afterDiff fuel D E a ?n allowance)) ?P"
      using calls(1) by simp
  qed simp
  have body: "io_ends ?P (passBody fuel D E a ?n allowance l) ?P"
    unfolding passBody_def by (rule ends_bind [OF ends_drain [OF calls(2)] rest]) simp
  have failed: "io_ends ?P (passFailed D E a e) ?P" for e
    unfolding passFailed_def
  proof (rule ends_bind [OF calls(1)])
    show "io_ends ?P (io_bind (signalAborted E) (\<lambda>ab. if ab then io_ret ()
        else finishPass D E a (Some (RECONCILE_ERROR_PREFIX @ errText E e)))) ?P"
      by (rule ends_bind [OF ends_simple(3)]) (auto intro: ends_simple calls(4))
  qed simp
  have begins: "io_ends ?P (call E (\<lambda>now s. Inr ((), beginPass a s))) ?P"
    by (rule ends_call [OF assms(1)]) (auto simp: pending_def beginPass_def)
  have tail: "io_ends ?P (io_bind (call E (\<lambda>now s. Inr ((), beginPass a s))) (\<lambda>_.
      io_catch (passBody fuel D E a ?n allowance l) (passFailed D E a))) ?P"
    by (rule ends_bind [OF begins ends_catch [OF body failed]]) simp_all
  have "pending a ?n (env E k s) \<le> pending a ?n s"
    using assms(1) by (simp add: adds_nothing_def)
  with io_endsD [OF tail, of "(Suc k, env E k s)"] show ?thesis
    by (auto simp: Some reconcilePass_def io_bind_def [of "call E (\<lambda>now s. Inr (maxSeq s, s))"] call_def
        [of _ "\<lambda>now s. Inr (maxSeq s, s)"])
qed

text \<open>
  C28: a reconcile pass ends: when nobody else adds documents the pass could archive (what is
  committed meanwhile is newer than its snapshot), the chunk loop needs at most one round per
  document that was eligible at the start, whatever the connector lists and wherever a call fails.
\<close>

theorem reconcile_pass_ends:
  assumes "adds_nothing E a (maxSeq s)" "pending a (maxSeq s) s < fuel"
  shows "\<exists>r w. reconcilePass fuel D E a allowance lst (k, s) = Some (r, w)"
  by (rule pass_ends [OF assms])

section \<open>At a concrete pass\<close>

text \<open>Nothing else runs; the connector lists the parent only.\<close>

definition idle :: pass_env where
  "idle = \<lparr>env = (\<lambda>_ s. s), aborts = (\<lambda>_. False), clock = int, errText = (\<lambda>_. ''error'')\<rparr>"

definition one_page :: listing where
  "one_page = \<lparr>pages = [[sample_ref ''p'']], failure = None\<rparr>"

lemma idle_adds_nothing: "adds_nothing idle a n"
  by (simp add: adds_nothing_def idle_def)

lemma idle_pending: "pending ''a'' n (stocked None) < 3"
  by (simp add: pending_def stocked_def Let_def)

theorem reconcile_pass_ends_witness:
  "\<exists>r w. reconcilePass 3 sample_deps idle ''a'' None (Some one_page) (0, stocked None) = Some (r, w)"
  by (rule reconcile_pass_ends [OF idle_adds_nothing idle_pending])

theorem reconcile_pass_keeps_the_listed_witness:
  "\<exists>r k t. reconcilePass 3 sample_deps idle ''a'' None (Some one_page) (0, stocked None) = Some (r, (k, t)) \<and>
    (\<exists>e \<in> set (documents t). did e = ''P'' \<and> archived_at e = None)"
proof -
  let ?d = "sample_doc 1 ''P'' ''p'' None None"
  obtain r k t where
    run: "reconcilePass 3 sample_deps idle ''a'' None (Some one_page) (0, stocked None) = Some (r, (k, t))"
    using pass_ends [OF idle_adds_nothing idle_pending, of sample_deps None "Some one_page" 0] by auto
  have "alive ?d (stocked None)"
    by (simp add: alive_def stocked_def Let_def sample_doc_def)
  then have "sound sample_deps ?d (stocked None)"
    by (simp only: sound_def store_inv_stocked simp_thms)
  moreover have "account_id ?d = ''a''" "did ?d = ''P''" by (simp_all add: sample_doc_def)
  moreover have "fair sample_deps idle ''a'' ?d"
    by (simp add: fair_def idle_def temp.leaves_staging_def temp.aborts_stay_def)
  moreover have "protected ?d None one_page"
    by (simp add: protected_def one_page_def refOf_def sample_doc_def sample_ref_def)
  ultimately have "\<exists>e \<in> set (documents t). did e = ''P'' \<and> archived_at e = None"
    using reconcile_pass_keeps_the_listed [OF _ _ _ _ run, of ?d] by (simp del: One_nat_def)
  with run show ?thesis by blast
qed

text \<open>A chunk over the same listing.\<close>

definition ready :: store where
  "ready = (stocked None)\<lparr>reconcile_temp := Some ([(''a'', sample_ref ''p'')], [''a''])\<rparr>"

definition chunked :: store where
  "chunked = endPass ''a'' ready"

lemma ready_chunk:
  "reconcileArchiveChunk 9 ''a'' 2 10 ready = Inr (\<lparr>archived = 0, chunk_done = True\<rparr>, chunked)"
  by (simp add: reconcileArchiveChunk_def archiveBatchTx_def chunkRows_def requirePass_def passRows_def
      ready_def stocked_def Let_def eligible_def unlisted_def listed_def keptByParent_def docById_def
      listingRows_def refOf_def sample_doc_def sample_ref_def chunked_def two_accounts_def empty_store_def)

lemma store_inv_ready: "store_inv sample_deps ready"
proof -
  have "same_corpus (stocked None) ready" by (simp add: same_corpus_def ready_def)
  from same_corpus_inv [OF this] store_inv_stocked show ?thesis by simp
qed

lemma ready_documents: "documents ready = [sample_doc 1 ''P'' ''p'' None None, sample_doc 2 ''C'' ''c'' (Some ''P'') None]"
  by (simp add: ready_def stocked_def Let_def)

lemma ready_listed:
  "unlisted 2 ready (sample_doc 1 ''P'' ''p'' None None) = False"
  "unlisted 2 ready (sample_doc 2 ''C'' ''c'' (Some ''P'') None) = False"
  "listed ready (sample_doc 2 ''C'' ''c'' (Some ''P'') None) = False"
  by (simp_all add: unlisted_def listed_def keptByParent_def docById_def stocked_def Let_def
      sample_doc_def refOf_def listingRows_def ready_def sample_ref_def)

theorem reconcile_chunk_is_sound_witness:
  "sample_doc 2 ''C'' ''c'' (Some ''P'') None \<in> set (documents chunked)"
  using reconcile_chunk_is_sound [OF store_inv_ready ready_chunk,
      of "sample_doc 2 ''C'' ''c'' (Some ''P'') None"]
  by (auto simp: ready_documents ready_listed simp del: One_nat_def)

theorem reconcile_done_is_complete_witness:
  "\<exists>p \<in> set (documents chunked). did p = ''P'' \<and> archived_at p = None"
proof -
  let ?c = "sample_doc 2 ''C'' ''c'' (Some ''P'') None"
  have one: "one_level ready" by (simp add: one_level_def ready_documents sample_doc_def)
  have "?c \<in> set (documents chunked)" by (simp add: chunked_def ready_documents)
  moreover have "eligible ''a'' 2 ?c" "parent_id ?c = Some ''P''"
    by (simp_all add: eligible_def sample_doc_def)
  ultimately show ?thesis
    using reconcile_done_is_complete [OF store_inv_ready one ready_chunk, of ?c] ready_listed(3)
    by auto
qed

end
