(* ===== verification/EngineWork.thy ===== *)
theory EngineWork
  imports CommitInv
begin

text \<open>
  The worker side of src/main/core/engine/engine.ts: \<open>workOne\<close>, \<open>seedConsumer\<close>, the feed loop of \<open>attach\<close>
  and \<open>rerunDeferred\<close>. Each is a resumption: it runs to its next await, which is a read of the store, a
  write, the admission of a unit, or a call of the worker (third-party code, whose \<open>matches\<close> and \<open>work\<close> may
  answer anything). What the other writers do in between is the environment. A loop that never ends by itself
  takes the number of its rounds.
\<close>

section \<open>What a worker is fed\<close>

datatype feed_change =
    DocChange nat doc_row
  | AccountChg nat account_row
  | PurgeChg nat string
  | RemovedChg nat string

fun changeSeq :: "feed_change \<Rightarrow> nat" where
  "changeSeq (DocChange q _) = q"
| "changeSeq (AccountChg q _) = q"
| "changeSeq (PurgeChg q _) = q"
| "changeSeq (RemovedChg q _) = q"

fun changeDoc :: "feed_change \<Rightarrow> string option" where
  "changeDoc (DocChange _ d) = Some (did d)"
| "changeDoc _ = None"

definition FEED_BATCH :: nat where "FEED_BATCH = 500"
definition SEED_PAGE :: nat where "SEED_PAGE = 500"
definition REDRIVE_PAGE :: nat where "REDRIVE_PAGE = 500"
definition SUB_COMMIT_BYTES :: nat where "SUB_COMMIT_BYTES = 8 * 1024 * 1024"

definition optBytes :: "string option \<Rightarrow> nat" where
  "optBytes s = (case s of None \<Rightarrow> 0 | Some t \<Rightarrow> length t)"

definition docBytes :: "doc_input list \<Rightarrow> nat" where
  "docBytes ds = sum_list (map (\<lambda>d. optBytes (in_markdown d)) ds)"

definition enrichBytes :: "enrich_input list \<Rightarrow> nat" where
  "enrichBytes es = sum_list (map (\<lambda>e. optBytes (en_markdown e)) es)"

text \<open>One raw row of the log: a document is fed under its current seq only.\<close>

definition materializeRow :: "store \<Rightarrow> change_row \<Rightarrow> feed_change option" where
  "materializeRow s r = (case kind r of
     DocumentChange \<Rightarrow> (case docById (ref_id r) s of
       None \<Rightarrow> None | Some d \<Rightarrow> if seq d = cseq r then Some (DocChange (cseq r) d) else None)
   | AccountChange \<Rightarrow> map_option (AccountChg (cseq r)) (getAccountRow (ref_id r) s)
   | PurgeChange \<Rightarrow> Some (PurgeChg (cseq r) (ref_id r))
   | AccountRemoved \<Rightarrow> Some (RemovedChg (cseq r) (ref_id r)))"

definition seedPage :: "nat \<Rightarrow> nat \<Rightarrow> nat \<Rightarrow> store \<Rightarrow> doc_row list" where
  "seedPage pos h0 limit s = take limit (sort_key seq (filter (\<lambda>d. pos < seq d \<and> seq d \<le> h0 \<and> archived_at d = None) (documents s)))"

definition ledgerDeferred :: "string \<Rightarrow> nat \<Rightarrow> nat \<Rightarrow> store \<Rightarrow> nat list" where
  "ledgerDeferred c pos limit s = take limit (sort (map lseq (filter (\<lambda>r. lconsumer r = c \<and> loutcome r = Some Deferred \<and> pos < lseq r) (work_ledger s))))"

definition changesAt :: "nat list \<Rightarrow> store \<Rightarrow> feed_change list" where
  "changesAt qs s = concat (map (\<lambda>q. case find (\<lambda>d. seq d = q) (documents s) of None \<Rightarrow> [] | Some d \<Rightarrow> [DocChange q d]) qs)"

definition headSeq :: "store \<Rightarrow> nat" where
  "headSeq s = maxSeq s"

section \<open>Procedures\<close>

datatype flow_error = Stopped | ReadOnlyGate | DbTransient | OtherError

datatype work_answer =
    Worked "outcome option" "doc_input list" "enrich_input list"
  | FetchDeferred
  | WorkThrew

datatype unit_kind = ConvertUnit | RedriveUnit

datatype store_write =
    CommitWrite consumer_batch
  | RecordWrite string ledger_entry
  | RecordMany string "ledger_entry list"
  | BeginSeed string nat
  | EndSeed string

text \<open>
  What a read sees. The pruner deletes the change rows below a limit and no others; here they stay in
  \<open>changes\<close>, and \<open>vcut\<close> is the limit below which they are gone. \<open>vfloor\<close> is the floor it published before
  (\<open>meta.changesFloor\<close>, 0 when there is none).
\<close>

record view =
  vdb :: store
  vfloor :: nat
  vcut :: nat

definition feedRows :: "nat \<Rightarrow> view \<Rightarrow> change_row list" where
  "feedRows pos v = take FEED_BATCH (sort_key cseq (filter (\<lambda>c. pos < cseq c \<and> vcut v \<le> cseq c) (changes (vdb v))))"

datatype 'a flow =
    Return 'a
  | Throw flow_error
  | Halted "bool \<Rightarrow> 'a flow"
  | Look "flow_error + view \<Rightarrow> 'a flow"
  | Write store_write "flow_error option \<Rightarrow> 'a flow"
  | Acquire unit_kind "flow_error option \<Rightarrow> 'a flow"
  | Matches feed_change "bool option \<Rightarrow> 'a flow"
  | Work feed_change nat "work_answer \<Rightarrow> 'a flow"

primrec tryf :: "'a flow \<Rightarrow> (flow_error + 'a \<Rightarrow> 'b flow) \<Rightarrow> 'b flow" where
  "tryf (Return a) k = k (Inr a)"
| "tryf (Throw e) k = k (Inl e)"
| "tryf (Halted p) k = Halted (\<lambda>x. tryf (p x) k)"
| "tryf (Look p) k = Look (\<lambda>x. tryf (p x) k)"
| "tryf (Write q p) k = Write q (\<lambda>x. tryf (p x) k)"
| "tryf (Acquire u p) k = Acquire u (\<lambda>x. tryf (p x) k)"
| "tryf (Matches c p) k = Matches c (\<lambda>x. tryf (p x) k)"
| "tryf (Work c n p) k = Work c n (\<lambda>x. tryf (p x) k)"

definition awaitf :: "'a flow \<Rightarrow> ('a \<Rightarrow> 'b flow) \<Rightarrow> 'b flow" where
  "awaitf p k = tryf p (case_sum Throw k)"

definition viewf :: "(view \<Rightarrow> 'a) \<Rightarrow> 'a flow" where
  "viewf f = Look (\<lambda>x. case x of Inl e \<Rightarrow> Throw e | Inr v \<Rightarrow> Return (f v))"

definition readf :: "(store \<Rightarrow> 'a) \<Rightarrow> 'a flow" where
  "readf f = viewf (\<lambda>v. f (vdb v))"

text \<open>\<open>if (signal.aborted) return x\<close>.\<close>

definition unlessHalted :: "'a flow \<Rightarrow> 'a flow \<Rightarrow> 'a flow" where
  "unlessHalted stop p = Halted (\<lambda>b. if b then stop else p)"

definition writef :: "store_write \<Rightarrow> unit flow" where
  "writef q = Write q (\<lambda>e. case e of None \<Rightarrow> Return () | Some x \<Rightarrow> Throw x)"

section \<open>One change\<close>

record work_result =
  rdocs :: "doc_input list"
  renrich :: "enrich_input list"
  rattempts :: nat
  routcome :: outcome

definition failedWork :: "nat \<Rightarrow> outcome \<Rightarrow> work_result" where
  "failedWork n out = \<lparr>rdocs = [], renrich = [], rattempts = n, routcome = out\<rparr>"

text \<open>The outcome of a \<open>work\<close> that returned; nothing is \<open>'done'\<close>.\<close>

definition workedResult :: "nat \<Rightarrow> outcome option \<Rightarrow> doc_input list \<Rightarrow> enrich_input list \<Rightarrow> work_result" where
  "workedResult n out ds es = \<lparr>rdocs = ds, renrich = es, rattempts = n,
     routcome = (case out of None \<Rightarrow> Done | Some x \<Rightarrow> x)\<rparr>"

text \<open>Attempt \<open>n\<close>, with \<open>k\<close> attempts left. What a failed attempt emitted is dropped.\<close>

fun workFrom :: "feed_change \<Rightarrow> nat \<Rightarrow> nat \<Rightarrow> work_result flow" where
  "workFrom ch n 0 = Return (failedWork 0 Failed)"
| "workFrom ch n (Suc k) = Work ch n (\<lambda>a. case a of
     Worked out ds es \<Rightarrow> Return (workedResult n out ds es)
   | FetchDeferred \<Rightarrow> unlessHalted (Throw Stopped) (Return (failedWork n Deferred))
   | WorkThrew \<Rightarrow> unlessHalted (Throw Stopped)
       (if k = 0 then Return (failedWork n Failed) else unlessHalted (Throw Stopped) (workFrom ch (Suc n) k)))"

text \<open>\<open>maxAttempts\<close> is the worker's own, 3 by default.\<close>

definition workOne :: "nat \<Rightarrow> feed_change \<Rightarrow> work_result flow" where
  "workOne maxAttempts ch = workFrom ch 1 maxAttempts"

section \<open>Batches\<close>

text \<open>The variables of a batch: outputs not yet committed, documents worked, and where the cursor will go.\<close>

record work_batch =
  bdocs :: "doc_input list"
  benrich :: "enrich_input list"
  bclear :: "string list"
  bledger :: "ledger_entry list"
  bstaged :: nat
  bseen :: "string list"
  bworked :: "string list"
  bpos :: nat

definition newBatch :: "nat \<Rightarrow> work_batch" where
  "newBatch pos = \<lparr>bdocs = [], benrich = [], bclear = [], bledger = [], bstaged = 0, bseen = [], bworked = [], bpos = pos\<rparr>"

definition flushed :: "work_batch \<Rightarrow> work_batch" where
  "flushed a = a\<lparr>bdocs := [], benrich := [], bclear := [], bledger := [], bstaged := 0\<rparr>"

definition entryFor :: "feed_change \<Rightarrow> work_result \<Rightarrow> ledger_entry" where
  "entryFor ch r = \<lparr>le_seq = changeSeq ch, le_attempts = rattempts r, le_outcome = Some (routcome r)\<rparr>"

definition skipEntry :: "nat \<Rightarrow> ledger_entry" where
  "skipEntry q = \<lparr>le_seq = q, le_attempts = 0, le_outcome = Some Skip\<rparr>"

text \<open>The outputs of one change. \<open>es\<close>: its ledger entries, where the batch carries them.\<close>

definition addResult :: "feed_change \<Rightarrow> work_result \<Rightarrow> ledger_entry list \<Rightarrow> work_batch \<Rightarrow> work_batch" where
  "addResult ch r es a = a\<lparr>bdocs := bdocs a @ rdocs r, benrich := benrich a @ renrich r,
     bclear := bclear a @ (case changeDoc ch of Some i \<Rightarrow> if routcome r = Done then [i] else [] | None \<Rightarrow> []),
     bledger := bledger a @ es, bstaged := bstaged a + docBytes (rdocs r) + enrichBytes (renrich r)\<rparr>"

definition noteWorked :: "feed_change \<Rightarrow> work_batch \<Rightarrow> work_batch" where
  "noteWorked ch a = a\<lparr>bworked := bworked a @ (case changeDoc ch of None \<Rightarrow> [] | Some i \<Rightarrow> [i])\<rparr>"

definition noteSeen :: "feed_change \<Rightarrow> work_batch \<Rightarrow> work_batch" where
  "noteSeen ch a = a\<lparr>bseen := bseen a @ (case changeDoc ch of None \<Rightarrow> [] | Some i \<Rightarrow> [i])\<rparr>"

definition seenBefore :: "feed_change \<Rightarrow> work_batch \<Rightarrow> bool" where
  "seenBefore ch a \<longleftrightarrow> (case changeDoc ch of None \<Rightarrow> False | Some i \<Rightarrow> i \<in> set (bseen a))"

definition writeBatch :: "string \<Rightarrow> nat option \<Rightarrow> nat option \<Rightarrow> work_batch \<Rightarrow> consumer_batch" where
  "writeBatch c cur seedCur a = \<lparr>cb_consumer = c, cb_cursor = cur, cb_documents = bdocs a, cb_enrich = benrich a,
     cb_clearAttempts = bclear a, cb_seedCursor = seedCur, cb_ledger = bledger a\<rparr>"

text \<open>\<open>dropBatch\<close> and \<open>dropPage\<close>: the counters of what returned are cleared, nothing else; errors are swallowed.\<close>

definition dropWorked :: "string \<Rightarrow> nat option \<Rightarrow> work_batch \<Rightarrow> unit flow" where
  "dropWorked c cur a = (if bworked a = [] then Return ()
     else tryf (writef (CommitWrite (writeBatch c cur None ((newBatch 0)\<lparr>bclear := bworked a\<rparr>)))) (\<lambda>_. Return ()))"

definition nothingIn :: "work_batch \<Rightarrow> bool" where
  "nothingIn a \<longleftrightarrow> bdocs a = [] \<and> benrich a = [] \<and> bclear a = [] \<and> bledger a = []"

section \<open>\<open>attach\<close>: the live feed\<close>

text \<open>One bounded write, an admitted unit. \<open>cur\<close>: only the last one of a batch moves the cursor.\<close>

definition flushBatch :: "string \<Rightarrow> nat \<Rightarrow> nat option \<Rightarrow> work_batch \<Rightarrow> work_batch flow" where
  "flushBatch c start cur a =
     (if nothingIn a \<and> cur = None then Return a
      else Acquire ConvertUnit (\<lambda>e. case e of
        Some x \<Rightarrow> Halted (\<lambda>b. if b then awaitf (dropWorked c (Some start) a) (\<lambda>_. Throw x) else Throw x)
      | None \<Rightarrow> awaitf (writef (CommitWrite (writeBatch c cur None a))) (\<lambda>_. Return (flushed a))))"

fun attachChanges :: "string \<Rightarrow> nat \<Rightarrow> nat \<Rightarrow> feed_change list \<Rightarrow> work_batch \<Rightarrow> work_batch flow" where
  "attachChanges c mx start [] a = flushBatch c start (Some (bpos a)) a"
| "attachChanges c mx start (ch # chs) a =
     unlessHalted (awaitf (dropWorked c (Some start) a) (\<lambda>_. Throw Stopped))
       (Matches ch (\<lambda>m.
          if m \<noteq> Some True then attachChanges c mx start chs (a\<lparr>bpos := changeSeq ch\<rparr>)
          else if seenBefore ch a then attachChanges c mx start chs (a\<lparr>bpos := changeSeq ch\<rparr>)
          else awaitf (workOne mx ch) (\<lambda>r.
            let a1 = noteWorked ch (noteSeen ch a) in
            awaitf (writef (RecordWrite c (entryFor ch r))) (\<lambda>_.
            let a2 = addResult ch r [] a1 in
            awaitf (if bstaged a2 \<ge> SUB_COMMIT_BYTES then flushBatch c start None a2 else Return a2) (\<lambda>a3.
            attachChanges c mx start chs (a3\<lparr>bpos := changeSeq ch\<rparr>))))))"

fun materialize :: "change_row list \<Rightarrow> feed_change list flow" where
  "materialize [] = Return []"
| "materialize (r # rs) = awaitf (readf (\<lambda>s. materializeRow s r)) (\<lambda>x.
     awaitf (materialize rs) (\<lambda>cs. Return (case x of None \<Rightarrow> cs | Some ch \<Rightarrow> ch # cs)))"

text \<open>One step of the iterator: the rows of a window, each with its document; the position is the last raw row.\<close>

definition feedNext :: "nat \<Rightarrow> (feed_change list \<times> nat) flow" where
  "feedNext pos = awaitf (viewf (feedRows pos)) (\<lambda>rows.
     awaitf (materialize rows) (\<lambda>cs. Return (cs, if rows = [] then pos else cseq (last rows))))"

definition consumerCursor :: "string \<Rightarrow> store \<Rightarrow> nat" where
  "consumerCursor c s = (case consumers s c of None \<Rightarrow> 0 | Some n \<Rightarrow> n)"

section \<open>\<open>seedConsumer\<close>\<close>

text \<open>One bounded seed write; \<open>cur\<close>: only the last one of a page moves the seed cursor. The real row stays where it is.\<close>

definition flushSeed :: "string \<Rightarrow> nat option \<Rightarrow> work_batch \<Rightarrow> work_batch flow" where
  "flushSeed c cur a =
     (if nothingIn a \<and> cur = None then Return a
      else Acquire ConvertUnit (\<lambda>e. case e of
        Some x \<Rightarrow> Halted (\<lambda>b. if b then awaitf (dropWorked c None a) (\<lambda>_. Throw x) else Throw x)
      | None \<Rightarrow> awaitf (writef (CommitWrite (writeBatch c None cur a))) (\<lambda>_. Return (flushed a))))"

fun seedDocs :: "string \<Rightarrow> nat \<Rightarrow> doc_row list \<Rightarrow> work_batch \<Rightarrow> work_batch flow" where
  "seedDocs c mx [] a = Return a"
| "seedDocs c mx (d # ds) a =
     unlessHalted (awaitf (dropWorked c None a) (\<lambda>_. Throw Stopped))
       (let ch = DocChange (seq d) d in Matches ch (\<lambda>m.
          if m \<noteq> Some True then seedDocs c mx ds a
          else awaitf (workOne mx ch) (\<lambda>r.
            let a1 = addResult ch r [entryFor ch r] (noteWorked ch a) in
            awaitf (if bstaged a1 \<ge> SUB_COMMIT_BYTES then flushSeed c None a1 else Return a1) (\<lambda>a2.
            seedDocs c mx ds a2))))"

text \<open>The pages from \<open>pos\<close> on; True when they are through. Out of rounds is a stop.\<close>

fun seedPages :: "string \<Rightarrow> nat \<Rightarrow> nat \<Rightarrow> nat \<Rightarrow> nat \<Rightarrow> bool flow" where
  "seedPages c mx h0 0 pos = Return False"
| "seedPages c mx h0 (Suc n) pos = unlessHalted (Return False)
     (awaitf (readf (seedPage pos h0 SEED_PAGE)) (\<lambda>ds.
        if ds = [] then Return True
        else awaitf (seedDocs c mx ds (newBatch 0)) (\<lambda>a.
          awaitf (flushSeed c (Some (seq (last ds))) a) (\<lambda>_. seedPages c mx h0 n (seq (last ds))))))"

text \<open>
  False is a stop: the role gate closed under a write, or the signal. (A throw while stopped ends \<open>attach\<close> as
  False does.)
\<close>

definition seedFrom :: "string \<Rightarrow> nat \<Rightarrow> nat \<Rightarrow> nat \<Rightarrow> bool flow" where
  "seedFrom c mx n pos = awaitf (readf (consumerCursor c)) (\<lambda>h0.
     tryf (seedPages c mx h0 n pos) (\<lambda>x. case x of
       Inl e \<Rightarrow> if e = ReadOnlyGate \<or> e = Stopped then Return False else Throw e
     | Inr through \<Rightarrow> if through then awaitf (writef (EndSeed c)) (\<lambda>_. Return True) else Return False))"

definition seedConsumer :: "string \<Rightarrow> nat \<Rightarrow> nat \<Rightarrow> bool flow" where
  "seedConsumer c mx n =
     awaitf (readf (\<lambda>s. consumers s c)) (\<lambda>cur.
     awaitf (viewf vfloor) (\<lambda>floor.
     awaitf (readf (\<lambda>s. consumers s (seedConsumerName c))) (\<lambda>sd.
     let feedable = (case cur of None \<Rightarrow> False | Some k \<Rightarrow> k \<ge> floor) in
     if feedable \<and> sd = None then Return True
     else if feedable then seedFrom c mx n (case sd of None \<Rightarrow> 0 | Some k \<Rightarrow> k)
     else awaitf (readf headSeq) (\<lambda>h0. awaitf (writef (BeginSeed c h0)) (\<lambda>_. seedFrom c mx n 0)))))"

section \<open>The loop of \<open>attach\<close>\<close>

definition FEED_RETRY_MAX :: nat where "FEED_RETRY_MAX = 5"

text \<open>The catch of the loop: only a crash of the database worker is retried, after a sleep.\<close>

definition retryOr :: "flow_error \<Rightarrow> nat \<Rightarrow> unit flow \<Rightarrow> unit flow" where
  "retryOr e retries p = unlessHalted (Return ())
     (if e \<noteq> DbTransient \<or> retries \<ge> FEED_RETRY_MAX then Return () else unlessHalted (Return ()) p)"

function attachLoop :: "string \<Rightarrow> nat \<Rightarrow> nat \<Rightarrow> nat \<Rightarrow> unit flow"
  and feedLoop :: "string \<Rightarrow> nat \<Rightarrow> nat \<Rightarrow> nat \<Rightarrow> nat \<Rightarrow> unit flow" where
  "attachLoop c mx 0 retries = Return ()"
| "attachLoop c mx (Suc n) retries =
     tryf (awaitf (seedConsumer c mx n) (\<lambda>ok.
       if ok then awaitf (readf (consumerCursor c)) (\<lambda>pos. Return (Some pos)) else Return None)) (\<lambda>x. case x of
         Inl e \<Rightarrow> retryOr e retries (attachLoop c mx n (Suc retries))
       | Inr None \<Rightarrow> Return ()
       | Inr (Some pos) \<Rightarrow> feedLoop c mx n retries pos)"
| "feedLoop c mx 0 retries pos = Return ()"
| "feedLoop c mx (Suc n) retries pos = unlessHalted (Return ())
     (tryf (feedNext pos) (\<lambda>x. case x of
         Inl e \<Rightarrow> retryOr e retries (attachLoop c mx n (Suc retries))
       | Inr (cs, high) \<Rightarrow>
           if cs = [] then feedLoop c mx n retries high
           else unlessHalted (Return ())
             (tryf (awaitf (readf (consumerCursor c)) (\<lambda>start. attachChanges c mx start cs (newBatch start))) (\<lambda>y. case y of
                Inl e \<Rightarrow> retryOr e retries (attachLoop c mx n (Suc retries))
              | Inr _ \<Rightarrow> feedLoop c mx n 0 high))))"
  by pat_completeness auto
termination
  by (relation "measure (\<lambda>x. case x of Inl (c, mx, n, r) \<Rightarrow> n | Inr (c, mx, n, r, pos) \<Rightarrow> n)") auto

definition attach :: "string \<Rightarrow> nat \<Rightarrow> nat \<Rightarrow> unit flow" where
  "attach c mx n = attachLoop c mx n 0"

section \<open>\<open>rerunDeferred\<close>\<close>

definition flushRedrive :: "string \<Rightarrow> work_batch \<Rightarrow> work_batch flow" where
  "flushRedrive c a =
     (if bdocs a = [] \<and> benrich a = [] \<and> bclear a = [] then Return a
      else Acquire RedriveUnit (\<lambda>e. case e of
        Some x \<Rightarrow> Throw x
      | None \<Rightarrow> awaitf (writef (CommitWrite (writeBatch c None None (a\<lparr>bledger := []\<rparr>)))) (\<lambda>_.
          Return ((flushed a)\<lparr>bledger := bledger a\<rparr>))))"

fun redriveChanges :: "string \<Rightarrow> nat \<Rightarrow> feed_change list \<Rightarrow> work_batch \<Rightarrow> work_batch flow" where
  "redriveChanges c mx [] a = flushRedrive c a"
| "redriveChanges c mx (ch # chs) a = unlessHalted (Throw Stopped) (Matches ch (\<lambda>m. case m of
       None \<Rightarrow> Throw OtherError
     | Some hit \<Rightarrow>
         if \<not> hit \<or> seenBefore ch a
         then redriveChanges c mx chs (a\<lparr>bledger := bledger a @ [skipEntry (changeSeq ch)]\<rparr>)
         else awaitf (workOne mx ch) (\<lambda>r.
           let a1 = addResult ch r [entryFor ch r] (noteSeen ch a) in
           awaitf (if bstaged a1 \<ge> SUB_COMMIT_BYTES then flushRedrive c a1 else Return a1) (\<lambda>a2.
           redriveChanges c mx chs a2))))"

text \<open>The seqs no document carries any more.\<close>

definition unresolved :: "nat list \<Rightarrow> feed_change list \<Rightarrow> ledger_entry list" where
  "unresolved qs chs = map skipEntry (filter (\<lambda>q. q \<notin> set (map changeSeq chs)) qs)"

fun redrivePages :: "string \<Rightarrow> nat \<Rightarrow> nat \<Rightarrow> nat \<Rightarrow> unit flow" where
  "redrivePages c mx 0 pos = Return ()"
| "redrivePages c mx (Suc n) pos = unlessHalted (Return ())
     (awaitf (readf (ledgerDeferred c pos REDRIVE_PAGE)) (\<lambda>qs.
        if qs = [] then Return ()
        else awaitf (readf (changesAt qs)) (\<lambda>chs.
          awaitf (redriveChanges c mx chs ((newBatch 0)\<lparr>bledger := unresolved qs chs\<rparr>)) (\<lambda>a.
          unlessHalted (Return ())
            (awaitf (if bledger a = [] then Return () else writef (RecordMany c (bledger a))) (\<lambda>_.
             redrivePages c mx n (last qs)))))))"

definition rerunDeferred :: "string \<Rightarrow> nat \<Rightarrow> nat \<Rightarrow> unit flow" where
  "rerunDeferred c mx n = unlessHalted (Return ()) (awaitf (readf meta_rekeyed) (\<lambda>ok.
     if \<not> ok then Return ()
     else unlessHalted (Return ()) (tryf (redrivePages c mx n 0) (\<lambda>x. case x of
       Inl e \<Rightarrow> unlessHalted (Return ()) (Throw e) | Inr _ \<Rightarrow> Return ()))))"

section \<open>The store side\<close>

text \<open>One statement: a page of a re-drive has no more entries than a statement takes.\<close>

definition recordMany :: "time \<Rightarrow> string \<Rightarrow> ledger_entry list \<Rightarrow> store \<Rightarrow> store" where
  "recordMany now c es s = fold (recordEntry now c) es s"

definition beginSeed :: "string \<Rightarrow> nat \<Rightarrow> store \<Rightarrow> store" where
  "beginSeed c h0 s = s\<lparr>consumers := (consumers s)(c \<mapsto> h0, seedConsumerName c \<mapsto> 0)\<rparr>"

definition endSeed :: "string \<Rightarrow> store \<Rightarrow> store" where
  "endSeed c s = s\<lparr>consumers := (consumers s)(seedConsumerName c := None)\<rparr>"

text \<open>What a write does; None when its transaction throws and nothing changes.\<close>

fun writeEffect :: "deps \<Rightarrow> time \<Rightarrow> store_write \<Rightarrow> store \<Rightarrow> store option" where
  "writeEffect D now (CommitWrite b) s = (case commit D now (ConsumerBatch b) s of Inl _ \<Rightarrow> None | Inr (_, t) \<Rightarrow> Some t)"
| "writeEffect D now (RecordWrite c e) s = Some (recordEntry now c e s)"
| "writeEffect D now (RecordMany c es) s = Some (recordMany now c es s)"
| "writeEffect D now (BeginSeed c h0) s = Some (beginSeed c h0 s)"
| "writeEffect D now (EndSeed c) s = Some (endSeed c s)"

section \<open>A worker at work\<close>

datatype work_event =
    Asked feed_change "bool option"
  | WorkDone feed_change nat work_answer
  | Wrote store_write

datatype worker_event =
    StartAttach nat
  | StartRedrive nat
  | Halt
  | Step
  | ReadFails flow_error
  | WriteFails flow_error bool
  | Admitted "flow_error option"
  | MatchAnswer "bool option"
  | WorkAnswer work_answer
  | Die

text \<open>
  One worker of the engine over the store. \<open>wtrace\<close>: what was asked of the worker and what writes took
  effect. \<open>whead\<close>: the highest seq when its task started.
\<close>

record worker_system =
  wview :: view
  wtask :: "unit flow option"
  whalted :: bool
  whead :: nat
  wtrace :: "work_event list"

definition resumed :: "unit flow \<Rightarrow> worker_system \<Rightarrow> worker_system" where
  "resumed p s = s\<lparr>wtask := Some p\<rparr>"

definition idle :: "worker_system \<Rightarrow> bool" where
  "idle s \<longleftrightarrow> (case wtask s of None \<Rightarrow> True | Some (Return _) \<Rightarrow> True | Some (Throw _) \<Rightarrow> True | _ \<Rightarrow> False)"

definition begun :: "unit flow \<Rightarrow> worker_system \<Rightarrow> worker_system" where
  "begun p s = (if idle s then s\<lparr>wtask := Some p, whalted := False, whead := headSeq (vdb (wview s))\<rparr> else s)"

definition noted :: "work_event \<Rightarrow> worker_system \<Rightarrow> worker_system" where
  "noted e s = s\<lparr>wtrace := wtrace s @ [e]\<rparr>"

definition wroteTo :: "store_write \<Rightarrow> store \<Rightarrow> worker_system \<Rightarrow> worker_system" where
  "wroteTo q t s = noted (Wrote q) (s\<lparr>wview := (wview s)\<lparr>vdb := t\<rparr>\<rparr>)"

definition stepTask :: "deps \<Rightarrow> time \<Rightarrow> worker_system \<Rightarrow> worker_system" where
  "stepTask D now s = (case wtask s of
     Some (Halted k) \<Rightarrow> resumed (k (whalted s)) s
   | Some (Look k) \<Rightarrow> resumed (k (Inr (wview s))) s
   | Some (Write q k) \<Rightarrow> (case writeEffect D now q (vdb (wview s)) of
         None \<Rightarrow> resumed (k (Some OtherError)) s
       | Some t \<Rightarrow> resumed (k None) (wroteTo q t s))
   | _ \<Rightarrow> s)"

text \<open>A write whose reply is lost: the worker process of the database died before the commit, or after it.\<close>

definition failWrite :: "deps \<Rightarrow> time \<Rightarrow> flow_error \<Rightarrow> bool \<Rightarrow> worker_system \<Rightarrow> worker_system" where
  "failWrite D now e took s = (case wtask s of
     Some (Write q k) \<Rightarrow> (case writeEffect D now q (vdb (wview s)) of
         Some t \<Rightarrow> resumed (k (Some e)) (if took then wroteTo q t s else s)
       | None \<Rightarrow> resumed (k (Some e)) s)
   | _ \<Rightarrow> s)"

fun workEvent :: "deps \<Rightarrow> string \<Rightarrow> nat \<Rightarrow> time \<Rightarrow> worker_event \<Rightarrow> worker_system \<Rightarrow> worker_system" where
  "workEvent D c mx now (StartAttach n) s = begun (attach c mx n) s"
| "workEvent D c mx now (StartRedrive n) s = begun (rerunDeferred c mx n) s"
| "workEvent D c mx now Halt s = s\<lparr>whalted := True\<rparr>"
| "workEvent D c mx now Step s = stepTask D now s"
| "workEvent D c mx now (ReadFails e) s = (case wtask s of Some (Look k) \<Rightarrow> resumed (k (Inl e)) s | _ \<Rightarrow> s)"
| "workEvent D c mx now (WriteFails e took) s = failWrite D now e took s"
| "workEvent D c mx now (Admitted x) s = (case wtask s of Some (Acquire u k) \<Rightarrow> resumed (k x) s | _ \<Rightarrow> s)"
| "workEvent D c mx now (MatchAnswer b) s = (case wtask s of
     Some (Matches ch k) \<Rightarrow> noted (Asked ch b) (resumed (k b) s) | _ \<Rightarrow> s)"
| "workEvent D c mx now (WorkAnswer a) s = (case wtask s of
     Some (Work ch n k) \<Rightarrow> noted (WorkDone ch n a) (resumed (k a) s) | _ \<Rightarrow> s)"
| "workEvent D c mx now Die s = s\<lparr>wtask := None\<rparr>"

text \<open>
  What the other writers may do to the database of a worker: a document keeps its seq or gets a fresh one.
\<close>

definition carries :: "store \<Rightarrow> store \<Rightarrow> bool" where
  "carries s t \<longleftrightarrow> change_counter s \<le> change_counter t \<and> headSeq s \<le> headSeq t \<and>
     (\<forall>d \<in> set (documents t). change_counter s < seq d \<or>
        (\<exists>e \<in> set (documents s). did e = did d \<and> seq e = seq d \<and> archived_at e = archived_at d))"

text \<open>
  And the pruner: it publishes a floor before it deletes below it, never beyond the newest row, and for an attached
  worker never beyond its cursor; as long as an attached worker has no row yet, never beyond what was there when it
  attached (48 hours are kept). The row of a worker that is not attached may be swept.
\<close>

definition outside :: "deps \<Rightarrow> string \<Rightarrow> worker_system \<Rightarrow> view \<Rightarrow> bool" where
  "outside D c s v \<longleftrightarrow> (let u = wview s in
     store_inv D (vdb v) \<and> carries (vdb u) (vdb v) \<and>
     (consumers (vdb v) c = consumers (vdb u) c \<or> idle s \<and> consumers (vdb v) c = None) \<and>
     consumers (vdb v) (seedConsumerName c) = consumers (vdb u) (seedConsumerName c) \<and>
     vfloor u \<le> vfloor v \<and> vcut v \<le> vfloor v \<and> vfloor v \<le> headSeq (vdb v) \<and>
     (idle s \<or> vfloor v \<le> vfloor u \<or>
        (case consumers (vdb u) c of None \<Rightarrow> vfloor v \<le> Suc (whead s) | Some k \<Rightarrow> vfloor v \<le> k)))"

inductive at_work :: "deps \<Rightarrow> string \<Rightarrow> nat \<Rightarrow> worker_system \<Rightarrow> bool" for D c mx where
  opened: "store_inv D (vdb v) \<Longrightarrow> (\<forall>d \<in> set (documents (vdb v)). 0 < seq d) \<Longrightarrow> consumers (vdb v) c = None \<Longrightarrow> vcut v \<le> vfloor v \<Longrightarrow> vfloor v \<le> headSeq (vdb v) \<Longrightarrow>
     at_work D c mx \<lparr>wview = v, wtask = None, whalted = False, whead = 0, wtrace = []\<rparr>"
| event: "at_work D c mx s \<Longrightarrow> at_work D c mx (workEvent D c mx now e s)"
| elsewhere: "at_work D c mx s \<Longrightarrow> outside D c s v \<Longrightarrow> at_work D c mx (s\<lparr>wview := v\<rparr>)"

section \<open>What the trace says of a document\<close>

definition resultOf :: "nat \<Rightarrow> work_answer \<Rightarrow> work_result" where
  "resultOf n a = (case a of Worked out ds es \<Rightarrow> workedResult n out ds es
     | FetchDeferred \<Rightarrow> failedWork n Deferred | WorkThrew \<Rightarrow> failedWork n Failed)"

definition cameFrom :: "work_event list \<Rightarrow> feed_change \<Rightarrow> work_result \<Rightarrow> bool" where
  "cameFrom tr ch r \<longleftrightarrow> r = failedWork 0 Failed \<or> (\<exists>n a. WorkDone ch n a \<in> set tr \<and> r = resultOf n a)"

definition recorded :: "string \<Rightarrow> work_event list \<Rightarrow> ledger_entry \<Rightarrow> bool" where
  "recorded c tr e \<longleftrightarrow> Wrote (RecordWrite c e) \<in> set tr \<or>
     (\<exists>b. Wrote (CommitWrite b) \<in> set tr \<and> cb_consumer b = c \<and> e \<in> set (cb_ledger b))"

definition committed :: "string \<Rightarrow> work_event list \<Rightarrow> work_result \<Rightarrow> bool" where
  "committed c tr r \<longleftrightarrow> rdocs r = [] \<and> renrich r = [] \<or> (\<exists>b. Wrote (CommitWrite b) \<in> set tr \<and> cb_consumer b = c \<and>
     set (rdocs r) \<subseteq> set (cb_documents b) \<and> set (renrich r) \<subseteq> set (cb_enrich b))"

text \<open>The worker was asked about this version of the document; if it wanted it, the work is done and kept.\<close>

definition handled :: "string \<Rightarrow> work_event list \<Rightarrow> string \<Rightarrow> nat \<Rightarrow> bool" where
  "handled c tr i q \<longleftrightarrow> (\<exists>x b. Asked (DocChange q x) b \<in> set tr \<and> did x = i \<and>
     (b = Some True \<longrightarrow> (\<exists>r. cameFrom tr (DocChange q x) r \<and> recorded c tr (entryFor (DocChange q x) r) \<and> committed c tr r)))"

end
