(* ===== verification/EngineWorkWp.thy ===== *)
theory EngineWorkWp
  imports EngineWork DocWrites
begin

text \<open>
  Rely and guarantee for the procedures of a worker: what the other writers may do to the database while the
  procedure waits, what holds whenever it does, and what each of its own writes must keep.
\<close>

section \<open>Weakest preconditions\<close>

type_synonym 'a after = "flow_error + 'a \<Rightarrow> work_event list \<Rightarrow> view \<Rightarrow> bool"

definition wrote :: "view \<Rightarrow> store \<Rightarrow> view" where
  "wrote v t = v\<lparr>vdb := t\<rparr>"

lemma wrote_simps [simp]: "vdb (wrote v t) = t" "vfloor (wrote v t) = vfloor v" "vcut (wrote v t) = vcut v"
  by (simp_all add: wrote_def)

primrec fwp :: "deps \<Rightarrow> (view \<Rightarrow> view \<Rightarrow> bool) \<Rightarrow> (work_event list \<Rightarrow> view \<Rightarrow> bool) \<Rightarrow> 'a flow \<Rightarrow> 'a after \<Rightarrow>
    work_event list \<Rightarrow> view \<Rightarrow> bool" where
  "fwp D R I (Return a) Q tr v \<longleftrightarrow> (\<forall>u. R v u \<longrightarrow> I tr u \<longrightarrow> Q (Inr a) tr u)"
| "fwp D R I (Throw e) Q tr v \<longleftrightarrow> (\<forall>u. R v u \<longrightarrow> I tr u \<longrightarrow> Q (Inl e) tr u)"
| "fwp D R I (Halted k) Q tr v \<longleftrightarrow> (\<forall>u b. R v u \<longrightarrow> I tr u \<longrightarrow> fwp D R I (k b) Q tr u)"
| "fwp D R I (Look k) Q tr v \<longleftrightarrow> (\<forall>u. R v u \<longrightarrow> I tr u \<longrightarrow>
     fwp D R I (k (Inr u)) Q tr u \<and> (\<forall>e. fwp D R I (k (Inl e)) Q tr u))"
| "fwp D R I (Write q k) Q tr v \<longleftrightarrow> (\<forall>u. R v u \<longrightarrow> I tr u \<longrightarrow> (\<forall>e. fwp D R I (k (Some e)) Q tr u) \<and>
     (\<forall>now t. writeEffect D now q (vdb u) = Some t \<longrightarrow> I (tr @ [Wrote q]) (wrote u t) \<and>
        (\<forall>x. fwp D R I (k x) Q (tr @ [Wrote q]) (wrote u t))))"
| "fwp D R I (Acquire w k) Q tr v \<longleftrightarrow> (\<forall>u x. R v u \<longrightarrow> I tr u \<longrightarrow> fwp D R I (k x) Q tr u)"
| "fwp D R I (Matches ch k) Q tr v \<longleftrightarrow> (\<forall>u b. R v u \<longrightarrow> I tr u \<longrightarrow> fwp D R I (k b) Q (tr @ [Asked ch b]) u)"
| "fwp D R I (Work ch n k) Q tr v \<longleftrightarrow> (\<forall>u a. R v u \<longrightarrow> I tr u \<longrightarrow> fwp D R I (k a) Q (tr @ [WorkDone ch n a]) u)"

locale flow_rules =
  fixes D :: deps
    and R :: "view \<Rightarrow> view \<Rightarrow> bool"
    and I :: "work_event list \<Rightarrow> view \<Rightarrow> bool"
  assumes R_refl: "R v v"
    and R_trans: "R u v \<Longrightarrow> R v w \<Longrightarrow> R u w"
begin

lemma fwp_stable: "fwp D R I p Q tr v \<Longrightarrow> R v u \<Longrightarrow> fwp D R I p Q tr u"
  by (cases p) (auto intro: R_trans)

lemma fwp_conseq: "fwp D R I p Q tr v \<Longrightarrow> (\<And>x tr v. I tr v \<Longrightarrow> Q x tr v \<Longrightarrow> Q' x tr v) \<Longrightarrow> fwp D R I p Q' tr v"
proof (induction p arbitrary: tr v)
  case (Look k)
  show ?case using Look.prems Look.IH unfolding fwp.simps by (meson rangeI)
next
  case (Write q k)
  show ?case using Write.prems Write.IH unfolding fwp.simps by (meson rangeI)
qed auto

lemma fwp_tryf:
  assumes "fwp D R I p (\<lambda>x. fwp D R I (k x) Q) tr v"
  shows "fwp D R I (tryf p k) Q tr v"
  using assms
proof (induction p arbitrary: tr v)
  case (Return a)
  show ?case
  proof (cases "k (Inr a)")
  qed (use Return R_refl in \<open>auto intro: R_trans\<close>)
next
  case (Throw e)
  show ?case
  proof (cases "k (Inl e)")
  qed (use Throw R_refl in \<open>auto intro: R_trans\<close>)
next
  case (Look p)
  show ?case using Look.prems Look.IH unfolding fwp.simps tryf.simps by (meson rangeI)
next
  case (Write q p)
  show ?case using Write.prems Write.IH unfolding fwp.simps tryf.simps by (meson rangeI)
qed auto

text \<open>
  \<open>does P p Q\<close>: from a state of \<open>P\<close> the procedure keeps its side and, when it returns \<open>a\<close>, is in one of
  \<open>Q a\<close>. A throw leaves nothing but the invariant. The assertions are \<open>steady\<close>: the others cannot break them.
\<close>

definition steady :: "(work_event list \<Rightarrow> view \<Rightarrow> bool) \<Rightarrow> bool" where
  "steady P \<longleftrightarrow> (\<forall>tr v u. P tr v \<longrightarrow> I tr v \<longrightarrow> R v u \<longrightarrow> I tr u \<longrightarrow> P tr u)"

definition fine :: "('a \<Rightarrow> work_event list \<Rightarrow> view \<Rightarrow> bool) \<Rightarrow> 'a after" where
  "fine Q x tr v \<longleftrightarrow> (case x of Inl _ \<Rightarrow> True | Inr a \<Rightarrow> Q a tr v)"

definition does :: "(work_event list \<Rightarrow> view \<Rightarrow> bool) \<Rightarrow> 'a flow \<Rightarrow> ('a \<Rightarrow> work_event list \<Rightarrow> view \<Rightarrow> bool) \<Rightarrow> bool" where
  "does P p Q \<longleftrightarrow> (\<forall>tr v. I tr v \<longrightarrow> P tr v \<longrightarrow> fwp D R I p (fine Q) tr v)"

lemma fine_simps [simp]: "fine Q (Inl e) tr v" "fine Q (Inr a) tr v = Q a tr v"
  by (simp_all add: fine_def)

lemma steadyD: "steady P \<Longrightarrow> P tr v \<Longrightarrow> I tr v \<Longrightarrow> R v u \<Longrightarrow> I tr u \<Longrightarrow> P tr u"
  unfolding steady_def by blast

lemma does_pre: "does P p Q \<Longrightarrow> (\<And>tr v. I tr v \<Longrightarrow> P' tr v \<Longrightarrow> P tr v) \<Longrightarrow> does P' p Q"
  unfolding does_def by blast

lemma does_post: "does P p Q \<Longrightarrow> (\<And>a tr v. I tr v \<Longrightarrow> Q a tr v \<Longrightarrow> Q' a tr v) \<Longrightarrow> does P p Q'"
  unfolding does_def
proof (intro allI impI, erule allE, erule allE, drule mp, assumption, drule mp, assumption, erule fwp_conseq)
  show "(\<And>a tr v. I tr v \<Longrightarrow> Q a tr v \<Longrightarrow> Q' a tr v) \<Longrightarrow> I tr v \<Longrightarrow> fine Q x tr v \<Longrightarrow> fine Q' x tr v" for x tr v
    by (cases x) simp_all
qed

lemma does_Return: "steady P \<Longrightarrow> (\<And>tr v. I tr v \<Longrightarrow> P tr v \<Longrightarrow> Q a tr v) \<Longrightarrow> does P (Return a) Q"
  unfolding does_def by (simp add: steadyD)

lemma does_Throw: "does P (Throw e) Q"
  unfolding does_def by simp

lemma does_tryf:
  assumes "does P p Q" "\<And>a. does (Q a) (k (Inr a)) S" "\<And>e. does (\<lambda>_ _. True) (k (Inl e)) S"
  shows "does P (tryf p k) S"
  unfolding does_def
proof (intro allI impI, rule fwp_tryf)
  fix tr v
  assume "I tr v" "P tr v"
  then have "fwp D R I p (fine Q) tr v" using assms(1) by (simp add: does_def)
  then show "fwp D R I p (\<lambda>x. fwp D R I (k x) (fine S)) tr v"
  proof (rule fwp_conseq)
    show "I tr v \<Longrightarrow> fine Q x tr v \<Longrightarrow> fwp D R I (k x) (fine S) tr v" for x tr v
      using assms(2,3) by (cases x) (auto simp: does_def)
  qed
qed

lemma does_awaitf: "does P p Q \<Longrightarrow> (\<And>a. does (Q a) (k a) S) \<Longrightarrow> does P (awaitf p k) S"
  unfolding awaitf_def by (rule does_tryf) (simp_all add: does_Throw)

lemma does_viewf:
  "steady P \<Longrightarrow> (\<And>a. steady (Q a)) \<Longrightarrow> (\<And>tr v. I tr v \<Longrightarrow> P tr v \<Longrightarrow> Q (f v) tr v) \<Longrightarrow> does P (viewf f) Q"
  unfolding does_def viewf_def by simp (meson steadyD)

lemma does_readf:
  "steady P \<Longrightarrow> (\<And>a. steady (Q a)) \<Longrightarrow> (\<And>tr v. I tr v \<Longrightarrow> P tr v \<Longrightarrow> Q (f (vdb v)) tr v) \<Longrightarrow> does P (readf f) Q"
  unfolding readf_def by (rule does_viewf)

lemma does_Halted: "steady P \<Longrightarrow> (\<And>b. does P (k b) Q) \<Longrightarrow> does P (Halted k) Q"
  unfolding does_def by (auto dest: steadyD)

lemma does_unlessHalted: "steady P \<Longrightarrow> does P stop Q \<Longrightarrow> does P p Q \<Longrightarrow> does P (unlessHalted stop p) Q"
  unfolding unlessHalted_def by (rule does_Halted) simp_all

lemma does_Acquire: "steady P \<Longrightarrow> (\<And>x. does P (k x) Q) \<Longrightarrow> does P (Acquire w k) Q"
  unfolding does_def by (auto dest: steadyD)

text \<open>What the worker answers is noted in the trace.\<close>

lemma does_Matches:
  assumes "steady P" "\<And>b. does (S b) (k b) Q" "\<And>b tr v. I tr v \<Longrightarrow> P tr v \<Longrightarrow> I (tr @ [Asked ch b]) v \<and> S b (tr @ [Asked ch b]) v"
  shows "does P (Matches ch k) Q"
  unfolding does_def fwp.simps
proof (intro allI impI)
  fix tr v u b
  assume a: "I tr v" "P tr v" "R v u" "I tr u"
  then have "P tr u" by (blast intro: steadyD [OF assms(1)])
  then show "fwp D R I (k b) (fine Q) (tr @ [Asked ch b]) u" using assms(2,3) a(4) unfolding does_def by blast
qed

lemma does_Work:
  assumes "steady P" "\<And>a. does (S a) (k a) Q" "\<And>a tr v. I tr v \<Longrightarrow> P tr v \<Longrightarrow> I (tr @ [WorkDone ch n a]) v \<and> S a (tr @ [WorkDone ch n a]) v"
  shows "does P (Work ch n k) Q"
  unfolding does_def fwp.simps
proof (intro allI impI)
  fix tr v u a
  assume i: "I tr v" "P tr v" "R v u" "I tr u"
  then have "P tr u" by (blast intro: steadyD [OF assms(1)])
  then show "fwp D R I (k a) (fine Q) (tr @ [WorkDone ch n a]) u" using assms(2,3) i(4) unfolding does_def by blast
qed

lemma does_writef:
  assumes "steady P" "\<And>a. steady (Q a)"
    and "\<And>tr v now t. I tr v \<Longrightarrow> P tr v \<Longrightarrow> writeEffect D now q (vdb v) = Some t \<Longrightarrow>
      I (tr @ [Wrote q]) (wrote v t) \<and> Q () (tr @ [Wrote q]) (wrote v t)"
  shows "does P (writef q) Q"
  unfolding does_def writef_def fwp.simps
proof (intro allI impI conjI)
  fix tr v u e
  show "fwp D R I (case Some e of None \<Rightarrow> Return () | Some x \<Rightarrow> Throw x) (fine Q) tr u" by simp
next
  fix tr v u now t x
  assume a: "I tr v" "P tr v" "R v u" "I tr u" "writeEffect D now q (vdb u) = Some t"
  then have "P tr u" by (blast intro: steadyD [OF assms(1)])
  note w = assms(3) [OF a(4) this a(5)]
  show "I (tr @ [Wrote q]) (wrote u t)" using w by blast
  show "fwp D R I (case x of None \<Rightarrow> Return () | Some x \<Rightarrow> Throw x) (fine Q) (tr @ [Wrote q]) (wrote u t)"
    using w steadyD [OF assms(2)] by (cases x) auto
qed

lemma does_if: "(b \<Longrightarrow> does P p Q) \<Longrightarrow> (\<not> b \<Longrightarrow> does P q Q) \<Longrightarrow> does P (if b then p else q) Q"
  by simp

text \<open>A pure part of an assertion is a hypothesis.\<close>

lemma does_pure: "(b \<Longrightarrow> does P p Q) \<Longrightarrow> does (\<lambda>tr v. b \<and> P tr v) p Q"
  unfolding does_def by blast

lemma steady_True [simp]: "steady (\<lambda>_ _. True)" "steady (\<lambda>_ _. b)"
  by (simp_all add: steady_def)

lemma steady_conj: "steady P \<Longrightarrow> steady Q \<Longrightarrow> steady (\<lambda>tr v. P tr v \<and> Q tr v)"
  unfolding steady_def by blast

end

end
