(* ===== verification/EngineWorkInv.thy ===== *)
theory EngineWorkInv
  imports EngineWorkWp
begin

text \<open>
  What holds of a worker's cursor whatever happens: every live document at or below it was offered to the worker
  in its present version, and what the worker made of it is kept. And what a re-drive may say in the ledger.
\<close>

section \<open>A commit carries the documents over\<close>

lemma maxSeq_grows: "changes t = changes s @ cs \<Longrightarrow> maxSeq s \<le> maxSeq t"
proof -
  have "foldr max xs b \<le> foldr max (xs @ ys) b" for xs ys and b :: nat
    by (induction xs) (auto simp: le_max_iff_disj, induction ys, auto)
  then show "changes t = changes s @ cs \<Longrightarrow> maxSeq s \<le> maxSeq t" by (simp add: maxSeq_def)
qed

lemma carries_refl [simp]: "carries s s"
  by (auto simp: carries_def)

lemma carries_trans:
  assumes "carries s t" "carries t u"
  shows "carries s u"
  unfolding carries_def
proof (intro conjI ballI)
  fix d assume "d \<in> set (documents u)"
  then consider "change_counter t < seq d" | e where "e \<in> set (documents t)" "did e = did d" "seq e = seq d" "archived_at e = archived_at d"
    using assms(2) by (auto simp: carries_def)
  then show "change_counter s < seq d \<or> (\<exists>e \<in> set (documents s). did e = did d \<and> seq e = seq d \<and> archived_at e = archived_at d)"
  proof cases
    case 1
    then show ?thesis using assms(1) by (auto simp: carries_def)
  next
    case 2
    then show ?thesis using assms(1) unfolding carries_def by metis
  qed
qed (use assms in \<open>auto simp: carries_def\<close>)

lemma carries_same: "documents t = documents s \<Longrightarrow> changes t = changes s \<Longrightarrow> change_counter t = change_counter s \<Longrightarrow> carries s t"
  by (auto simp: carries_def headSeq_def maxSeq_def)

definition follows :: "store \<Rightarrow> store \<Rightarrow> bool" where
  "follows s t \<longleftrightarrow> carries s t \<and> consumers t = consumers s"

lemma follows_refl [simp]: "follows s s"
  by (simp add: follows_def)

lemma follows_trans: "follows s t \<Longrightarrow> follows t u \<Longrightarrow> follows s u"
  using carries_trans by (auto simp: follows_def)

lemma follows_touch: "stamps f \<Longrightarrow> follows s (touch now i f s)"
proof -
  assume f: "stamps f"
  have "headSeq s \<le> headSeq (touch now i f s)" unfolding headSeq_def by (rule maxSeq_grows) simp
  moreover have "consumers (touch now i f s) = consumers s" by (simp add: touch_def appendChange_def updDoc_def Let_def)
  ultimately show ?thesis by (auto simp: follows_def carries_def set_upd_where stampsD [OF f])
qed

lemma follows_reindexed: "follows s (reindexed D d t m l s)"
  by (auto simp: follows_def reindexed_def intro: carries_same)

lemma follows_inserted: "seq d = Suc (change_counter s) \<Longrightarrow> follows s (inserted D now d s)"
proof -
  assume "seq d = Suc (change_counter s)"
  moreover have "headSeq s \<le> headSeq (inserted D now d s)" unfolding headSeq_def by (rule maxSeq_grows) simp
  moreover have "consumers (inserted D now d s) = consumers s" by (simp add: inserted_def reindexed_def appendChange_def Let_def)
  ultimately show ?thesis by (auto simp: follows_def carries_def)
qed

interpretation follow: doc_writes D acct follows "\<lambda>_. True" "\<lambda>_ _. True" for D acct
proof unfold_locales
  show "follows s (s\<lparr>warned := w\<rparr>) \<and> True" for s w
    by (auto simp: follows_def intro: carries_same)
qed (auto intro: follows_trans follows_touch follows_reindexed follows_inserted)

lemma follows_appendChange: "follows s (snd (appendChange now k r s))"
proof -
  have "headSeq s \<le> headSeq (snd (appendChange now k r s))"
    unfolding headSeq_def by (rule maxSeq_grows) (simp add: appendChange_def Let_def)
  then show ?thesis by (auto simp: follows_def carries_def appendChange_def Let_def)
qed

lemma follows_same: "documents t = documents s \<Longrightarrow> changes t = changes s \<Longrightarrow> change_counter t = change_counter s \<Longrightarrow>
    consumers t = consumers s \<Longrightarrow> follows s t"
  by (auto simp: follows_def intro: carries_same)

lemma upsertSteps_follow:
  "efold (upsertStep D now acct) docs (l, s) = Inr (l', t) \<Longrightarrow> store_inv D s \<Longrightarrow> follows s t"
proof (induction docs arbitrary: l s)
  case (Cons inp docs)
  then obtain q s1 where u: "upsertDocument D now acct inp s = Inr (q, s1)"
    and r: "\<exists>l1. efold (upsertStep D now acct) docs (l1, s1) = Inr (l', t)"
    by (auto simp: upsertStep_Inr)
  note inv = upsertDocument_inv [OF u Cons.prems(2)]
  have "follows s s1" using follow.upsert_keeps [OF u Cons.prems(2)] by simp
  moreover have "follows s1 t" using r Cons.IH [OF _ inv] by blast
  ultimately show ?case by (rule follows_trans)
qed simp

lemma account_follows:
  assumes "getOrCreateAccountTx D now src i s = Inr (acct, t)" "store_inv D s"
  shows "follows s t \<and> store_inv D t"
  using assms(1)
proof (cases rule: getOrCreateAccountTx_cases)
  case (found a)
  then show ?thesis using assms(2) by simp
next
  case (created s')
  have "follows s s'" using insertAccount_same [OF created(3)] created(3)
    by (intro follows_same) (auto simp: insertAccount_def split: if_splits)
  moreover have "follows s' t" using follows_appendChange created(4) by simp
  moreover have "store_inv D t"
    using created store_inv_insertAccount [OF created(3) assms(2)] by (simp add: store_inv_appendChange)
  ultimately show ?thesis using follows_trans by blast
qed

lemma consumerDocuments_follow:
  assumes "consumerDocuments D now b (l, s) = Inr (l', t)" "store_inv D s"
  shows "follows s t"
proof (cases "cb_documents b = []")
  case False
  then obtain acct s1 l2 s2 where a: "getOrCreateAccountTx D now ''worker'' (cb_consumer b) s = Inr (acct, s1)"
    and e: "efold (upsertStep D now acct) (cb_documents b) (l, s1) = Inr (l2, s2)"
    and r: "then_last l2 (reconcileParents now acct (cb_documents b) s2) = (l', t)"
    using assms(1) by (auto simp: consumerDocuments_def)
  have "follows s s1" "store_inv D s1" using account_follows [OF a assms(2)] by simp_all
  moreover have "follows s1 s2" using upsertSteps_follow [OF e] calculation(2) by simp
  moreover have "follows s2 t" using follow.relinkPairs_keep [OF r [unfolded reconcileParents_def]] by simp
  ultimately show ?thesis using follows_trans by blast
qed (use assms in \<open>simp add: consumerDocuments_def\<close>)

lemma enrichOne_follows:
  assumes "enrichOne D now e (l, s) = Inr (l', t)" "store_inv D s"
  shows "follows s t"
proof (cases "docById (en_documentId e) s")
  case (Some row)
  note row = docById_Some [OF Some]
  let ?md = "case en_metadata e of None \<Rightarrow> metadata row | Some m \<Rightarrow> obj_spread (metadata row) m"
  show ?thesis
  proof (cases "en_markdown e")
    case None
    let ?f = "\<lambda>n d. d\<lparr>metadata := ?md, seq := n, updated_at := now\<rparr> :: doc_row"
    have "t = touch now (did row) ?f s"
      using assms(1) Some None by (auto simp: enrichOne_def touch_def appendChange_def Let_def)
    moreover have "stamps ?f" by (simp add: stamps_def nat_key_def)
    ultimately show ?thesis by (simp add: follows_touch)
  next
    case (Some m)
    let ?l = "detect D (docText (title row) (Some m))"
    let ?f = "\<lambda>n d. d\<lparr>markdown := Some m, metadata := ?md, seq := n, languages := ?l, updated_at := now\<rparr> :: doc_row"
    have st: "stamps ?f" by (simp add: stamps_def nat_key_def)
    have "enrichOne D now e (l, s) = ebind (ftsUpsert D (did row) (title row) (Some m) ?l
        (touch now (did row) ?f s)) (\<lambda>s3. Inr (Suc (change_counter s), s3))"
      using \<open>docById (en_documentId e) s = Some row\<close> Some
      by (simp add: enrichOne_def touch_def appendChange_def Let_def)
    then have "t = reindexed D row (title row) (Some m) ?l (touch now (did row) ?f s)"
      using assms(1) ftsUpsert_touch [OF store_invD(1) [OF assms(2)] _ st, of row] row by simp
    then show ?thesis using follows_trans [OF follows_touch [OF st] follows_reindexed] by simp
  qed
qed (use assms in \<open>simp add: enrichOne_def\<close>)

lemma enrichSteps_follow:
  "efold (enrichOne D now) es (l, s) = Inr (l', t) \<Longrightarrow> going D s0 (l, s) \<Longrightarrow> follows s t"
proof (induction es arbitrary: l s)
  case (Cons e es)
  then obtain l1 s1 where e: "enrichOne D now e (l, s) = Inr (l1, s1)" "efold (enrichOne D now) es (l1, s1) = Inr (l', t)"
    by auto
  have "follows s s1" using enrichOne_follows [OF e(1)] Cons.prems(2) by (simp add: going_def)
  moreover have "follows s1 t" using Cons.IH [OF e(2)] going_enrichOne [OF e(1) Cons.prems(2)] by simp
  ultimately show ?case by (rule follows_trans)
qed simp

text \<open>The cursors after a worker's batch.\<close>

definition cursorsAfter :: "consumer_batch \<Rightarrow> store \<Rightarrow> string \<Rightarrow> nat option" where
  "cursorsAfter b s = consumers (moveCursor (seedConsumerName (cb_consumer b)) (cb_seedCursor b) (setCursor (cb_consumer b) (cb_cursor b) s))"

lemma commitConsumer_follows:
  assumes "commitConsumer D now b (maxSeq s) s = Inr (l', t)" "store_inv D s"
  shows "carries s t \<and> consumers t = cursorsAfter b s"
proof -
  let ?c = "cb_consumer b"
  let ?s2 = "moveCursor (seedConsumerName ?c) (cb_seedCursor b) (setCursor ?c (cb_cursor b) s)"
  let ?s4 = "fold (clearAttempts ?c) (cb_clearAttempts b) (fold (recordEntry now ?c) (cb_ledger b) ?s2)"
  have "same_corpus s ?s2"
    using same_corpus_cursors by (rule same_corpus_trans)
  then have c: "same_corpus s ?s4"
    by (rule same_corpus_trans [OF same_corpus_trans [OF _ same_corpus_fold] same_corpus_fold])
      (rule same_corpus_ledger)+
  have k: "consumers (fold (recordEntry now ?c) es u) = consumers u" "consumers (fold (clearAttempts ?c) is u) = consumers u" for es "is" u
  proof -
    show "consumers (fold (recordEntry now ?c) es u) = consumers u"
      by (induction es arbitrary: u) (simp_all add: recordEntry_def ledgerUpsert_def)
    show "consumers (fold (clearAttempts ?c) is u) = consumers u"
      by (induction "is" arbitrary: u) (simp_all add: clearAttempts_def)
  qed
  have "commitConsumer D now b (maxSeq s) s =
      ebind (consumerDocuments D now b (maxSeq s, ?s4)) (efold (enrichOne D now) (cb_enrich b))"
    by (simp only: commitConsumer_def Let_def)
  with assms(1) obtain m u where m: "consumerDocuments D now b (maxSeq s, ?s4) = Inr (m, u)"
      "efold (enrichOne D now) (cb_enrich b) (m, u) = Inr (l', t)"
    by (auto simp: ebind_eq_Inr)
  have inv4: "store_inv D ?s4" using same_corpus_inv [OF c] assms(2) by simp
  have "maxSeq s = maxSeq ?s4" using c by (simp add: same_corpus_def maxSeq_def)
  then have g: "going D ?s4 (maxSeq s, ?s4)" using inv4 by (simp add: going_def)
  have "going D ?s4 (m, u) \<and> follows ?s4 u"
    using going_consumerDocuments [OF m(1) g] consumerDocuments_follow [OF m(1) inv4] by simp
  then have "follows ?s4 t"
    using enrichSteps_follow [OF m(2)] follows_trans by blast
  moreover have "carries s ?s4" using c by (intro carries_same) (auto simp: same_corpus_def)
  ultimately show ?thesis using carries_trans by (auto simp: follows_def cursorsAfter_def k)
qed

lemma writeEffect_carries:
  assumes "writeEffect D now q s = Some t" "store_inv D s"
  shows "carries s t \<and> store_inv D t \<and> consumers t = (case q of
     CommitWrite b \<Rightarrow> cursorsAfter b s | BeginSeed c h0 \<Rightarrow> (consumers s)(c \<mapsto> h0, seedConsumerName c \<mapsto> 0)
   | EndSeed c \<Rightarrow> (consumers s)(seedConsumerName c := None) | _ \<Rightarrow> consumers s)"
proof (cases q)
  case (CommitWrite b)
  then obtain r where r: "commit D now (ConsumerBatch b) s = Inr (r, t)"
    using assms(1) by (auto split: sum.splits)
  then obtain x where "r = x" and "commit D now (ConsumerBatch b) s = Inr ((fst x, snd x), t)" by simp
  from commit_going [OF this(2) assms(2)] obtain t' where
    t: "commitConsumer D now b (maxSeq s) (s\<lparr>accountAppends := [], appended := 0\<rparr>) = Inr (fst x, t')"
      "t = t'\<lparr>accountPublishedAt := fold (\<lambda>(i, at) m. m(i \<mapsto> at)) (accountAppends t') (accountPublishedAt t'), accountAppends := []\<rparr>"
    by (auto simp: maxSeq_def)
  let ?s = "s\<lparr>accountAppends := [], appended := 0\<rparr>"
  have f: "carries ?s t'" "consumers t' = cursorsAfter b ?s"
    using commitConsumer_follows [of D now b ?s "fst x" t'] t(1) assms(2) by (simp_all add: maxSeq_def)
  have "carries s t" using carries_trans [OF carries_trans [OF _ f(1)], of s t] by (simp add: carries_same t(2))
  moreover have "cursorsAfter b ?s = cursorsAfter b s"
    by (auto simp: cursorsAfter_def setCursor_def moveCursor_def split: option.splits)
  moreover have "consumers t = consumers t'" by (simp add: t(2))
  ultimately show ?thesis using f(2) commit_keeps_invariant_lib [OF assms(2) r] by (simp add: CommitWrite)
next
  case (RecordWrite c e)
  then have "t = recordEntry now c e s" using assms(1) by simp
  then show ?thesis using assms(2) same_corpus_inv [OF same_corpus_ledger(1)] RecordWrite same_corpus_ledger(1) [of s now c e]
    by (auto simp: recordEntry_def ledgerUpsert_def same_corpus_def intro!: carries_same)
next
  case (RecordMany c es)
  have "same_corpus s (fold (recordEntry now c) es s)" by (rule same_corpus_fold) (rule same_corpus_ledger)
  moreover have "consumers (fold (recordEntry now c) es u) = consumers u" for u
    by (induction es arbitrary: u) (simp_all add: recordEntry_def ledgerUpsert_def)
  ultimately show ?thesis using assms RecordMany same_corpus_inv [of s t D]
    by (auto simp: recordMany_def same_corpus_def intro!: carries_same)
next
  case (BeginSeed c h0)
  then have "same_corpus s t" using assms(1) by (auto simp: beginSeed_def same_corpus_def)
  then show ?thesis using assms BeginSeed same_corpus_inv by (auto simp: beginSeed_def intro!: carries_same)
next
  case (EndSeed c)
  then have "same_corpus s t" using assms(1) by (auto simp: endSeed_def same_corpus_def)
  then show ?thesis using assms EndSeed same_corpus_inv by (auto simp: endSeed_def intro!: carries_same)
qed

section \<open>The invariant\<close>

definition view_ok :: "deps \<Rightarrow> view \<Rightarrow> bool" where
  "view_ok D v \<longleftrightarrow> store_inv D (vdb v) \<and> (\<forall>d \<in> set (documents (vdb v)). 0 < seq d) \<and> vcut v \<le> vfloor v \<and> vfloor v \<le> headSeq (vdb v)"

text \<open>What the cursor of a worker answers for: live documents up to it, while it is seeded up to the seed's cursor.\<close>

definition due :: "string \<Rightarrow> view \<Rightarrow> doc_row \<Rightarrow> bool" where
  "due c v d \<longleftrightarrow> archived_at d = None \<and> (\<exists>k. consumers (vdb v) c = Some k \<and> seq d \<le> k) \<and>
     (case consumers (vdb v) (seedConsumerName c) of None \<Rightarrow> True | Some p \<Rightarrow> seq d \<le> p)"

definition covered :: "string \<Rightarrow> work_event list \<Rightarrow> view \<Rightarrow> bool" where
  "covered c tr v \<longleftrightarrow> (\<forall>d \<in> set (documents (vdb v)). due c v d \<longrightarrow> handled c tr (did d) (seq d)) \<and>
     (\<forall>k. consumers (vdb v) c = Some k \<longrightarrow> k \<le> change_counter (vdb v))"

definition resolves :: "string \<Rightarrow> work_event list \<Rightarrow> ledger_entry \<Rightarrow> bool" where
  "resolves c tr e \<longleftrightarrow> e = skipEntry (le_seq e) \<or> (\<exists>ch r. e = entryFor ch r \<and> cameFrom tr ch r \<and> committed c tr r)"

definition promised :: "string \<Rightarrow> work_event list \<Rightarrow> bool" where
  "promised c tr \<longleftrightarrow> (\<forall>k < length tr. \<forall>c' es. tr ! k = Wrote (RecordMany c' es) \<longrightarrow> (\<forall>e \<in> set es. resolves c (take k tr) e))"

definition base :: "deps \<Rightarrow> string \<Rightarrow> work_event list \<Rightarrow> view \<Rightarrow> bool" where
  "base D c tr v \<longleftrightarrow> view_ok D v \<and> covered c tr v \<and> promised c tr"

text \<open>While a task that started at head \<open>H\<close> runs.\<close>

definition keeps :: "deps \<Rightarrow> string \<Rightarrow> nat \<Rightarrow> work_event list \<Rightarrow> view \<Rightarrow> bool" where
  "keeps D c H tr v \<longleftrightarrow> base D c tr v \<and> H \<le> headSeq (vdb v)"

definition around :: "string \<Rightarrow> nat \<Rightarrow> view \<Rightarrow> view \<Rightarrow> bool" where
  "around c H u v \<longleftrightarrow> carries (vdb u) (vdb v) \<and> consumers (vdb v) c = consumers (vdb u) c \<and>
     consumers (vdb v) (seedConsumerName c) = consumers (vdb u) (seedConsumerName c) \<and>
     vfloor u \<le> vfloor v \<and>
     (vfloor v \<le> vfloor u \<or> (case consumers (vdb u) c of None \<Rightarrow> vfloor v \<le> Suc H | Some k \<Rightarrow> vfloor v \<le> k))"

interpretation worker: flow_rules D "around c H" "keeps D c H" for D c H
proof unfold_locales
  show "around c H v v" for v by (simp add: around_def)
  show "around c H u v \<Longrightarrow> around c H v w \<Longrightarrow> around c H u w" for u v w
    using carries_trans [of "vdb u" "vdb v" "vdb w"] by (auto simp: around_def split: option.splits)
qed

section \<open>The trace only grows\<close>

lemma cameFrom_mono: "cameFrom tr ch r \<Longrightarrow> cameFrom (tr @ es) ch r"
  by (auto simp: cameFrom_def)

lemma recorded_mono: "recorded c tr e \<Longrightarrow> recorded c (tr @ es) e"
  by (auto simp: recorded_def)

lemma committed_mono: "committed c tr r \<Longrightarrow> committed c (tr @ es) r"
  by (auto simp: committed_def)

lemma handled_mono: "handled c tr i q \<Longrightarrow> handled c (tr @ es) i q"
  unfolding handled_def using cameFrom_mono recorded_mono committed_mono
  by (metis Un_iff set_append)

lemmas trace_mono = cameFrom_mono recorded_mono committed_mono handled_mono

lemma resolves_mono: "resolves c tr e \<Longrightarrow> resolves c (tr @ es) e"
  unfolding resolves_def using cameFrom_mono [of tr _ _ es] committed_mono [of c tr _ es] by metis

lemma covered_mono: "covered c tr v \<Longrightarrow> covered c (tr @ es) v"
  using handled_mono by (auto simp: covered_def)

definition resolving :: "work_event \<Rightarrow> bool" where
  "resolving x \<longleftrightarrow> (\<exists>c es. x = Wrote (RecordMany c es))"

lemma promised_more: "promised c tr \<Longrightarrow> \<not> resolving x \<Longrightarrow> promised c (tr @ [x])"
  unfolding promised_def resolving_def by (auto simp: nth_append less_Suc_eq)

lemma promised_write: "promised c tr \<Longrightarrow> (\<And>e. e \<in> set es \<Longrightarrow> resolves c tr e) \<Longrightarrow> promised c (tr @ [Wrote (RecordMany c' es)])"
  unfolding promised_def by (auto simp: nth_append less_Suc_eq)

lemma keeps_more: "keeps D c H tr v \<Longrightarrow> \<not> resolving x \<Longrightarrow> keeps D c H (tr @ [x]) v"
  using covered_mono promised_more by (auto simp: keeps_def base_def)

lemma not_resolving [simp]: "\<not> resolving (Asked ch b)" "\<not> resolving (WorkDone ch n a)"
    "resolving (Wrote q) \<longleftrightarrow> (\<exists>c es. q = RecordMany c es)"
  by (auto simp: resolving_def)

section \<open>Documents under a step\<close>

lemma carriesD: "carries s t \<Longrightarrow> d \<in> set (documents t) \<Longrightarrow> seq d \<le> change_counter s \<Longrightarrow>
    \<exists>e \<in> set (documents s). did e = did d \<and> seq e = seq d \<and> archived_at e = archived_at d"
  unfolding carries_def by fastforce

lemma view_ok_carries:
  assumes "view_ok D u" "carries (vdb u) (vdb v)" "store_inv D (vdb v)" "vcut v \<le> vfloor v" "vfloor v \<le> headSeq (vdb v)"
  shows "view_ok D v"
proof -
  have "0 < seq d" if "d \<in> set (documents (vdb v))" for d
    using assms(1,2) that unfolding view_ok_def carries_def by fastforce
  then show ?thesis using assms by (simp add: view_ok_def)
qed

text \<open>A cursor that did not move answers for nothing new.\<close>

lemma covered_carries:
  assumes "covered c tr u" "carries (vdb u) (vdb v)"
    and "consumers (vdb v) c = consumers (vdb u) c \<or> consumers (vdb v) c = None"
    and "consumers (vdb v) (seedConsumerName c) = consumers (vdb u) (seedConsumerName c)"
  shows "covered c tr v"
proof -
  have "handled c tr (did d) (seq d)" if d: "d \<in> set (documents (vdb v))" "due c v d" for d
  proof -
    obtain k where k: "consumers (vdb v) c = Some k" "seq d \<le> k" using d(2) by (auto simp: due_def)
    then have "k \<le> change_counter (vdb u)" using assms(1,3) by (auto simp: covered_def)
    then obtain e where e: "e \<in> set (documents (vdb u))" "did e = did d" "seq e = seq d" "archived_at e = archived_at d"
      using carriesD [OF assms(2) d(1)] k(2) by auto
    have "consumers (vdb u) c = Some k" using assms(3) k(1) by auto
    then have "due c u e" using d(2) assms(4) k(2) e(4) unfolding due_def e(3) by simp
    then show ?thesis using assms(1) e by (auto simp: covered_def)
  qed
  then show ?thesis using assms by (fastforce simp: covered_def carries_def)
qed

end
