(* ===== verification/EngineWorkRules.thy ===== *)
theory EngineWorkRules
  imports EngineWorkInv
begin

text \<open>The procedures of a worker keep the invariant of EngineWorkInv, statement by statement.\<close>

section \<open>Assertions\<close>

abbreviation does :: "deps \<Rightarrow> string \<Rightarrow> nat \<Rightarrow> (work_event list \<Rightarrow> view \<Rightarrow> bool) \<Rightarrow> 'a flow \<Rightarrow> ('a \<Rightarrow> work_event list \<Rightarrow> view \<Rightarrow> bool) \<Rightarrow> bool" where
  "does D c H \<equiv> flow_rules.does D (around c H) (keeps D c H)"

abbreviation steady :: "deps \<Rightarrow> string \<Rightarrow> nat \<Rightarrow> (work_event list \<Rightarrow> view \<Rightarrow> bool) \<Rightarrow> bool" where
  "steady D c H \<equiv> flow_rules.steady (around c H) (keeps D c H)"

text \<open>An assertion that more of the trace cannot break.\<close>

definition growing :: "(work_event list \<Rightarrow> view \<Rightarrow> bool) \<Rightarrow> bool" where
  "growing P \<longleftrightarrow> (\<forall>tr v x. P tr v \<longrightarrow> P (tr @ [x]) v)"

lemma growingI: "(\<And>tr v x. P tr v \<Longrightarrow> P (tr @ [x]) v) \<Longrightarrow> growing P"
  by (simp add: growing_def)

lemma growingD: "growing P \<Longrightarrow> P tr v \<Longrightarrow> P (tr @ [x]) v"
  by (simp add: growing_def)

lemma growing_conj: "growing P \<Longrightarrow> growing Q \<Longrightarrow> growing (\<lambda>tr v. P tr v \<and> Q tr v)"
  by (simp add: growing_def)

lemma steadyI: "(\<And>tr u v. P tr u \<Longrightarrow> keeps D c H tr u \<Longrightarrow> around c H u v \<Longrightarrow> keeps D c H tr v \<Longrightarrow> P tr v) \<Longrightarrow> steady D c H P"
  unfolding worker.steady_def by blast

lemma keeps_view: "keeps D c H tr v \<Longrightarrow> view_ok D v" "keeps D c H tr v \<Longrightarrow> covered c tr v"
    "keeps D c H tr v \<Longrightarrow> promised c tr" "keeps D c H tr v \<Longrightarrow> H \<le> headSeq (vdb v)"
  by (simp_all add: keeps_def base_def)

lemma aroundD:
  assumes "around c H u v"
  shows "carries (vdb u) (vdb v)" "consumers (vdb v) c = consumers (vdb u) c"
    "consumers (vdb v) (seedConsumerName c) = consumers (vdb u) (seedConsumerName c)"
    "change_counter (vdb u) \<le> change_counter (vdb v)"
    "consumers (vdb u) c = Some k \<Longrightarrow> vfloor u \<le> Suc k \<Longrightarrow> vfloor v \<le> Suc k"
    "consumers (vdb u) c = Some k \<Longrightarrow> vfloor u \<le> k \<Longrightarrow> vfloor v \<le> k"
    "vfloor u \<le> vfloor v" "consumers (vdb u) c = None \<Longrightarrow> vfloor v \<le> vfloor u \<or> vfloor v \<le> Suc H"
    "consumers (vdb u) c = Some k \<Longrightarrow> k < vfloor u \<Longrightarrow> vfloor v = vfloor u"
  using assms by (auto simp: around_def carries_def)

section \<open>Writes\<close>

lemma seedName_neq [simp]: "seedConsumerName c \<noteq> c" "c \<noteq> seedConsumerName c"
proof -
  have "length (seedConsumerName c) = 5 + length c" by (simp add: seedConsumerName_def)
  then show "seedConsumerName c \<noteq> c" "c \<noteq> seedConsumerName c" by (auto dest: arg_cong [of _ _ length])
qed

lemma keeps_write:
  assumes "keeps D c H tr v" "writeEffect D now q (vdb v) = Some t"
    and "covered c (tr @ [Wrote q]) (wrote v t)"
    and "\<And>c' es e. q = RecordMany c' es \<Longrightarrow> e \<in> set es \<Longrightarrow> resolves c tr e"
  shows "keeps D c H (tr @ [Wrote q]) (wrote v t)"
proof -
  note ok = keeps_view [OF assms(1)]
  have inv: "store_inv D (vdb v)" using ok(1) by (simp add: view_ok_def)
  note w = writeEffect_carries [OF assms(2) inv]
  have head: "headSeq (vdb v) \<le> headSeq t" using w by (simp add: carries_def)
  have "view_ok D (wrote v t)"
    by (rule view_ok_carries [OF ok(1)]) (use w ok(1) head in \<open>auto simp: view_ok_def\<close>)
  moreover have "promised c (tr @ [Wrote q])"
  proof (cases "resolving (Wrote q)")
    case True
    then obtain c' es where q: "q = RecordMany c' es" by auto
    show ?thesis unfolding q by (rule promised_write [OF ok(3)]) (rule assms(4) [OF q])
  qed (rule promised_more [OF ok(3)])
  ultimately show ?thesis using assms(3) ok(4) head by (simp add: keeps_def base_def)
qed

text \<open>A write that leaves both cursors of the worker where they are.\<close>

definition quiet :: "string \<Rightarrow> store_write \<Rightarrow> store \<Rightarrow> bool" where
  "quiet c q s \<longleftrightarrow> (case q of CommitWrite b \<Rightarrow> cursorsAfter b s c = consumers s c \<and>
       cursorsAfter b s (seedConsumerName c) = consumers s (seedConsumerName c)
     | RecordWrite _ _ \<Rightarrow> True | RecordMany _ _ \<Rightarrow> True | _ \<Rightarrow> False)"

lemma quiet_around:
  assumes "keeps D c H tr v" "writeEffect D now q (vdb v) = Some t" "quiet c q (vdb v)"
  shows "around c H v (wrote v t)"
proof -
  have "store_inv D (vdb v)" using keeps_view(1) [OF assms(1)] by (simp add: view_ok_def)
  from writeEffect_carries [OF assms(2) this] assms(3) show ?thesis
    by (cases q) (auto simp: quiet_def around_def)
qed

lemma quiet_keeps:
  assumes "keeps D c H tr v" "writeEffect D now q (vdb v) = Some t" "quiet c q (vdb v)"
    and "\<And>c' es e. q = RecordMany c' es \<Longrightarrow> e \<in> set es \<Longrightarrow> resolves c tr e"
  shows "keeps D c H (tr @ [Wrote q]) (wrote v t)"
proof (rule keeps_write [OF assms(1,2) _ assms(4)])
  note a = quiet_around [OF assms(1-3)]
  show "covered c (tr @ [Wrote q]) (wrote v t)"
    by (rule covered_mono, rule covered_carries [OF keeps_view(2) [OF assms(1)]]) (use aroundD [OF a] in simp_all)
qed

text \<open>\<open>P\<close> says all that is known before the write; the write itself is in the trace afterwards.\<close>

lemma does_quiet:
  assumes "steady D c H P" "growing P" "\<And>tr v. keeps D c H tr v \<Longrightarrow> P tr v \<Longrightarrow> quiet c q (vdb v)"
    and "\<And>tr v c' es e. P tr v \<Longrightarrow> q = RecordMany c' es \<Longrightarrow> e \<in> set es \<Longrightarrow> resolves c tr e"
    and "\<And>a. steady D c H (Q a)" "\<And>tr v. keeps D c H tr v \<Longrightarrow> P tr v \<Longrightarrow> Wrote q \<in> set tr \<Longrightarrow> Q () tr v"
  shows "does D c H P (writef q) Q"
proof (rule worker.does_writef [OF assms(1,5)])
  fix tr v now t
  assume k: "keeps D c H tr v" and p: "P tr v" and w: "writeEffect D now q (vdb v) = Some t"
  note qu = assms(3) [OF k p]
  have 1: "keeps D c H (tr @ [Wrote q]) (wrote v t)" by (rule quiet_keeps [OF k w qu assms(4) [OF p]])
  have "P (tr @ [Wrote q]) v" by (rule growingD [OF assms(2) p])
  moreover have "around c H v (wrote v t)" by (rule quiet_around [OF k w qu])
  moreover have "keeps D c H (tr @ [Wrote q]) v"
  proof -
    have "resolving (Wrote q) \<Longrightarrow> promised c (tr @ [Wrote q])" using keeps_view(3) [OF 1] .
    then show ?thesis using k covered_mono keeps_view(3) [OF 1] by (simp add: keeps_def base_def)
  qed
  ultimately have "P (tr @ [Wrote q]) (wrote v t)" using worker.steadyD [OF assms(1)] 1 by blast
  then show "keeps D c H (tr @ [Wrote q]) (wrote v t) \<and> Q () (tr @ [Wrote q]) (wrote v t)" using 1 assms(6) by simp
qed

section \<open>Questions to the worker\<close>

lemma does_asked:
  assumes "steady D c H P" "growing P" "\<And>b. does D c H (\<lambda>tr v. P tr v \<and> Asked ch b \<in> set tr) (k b) Q"
  shows "does D c H P (Matches ch k) Q"
proof (rule worker.does_Matches [OF assms(1,3)])
  show "keeps D c H tr v \<Longrightarrow> P tr v \<Longrightarrow>
      keeps D c H (tr @ [Asked ch b]) v \<and> P (tr @ [Asked ch b]) v \<and> Asked ch b \<in> set (tr @ [Asked ch b])" for b tr v
    using keeps_more growingD [OF assms(2)] by simp
qed

lemma does_worked:
  assumes "steady D c H P" "growing P" "\<And>a. does D c H (\<lambda>tr v. P tr v \<and> WorkDone ch n a \<in> set tr) (k a) Q"
  shows "does D c H P (Work ch n k) Q"
proof (rule worker.does_Work [OF assms(1,3)])
  show "keeps D c H tr v \<Longrightarrow> P tr v \<Longrightarrow>
      keeps D c H (tr @ [WorkDone ch n a]) v \<and> P (tr @ [WorkDone ch n a]) v \<and> WorkDone ch n a \<in> set (tr @ [WorkDone ch n a])" for a tr v
    using keeps_more growingD [OF assms(2)] by simp
qed

lemma steady_trace [simp]: "steady D c H (\<lambda>tr _. T tr)"
  by (rule steadyI)

lemma steady_P: "steady D c H P \<Longrightarrow> steady D c H (\<lambda>tr v. P tr v \<and> T tr)"
  by (rule worker.steady_conj) simp_all

lemma does_workFrom:
  assumes "steady D c H P" "growing P"
  shows "does D c H P (workFrom ch n k) (\<lambda>r tr v. P tr v \<and> cameFrom tr ch r)"
proof (induction k arbitrary: n)
  case 0
  show ?case by (simp, rule worker.does_Return [OF assms(1)]) (simp add: cameFrom_def)
next
  case (Suc k)
  have st: "steady D c H (\<lambda>tr v. P tr v \<and> WorkDone ch n a \<in> set tr)" for a by (rule steady_P [OF assms(1)])
  have ret: "does D c H (\<lambda>tr v. P tr v \<and> WorkDone ch n a \<in> set tr) (Return (resultOf n a)) (\<lambda>r tr v. P tr v \<and> cameFrom tr ch r)" for a
    by (rule worker.does_Return [OF st]) (auto simp: cameFrom_def)
  show ?case unfolding workFrom.simps
  proof (rule does_worked [OF assms])
    fix a
    show "does D c H (\<lambda>tr v. P tr v \<and> WorkDone ch n a \<in> set tr)
        (case a of Worked out ds es \<Rightarrow> Return (workedResult n out ds es)
         | FetchDeferred \<Rightarrow> unlessHalted (Throw Stopped) (Return (failedWork n Deferred))
         | WorkThrew \<Rightarrow> unlessHalted (Throw Stopped) (if k = 0 then Return (failedWork n Failed)
             else unlessHalted (Throw Stopped) (workFrom ch (Suc n) k)))
        (\<lambda>r tr v. P tr v \<and> cameFrom tr ch r)"
    proof (cases a)
      case (Worked out ds es)
      then show ?thesis using ret [of a] by (simp add: resultOf_def)
    next
      case FetchDeferred
      then show ?thesis using worker.does_unlessHalted [OF st worker.does_Throw ret [of a]] by (simp add: resultOf_def)
    next
      case WorkThrew
      have more: "does D c H (\<lambda>tr v. P tr v \<and> WorkDone ch n a \<in> set tr) (workFrom ch (Suc n) k) (\<lambda>r tr v. P tr v \<and> cameFrom tr ch r)"
        by (rule worker.does_pre [OF Suc.IH]) simp
      show ?thesis
      proof (cases "k = 0")
        case True
        then show ?thesis using WorkThrew worker.does_unlessHalted [OF st worker.does_Throw ret [of a]] by (simp add: resultOf_def)
      next
        case False
        then show ?thesis
          using WorkThrew worker.does_unlessHalted [OF st worker.does_Throw worker.does_unlessHalted [OF st worker.does_Throw more]] by simp
      qed
    qed
  qed
qed

lemma does_workOne:
  "steady D c H P \<Longrightarrow> growing P \<Longrightarrow> does D c H P (workOne mx ch) (\<lambda>r tr v. P tr v \<and> cameFrom tr ch r)"
  unfolding workOne_def by (rule does_workFrom)

end
