(* ===== verification/EngineWorkFeed.thy ===== *)
theory EngineWorkFeed
  imports EngineWorkRules
begin

text \<open>What a worker reads of the log is complete: the documents of the window, each in its present version.\<close>

section \<open>What a batch holds of a document\<close>

text \<open>As \<open>handled\<close>, where the outputs and the ledger entry may still be in the batch.\<close>

definition kept :: "string \<Rightarrow> work_event list \<Rightarrow> work_batch \<Rightarrow> feed_change \<Rightarrow> work_result \<Rightarrow> bool" where
  "kept c tr a ch r \<longleftrightarrow> cameFrom tr ch r \<and> (recorded c tr (entryFor ch r) \<or> entryFor ch r \<in> set (bledger a)) \<and>
     (committed c tr r \<or> set (rdocs r) \<subseteq> set (bdocs a) \<and> set (renrich r) \<subseteq> set (benrich a))"

definition ready :: "string \<Rightarrow> work_event list \<Rightarrow> work_batch \<Rightarrow> string \<Rightarrow> nat \<Rightarrow> bool" where
  "ready c tr a i q \<longleftrightarrow> (\<exists>x b. Asked (DocChange q x) b \<in> set tr \<and> did x = i \<and> (b = Some True \<longrightarrow> (\<exists>r. kept c tr a (DocChange q x) r)))"

definition extends :: "work_batch \<Rightarrow> work_batch \<Rightarrow> bool" where
  "extends a b \<longleftrightarrow> set (bdocs a) \<subseteq> set (bdocs b) \<and> set (benrich a) \<subseteq> set (benrich b) \<and> set (bledger a) \<subseteq> set (bledger b)"

lemma extends_simps [simp]: "extends a (a\<lparr>bpos := p\<rparr>)" "extends a (addResult ch r es (noteWorked ch (noteSeen ch a)))"
    "extends a (addResult ch r es (noteWorked ch a))" "extends a (addResult ch r es (noteSeen ch a))"
  by (simp_all add: extends_def addResult_def noteWorked_def noteSeen_def)

lemma readyI: "ready c tr a i q \<Longrightarrow> set tr \<subseteq> set tr' \<Longrightarrow> (\<And>ch r. kept c tr a ch r \<Longrightarrow> kept c tr' b ch r) \<Longrightarrow> ready c tr' b i q"
  unfolding ready_def by blast

lemma ready_extends: "ready c tr a i q \<Longrightarrow> extends a b \<Longrightarrow> ready c tr b i q"
  by (erule readyI) (auto simp: kept_def extends_def)

lemma ready_mono: "ready c tr a i q \<Longrightarrow> ready c (tr @ es) a i q"
  by (erule readyI) (auto simp: kept_def intro: cameFrom_mono recorded_mono committed_mono)

lemma ready_written:
  assumes "ready c tr a i q" "Wrote (CommitWrite (writeBatch c cur sc a)) \<in> set tr"
  shows "handled c tr i q"
proof -
  let ?w = "writeBatch c cur sc a"
  have 1: "e \<in> set (bledger a) \<Longrightarrow> recorded c tr e" for e
    unfolding recorded_def by (rule disjI2, rule exI [of _ ?w]) (simp add: assms(2), simp add: writeBatch_def)
  have 2: "set (rdocs r) \<subseteq> set (bdocs a) \<Longrightarrow> set (renrich r) \<subseteq> set (benrich a) \<Longrightarrow> committed c tr r" for r
    unfolding committed_def by (rule disjI2, rule exI [of _ ?w]) (simp add: assms(2), simp add: writeBatch_def)
  have "kept c tr a ch r \<Longrightarrow> cameFrom tr ch r \<and> recorded c tr (entryFor ch r) \<and> committed c tr r" for ch r
    using 1 2 by (auto simp: kept_def)
  then show ?thesis using assms(1) unfolding ready_def handled_def by blast
qed

lemma handled_ready: "handled c tr i q \<Longrightarrow> ready c tr a i q"
  unfolding ready_def handled_def kept_def by blast

lemma ready_passed: "Asked (DocChange q x) b \<in> set tr \<Longrightarrow> b \<noteq> Some True \<Longrightarrow> ready c tr a (did x) q"
  unfolding ready_def by blast

lemma ready_worked:
  assumes "Asked (DocChange q x) (Some True) \<in> set tr" "cameFrom tr (DocChange q x) r"
    and "recorded c tr (entryFor (DocChange q x) r) \<or> entryFor (DocChange q x) r \<in> set es"
  shows "ready c tr (addResult (DocChange q x) r es a) (did x) q"
proof -
  have "kept c tr (addResult (DocChange q x) r es a) (DocChange q x) r" using assms(2,3) by (auto simp: kept_def addResult_def)
  then show ?thesis using assms(1) unfolding ready_def by blast
qed

section \<open>A page of the feed\<close>

text \<open>An entry is the document's present version, unless the document has moved past the page.\<close>

definition entry_ok :: "nat \<Rightarrow> view \<Rightarrow> feed_change \<Rightarrow> bool" where
  "entry_ok high v ch \<longleftrightarrow> (case ch of DocChange q x \<Rightarrow>
     (\<forall>d \<in> set (documents (vdb v)). did d = did x \<longrightarrow> seq d = q \<or> high < seq d) | _ \<Rightarrow> True)"

definition has_entry :: "feed_change list \<Rightarrow> doc_row \<Rightarrow> bool" where
  "has_entry chs d \<longleftrightarrow> (\<exists>x. DocChange (seq d) x \<in> set chs \<and> did x = did d)"

text \<open>The documents of \<open>rs\<close> are in the page \<open>cs\<close>.\<close>

definition page_of :: "nat \<Rightarrow> change_row list \<Rightarrow> feed_change list \<Rightarrow> view \<Rightarrow> bool" where
  "page_of high rs cs v \<longleftrightarrow> high \<le> change_counter (vdb v) \<and> sorted_wrt (<) (map changeSeq cs) \<and>
     changeSeq ` set cs \<subseteq> cseq ` set rs \<and> (\<forall>ch \<in> set cs. entry_ok high v ch) \<and>
     (\<forall>r \<in> set rs. \<forall>d \<in> set (documents (vdb v)). is_doc_change (did d) r \<longrightarrow> cseq r = seq d \<longrightarrow> has_entry cs d)"

lemma carries_old:
  assumes "carries s t" "d \<in> set (documents t)" "seq d \<le> change_counter s"
  obtains e where "e \<in> set (documents s)" "did e = did d" "seq e = seq d" "archived_at e = archived_at d"
  using carriesD [OF assms] by blast

lemma entry_ok_carries:
  assumes "entry_ok high u ch" "carries (vdb u) (vdb v)" "high \<le> change_counter (vdb u)"
  shows "entry_ok high v ch"
proof (cases ch)
  case (DocChange q x)
  have "seq d = q \<or> high < seq d" if d: "d \<in> set (documents (vdb v))" "did d = did x" for d
  proof (cases "seq d \<le> change_counter (vdb u)")
    case True
    then obtain e where "e \<in> set (documents (vdb u))" "did e = did d" "seq e = seq d"
      using carries_old [OF assms(2) d(1)] by metis
    then show ?thesis using assms(1) d(2) by (auto simp: entry_ok_def DocChange)
  qed (use assms(3) in simp)
  then show ?thesis by (simp add: entry_ok_def DocChange)
qed (simp_all add: entry_ok_def)

lemma page_of_carries:
  assumes "page_of high rs cs u" "carries (vdb u) (vdb v)" "\<forall>r \<in> set rs. cseq r \<le> high"
  shows "page_of high rs cs v"
proof -
  have cc: "high \<le> change_counter (vdb u)" using assms(1) by (simp add: page_of_def)
  have "has_entry cs d" if d: "r \<in> set rs" "d \<in> set (documents (vdb v))" "is_doc_change (did d) r" "cseq r = seq d" for r d
  proof -
    have "seq d \<le> change_counter (vdb u)" using assms(3) d(1,4) cc by fastforce
    then obtain e where e: "e \<in> set (documents (vdb u))" "did e = did d" "seq e = seq d" using carries_old [OF assms(2) d(2)] by metis
    then have "has_entry cs e" using assms(1) d by (simp add: page_of_def)
    then show ?thesis using e by (simp add: has_entry_def)
  qed
  moreover have "high \<le> change_counter (vdb v)" using cc assms(2) by (simp add: carries_def)
  moreover have "\<forall>ch \<in> set cs. entry_ok high v ch" using entry_ok_carries [OF _ assms(2) cc] assms(1) by (simp add: page_of_def)
  ultimately show ?thesis using assms(1) by (simp add: page_of_def)
qed

text \<open>What reading one row answers.\<close>

definition row_answer :: "nat \<Rightarrow> change_row \<Rightarrow> feed_change option \<Rightarrow> view \<Rightarrow> bool" where
  "row_answer high r x v \<longleftrightarrow> high \<le> change_counter (vdb v) \<and> (\<forall>ch. x = Some ch \<longrightarrow> changeSeq ch = cseq r \<and> entry_ok high v ch) \<and>
     (\<forall>d \<in> set (documents (vdb v)). is_doc_change (did d) r \<longrightarrow> cseq r = seq d \<longrightarrow> (\<exists>y. x = Some (DocChange (seq d) y) \<and> did y = did d))"

lemma row_answer_carries:
  assumes "row_answer high r x u" "carries (vdb u) (vdb v)" "cseq r \<le> high"
  shows "row_answer high r x v"
proof -
  have cc: "high \<le> change_counter (vdb u)" using assms(1) by (simp add: row_answer_def)
  have "\<exists>y. x = Some (DocChange (seq d) y) \<and> did y = did d"
    if d: "d \<in> set (documents (vdb v))" "is_doc_change (did d) r" "cseq r = seq d" for d
  proof -
    have "seq d \<le> change_counter (vdb u)" using assms(3) d(3) cc by simp
    then obtain e where e: "e \<in> set (documents (vdb u))" "did e = did d" "seq e = seq d" using carries_old [OF assms(2) d(1)] by metis
    then show ?thesis using assms(1) d unfolding row_answer_def by metis
  qed
  moreover have "high \<le> change_counter (vdb v)" using cc assms(2) by (simp add: carries_def)
  ultimately show ?thesis using assms(1) entry_ok_carries [OF _ assms(2) cc] by (simp add: row_answer_def)
qed

lemma row_answer_read:
  assumes "store_inv D (vdb v)" "high \<le> change_counter (vdb v)"
  shows "row_answer high r (materializeRow (vdb v) r) v"
proof (cases "kind r")
  case DocumentChange
  show ?thesis
  proof (cases "docById (ref_id r) (vdb v)")
    case None
    then have "\<forall>d \<in> set (documents (vdb v)). did d \<noteq> ref_id r" by (simp add: docById_def find_None_iff)
    then show ?thesis using assms(2) DocumentChange None
      by (auto simp: row_answer_def materializeRow_def is_doc_change_def)
  next
    case (Some x)
    note x = docById_Some [OF Some]
    have "d = x" if "d \<in> set (documents (vdb v))" "did d = ref_id r" for d
      using same_did [OF store_invD(1) [OF assms(1)] that(1)] x that(2) by simp
    then show ?thesis using assms(2) DocumentChange Some x
      by (auto simp: row_answer_def materializeRow_def is_doc_change_def entry_ok_def)
  qed
qed (use assms(2) in \<open>auto simp: row_answer_def materializeRow_def is_doc_change_def entry_ok_def\<close>)


section \<open>Reading a page\<close>

lemma page_of_Cons:
  assumes "row_answer high r x v" "page_of high rs cs v" "sorted_wrt (<) (map cseq (r # rs))"
  shows "page_of high (r # rs) (case x of None \<Rightarrow> cs | Some ch \<Rightarrow> ch # cs) v"
proof (cases x)
  case None
  then show ?thesis using assms by (auto simp: page_of_def row_answer_def)
next
  case (Some ch)
  have ch: "changeSeq ch = cseq r" "entry_ok high v ch" using assms(1) Some by (simp_all add: row_answer_def)
  have "cseq r < changeSeq x" if "x \<in> set cs" for x
  proof -
    have "changeSeq x \<in> cseq ` set rs" using assms(2) that by (auto simp: page_of_def)
    then show ?thesis using assms(3) by auto
  qed
  then have "sorted_wrt (<) (map changeSeq (ch # cs))" using assms(2) ch(1) by (simp add: page_of_def)
  moreover have "has_entry (ch # cs) d" if "y \<in> set (r # rs)" "d \<in> set (documents (vdb v))" "is_doc_change (did d) y" "cseq y = seq d" for y d
  proof (cases "y = r")
    case True
    then show ?thesis using assms(1) that Some unfolding row_answer_def has_entry_def by fastforce
  next
    case False
    then have "has_entry cs d" using assms(2) that by (simp add: page_of_def)
    then show ?thesis by (auto simp: has_entry_def)
  qed
  ultimately show ?thesis using assms(2) ch Some by (auto simp: page_of_def)
qed

lemma does_materialize:
  assumes "steady D c H P" "\<forall>r \<in> set rs. cseq r \<le> high" "sorted_wrt (<) (map cseq rs)"
    and "\<And>tr v. keeps D c H tr v \<Longrightarrow> P tr v \<Longrightarrow> high \<le> change_counter (vdb v)"
  shows "does D c H P (materialize rs) (\<lambda>cs tr v. P tr v \<and> page_of high rs cs v)"
  using assms
proof (induction rs arbitrary: P)
  case Nil
  show ?case by (simp, rule worker.does_Return [OF Nil.prems(1)]) (simp add: page_of_def Nil.prems(4))
next
  case (Cons r rs)
  have sa: "steady D c H (\<lambda>tr v. P tr v \<and> row_answer high r x v)" for x
    by (rule worker.steady_conj [OF Cons.prems(1)], rule steadyI, rule row_answer_carries)
      (use Cons.prems(2) aroundD(1) in auto)
  have sp: "steady D c H (\<lambda>tr v. (P tr v \<and> row_answer high r x v) \<and> page_of high rs cs v)" for x cs
    by (rule worker.steady_conj [OF sa], rule steadyI, rule page_of_carries) (use Cons.prems(2) aroundD(1) in auto)
  show ?case unfolding materialize.simps
  proof (rule worker.does_awaitf)
    show "does D c H P (readf (\<lambda>s. materializeRow s r)) (\<lambda>x tr v. P tr v \<and> row_answer high r x v)"
    proof (rule worker.does_readf [OF Cons.prems(1) sa])
      fix tr v
      assume a: "keeps D c H tr v" "P tr v"
      have "store_inv D (vdb v)" using keeps_view(1) [OF a(1)] by (simp add: view_ok_def)
      then show "P tr v \<and> row_answer high r (materializeRow (vdb v) r) v"
        using row_answer_read Cons.prems(4) [OF a] a(2) by blast
    qed
    fix x
    show "does D c H (\<lambda>tr v. P tr v \<and> row_answer high r x v)
        (awaitf (materialize rs) (\<lambda>cs. Return (case x of None \<Rightarrow> cs | Some ch \<Rightarrow> ch # cs)))
        (\<lambda>cs tr v. P tr v \<and> page_of high (r # rs) cs v)"
    proof (rule worker.does_awaitf)
      show "does D c H (\<lambda>tr v. P tr v \<and> row_answer high r x v) (materialize rs)
          (\<lambda>cs tr v. (P tr v \<and> row_answer high r x v) \<and> page_of high rs cs v)"
        by (rule Cons.IH [OF sa]) (use Cons.prems in auto)
      show "does D c H (\<lambda>tr v. (P tr v \<and> row_answer high r x v) \<and> page_of high rs cs v)
          (Return (case x of None \<Rightarrow> cs | Some ch \<Rightarrow> ch # cs)) (\<lambda>cs tr v. P tr v \<and> page_of high (r # rs) cs v)" for cs
        by (rule worker.does_Return [OF sp]) (use page_of_Cons [OF _ _ Cons.prems(3)] in blast)
    qed
  qed
qed

text \<open>The window of rows from a position on, as long as nothing above it is pruned.\<close>

lemma le_last: "sorted (map f xs) \<Longrightarrow> x \<in> set xs \<Longrightarrow> f x \<le> (f (last xs) :: nat)"
  by (induction xs) auto

lemma sorted_parts: "sorted_wrt (<) (map f (xs @ ys)) \<Longrightarrow> x \<in> set xs \<Longrightarrow> y \<in> set ys \<Longrightarrow> f x < (f y :: nat)"
  by (auto simp: sorted_wrt_append)

lemma feedRows_window:
  assumes "store_inv D (vdb v)" "rows = feedRows pos v" "high = (if rows = [] then pos else cseq (last rows))"
    and "vcut v \<le> Suc pos" "pos \<le> change_counter (vdb v)"
  shows "pos \<le> high" "high \<le> change_counter (vdb v)" "\<forall>r \<in> set rows. pos < cseq r \<and> cseq r \<le> high"
    "sorted_wrt (<) (map cseq rows)"
    "\<forall>d \<in> set (documents (vdb v)). pos < seq d \<longrightarrow> seq d \<le> high \<longrightarrow> (\<exists>r \<in> set rows. is_doc_change (did d) r \<and> cseq r = seq d)"
proof -
  let ?all = "filter (\<lambda>c. pos < cseq c \<and> vcut v \<le> cseq c) (changes (vdb v))"
  have f: "feed_ok (vdb v)" using store_invD(3) [OF assms(1)] .
  have sall: "sorted_wrt (<) (map cseq ?all)" using f
    by (auto simp: feed_ok_def sorted_wrt_map intro: sorted_wrt_filter)
  then have "sort_key cseq ?all = ?all"
    by (intro sort_key_id_if_sorted strict_sorted_imp_sorted)
  then have rows: "rows = take FEED_BATCH ?all" by (simp add: assms(2) feedRows_def)
  then show srt: "sorted_wrt (<) (map cseq rows)" using sall by (simp add: sorted_wrt_take flip: take_map)
  have sub: "set rows \<subseteq> set ?all" unfolding rows by (rule set_take_subset)
  have last: "cseq r \<le> cseq (last rows)" if "r \<in> set rows" for r
    by (rule le_last [OF strict_sorted_imp_sorted [OF srt] that])
  show "\<forall>r \<in> set rows. pos < cseq r \<and> cseq r \<le> high" using sub last assms(3) by auto
  have ne: "rows \<noteq> [] \<Longrightarrow> last rows \<in> set ?all" using subsetD [OF sub last_in_set] by blast
  then show "pos \<le> high" "high \<le> change_counter (vdb v)"
    using assms(3,5) f by (auto simp: feed_ok_def)
  show "\<forall>d \<in> set (documents (vdb v)). pos < seq d \<longrightarrow> seq d \<le> high \<longrightarrow> (\<exists>r \<in> set rows. is_doc_change (did d) r \<and> cseq r = seq d)"
  proof (intro ballI impI)
    fix d assume d: "d \<in> set (documents (vdb v))" "pos < seq d" "seq d \<le> high"
    then obtain r where r: "r \<in> set (changes (vdb v))" "is_doc_change (did d) r" "cseq r = seq d"
      using f by (auto simp: feed_ok_def)
    then have rall: "r \<in> set ?all" using d(2) assms(4) by simp
    have "rows \<noteq> []" using d(2,3) assms(3) by auto
    moreover have "r \<in> set rows"
    proof (rule ccontr)
      assume "r \<notin> set rows"
      moreover have "set ?all = set (take FEED_BATCH ?all) \<union> set (drop FEED_BATCH ?all)"
        by (simp only: set_append [symmetric] append_take_drop_id)
      ultimately have "r \<in> set (drop FEED_BATCH ?all)" using rall unfolding rows by blast
      moreover have "last rows \<in> set (take FEED_BATCH ?all)" using last_in_set [OF \<open>rows \<noteq> []\<close>] unfolding rows .
      moreover have "sorted_wrt (<) (map cseq (take FEED_BATCH ?all @ drop FEED_BATCH ?all))" using sall by (simp only: append_take_drop_id)
      ultimately have "cseq (last rows) < cseq r" by (blast intro: sorted_parts)
      then show False using d(3) r(3) assms(3) \<open>rows \<noteq> []\<close> by simp
    qed
    ultimately show "\<exists>r \<in> set rows. is_doc_change (did d) r \<and> cseq r = seq d" using r by blast
  qed
qed

lemma does_never: "(\<And>v. \<not> P v) \<Longrightarrow> does D c H (\<lambda>tr v. P v) p Q"
  unfolding worker.does_def by blast

section \<open>The feed\<close>

text \<open>The real cursor is at \<open>k\<close>, the worker is seeded, and nothing above the cursor is pruned.\<close>

definition cursor_at :: "string \<Rightarrow> nat \<Rightarrow> view \<Rightarrow> bool" where
  "cursor_at c k v \<longleftrightarrow> consumers (vdb v) c = Some k \<and> consumers (vdb v) (seedConsumerName c) = None \<and> vfloor v \<le> Suc k"

definition none_between :: "nat \<Rightarrow> nat \<Rightarrow> view \<Rightarrow> bool" where
  "none_between k p v \<longleftrightarrow> p \<le> change_counter (vdb v) \<and> (\<forall>d \<in> set (documents (vdb v)). \<not> (k < seq d \<and> seq d \<le> p))"

definition at_pos :: "string \<Rightarrow> nat \<Rightarrow> view \<Rightarrow> bool" where
  "at_pos c pos v \<longleftrightarrow> (\<exists>k \<le> pos. cursor_at c k v \<and> none_between k pos v)"

text \<open>The page \<open>cs\<close> up to \<open>high\<close>, for a cursor at \<open>k\<close>.\<close>

definition fed :: "string \<Rightarrow> nat \<Rightarrow> nat \<Rightarrow> feed_change list \<Rightarrow> view \<Rightarrow> bool" where
  "fed c k high cs v \<longleftrightarrow> cursor_at c k v \<and> high \<le> change_counter (vdb v) \<and> k \<le> high \<and>
     sorted_wrt (<) (map changeSeq cs) \<and> (\<forall>ch \<in> set cs. k < changeSeq ch \<and> changeSeq ch \<le> high \<and> entry_ok high v ch) \<and>
     (\<forall>d \<in> set (documents (vdb v)). k < seq d \<longrightarrow> seq d \<le> high \<longrightarrow> has_entry cs d)"

lemma cursor_at_around: "cursor_at c k u \<Longrightarrow> around c H u v \<Longrightarrow> cursor_at c k v"
  unfolding cursor_at_def by (auto dest: aroundD)

lemma none_between_around:
  assumes "none_between k p u" "around c H u v"
  shows "none_between k p v"
  unfolding none_between_def
proof (intro conjI ballI notI)
  show "p \<le> change_counter (vdb v)" using assms aroundD(4) by (fastforce simp: none_between_def)
  fix d assume d: "d \<in> set (documents (vdb v))" "k < seq d \<and> seq d \<le> p"
  then have "seq d \<le> change_counter (vdb u)" using assms(1) by (simp add: none_between_def)
  then show False using carries_old [OF aroundD(1) [OF assms(2)] d(1)] d(2) assms(1) unfolding none_between_def by metis
qed

lemma steady_cursor: "steady D c H (\<lambda>tr v. cursor_at c k v)"
  by (rule steadyI, rule cursor_at_around)

lemma steady_at_pos: "steady D c H (\<lambda>tr v. at_pos c pos v)"
proof (rule steadyI)
  show "at_pos c pos u \<Longrightarrow> around c H u v \<Longrightarrow> at_pos c pos v" for u v
    unfolding at_pos_def using cursor_at_around none_between_around by blast
qed

lemma fed_around:
  assumes "fed c k high cs u" "around c H u v"
  shows "fed c k high cs v"
proof -
  note car = aroundD(1) [OF assms(2)]
  have cc: "high \<le> change_counter (vdb u)" using assms(1) by (simp add: fed_def)
  have "has_entry cs d" if d: "d \<in> set (documents (vdb v))" "k < seq d" "seq d \<le> high" for d
  proof -
    obtain e where e: "e \<in> set (documents (vdb u))" "did e = did d" "seq e = seq d"
      using carries_old [OF car d(1)] d(3) cc by (metis le_trans)
    then have "has_entry cs e" using assms(1) d by (simp add: fed_def)
    then show ?thesis using e by (simp add: has_entry_def)
  qed
  then show ?thesis
    using assms(1) cursor_at_around [OF _ assms(2)] entry_ok_carries [OF _ car cc] aroundD(4) [OF assms(2)]
    by (auto simp: fed_def)
qed

lemma steady_fed: "steady D c H (\<lambda>tr v. fed c k high cs v)"
  by (rule steadyI, rule fed_around)

lemma page_fed:
  assumes "cursor_at c k v" "none_between k pos v" "page_of high rows cs v" "k \<le> pos" "pos \<le> high"
    and "\<forall>r \<in> set rows. pos < cseq r \<and> cseq r \<le> high"
    and "\<forall>d \<in> set (documents (vdb v)). pos < seq d \<longrightarrow> seq d \<le> high \<longrightarrow> (\<exists>r \<in> set rows. is_doc_change (did d) r \<and> cseq r = seq d)"
  shows "fed c k high cs v"
proof -
  have "k < changeSeq ch \<and> changeSeq ch \<le> high" if ch: "ch \<in> set cs" for ch
  proof -
    have "changeSeq ch \<in> cseq ` set rows" using assms(3) ch by (auto simp: page_of_def)
    then show ?thesis using assms(4,6) by auto
  qed
  moreover have "has_entry cs d" if d: "d \<in> set (documents (vdb v))" "k < seq d" "seq d \<le> high" for d
  proof -
    have "pos < seq d" using assms(2) d by (auto simp: none_between_def not_le)
    then obtain r where "r \<in> set rows" "is_doc_change (did d) r" "cseq r = seq d" using assms(7) d by blast
    then show ?thesis using assms(3) d(1) by (simp add: page_of_def)
  qed
  ultimately show ?thesis using assms(1,3,4,5) by (simp add: fed_def page_of_def)
qed

lemma rows_cover_around:
  assumes "\<forall>d \<in> set (documents (vdb u)). pos < seq d \<longrightarrow> seq d \<le> high \<longrightarrow> (\<exists>r \<in> set rows. is_doc_change (did d) r \<and> cseq r = seq d)"
    and "around c H u v" "high \<le> change_counter (vdb u)"
  shows "\<forall>d \<in> set (documents (vdb v)). pos < seq d \<longrightarrow> seq d \<le> high \<longrightarrow> (\<exists>r \<in> set rows. is_doc_change (did d) r \<and> cseq r = seq d)"
proof (intro ballI impI)
  fix d assume d: "d \<in> set (documents (vdb v))" "pos < seq d" "seq d \<le> high"
  obtain e where "e \<in> set (documents (vdb u))" "did e = did d" "seq e = seq d"
    using carries_old [OF aroundD(1) [OF assms(2)] d(1)] d(3) assms(3) by (metis le_trans)
  then show "\<exists>r \<in> set rows. is_doc_change (did d) r \<and> cseq r = seq d" using assms(1) d by metis
qed

text \<open>The state between the window and its documents.\<close>

definition windowed :: "string \<Rightarrow> nat \<Rightarrow> change_row list \<Rightarrow> view \<Rightarrow> bool" where
  "windowed c pos rows v \<longleftrightarrow> (let high = if rows = [] then pos else cseq (last rows) in
     at_pos c pos v \<and> pos \<le> high \<and> high \<le> change_counter (vdb v) \<and> (\<forall>r \<in> set rows. pos < cseq r \<and> cseq r \<le> high) \<and>
     sorted_wrt (<) (map cseq rows) \<and>
     (\<forall>d \<in> set (documents (vdb v)). pos < seq d \<longrightarrow> seq d \<le> high \<longrightarrow> (\<exists>r \<in> set rows. is_doc_change (did d) r \<and> cseq r = seq d)))"

lemma steady_windowed: "steady D c H (\<lambda>tr v. windowed c pos rows v)"
proof (rule steadyI)
  fix tr u v
  assume w: "windowed c pos rows u" and k: "keeps D c H tr u" and a: "around c H u v" and k': "keeps D c H tr v"
  have "at_pos c pos u" using w by (simp add: windowed_def Let_def)
  then have "at_pos c pos v" using worker.steadyD [OF steady_at_pos _ k a k'] by blast
  moreover note w = w [unfolded windowed_def Let_def]
  moreover have "(if rows = [] then pos else cseq (last rows)) \<le> change_counter (vdb v)"
    by (rule le_trans [OF _ aroundD(4) [OF a]]) (use w in blast)
  moreover note rows_cover_around [OF _ a, of pos "if rows = [] then pos else cseq (last rows)" rows]
  ultimately show "windowed c pos rows v" unfolding windowed_def Let_def by blast
qed

lemma does_feedNext:
  "does D c H (\<lambda>tr v. at_pos c pos v) (feedNext pos) (\<lambda>(cs, high) tr v. pos \<le> high \<and> (\<exists>k. fed c k high cs v))"
  unfolding feedNext_def
proof (rule worker.does_awaitf)
  show "does D c H (\<lambda>tr v. at_pos c pos v) (viewf (feedRows pos)) (\<lambda>rows tr v. windowed c pos rows v)"
  proof (rule worker.does_viewf [OF steady_at_pos steady_windowed])
    fix tr v
    assume k: "keeps D c H tr v" and p: "at_pos c pos v"
    have ok: "store_inv D (vdb v)" "vcut v \<le> vfloor v" using keeps_view(1) [OF k] by (simp_all add: view_ok_def)
    have "vcut v \<le> Suc pos" "pos \<le> change_counter (vdb v)"
      using p ok(2) by (auto simp: at_pos_def cursor_at_def none_between_def)
    note r = feedRows_window [OF ok(1) refl refl this]
    show "windowed c pos (feedRows pos v) v" using r p by (simp add: windowed_def Let_def)
  qed
next
  fix rows :: "change_row list"
  let ?high = "if rows = [] then pos else cseq (last rows)"
  have steady: "steady D c H (\<lambda>tr v. windowed c pos rows v \<and> page_of ?high rows cs v)" for cs
  proof (rule steadyI)
    fix tr u v
    assume w: "windowed c pos rows u \<and> page_of ?high rows cs u" and k: "keeps D c H tr u" and a: "around c H u v" and k': "keeps D c H tr v"
    have "windowed c pos rows v" using w worker.steadyD [OF steady_windowed _ k a k'] by blast
    moreover have "page_of ?high rows cs v"
      by (rule page_of_carries [OF _ aroundD(1) [OF a]]) (use w in \<open>auto simp: windowed_def Let_def\<close>)
    ultimately show "windowed c pos rows v \<and> page_of ?high rows cs v" by blast
  qed
  show "does D c H (\<lambda>tr v. windowed c pos rows v) (awaitf (materialize rows) (\<lambda>cs. Return (cs, ?high)))
      (\<lambda>(cs, high) tr v. pos \<le> high \<and> (\<exists>k. fed c k high cs v))"
  proof (cases "(\<forall>r \<in> set rows. cseq r \<le> ?high) \<and> sorted_wrt (<) (map cseq rows)")
    case True
    show ?thesis
    proof (rule worker.does_awaitf)
      show "does D c H (\<lambda>tr v. windowed c pos rows v) (materialize rows) (\<lambda>cs tr v. windowed c pos rows v \<and> page_of ?high rows cs v)"
        by (rule does_materialize [OF steady_windowed]) (use True in \<open>auto simp: windowed_def Let_def\<close>)
      show "does D c H (\<lambda>tr v. windowed c pos rows v \<and> page_of ?high rows cs v) (Return (cs, ?high))
          (\<lambda>(cs, high) tr v. pos \<le> high \<and> (\<exists>k. fed c k high cs v))" for cs
      proof (rule worker.does_Return [OF steady])
        fix tr v
        assume w: "windowed c pos rows v \<and> page_of ?high rows cs v"
        then obtain k where k: "k \<le> pos" "cursor_at c k v" "none_between k pos v" by (auto simp: windowed_def Let_def at_pos_def)
        note x = w [unfolded windowed_def Let_def]
        have p: "page_of ?high rows cs v" "pos \<le> ?high" "\<forall>r \<in> set rows. pos < cseq r \<and> cseq r \<le> ?high" using x by blast+
        have "\<forall>d \<in> set (documents (vdb v)). pos < seq d \<longrightarrow> seq d \<le> ?high \<longrightarrow> (\<exists>r \<in> set rows. is_doc_change (did d) r \<and> cseq r = seq d)"
          using x by blast
        then have "fed c k ?high cs v" by (rule page_fed [OF k(2,3) p(1) k(1) p(2,3)])
        then show "(case (cs, ?high) of (cs, high) \<Rightarrow> \<lambda>tr v. pos \<le> high \<and> (\<exists>k. fed c k high cs v)) tr v"
          using p(2) by auto
      qed
    qed
  next
    case False
    have "\<not> windowed c pos rows v" for v using False by (auto simp: windowed_def Let_def)
    then show ?thesis by (rule does_never)
  qed
qed

end
