(* ===== verification/EngineWorkPage.thy ===== *)
theory EngineWorkPage
  imports EngineWorkFeed
begin

text \<open>A page of the live feed: while it is worked, and when its last write moves the cursor.\<close>

section \<open>The page of a live feed\<close>

lemma cursorsAfter_writeBatch [simp]:
  "cursorsAfter (writeBatch c cur sc a) s c = (case cur of None \<Rightarrow> consumers s c | Some n \<Rightarrow> Some n)"
  "cursorsAfter (writeBatch c cur sc a) s (seedConsumerName c) = (case sc of None \<Rightarrow> consumers s (seedConsumerName c)
     | Some n \<Rightarrow> if consumers s (seedConsumerName c) = None then None else Some n)"
  by (auto simp: cursorsAfter_def writeBatch_def setCursor_def moveCursor_def split: option.splits)

lemma quiet_batch: "(\<And>n. cur = Some n \<Longrightarrow> consumers s c = Some n) \<Longrightarrow> quiet c (CommitWrite (writeBatch c cur None a)) s"
  by (cases cur) (simp_all add: quiet_def)

lemma does_dropWorked:
  assumes "steady D c H P" "\<And>tr v n. P tr v \<Longrightarrow> cur = Some n \<Longrightarrow> consumers (vdb v) c = Some n"
  shows "does D c H P (awaitf (dropWorked c cur a) (\<lambda>_. Throw e)) Q"
proof (rule worker.does_awaitf)
  let ?U = "\<lambda>_ v. \<forall>n. cur = Some n \<longrightarrow> consumers (vdb v) c = Some n"
  have st: "steady D c H ?U" by (rule steadyI) (simp add: aroundD)
  have "does D c H ?U (dropWorked c cur a) (\<lambda>_ _ _. True)"
  proof (cases "bworked a = []")
    case True
    then show ?thesis by (simp add: dropWorked_def worker.does_Return [OF st])
  next
    case False
    have "does D c H ?U (writef (CommitWrite (writeBatch c cur None ((newBatch 0)\<lparr>bclear := bworked a\<rparr>)))) (\<lambda>_ _ _. True)"
      by (rule does_quiet [OF st]) (auto simp: growing_def intro: quiet_batch)
    then show ?thesis unfolding dropWorked_def if_not_P [OF False]
      by (rule worker.does_tryf) (simp_all add: worker.does_Return)
  qed
  then show "does D c H P (dropWorked c cur a) (\<lambda>_ _ _. True)"
    by (rule worker.does_pre) (use assms(2) in blast)
qed (rule worker.does_Throw)

text \<open>The admission before a write: it may be refused, also because the worker is to stop.\<close>

lemma does_admitted:
  assumes "steady D c H P" "\<And>tr v n. P tr v \<Longrightarrow> cur = Some n \<Longrightarrow> consumers (vdb v) c = Some n" "does D c H P p Q"
  shows "does D c H P (Acquire ConvertUnit (\<lambda>e. case e of
      Some x \<Rightarrow> Halted (\<lambda>b. if b then awaitf (dropWorked c cur a) (\<lambda>_. Throw x) else Throw x) | None \<Rightarrow> p)) Q"
proof (rule worker.does_Acquire [OF assms(1)])
  fix e
  have "does D c H P (Halted (\<lambda>b. if b then awaitf (dropWorked c cur a) (\<lambda>_. Throw x) else Throw x)) Q" for x
  proof (rule worker.does_Halted [OF assms(1)])
    show "does D c H P (if b then awaitf (dropWorked c cur a) (\<lambda>_. Throw x) else Throw x) Q" for b
      by (rule worker.does_if) (rule does_dropWorked [OF assms(1,2)] worker.does_Throw | assumption)+
  qed
  then show "does D c H P (case e of Some x \<Rightarrow> Halted (\<lambda>b. if b then awaitf (dropWorked c cur a) (\<lambda>_. Throw x) else Throw x) | None \<Rightarrow> p) Q"
    using assms(3) by (cases e) simp_all
qed

text \<open>The state while a page is worked: \<open>chs\<close> is still ahead, the rest is in the batch or kept.\<close>

definition attaching :: "string \<Rightarrow> nat \<Rightarrow> nat \<Rightarrow> feed_change list \<Rightarrow> work_batch \<Rightarrow> work_event list \<Rightarrow> view \<Rightarrow> bool" where
  "attaching c high k chs a tr v \<longleftrightarrow> cursor_at c k v \<and> high \<le> change_counter (vdb v) \<and> k \<le> bpos a \<and> bpos a \<le> high \<and>
     sorted_wrt (<) (map changeSeq chs) \<and>
     (\<forall>ch \<in> set chs. bpos a < changeSeq ch \<and> changeSeq ch \<le> high \<and> entry_ok high v ch) \<and>
     (\<forall>d \<in> set (documents (vdb v)). k < seq d \<longrightarrow> seq d \<le> high \<longrightarrow>
        has_entry chs d \<or> seq d \<le> bpos a \<and> ready c tr a (did d) (seq d)) \<and>
     (\<forall>d \<in> set (documents (vdb v)). did d \<in> set (bseen a) \<longrightarrow> seq d \<le> bpos a \<or> high < seq d)"

lemma attachingD:
  assumes "attaching c high k chs a tr v"
  shows "cursor_at c k v" "high \<le> change_counter (vdb v)" "k \<le> bpos a" "bpos a \<le> high" "sorted_wrt (<) (map changeSeq chs)"
    "ch \<in> set chs \<Longrightarrow> bpos a < changeSeq ch \<and> changeSeq ch \<le> high \<and> entry_ok high v ch"
    "d \<in> set (documents (vdb v)) \<Longrightarrow> k < seq d \<Longrightarrow> seq d \<le> high \<Longrightarrow> has_entry chs d \<or> seq d \<le> bpos a \<and> ready c tr a (did d) (seq d)"
    "d \<in> set (documents (vdb v)) \<Longrightarrow> did d \<in> set (bseen a) \<Longrightarrow> seq d \<le> bpos a \<or> high < seq d"
  using assms unfolding attaching_def by blast+

lemma attaching_start: "fed c k high cs v \<Longrightarrow> attaching c high k cs (newBatch k) tr v"
  by (auto simp: fed_def attaching_def newBatch_def)

lemma steady_attaching: "steady D c H (attaching c high k chs a)"
proof (rule steadyI)
  fix tr u v
  assume u: "attaching c high k chs a tr u" and ar: "around c H u v"
  note car = aroundD(1) [OF ar]
  note cc = attachingD(2) [OF u]
  have old: "\<exists>e \<in> set (documents (vdb u)). did e = did d \<and> seq e = seq d"
    if "d \<in> set (documents (vdb v))" "seq d \<le> high" for d
    using carriesD [OF car that(1)] that(2) cc by fastforce
  have "has_entry chs d \<or> seq d \<le> bpos a \<and> ready c tr a (did d) (seq d)"
    if d: "d \<in> set (documents (vdb v))" "k < seq d" "seq d \<le> high" for d
  proof -
    obtain e where e: "e \<in> set (documents (vdb u))" "did e = did d" "seq e = seq d" using old [OF d(1,3)] by blast
    then show ?thesis using attachingD(7) [OF u e(1)] d by (simp add: has_entry_def)
  qed
  moreover have "seq d \<le> bpos a \<or> high < seq d" if d: "d \<in> set (documents (vdb v))" "did d \<in> set (bseen a)" for d
  proof (cases "seq d \<le> high")
    case True
    then obtain e where "e \<in> set (documents (vdb u))" "did e = did d" "seq e = seq d" using old [OF d(1)] by blast
    then show ?thesis using attachingD(8) [OF u, of e] d(2) by simp
  qed simp
  moreover have "\<forall>ch \<in> set chs. bpos a < changeSeq ch \<and> changeSeq ch \<le> high \<and> entry_ok high v ch"
    using attachingD(6) [OF u] entry_ok_carries [OF _ car cc] by blast
  ultimately show "attaching c high k chs a tr v"
    using attachingD(1-5) [OF u] cursor_at_around [OF _ ar] le_trans [OF cc aroundD(4) [OF ar]]
    unfolding attaching_def by blast
qed

lemma growing_attaching: "growing (attaching c high k chs a)"
  by (rule growingI) (auto simp: attaching_def intro: ready_mono)

text \<open>One change is dealt with.\<close>

lemma attaching_next:
  assumes "attaching c high k (ch # chs) a tr v" "extends a b" "bpos b = bpos a"
    and "set (bseen b) \<subseteq> set (bseen a) \<union> set_option (changeDoc ch)"
    and "\<And>q x d. ch = DocChange q x \<Longrightarrow> d \<in> set (documents (vdb v)) \<Longrightarrow> did d = did x \<Longrightarrow> seq d = q \<Longrightarrow> ready c tr b (did x) q"
  shows "attaching c high k chs (b\<lparr>bpos := changeSeq ch\<rparr>) tr v"
proof -
  let ?b = "b\<lparr>bpos := changeSeq ch\<rparr>"
  note a = attachingD [OF assms(1)]
  have ch: "bpos a < changeSeq ch" "changeSeq ch \<le> high" "entry_ok high v ch" using a(6) by simp_all
  have "has_entry chs d \<or> seq d \<le> bpos ?b \<and> ready c tr ?b (did d) (seq d)"
    if d: "d \<in> set (documents (vdb v))" "k < seq d" "seq d \<le> high" for d
  proof -
    consider "has_entry chs d" | x where "ch = DocChange (seq d) x" "did x = did d"
      | "seq d \<le> bpos a" "ready c tr a (did d) (seq d)"
      using a(7) [OF d] by (auto simp: has_entry_def)
    then show ?thesis
    proof cases
      case 2
      then have "ready c tr b (did d) (seq d)" using assms(5) [OF 2(1) d(1)] by simp
      then show ?thesis using 2(1) ready_extends [OF _ extends_simps(1)] by simp
    next
      case 3
      then show ?thesis using ch(1) ready_extends [OF ready_extends [OF 3(2) assms(2)] extends_simps(1)] by simp
    qed simp
  qed
  moreover have "seq d \<le> bpos ?b \<or> high < seq d" if d: "d \<in> set (documents (vdb v))" "did d \<in> set (bseen ?b)" for d
  proof (cases "did d \<in> set (bseen a)")
    case True
    then show ?thesis using a(8) [OF d(1)] ch(1) by auto
  next
    case False
    then obtain q x where "ch = DocChange q x" "did x = did d" using assms(4) d(2) by (cases ch) auto
    then show ?thesis using ch(3) d(1) by (auto simp: entry_ok_def)
  qed
  moreover have "\<forall>x \<in> set chs. bpos ?b < changeSeq x \<and> changeSeq x \<le> high \<and> entry_ok high v x" using a(5,6) by auto
  ultimately show ?thesis using a(1-5) ch(1,2) by (simp add: attaching_def)
qed

lemma attaching_flushed:
  assumes "attaching c high k chs (a\<lparr>bpos := p\<rparr>) tr v" "Wrote (CommitWrite (writeBatch c cur sc a)) \<in> set tr"
  shows "attaching c high k chs ((flushed a)\<lparr>bpos := p\<rparr>) tr v"
proof -
  have "Wrote (CommitWrite (writeBatch c cur sc (a\<lparr>bpos := p\<rparr>))) \<in> set tr" using assms(2) by (simp add: writeBatch_def)
  then have "ready c tr ((flushed a)\<lparr>bpos := p\<rparr>) i q" if "ready c tr (a\<lparr>bpos := p\<rparr>) i q" for i q
    using handled_ready [OF ready_written [OF that]] by blast
  then show ?thesis using assms(1) unfolding attaching_def by (simp add: flushed_def) blast
qed

section \<open>The loop of a page\<close>

lemma attaching_cursor: "attaching c high k chs a tr v \<Longrightarrow> cur = Some k \<Longrightarrow> cur = Some n \<Longrightarrow> consumers (vdb v) c = Some n"
  by (simp add: attaching_def cursor_at_def)

text \<open>An intermediate write.\<close>

lemma does_flush_part:
  "does D c H (attaching c high k chs (a\<lparr>bpos := p\<rparr>)) (flushBatch c k None a) (\<lambda>b. attaching c high k chs (b\<lparr>bpos := p\<rparr>))"
proof (cases "nothingIn a")
  case True
  then show ?thesis by (simp add: flushBatch_def worker.does_Return [OF steady_attaching])
next
  case False
  let ?P = "attaching c high k chs (a\<lparr>bpos := p\<rparr>)"
  let ?w = "CommitWrite (writeBatch c None None a)"
  have st: "steady D c H (\<lambda>tr v. ?P tr v \<and> Wrote ?w \<in> set tr)" by (rule steady_P [OF steady_attaching])
  have "does D c H ?P (awaitf (writef ?w) (\<lambda>_. Return (flushed a))) (\<lambda>b. attaching c high k chs (b\<lparr>bpos := p\<rparr>))"
  proof (rule worker.does_awaitf)
    show "does D c H ?P (writef ?w) (\<lambda>_ tr v. ?P tr v \<and> Wrote ?w \<in> set tr)"
      by (rule does_quiet [OF steady_attaching growing_attaching _ _ st]) (auto intro: quiet_batch)
    show "does D c H (\<lambda>tr v. ?P tr v \<and> Wrote ?w \<in> set tr) (Return (flushed a)) (\<lambda>b. attaching c high k chs (b\<lparr>bpos := p\<rparr>))"
      by (rule worker.does_Return [OF st]) (use attaching_flushed in blast)
  qed
  then show ?thesis using False does_admitted [OF steady_attaching, where cur = "Some k"] attaching_cursor
    unfolding flushBatch_def by (simp, blast)
qed

text \<open>The last write of a batch moves the cursor: all below it is kept.\<close>

lemma attaching_kept:
  assumes "attaching c high k [] a tr v" "keeps D c H tr v" "Wrote (CommitWrite (writeBatch c cur None a)) \<in> set tr"
    and "d \<in> set (documents (vdb v))" "archived_at d = None" "seq d \<le> bpos a"
  shows "handled c tr (did d) (seq d)"
proof (cases "seq d \<le> k")
  case True
  have "due c v d" using True assms(5) attachingD(1) [OF assms(1)] by (simp add: due_def cursor_at_def)
  then show ?thesis using keeps_view(2) [OF assms(2)] assms(4) by (simp add: covered_def)
next
  case False
  then have "ready c tr a (did d) (seq d)"
    using attachingD(7) [OF assms(1,4)] attachingD(4) [OF assms(1)] assms(6) by (simp add: has_entry_def)
  then show ?thesis using assms(3) by (rule ready_written)
qed

lemma does_flush_last:
  "does D c H (attaching c high k [] a) (flushBatch c k (Some (bpos a)) a) (\<lambda>_ tr v. at_pos c high v)"
proof -
  let ?P = "attaching c high k [] a"
  let ?w = "CommitWrite (writeBatch c (Some (bpos a)) None a)"
  have "does D c H ?P (writef ?w) (\<lambda>_ tr v. at_pos c high v)"
  proof (rule worker.does_writef [OF steady_attaching steady_at_pos])
    fix tr v now t
    assume k: "keeps D c H tr v" and p: "?P tr v" and w: "writeEffect D now ?w (vdb v) = Some t"
    have inv: "store_inv D (vdb v)" using keeps_view(1) [OF k] by (simp add: view_ok_def)
    have c: "carries (vdb v) t" "consumers t c = Some (bpos a)" "consumers t (seedConsumerName c) = consumers (vdb v) (seedConsumerName c)"
      using writeEffect_carries [OF w inv] by simp_all
    have cc: "change_counter (vdb v) \<le> change_counter t" using c(1) by (simp add: carries_def)
    have old: "\<exists>e \<in> set (documents (vdb v)). did e = did d \<and> seq e = seq d \<and> archived_at e = archived_at d"
      if "d \<in> set (documents t)" "seq d \<le> high" for d
      using carriesD [OF c(1) that(1)] attachingD(2) [OF p] that(2) by fastforce
    have "handled c (tr @ [Wrote ?w]) (did d) (seq d)" if d: "d \<in> set (documents t)" "archived_at d = None" "seq d \<le> bpos a" for d
    proof -
      obtain e where e: "e \<in> set (documents (vdb v))" "did e = did d" "seq e = seq d" "archived_at e = archived_at d"
        using old [OF d(1)] d(3) attachingD(4) [OF p] by force
      have "attaching c high k [] a (tr @ [Wrote ?w]) v" "keeps D c H (tr @ [Wrote ?w]) v"
        using growingD [OF growing_attaching p] keeps_more [OF k] by simp_all
      from attaching_kept [OF this, of "Some (bpos a)" e] show ?thesis using e d by simp
    qed
    then have "covered c (tr @ [Wrote ?w]) (wrote v t)"
      using c(2) cc attachingD(2,4) [OF p] by (auto simp: covered_def due_def)
    then have "keeps D c H (tr @ [Wrote ?w]) (wrote v t)" by (rule keeps_write [OF k w]) simp
    moreover have "cursor_at c (bpos a) (wrote v t)"
      using attachingD(1,3) [OF p] c by (simp add: cursor_at_def)
    moreover have "none_between (bpos a) high (wrote v t)"
    proof -
      have "\<not> (bpos a < seq d \<and> seq d \<le> high)" if d: "d \<in> set (documents t)" for d
      proof
        assume r: "bpos a < seq d \<and> seq d \<le> high"
        then obtain e where e: "e \<in> set (documents (vdb v))" "did e = did d" "seq e = seq d" using old [OF d] by blast
        show False using attachingD(7) [OF p e(1)] attachingD(3) [OF p] r e(3) by (simp add: has_entry_def)
      qed
      then show ?thesis using attachingD(2) [OF p] cc by (simp add: none_between_def)
    qed
    ultimately show "keeps D c H (tr @ [Wrote ?w]) (wrote v t) \<and> at_pos c high (wrote v t)"
      using attachingD(4) [OF p] by (auto simp: at_pos_def)
  qed
  then have "does D c H ?P (awaitf (writef ?w) (\<lambda>_. Return (flushed a))) (\<lambda>_ tr v. at_pos c high v)"
    by (rule worker.does_awaitf) (simp add: worker.does_Return [OF steady_at_pos])
  then show ?thesis using does_admitted [OF steady_attaching, where cur = "Some k"] attaching_cursor
    unfolding flushBatch_def by (simp, blast)
qed

lemma bseen_simps [simp]: "bseen (addResult ch r es a) = bseen a" "bseen (noteWorked ch a) = bseen a"
    "bpos (addResult ch r es a) = bpos a" "bpos (noteWorked ch a) = bpos a" "bpos (noteSeen ch a) = bpos a"
    "set (bseen (noteSeen ch a)) = set (bseen a) \<union> set_option (changeDoc ch)"
    "bledger (noteWorked ch a) = bledger a" "bledger (noteSeen ch a) = bledger a"
    "bledger (addResult ch r es a) = bledger a @ es"
  by (auto simp: addResult_def noteWorked_def noteSeen_def split: option.splits)

text \<open>The change was not wanted, or the worker has had the document in this batch.\<close>

lemma attaching_pass:
  assumes "attaching c high k (ch # chs) a tr v" "Asked ch m \<in> set tr" "m \<noteq> Some True \<or> seenBefore ch a"
  shows "attaching c high k chs (a\<lparr>bpos := changeSeq ch\<rparr>) tr v"
proof (rule attaching_next [OF assms(1)])
  fix q x d
  assume ch: "ch = DocChange q x" and d: "d \<in> set (documents (vdb v))" "did d = did x" "seq d = q"
  show "ready c tr a (did x) q"
  proof (cases "m = Some True")
    case True
    then have "did d \<in> set (bseen a)" using assms(3) ch d(2) by (simp add: seenBefore_def)
    then have "seq d \<le> bpos a \<or> high < seq d" by (rule attachingD(8) [OF assms(1) d(1)])
    moreover have "bpos a < q" "q \<le> high" using attachingD(6) [OF assms(1), of ch] ch by simp_all
    ultimately show ?thesis using d(3) by simp
  next
    case False
    then show ?thesis using assms(2) ready_passed unfolding ch by blast
  qed
qed (auto simp: extends_def)

lemma attaching_worked:
  assumes "attaching c high k (ch # chs) a tr v" "Asked ch (Some True) \<in> set tr" "cameFrom tr ch r"
    and "Wrote (RecordWrite c (entryFor ch r)) \<in> set tr"
  shows "attaching c high k chs ((addResult ch r [] (noteWorked ch (noteSeen ch a)))\<lparr>bpos := changeSeq ch\<rparr>) tr v"
proof (rule attaching_next [OF assms(1) extends_simps(2)])
  fix q x d
  assume ch: "ch = DocChange q x"
  have "recorded c tr (entryFor ch r)" using assms(4) by (auto simp: recorded_def)
  then show "ready c tr (addResult ch r [] (noteWorked ch (noteSeen ch a))) (did x) q"
    using ready_worked [OF assms(2,3) [unfolded ch]] unfolding ch by blast
qed simp_all

lemma does_attachChanges:
  "does D c H (attaching c high k chs a) (attachChanges c mx k chs a) (\<lambda>_ tr v. at_pos c high v)"
proof (induction chs arbitrary: a)
  case Nil
  show ?case unfolding attachChanges.simps by (rule does_flush_last)
next
  case (Cons ch chs)
  let ?P = "attaching c high k (ch # chs) a"
  let ?Q = "\<lambda>_ tr v. at_pos c high v"
  have halted: "does D c H ?P (awaitf (dropWorked c (Some k) a) (\<lambda>_. Throw Stopped)) ?Q"
    by (rule does_dropWorked [OF steady_attaching]) (erule attaching_cursor [OF _ refl])
  have asked: "does D c H (\<lambda>tr v. ?P tr v \<and> Asked ch m \<in> set tr)
      (if m \<noteq> Some True then attachChanges c mx k chs (a\<lparr>bpos := changeSeq ch\<rparr>)
       else if seenBefore ch a then attachChanges c mx k chs (a\<lparr>bpos := changeSeq ch\<rparr>)
       else awaitf (workOne mx ch) (\<lambda>r. let a1 = noteWorked ch (noteSeen ch a) in
         awaitf (writef (RecordWrite c (entryFor ch r))) (\<lambda>_. let a2 = addResult ch r [] a1 in
         awaitf (if bstaged a2 \<ge> SUB_COMMIT_BYTES then flushBatch c k None a2 else Return a2) (\<lambda>a3.
         attachChanges c mx k chs (a3\<lparr>bpos := changeSeq ch\<rparr>))))) ?Q" (is "does D c H ?A _ _") for m
  proof -
    have st: "steady D c H ?A" by (rule steady_P [OF steady_attaching])
    have gr: "growing ?A" by (rule growing_conj [OF growing_attaching]) (simp add: growing_def)
    have pass: "does D c H ?A (attachChanges c mx k chs (a\<lparr>bpos := changeSeq ch\<rparr>)) ?Q" if "m \<noteq> Some True \<or> seenBefore ch a"
      by (rule worker.does_pre [OF Cons.IH]) (use attaching_pass that in blast)
    show ?thesis
    proof (cases "m \<noteq> Some True \<or> seenBefore ch a")
      case True
      then show ?thesis using pass by auto
    next
      case False
      have m: "m = Some True" using False by blast
      have work: "does D c H ?A (awaitf (workOne mx ch) (\<lambda>r. let a1 = noteWorked ch (noteSeen ch a) in
         awaitf (writef (RecordWrite c (entryFor ch r))) (\<lambda>_. let a2 = addResult ch r [] a1 in
         awaitf (if bstaged a2 \<ge> SUB_COMMIT_BYTES then flushBatch c k None a2 else Return a2) (\<lambda>a3.
         attachChanges c mx k chs (a3\<lparr>bpos := changeSeq ch\<rparr>))))) ?Q"
        unfolding Let_def
      proof (rule worker.does_awaitf)
        show "does D c H ?A (workOne mx ch) (\<lambda>r tr v. ?A tr v \<and> cameFrom tr ch r)" by (rule does_workOne [OF st gr])
        fix r
        let ?W = "\<lambda>tr v. ?A tr v \<and> cameFrom tr ch r"
        let ?a2 = "addResult ch r [] (noteWorked ch (noteSeen ch a))"
        let ?B = "attaching c high k chs (?a2\<lparr>bpos := changeSeq ch\<rparr>)"
        have stw: "steady D c H ?W" by (rule steady_P [OF st])
        have grw: "growing ?W" by (rule growing_conj [OF gr]) (simp add: growing_def cameFrom_mono)
        show "does D c H ?W (awaitf (writef (RecordWrite c (entryFor ch r))) (\<lambda>_.
            awaitf (if bstaged ?a2 \<ge> SUB_COMMIT_BYTES then flushBatch c k None ?a2 else Return ?a2) (\<lambda>a3.
            attachChanges c mx k chs (a3\<lparr>bpos := changeSeq ch\<rparr>)))) ?Q"
        proof (rule worker.does_awaitf)
          show "does D c H ?W (writef (RecordWrite c (entryFor ch r))) (\<lambda>_. ?B)"
            by (rule does_quiet [OF stw grw _ _ steady_attaching]) (use attaching_worked m in \<open>auto simp: quiet_def\<close>)
          show "does D c H ?B (awaitf (if bstaged ?a2 \<ge> SUB_COMMIT_BYTES then flushBatch c k None ?a2 else Return ?a2) (\<lambda>a3.
              attachChanges c mx k chs (a3\<lparr>bpos := changeSeq ch\<rparr>))) ?Q"
          proof (rule worker.does_awaitf)
            show "does D c H ?B (if bstaged ?a2 \<ge> SUB_COMMIT_BYTES then flushBatch c k None ?a2 else Return ?a2)
                (\<lambda>b. attaching c high k chs (b\<lparr>bpos := changeSeq ch\<rparr>))"
              by (rule worker.does_if) (rule does_flush_part, rule worker.does_Return [OF steady_attaching])
          qed (rule Cons.IH)
        qed
      qed
      then show ?thesis using False by simp
    qed
  qed
  show ?case unfolding attachChanges.simps
    by (rule worker.does_unlessHalted [OF steady_attaching halted does_asked [OF steady_attaching growing_attaching asked]])
qed

end
