(* ===== verification/EngineWorkSeed.thy ===== *)
theory EngineWorkSeed
  imports EngineWorkPage
begin

text \<open>The seed of a new worker: page by page through the documents, up to the end of the seed.\<close>

section \<open>The seed\<close>

text \<open>A worker that is being seeded: its cursor is parked at \<open>h0\<close>, the documents up to \<open>pos\<close> are through.\<close>

definition seeding :: "string \<Rightarrow> nat \<Rightarrow> nat \<Rightarrow> view \<Rightarrow> bool" where
  "seeding c h0 pos v \<longleftrightarrow> consumers (vdb v) c = Some h0 \<and> consumers (vdb v) (seedConsumerName c) = Some pos \<and> vfloor v \<le> Suc h0"

text \<open>The page up to \<open>hi\<close>: \<open>ds\<close> is ahead, the rest is in the batch or kept.\<close>

definition seed_page :: "string \<Rightarrow> nat \<Rightarrow> nat \<Rightarrow> nat \<Rightarrow> doc_row list \<Rightarrow> work_batch \<Rightarrow> work_event list \<Rightarrow> view \<Rightarrow> bool" where
  "seed_page c h0 pos hi ds a tr v \<longleftrightarrow> seeding c h0 pos v \<and> hi \<le> h0 \<and> h0 \<le> change_counter (vdb v) \<and>
     (\<forall>d \<in> set (documents (vdb v)). archived_at d = None \<longrightarrow> pos < seq d \<longrightarrow> seq d \<le> hi \<longrightarrow>
        (\<exists>x \<in> set ds. did x = did d \<and> seq x = seq d) \<or> ready c tr a (did d) (seq d))"

lemma seeding_around: "seeding c h0 pos u \<Longrightarrow> around c H u v \<Longrightarrow> seeding c h0 pos v"
  unfolding seeding_def by (auto dest: aroundD)

lemma steady_seeding: "steady D c H (\<lambda>tr v. seeding c h0 pos v)"
  by (rule steadyI, rule seeding_around)

lemma steady_seed_page: "steady D c H (seed_page c h0 pos hi ds a)"
proof (rule steadyI)
  fix tr u v
  assume u: "seed_page c h0 pos hi ds a tr u" and ar: "around c H u v"
  have "(\<exists>x \<in> set ds. did x = did d \<and> seq x = seq d) \<or> ready c tr a (did d) (seq d)"
    if d: "d \<in> set (documents (vdb v))" "archived_at d = None" "pos < seq d" "seq d \<le> hi" for d
  proof -
    have "seq d \<le> change_counter (vdb u)" using u d(4) by (simp add: seed_page_def)
    then obtain e where e: "e \<in> set (documents (vdb u))" "did e = did d" "seq e = seq d" "archived_at e = archived_at d"
      using carries_old [OF aroundD(1) [OF ar] d(1)] by metis
    then show ?thesis using u d unfolding seed_page_def by metis
  qed
  moreover have "h0 \<le> change_counter (vdb v)" using u aroundD(4) [OF ar] by (simp add: seed_page_def)
  ultimately show "seed_page c h0 pos hi ds a tr v" using u seeding_around [OF _ ar] by (simp add: seed_page_def)
qed

lemma growing_seed_page: "growing (seed_page c h0 pos hi ds a)"
proof (rule growingI)
  show "seed_page c h0 pos hi ds a tr v \<Longrightarrow> seed_page c h0 pos hi ds a (tr @ [x]) v" for tr v x
    unfolding seed_page_def using ready_mono [of c tr a _ _ "[x]"] by blast
qed

lemma seed_page_extends:
  assumes "seed_page c h0 pos hi (d # ds) a tr v" "extends a b" "ready c tr b (did d) (seq d)"
  shows "seed_page c h0 pos hi ds b tr v"
proof -
  have "(\<exists>x \<in> set ds. did x = did e \<and> seq x = seq e) \<or> ready c tr b (did e) (seq e)"
    if e: "e \<in> set (documents (vdb v))" "archived_at e = None" "pos < seq e" "seq e \<le> hi" for e
  proof -
    have "(\<exists>x \<in> set (d # ds). did x = did e \<and> seq x = seq e) \<or> ready c tr a (did e) (seq e)"
      using assms(1) e by (simp add: seed_page_def)
    then show ?thesis using assms(3) ready_extends [OF _ assms(2)] by auto
  qed
  then show ?thesis using assms(1) by (simp add: seed_page_def)
qed

lemma seed_page_flushed:
  assumes "seed_page c h0 pos hi ds a tr v" "Wrote (CommitWrite (writeBatch c cur sc a)) \<in> set tr"
  shows "seed_page c h0 pos hi ds (flushed a) tr v"
proof -
  have "ready c tr a i q \<Longrightarrow> ready c tr (flushed a) i q" for i q
    by (rule handled_ready, rule ready_written [OF _ assms(2)])
  then show ?thesis using assms(1) unfolding seed_page_def by blast
qed

lemma does_flush_seed:
  "does D c H (seed_page c h0 pos hi ds a) (flushSeed c None a) (seed_page c h0 pos hi ds)"
proof (cases "nothingIn a")
  case True
  then show ?thesis by (simp add: flushSeed_def worker.does_Return [OF steady_seed_page])
next
  case False
  let ?P = "seed_page c h0 pos hi ds a"
  let ?w = "CommitWrite (writeBatch c None None a)"
  have st: "steady D c H (\<lambda>tr v. ?P tr v \<and> Wrote ?w \<in> set tr)" by (rule steady_P [OF steady_seed_page])
  have "does D c H ?P (awaitf (writef ?w) (\<lambda>_. Return (flushed a))) (seed_page c h0 pos hi ds)"
  proof (rule worker.does_awaitf)
    show "does D c H ?P (writef ?w) (\<lambda>_ tr v. ?P tr v \<and> Wrote ?w \<in> set tr)"
      by (rule does_quiet [OF steady_seed_page growing_seed_page _ _ st]) (auto intro: quiet_batch)
    show "does D c H (\<lambda>tr v. ?P tr v \<and> Wrote ?w \<in> set tr) (Return (flushed a)) (seed_page c h0 pos hi ds)"
      by (rule worker.does_Return [OF st]) (use seed_page_flushed in blast)
  qed
  then show ?thesis using False does_admitted [OF steady_seed_page, where cur = None]
    unfolding flushSeed_def by (simp, blast)
qed

lemma does_seedDocs:
  "does D c H (seed_page c h0 pos hi ds a) (seedDocs c mx ds a) (seed_page c h0 pos hi [])"
proof (induction ds arbitrary: a)
  case Nil
  show ?case unfolding seedDocs.simps by (rule worker.does_Return [OF steady_seed_page])
next
  case (Cons d ds)
  let ?P = "seed_page c h0 pos hi (d # ds) a"
  let ?Q = "seed_page c h0 pos hi []"
  let ?ch = "DocChange (seq d) d"
  have halted: "does D c H ?P (awaitf (dropWorked c None a) (\<lambda>_. Throw Stopped)) ?Q"
    by (rule does_dropWorked [OF steady_seed_page]) simp
  have asked: "does D c H (\<lambda>tr v. ?P tr v \<and> Asked ?ch m \<in> set tr)
      (if m \<noteq> Some True then seedDocs c mx ds a
       else awaitf (workOne mx ?ch) (\<lambda>r. let a1 = addResult ?ch r [entryFor ?ch r] (noteWorked ?ch a) in
         awaitf (if bstaged a1 \<ge> SUB_COMMIT_BYTES then flushSeed c None a1 else Return a1) (\<lambda>a2. seedDocs c mx ds a2))) ?Q"
    (is "does D c H ?A _ _") for m
  proof -
    have st: "steady D c H ?A" by (rule steady_P [OF steady_seed_page])
    have gr: "growing ?A" by (rule growing_conj [OF growing_seed_page]) (simp add: growing_def)
    show ?thesis
    proof (cases "m = Some True")
      case False
      have "does D c H ?A (seedDocs c mx ds a) ?Q"
      proof (rule worker.does_pre [OF Cons.IH])
        show "?A tr v \<Longrightarrow> seed_page c h0 pos hi ds a tr v" for tr v
          by (rule seed_page_extends [of c h0 pos hi d ds a]) (use ready_passed [OF _ False] in \<open>auto simp: extends_def\<close>)
      qed
      then show ?thesis using False by simp
    next
      case True
      have "does D c H ?A (awaitf (workOne mx ?ch) (\<lambda>r. let a1 = addResult ?ch r [entryFor ?ch r] (noteWorked ?ch a) in
         awaitf (if bstaged a1 \<ge> SUB_COMMIT_BYTES then flushSeed c None a1 else Return a1) (\<lambda>a2. seedDocs c mx ds a2))) ?Q"
        unfolding Let_def
      proof (rule worker.does_awaitf)
        show "does D c H ?A (workOne mx ?ch) (\<lambda>r tr v. ?A tr v \<and> cameFrom tr ?ch r)" by (rule does_workOne [OF st gr])
        fix r
        let ?a1 = "addResult ?ch r [entryFor ?ch r] (noteWorked ?ch a)"
        have "does D c H (seed_page c h0 pos hi ds ?a1)
            (awaitf (if bstaged ?a1 \<ge> SUB_COMMIT_BYTES then flushSeed c None ?a1 else Return ?a1) (\<lambda>a2. seedDocs c mx ds a2)) ?Q"
        proof (rule worker.does_awaitf)
          show "does D c H (seed_page c h0 pos hi ds ?a1) (if bstaged ?a1 \<ge> SUB_COMMIT_BYTES then flushSeed c None ?a1 else Return ?a1)
              (seed_page c h0 pos hi ds)"
            by (rule worker.does_if) (rule does_flush_seed, rule worker.does_Return [OF steady_seed_page])
        qed (rule Cons.IH)
        then show "does D c H (\<lambda>tr v. ?A tr v \<and> cameFrom tr ?ch r)
            (awaitf (if bstaged ?a1 \<ge> SUB_COMMIT_BYTES then flushSeed c None ?a1 else Return ?a1) (\<lambda>a2. seedDocs c mx ds a2)) ?Q"
        proof (rule worker.does_pre)
          fix tr v
          assume w: "?A tr v \<and> cameFrom tr ?ch r"
          have "ready c tr ?a1 (did d) (seq d)" by (rule ready_worked) (use w True in auto)
          then show "seed_page c h0 pos hi ds ?a1 tr v" using seed_page_extends [OF _ extends_simps(3)] w by blast
        qed
      qed
      then show ?thesis using True by simp
    qed
  qed
  show ?case unfolding seedDocs.simps Let_def
    by (rule worker.does_unlessHalted [OF steady_seed_page halted does_asked [OF steady_seed_page growing_seed_page asked [unfolded Let_def]]])
qed

text \<open>What a cursor that was moved answers for.\<close>

lemma covered_moved:
  assumes "covered c tr v" "carries (vdb v) t" "consumers (vdb v) c = Some h0" "consumers t c = Some h0"
    and "\<And>d. d \<in> set (documents (vdb v)) \<Longrightarrow> archived_at d = None \<Longrightarrow> seq d \<le> h0 \<Longrightarrow>
      (case consumers t (seedConsumerName c) of None \<Rightarrow> True | Some p \<Rightarrow> seq d \<le> p) \<Longrightarrow> handled c tr (did d) (seq d)"
  shows "covered c tr (wrote v t)"
proof -
  have h0: "h0 \<le> change_counter (vdb v)" using assms(1,3) by (simp add: covered_def)
  have "handled c tr (did d) (seq d)" if d: "d \<in> set (documents t)" "due c (wrote v t) d" for d
  proof -
    have "seq d \<le> h0" "archived_at d = None" and s: "case consumers t (seedConsumerName c) of None \<Rightarrow> True | Some p \<Rightarrow> seq d \<le> p"
      using d(2) assms(4) by (auto simp: due_def)
    then obtain e where e: "e \<in> set (documents (vdb v))" "did e = did d" "seq e = seq d" "archived_at e = None"
      using carries_old [OF assms(2) d(1)] h0 by (metis le_trans)
    from assms(5) [OF e(1,4)] s \<open>seq d \<le> h0\<close> show ?thesis unfolding e(2,3) by blast
  qed
  moreover have "h0 \<le> change_counter t" using h0 assms(2) by (simp add: carries_def)
  ultimately show ?thesis using assms(4) by (auto simp: covered_def)
qed

lemma does_flush_seed_last:
  "does D c H (seed_page c h0 pos hi [] a) (flushSeed c (Some hi) a) (\<lambda>_ tr v. seeding c h0 hi v)"
proof -
  let ?P = "seed_page c h0 pos hi [] a"
  let ?w = "CommitWrite (writeBatch c None (Some hi) a)"
  have "does D c H ?P (writef ?w) (\<lambda>_ tr v. seeding c h0 hi v)"
  proof (rule worker.does_writef [OF steady_seed_page steady_seeding])
    fix tr v now t
    assume k: "keeps D c H tr v" and p: "?P tr v" and w: "writeEffect D now ?w (vdb v) = Some t"
    have inv: "store_inv D (vdb v)" using keeps_view(1) [OF k] by (simp add: view_ok_def)
    have sd: "consumers (vdb v) c = Some h0" "consumers (vdb v) (seedConsumerName c) = Some pos" "vfloor v \<le> Suc h0"
      using p by (simp_all add: seed_page_def seeding_def)
    have c: "carries (vdb v) t" "consumers t c = Some h0" "consumers t (seedConsumerName c) = Some hi"
      using writeEffect_carries [OF w inv] sd by simp_all
    have k1: "covered c (tr @ [Wrote ?w]) v" by (rule covered_mono [OF keeps_view(2) [OF k]])
    have p1: "?P (tr @ [Wrote ?w]) v" by (rule growingD [OF growing_seed_page p])
    have "covered c (tr @ [Wrote ?w]) (wrote v t)"
    proof (rule covered_moved [OF k1 c(1) sd(1) c(2)])
      fix d
      assume d: "d \<in> set (documents (vdb v))" "archived_at d = None" "seq d \<le> h0"
        and "case consumers t (seedConsumerName c) of None \<Rightarrow> True | Some p \<Rightarrow> seq d \<le> p"
      then have hi: "seq d \<le> hi" using c(3) by simp
      show "handled c (tr @ [Wrote ?w]) (did d) (seq d)"
      proof (cases "seq d \<le> pos")
        case True
        then have "due c v d" using d sd by (simp add: due_def)
        then show ?thesis using k1 d(1) by (simp add: covered_def)
      next
        case False
        then have "ready c (tr @ [Wrote ?w]) a (did d) (seq d)" using p1 d hi by (simp add: seed_page_def)
        then show ?thesis by (rule ready_written [where cur = None and sc = "Some hi"]) simp
      qed
    qed
    then have "keeps D c H (tr @ [Wrote ?w]) (wrote v t)" by (rule keeps_write [OF k w]) simp
    then show "keeps D c H (tr @ [Wrote ?w]) (wrote v t) \<and> seeding c h0 hi (wrote v t)"
      using c sd(3) by (simp add: seeding_def)
  qed
  then have "does D c H ?P (awaitf (writef ?w) (\<lambda>_. Return (flushed a))) (\<lambda>_ tr v. seeding c h0 hi v)"
    by (rule worker.does_awaitf) (simp add: worker.does_Return [OF steady_seeding])
  then show ?thesis using does_admitted [OF steady_seed_page, where cur = None]
    unfolding flushSeed_def by (simp, blast)
qed

text \<open>A page of the documents, in the order of their seq.\<close>

lemma doc_seq_inj:
  assumes "store_inv D s" "d \<in> set (documents s)" "e \<in> set (documents s)" "seq d = seq e"
  shows "d = e"
proof -
  have f: "feed_ok s" and k: "keys_ok s" using store_invD [OF assms(1)] by simp_all
  obtain x where x: "x \<in> set (changes s)" "is_doc_change (did d) x" "cseq x = seq d" using f assms(2) unfolding feed_ok_def by blast
  obtain y where y: "y \<in> set (changes s)" "is_doc_change (did e) y" "cseq y = seq e" using f assms(3) unfolding feed_ok_def by blast
  have "distinct (map cseq (changes s))" using f strict_sorted_iff unfolding feed_ok_def by blast
  then have "inj_on cseq (set (changes s))" by (simp add: distinct_map)
  then have "x = y" by (rule inj_onD) (use x y assms(4) in simp_all)
  then have "did d = did e" using x(2) y(2) by (simp add: is_doc_change_def)
  then show ?thesis by (rule same_did [OF k assms(2,3)])
qed

lemma sorted_halves: "sorted (map f (xs @ ys)) \<Longrightarrow> x \<in> set xs \<Longrightarrow> y \<in> set ys \<Longrightarrow> f x \<le> (f y :: nat)"
  by (auto simp: sorted_append)

lemma seedPage_complete:
  assumes "store_inv D s" "ds = seedPage pos h0 n s" "0 < n"
  shows "ds \<noteq> [] \<Longrightarrow> seq (last ds) \<le> h0"
    "d \<in> set (documents s) \<Longrightarrow> archived_at d = None \<Longrightarrow> pos < seq d \<Longrightarrow> seq d \<le> (if ds = [] then h0 else seq (last ds)) \<Longrightarrow>
      \<exists>x \<in> set ds. did x = did d \<and> seq x = seq d"
proof -
  let ?all = "sort_key seq (filter (\<lambda>d. pos < seq d \<and> seq d \<le> h0 \<and> archived_at d = None) (documents s))"
  have ds: "ds = take n ?all" using assms(2) by (simp add: seedPage_def)
  have sub: "set ds \<subseteq> set ?all" unfolding ds by (rule set_take_subset)
  have last: "last ds \<in> set ?all" if "ds \<noteq> []" using subsetD [OF sub last_in_set [OF that]] .
  then show le: "seq (last ds) \<le> h0" if "ds \<noteq> []" using that by simp
  assume d: "d \<in> set (documents s)" "archived_at d = None" "pos < seq d" "seq d \<le> (if ds = [] then h0 else seq (last ds))"
  have "seq d \<le> h0"
  proof (cases "ds = []")
    case False
    then show ?thesis using d(4) le by fastforce
  qed (use d(4) in simp)
  then have all: "d \<in> set ?all" using d by simp
  have "d \<in> set ds"
  proof (rule ccontr)
    assume n: "d \<notin> set ds"
    have parts: "set ?all = set (take n ?all) \<union> set (drop n ?all)" by (simp only: set_append [symmetric] append_take_drop_id)
    then have drop: "d \<in> set (drop n ?all)" using all n unfolding ds by blast
    have ne: "ds \<noteq> []"
    proof
      assume "ds = []"
      then have "?all = []" using ds assms(3) by (metis take_eq_Nil less_numeral_extra(3))
      then show False using all by (metis empty_iff empty_set)
    qed
    then have "last ds \<in> set (take n ?all)" using last_in_set [OF ne] unfolding ds by blast
    moreover have "sorted (map seq (take n ?all @ drop n ?all))" by (simp only: append_take_drop_id sorted_sort_key)
    ultimately have "seq (last ds) \<le> seq d" using drop by (blast intro: sorted_halves)
    then have "seq d = seq (last ds)" using d(4) ne by simp
    moreover have "last ds \<in> set (documents s)" using last [OF ne] by simp
    ultimately have "d = last ds" using doc_seq_inj [OF assms(1) d(1)] by blast
    then show False using n ne by (metis last_in_set)
  qed
  then show "\<exists>x \<in> set ds. did x = did d \<and> seq x = seq d" by blast
qed

text \<open>The seed is through: no live document is left below the parked cursor.\<close>

definition seeded :: "string \<Rightarrow> view \<Rightarrow> bool" where
  "seeded c v \<longleftrightarrow> (\<exists>h0 pos. seeding c h0 pos v \<and> h0 \<le> change_counter (vdb v) \<and>
     (\<forall>d \<in> set (documents (vdb v)). archived_at d = None \<longrightarrow> seq d \<le> h0 \<longrightarrow> seq d \<le> pos))"

lemma steady_seeded: "steady D c H (\<lambda>tr v. seeded c v)"
proof (rule steadyI)
  fix tr u v
  assume s: "seeded c u" and ar: "around c H u v"
  then obtain h0 pos where h: "seeding c h0 pos u" "h0 \<le> change_counter (vdb u)"
    "\<forall>d \<in> set (documents (vdb u)). archived_at d = None \<longrightarrow> seq d \<le> h0 \<longrightarrow> seq d \<le> pos" by (auto simp: seeded_def)
  have "seq d \<le> pos" if d: "d \<in> set (documents (vdb v))" "archived_at d = None" "seq d \<le> h0" for d
  proof -
    obtain e where "e \<in> set (documents (vdb u))" "seq e = seq d" "archived_at e = None"
      using carries_old [OF aroundD(1) [OF ar] d(1)] d(2,3) h(2) by (metis le_trans)
    then show ?thesis using h(3) d(3) by metis
  qed
  then show "seeded c v" using seeding_around [OF h(1) ar] le_trans [OF h(2) aroundD(4) [OF ar]] unfolding seeded_def by blast
qed

section \<open>Through the pages\<close>

lemma does_seedPages:
  "does D c H (\<lambda>tr v. seeding c h0 pos v) (seedPages c mx h0 n pos) (\<lambda>ok tr v. ok \<longrightarrow> seeded c v)"
proof (induction n arbitrary: pos)
  case 0
  show ?case unfolding seedPages.simps by (rule worker.does_Return [OF steady_seeding]) simp
next
  case (Suc n)
  let ?S = "\<lambda>pos tr v. seeding c h0 pos v"
  let ?Q = "\<lambda>ok tr v. ok \<longrightarrow> seeded c v"
  let ?A = "\<lambda>ds tr v. if ds = [] then seeded c v else seed_page c h0 pos (seq (last ds)) ds (newBatch 0) tr v"
  have stop: "does D c H (?S pos) (Return False) ?Q" by (rule worker.does_Return [OF steady_seeding]) simp
  have page: "does D c H (?S pos) (readf (seedPage pos h0 SEED_PAGE)) ?A"
  proof (rule worker.does_readf [OF steady_seeding])
    show "steady D c H (?A ds)" for ds
      by (cases "ds = []") (simp_all add: steady_seeded steady_seed_page)
    fix tr v
    assume k: "keeps D c H tr v" and s: "seeding c h0 pos v"
    let ?ds = "seedPage pos h0 SEED_PAGE (vdb v)"
    have inv: "store_inv D (vdb v)" using keeps_view(1) [OF k] by (simp add: view_ok_def)
    note pg = seedPage_complete [OF inv refl, where n = SEED_PAGE and pos = pos and ?h0.0 = h0]
    have n: "0 < SEED_PAGE" by (simp add: SEED_PAGE_def)
    have cc: "h0 \<le> change_counter (vdb v)" using keeps_view(2) [OF k] s by (simp add: covered_def seeding_def)
    show "?A ?ds tr v"
    proof (cases "?ds = []")
      case True
      have "seq d \<le> pos" if "d \<in> set (documents (vdb v))" "archived_at d = None" "seq d \<le> h0" for d
      proof (rule ccontr)
        assume "\<not> seq d \<le> pos"
        then show False using pg(2) [OF n that(1,2)] True that(3) by simp
      qed
      then have "seeded c v" using s cc unfolding seeded_def by blast
      then show ?thesis using True by simp
    next
      case False
      then show ?thesis using s cc pg [OF n] by (simp add: seed_page_def)
    qed
  qed
  have work: "does D c H (?A ds) (if ds = [] then Return True else awaitf (seedDocs c mx ds (newBatch 0)) (\<lambda>a.
      awaitf (flushSeed c (Some (seq (last ds))) a) (\<lambda>_. seedPages c mx h0 n (seq (last ds))))) ?Q" for ds
  proof (cases "ds = []")
    case True
    then show ?thesis by (simp add: worker.does_Return [OF steady_seeded])
  next
    case False
    have "does D c H (seed_page c h0 pos (seq (last ds)) ds (newBatch 0)) (awaitf (seedDocs c mx ds (newBatch 0)) (\<lambda>a.
        awaitf (flushSeed c (Some (seq (last ds))) a) (\<lambda>_. seedPages c mx h0 n (seq (last ds))))) ?Q"
      by (rule worker.does_awaitf [OF does_seedDocs worker.does_awaitf [OF does_flush_seed_last Suc.IH]])
    then show ?thesis using False by simp
  qed
  show ?case unfolding seedPages.simps
    by (rule worker.does_unlessHalted [OF steady_seeding stop worker.does_awaitf [OF page work]])
qed

text \<open>The worker may be fed: seeded, its cursor not below the floor.\<close>

definition attached :: "string \<Rightarrow> view \<Rightarrow> bool" where
  "attached c v \<longleftrightarrow> (\<exists>k. cursor_at c k v)"

lemma steady_attached: "steady D c H (\<lambda>tr v. attached c v)"
  by (rule steadyI) (auto simp: attached_def dest: cursor_at_around)

lemma does_endSeed:
  "does D c H (\<lambda>tr v. seeded c v) (writef (EndSeed c)) (\<lambda>_ tr v. attached c v)"
proof (rule worker.does_writef [OF steady_seeded steady_attached])
  fix tr v now t
  assume k: "keeps D c H tr v" and p: "seeded c v" and w: "writeEffect D now (EndSeed c) (vdb v) = Some t"
  obtain h0 pos where h: "seeding c h0 pos v" "\<forall>d \<in> set (documents (vdb v)). archived_at d = None \<longrightarrow> seq d \<le> h0 \<longrightarrow> seq d \<le> pos"
    using p by (auto simp: seeded_def)
  have inv: "store_inv D (vdb v)" using keeps_view(1) [OF k] by (simp add: view_ok_def)
  have c: "carries (vdb v) t" "consumers t c = Some h0" "consumers t (seedConsumerName c) = None"
    using writeEffect_carries [OF w inv] h(1) by (simp_all add: seeding_def)
  have k1: "covered c (tr @ [Wrote (EndSeed c)]) v" by (rule covered_mono [OF keeps_view(2) [OF k]])
  have "covered c (tr @ [Wrote (EndSeed c)]) (wrote v t)"
  proof (rule covered_moved [OF k1 c(1) _ c(2)])
    show "consumers (vdb v) c = Some h0" using h(1) by (simp add: seeding_def)
    fix d
    assume d: "d \<in> set (documents (vdb v))" "archived_at d = None" "seq d \<le> h0"
    then have "due c v d" using h by (simp add: due_def seeding_def)
    then show "handled c (tr @ [Wrote (EndSeed c)]) (did d) (seq d)" using k1 d(1) by (simp add: covered_def)
  qed
  then have "keeps D c H (tr @ [Wrote (EndSeed c)]) (wrote v t)" by (rule keeps_write [OF k w]) simp
  moreover have "cursor_at c h0 (wrote v t)" using c h(1) by (simp add: cursor_at_def seeding_def)
  ultimately show "keeps D c H (tr @ [Wrote (EndSeed c)]) (wrote v t) \<and> attached c (wrote v t)" by (auto simp: attached_def)
qed

lemma does_seedFrom:
  "does D c H (\<lambda>tr v. \<exists>h0. seeding c h0 pos v) (seedFrom c mx n pos) (\<lambda>ok tr v. ok \<longrightarrow> attached c v)"
  unfolding seedFrom_def
proof (rule worker.does_awaitf)
  have st: "steady D c H (\<lambda>tr v. \<exists>h0. seeding c h0 pos v)"
    by (rule steadyI) (auto dest: seeding_around)
  show "does D c H (\<lambda>tr v. \<exists>h0. seeding c h0 pos v) (readf (consumerCursor c)) (\<lambda>h0 tr v. seeding c h0 pos v)"
    by (rule worker.does_readf [OF st steady_seeding]) (auto simp: seeding_def consumerCursor_def)
  fix h0
  let ?Q = "\<lambda>ok tr v. ok \<longrightarrow> attached c v"
  show "does D c H (\<lambda>tr v. seeding c h0 pos v) (tryf (seedPages c mx h0 n pos) (\<lambda>x. case x of
       Inl e \<Rightarrow> if e = ReadOnlyGate \<or> e = Stopped then Return False else Throw e
     | Inr through \<Rightarrow> if through then awaitf (writef (EndSeed c)) (\<lambda>_. Return True) else Return False)) ?Q"
  proof (rule worker.does_tryf [OF does_seedPages])
    fix ok e
    have "does D c H (\<lambda>tr v. seeded c v) (awaitf (writef (EndSeed c)) (\<lambda>_. Return True)) ?Q"
      by (rule worker.does_awaitf [OF does_endSeed]) (rule worker.does_Return [OF steady_attached], simp)
    moreover have no: "does D c H (\<lambda>_ _. True) (Return False) ?Q" by (rule worker.does_Return) simp_all
    ultimately show "does D c H (\<lambda>tr v. ok \<longrightarrow> seeded c v) (case Inr ok of
         Inl e \<Rightarrow> if e = ReadOnlyGate \<or> e = Stopped then Return False else Throw e
       | Inr through \<Rightarrow> if through then awaitf (writef (EndSeed c)) (\<lambda>_. Return True) else Return False) ?Q"
      by (cases ok) simp_all
    show "does D c H (\<lambda>_ _. True) (case Inl e of
         Inl e \<Rightarrow> if e = ReadOnlyGate \<or> e = Stopped then Return False else Throw e
       | Inr through \<Rightarrow> if through then awaitf (writef (EndSeed c)) (\<lambda>_. Return True) else Return False) ?Q"
      using no by (simp add: worker.does_Throw)
  qed
qed

end
