(* ===== verification/EngineWorkLoops.thy ===== *)
theory EngineWorkLoops
  imports EngineWorkSeed
begin

text \<open>The whole procedures: attaching with its retries, and the re-drive of deferred work.\<close>

section \<open>Attaching\<close>

lemma headSeq_le: "store_inv D s \<Longrightarrow> headSeq s \<le> change_counter s"
proof -
  have "\<forall>x \<in> set xs. x \<le> b \<Longrightarrow> foldr max xs 0 \<le> b" for xs and b :: nat by (induction xs) auto
  then show "store_inv D s \<Longrightarrow> headSeq s \<le> change_counter s"
    using store_invD(3) by (auto simp: feed_ok_def headSeq_def maxSeq_def)
qed

text \<open>The head that was read, before the cursor is parked there: nothing above it is pruned.\<close>

definition parkable :: "string \<Rightarrow> nat \<Rightarrow> nat \<Rightarrow> view \<Rightarrow> bool" where
  "parkable c H h0 v \<longleftrightarrow> H \<le> h0 \<and> h0 \<le> change_counter (vdb v) \<and> vfloor v \<le> Suc h0 \<and>
     (\<forall>k. consumers (vdb v) c = Some k \<longrightarrow> k < vfloor v)"

lemma steady_parkable: "steady D c H (\<lambda>tr v. parkable c H h0 v)"
proof (rule steadyI)
  fix tr u v
  assume p: "parkable c H h0 u" and a: "around c H u v"
  show "parkable c H h0 v"
  proof (cases "consumers (vdb u) c")
    case None
    then have "vfloor v \<le> Suc h0" using aroundD(8) [OF a] p by (auto simp: parkable_def)
    then show ?thesis using p aroundD(2,4) [OF a] None by (simp add: parkable_def)
  next
    case (Some k)
    then have "vfloor v = vfloor u" using aroundD(9) [OF a] p by (simp add: parkable_def)
    then show ?thesis using p aroundD(2,4) [OF a] by (simp add: parkable_def)
  qed
qed

text \<open>A new seed: the cursor is parked at the head, nothing is through yet.\<close>

lemma does_beginSeed:
  "does D c H (\<lambda>tr v. parkable c H h0 v) (writef (BeginSeed c h0)) (\<lambda>_ tr v. \<exists>h0. seeding c h0 0 v)"
proof (rule worker.does_writef [OF steady_parkable])
  show "steady D c H (\<lambda>tr v. \<exists>h0. seeding c h0 0 v)" for a :: unit
    by (rule steadyI) (auto dest: seeding_around)
  fix tr v now t
  assume k: "keeps D c H tr v" and p: "parkable c H h0 v" and w: "writeEffect D now (BeginSeed c h0) (vdb v) = Some t"
  have ok: "view_ok D v" using keeps_view(1) [OF k] .
  then have inv: "store_inv D (vdb v)" by (simp add: view_ok_def)
  have c: "carries (vdb v) t" "consumers t c = Some h0" "consumers t (seedConsumerName c) = Some 0"
    using writeEffect_carries [OF w inv] by simp_all
  have "documents t = documents (vdb v)" using w by (auto simp: beginSeed_def)
  then have "\<not> due c (wrote v t) d" if "d \<in> set (documents t)" for d
    using that ok c(3) by (auto simp: due_def view_ok_def)
  moreover have "h0 \<le> change_counter t" using p c(1) by (auto simp: carries_def parkable_def)
  ultimately have "covered c (tr @ [Wrote (BeginSeed c h0)]) (wrote v t)" using c(2) by (simp add: covered_def)
  then have "keeps D c H (tr @ [Wrote (BeginSeed c h0)]) (wrote v t)" by (rule keeps_write [OF k w]) simp
  then show "keeps D c H (tr @ [Wrote (BeginSeed c h0)]) (wrote v t) \<and> (\<exists>h0. seeding c h0 0 (wrote v t))"
    using c p by (auto simp: seeding_def parkable_def)
qed

text \<open>What is known after each of the three reads.\<close>

definition floor_read :: "string \<Rightarrow> nat option \<Rightarrow> nat \<Rightarrow> view \<Rightarrow> bool" where
  "floor_read c cur floor v \<longleftrightarrow> consumers (vdb v) c = cur \<and>
     (\<forall>k. cur = Some k \<longrightarrow> (if floor \<le> k then vfloor v \<le> Suc k else k < vfloor v))"

lemma steady_floor_read: "steady D c H (\<lambda>tr v. floor_read c cur floor v)"
proof (rule steadyI)
  fix tr u v
  assume p: "floor_read c cur floor u" and a: "around c H u v"
  show "floor_read c cur floor v"
    using p aroundD(2) [OF a] aroundD(5) [OF a] le_trans [OF _ aroundD(7) [OF a]] less_le_trans [OF _ aroundD(7) [OF a]]
    by (auto simp: floor_read_def)
qed

lemma does_seedConsumer:
  "does D c H (\<lambda>_ _. True) (seedConsumer c mx n) (\<lambda>ok tr v. ok \<longrightarrow> attached c v)"
  unfolding seedConsumer_def
proof (rule worker.does_awaitf)
  let ?Q = "\<lambda>ok tr v. ok \<longrightarrow> attached c v"
  let ?A = "\<lambda>cur tr v. consumers (vdb v) c = cur"
  let ?B = "\<lambda>cur floor tr v. floor_read c cur floor v"
  let ?C = "\<lambda>cur floor sd tr v. floor_read c cur floor v \<and> consumers (vdb v) (seedConsumerName c) = sd"
  have sa: "steady D c H (?A cur)" for cur by (rule steadyI) (simp add: aroundD)
  have sc: "steady D c H (?C cur floor sd)" for cur floor sd
    by (rule worker.steady_conj [OF steady_floor_read], rule steadyI) (simp add: aroundD)
  show "does D c H (\<lambda>_ _. True) (readf (\<lambda>s. consumers s c)) ?A" by (rule worker.does_readf [OF _ sa]) simp_all
  fix cur
  show "does D c H (?A cur) (awaitf (viewf vfloor) (\<lambda>floor. awaitf (readf (\<lambda>s. consumers s (seedConsumerName c))) (\<lambda>sd.
     let feedable = (case cur of None \<Rightarrow> False | Some k \<Rightarrow> k \<ge> floor) in
     if feedable \<and> sd = None then Return True
     else if feedable then seedFrom c mx n (case sd of None \<Rightarrow> 0 | Some k \<Rightarrow> k)
     else awaitf (readf headSeq) (\<lambda>h0. awaitf (writef (BeginSeed c h0)) (\<lambda>_. seedFrom c mx n 0))))) ?Q"
  proof (rule worker.does_awaitf)
    show "does D c H (?A cur) (viewf vfloor) (?B cur)"
      by (rule worker.does_viewf [OF sa steady_floor_read]) (simp add: floor_read_def)
    fix floor
    let ?feedable = "case cur of None \<Rightarrow> False | Some k \<Rightarrow> k \<ge> floor"
    show "does D c H (?B cur floor) (awaitf (readf (\<lambda>s. consumers s (seedConsumerName c))) (\<lambda>sd.
       let feedable = ?feedable in
       if feedable \<and> sd = None then Return True
       else if feedable then seedFrom c mx n (case sd of None \<Rightarrow> 0 | Some k \<Rightarrow> k)
       else awaitf (readf headSeq) (\<lambda>h0. awaitf (writef (BeginSeed c h0)) (\<lambda>_. seedFrom c mx n 0)))) ?Q"
      unfolding Let_def
    proof (rule worker.does_awaitf)
      show "does D c H (?B cur floor) (readf (\<lambda>s. consumers s (seedConsumerName c))) (?C cur floor)"
        by (rule worker.does_readf [OF steady_floor_read sc]) simp
      fix sd
      have "does D c H (?C cur floor sd) (Return True) ?Q" if "?feedable \<and> sd = None"
        by (rule worker.does_Return [OF sc]) (use that in \<open>auto simp: attached_def cursor_at_def floor_read_def split: option.splits\<close>)
      moreover have "does D c H (?C cur floor sd) (seedFrom c mx n (case sd of None \<Rightarrow> 0 | Some k \<Rightarrow> k)) ?Q"
        if f: "?feedable" "sd \<noteq> None"
        by (rule worker.does_pre [OF does_seedFrom]) (use f in \<open>auto simp: seeding_def floor_read_def split: option.splits\<close>)
      moreover have "does D c H (?C cur floor sd) (awaitf (readf headSeq) (\<lambda>h0. awaitf (writef (BeginSeed c h0)) (\<lambda>_. seedFrom c mx n 0))) ?Q"
        if f: "\<not> ?feedable"
      proof (rule worker.does_awaitf)
        show "does D c H (?C cur floor sd) (readf headSeq) (\<lambda>h0 tr v. parkable c H h0 v)"
        proof (rule worker.does_readf [OF sc steady_parkable])
          fix tr v
          assume k: "keeps D c H tr v" and p: "?C cur floor sd tr v"
          have "view_ok D v" using keeps_view(1) [OF k] .
          then have "vfloor v \<le> headSeq (vdb v)" "headSeq (vdb v) \<le> change_counter (vdb v)"
            using headSeq_le [of D "vdb v"] by (simp_all add: view_ok_def)
          then show "parkable c H (headSeq (vdb v)) v"
            using keeps_view(4) [OF k] p f by (auto simp: parkable_def floor_read_def)
        qed
        show "does D c H (\<lambda>tr v. parkable c H h0 v) (awaitf (writef (BeginSeed c h0)) (\<lambda>_. seedFrom c mx n 0)) ?Q" for h0
          by (rule worker.does_awaitf [OF does_beginSeed does_seedFrom])
      qed
      ultimately show "does D c H (?C cur floor sd) (if ?feedable \<and> sd = None then Return True
         else if ?feedable then seedFrom c mx n (case sd of None \<Rightarrow> 0 | Some k \<Rightarrow> k)
         else awaitf (readf headSeq) (\<lambda>h0. awaitf (writef (BeginSeed c h0)) (\<lambda>_. seedFrom c mx n 0))) ?Q" by auto
    qed
  qed
qed

text \<open>The catch of the loop.\<close>

lemma does_retryOr:
  assumes "does D c H (\<lambda>_ _. True) p (\<lambda>_ _ _. True)"
  shows "does D c H (\<lambda>_ _. True) (retryOr e r p) (\<lambda>_ _ _. True)"
proof -
  have ret: "does D c H (\<lambda>_ _. True) (Return ()) (\<lambda>_ _ _. True)" by (rule worker.does_Return) simp_all
  show ?thesis unfolding retryOr_def
    by (rule worker.does_unlessHalted [OF _ ret], simp)
      (rule worker.does_if [OF ret worker.does_unlessHalted [OF _ ret assms]], simp)
qed

lemma fed_empty: "fed c k high [] v \<Longrightarrow> at_pos c high v"
  unfolding fed_def at_pos_def none_between_def has_entry_def by auto

lemma does_loops:
  "does D c H (\<lambda>_ _. True) (attachLoop c mx n retries) (\<lambda>_ _ _. True)"
  "does D c H (\<lambda>tr v. at_pos c pos v) (feedLoop c mx n retries pos) (\<lambda>_ _ _. True)"
proof (induction c mx n retries and c mx n retries pos rule: attachLoop_feedLoop.induct)
  case (1 c mx retries)
  show ?case by (simp add: worker.does_Return)
next
  case (2 c mx n retries)
  let ?S = "\<lambda>x tr v. \<forall>pos. x = Some pos \<longrightarrow> at_pos c pos v"
  have read: "does D c H (\<lambda>tr v. attached c v) (awaitf (readf (consumerCursor c)) (\<lambda>pos. Return (Some pos))) ?S"
  proof (rule worker.does_awaitf)
    show "does D c H (\<lambda>tr v. attached c v) (readf (consumerCursor c)) (\<lambda>pos tr v. at_pos c pos v)"
    proof (rule worker.does_readf [OF steady_attached steady_at_pos])
      fix tr v
      assume k: "keeps D c H tr v" and a: "attached c v"
      then obtain p where p: "cursor_at c p v" by (auto simp: attached_def)
      then have "p \<le> change_counter (vdb v)" using keeps_view(2) [OF k] by (simp add: covered_def cursor_at_def)
      then have "at_pos c p v" using p by (auto simp: at_pos_def none_between_def)
      then show "at_pos c (consumerCursor c (vdb v)) v" using p by (simp add: consumerCursor_def cursor_at_def)
    qed
    show "does D c H (\<lambda>tr v. at_pos c pos v) (Return (Some pos)) ?S" for pos
      by (rule worker.does_Return [OF steady_at_pos]) simp
  qed
  have none: "does D c H P (Return None) ?S" if "steady D c H P" for P
    by (rule worker.does_Return [OF that]) simp
  have "does D c H (\<lambda>tr v. ok \<longrightarrow> attached c v)
      (if ok then awaitf (readf (consumerCursor c)) (\<lambda>pos. Return (Some pos)) else Return None) ?S" for ok
    using read none [OF worker.steady_True(1)] by (cases ok) simp_all
  then have start: "does D c H (\<lambda>_ _. True) (awaitf (seedConsumer c mx n) (\<lambda>ok.
      if ok then awaitf (readf (consumerCursor c)) (\<lambda>pos. Return (Some pos)) else Return None)) ?S"
    by (rule worker.does_awaitf [OF does_seedConsumer])
  show ?case unfolding attachLoop.simps
  proof (rule worker.does_tryf [OF start])
    show "does D c H (\<lambda>_ _. True) (case Inl e of Inl e \<Rightarrow> retryOr e retries (attachLoop c mx n (Suc retries))
        | Inr None \<Rightarrow> Return () | Inr (Some pos) \<Rightarrow> feedLoop c mx n retries pos) (\<lambda>_ _ _. True)" for e
      using does_retryOr [OF 2(1)] by simp
    fix a
    show "does D c H (?S a) (case Inr a of Inl e \<Rightarrow> retryOr e retries (attachLoop c mx n (Suc retries))
        | Inr None \<Rightarrow> Return () | Inr (Some pos) \<Rightarrow> feedLoop c mx n retries pos) (\<lambda>_ _ _. True)"
      using 2(2) by (cases a) (simp_all add: worker.does_Return)
  qed
next
  case (3 c mx retries pos)
  show ?case by (simp add: worker.does_Return steady_at_pos)
next
  case (4 c mx n retries pos)
  let ?T = "\<lambda>_ _. True"
  let ?U = "\<lambda>_ _ _. True"
  have ret: "does D c H P (Return ()) ?U" if "steady D c H P" for P by (rule worker.does_Return [OF that]) simp
  have catch: "does D c H ?T (retryOr e retries (attachLoop c mx n (Suc retries))) ?U" for e by (rule does_retryOr [OF 4(1)])
  have page: "does D c H (\<lambda>tr v. pos \<le> high \<and> (\<exists>k. fed c k high cs v))
      (if cs = [] then feedLoop c mx n retries high
       else unlessHalted (Return ()) (tryf (awaitf (readf (consumerCursor c)) (\<lambda>start. attachChanges c mx start cs (newBatch start)))
         (\<lambda>y. case y of Inl e \<Rightarrow> retryOr e retries (attachLoop c mx n (Suc retries)) | Inr _ \<Rightarrow> feedLoop c mx n 0 high))) ?U" (is "does D c H ?F _ _") for cs high
  proof (cases "cs = []")
    case True
    have "does D c H ?F (feedLoop c mx n retries high) ?U"
      by (rule worker.does_pre [OF 4(2)]) (use True fed_empty in auto)
    then show ?thesis using True by simp
  next
    case False
    have st: "steady D c H ?F" by (rule steadyI) (auto dest: fed_around)
    have work: "does D c H ?F (awaitf (readf (consumerCursor c)) (\<lambda>start. attachChanges c mx start cs (newBatch start))) (\<lambda>_ tr v. at_pos c high v)"
    proof (rule worker.does_awaitf)
      show "does D c H ?F (readf (consumerCursor c)) (\<lambda>start. attaching c high start cs (newBatch start))"
      proof (rule worker.does_readf [OF st steady_attaching])
        fix tr v
        assume "?F tr v"
        then obtain k where f: "fed c k high cs v" by blast
        moreover have "consumerCursor c (vdb v) = k" using f by (simp add: fed_def cursor_at_def consumerCursor_def)
        ultimately show "attaching c high (consumerCursor c (vdb v)) cs (newBatch (consumerCursor c (vdb v))) tr v"
          using attaching_start by simp
      qed
    qed (rule does_attachChanges)
    have "does D c H ?F (tryf (awaitf (readf (consumerCursor c)) (\<lambda>start. attachChanges c mx start cs (newBatch start)))
         (\<lambda>y. case y of Inl e \<Rightarrow> retryOr e retries (attachLoop c mx n (Suc retries)) | Inr _ \<Rightarrow> feedLoop c mx n 0 high)) ?U"
      by (rule worker.does_tryf [OF work]) (use 4(4) False catch in simp_all)
    then show ?thesis using worker.does_unlessHalted [OF st ret [OF st]] False by simp
  qed
  have "does D c H (\<lambda>tr v. at_pos c pos v) (tryf (feedNext pos) (\<lambda>x. case x of
         Inl e \<Rightarrow> retryOr e retries (attachLoop c mx n (Suc retries))
       | Inr (cs, high) \<Rightarrow> if cs = [] then feedLoop c mx n retries high
           else unlessHalted (Return ())
             (tryf (awaitf (readf (consumerCursor c)) (\<lambda>start. attachChanges c mx start cs (newBatch start))) (\<lambda>y. case y of
                Inl e \<Rightarrow> retryOr e retries (attachLoop c mx n (Suc retries))
              | Inr _ \<Rightarrow> feedLoop c mx n 0 high)))) ?U"
  proof (rule worker.does_tryf [OF does_feedNext])
    fix a e
    show "does D c H (case a of (cs, high) \<Rightarrow> \<lambda>tr v. pos \<le> high \<and> (\<exists>k. fed c k high cs v)) (case Inr a of
         Inl e \<Rightarrow> retryOr e retries (attachLoop c mx n (Suc retries))
       | Inr (cs, high) \<Rightarrow> if cs = [] then feedLoop c mx n retries high
           else unlessHalted (Return ())
             (tryf (awaitf (readf (consumerCursor c)) (\<lambda>start. attachChanges c mx start cs (newBatch start))) (\<lambda>y. case y of
                Inl e \<Rightarrow> retryOr e retries (attachLoop c mx n (Suc retries))
              | Inr _ \<Rightarrow> feedLoop c mx n 0 high))) ?U"
      using page by (cases a) simp
    show "does D c H ?T (case Inl e of
         Inl e \<Rightarrow> retryOr e retries (attachLoop c mx n (Suc retries))
       | Inr (cs, high) \<Rightarrow> if cs = [] then feedLoop c mx n retries high
           else unlessHalted (Return ())
             (tryf (awaitf (readf (consumerCursor c)) (\<lambda>start. attachChanges c mx start cs (newBatch start))) (\<lambda>y. case y of
                Inl e \<Rightarrow> retryOr e retries (attachLoop c mx n (Suc retries))
              | Inr _ \<Rightarrow> feedLoop c mx n 0 high))) ?U"
      using catch by simp
  qed
  then show ?case unfolding feedLoop.simps by (rule worker.does_unlessHalted [OF steady_at_pos ret [OF steady_at_pos]])
qed

lemma does_attach: "does D c H (\<lambda>_ _. True) (attach c mx n) (\<lambda>_ _ _. True)"
  unfolding attach_def by (rule does_loops)

section \<open>The re-drive\<close>

text \<open>Each entry that is to be recorded is a skip, or its outputs are committed or in the batch.\<close>

definition redriving :: "string \<Rightarrow> work_batch \<Rightarrow> work_event list \<Rightarrow> view \<Rightarrow> bool" where
  "redriving c a tr v \<longleftrightarrow> (\<forall>e \<in> set (bledger a). e = skipEntry (le_seq e) \<or> (\<exists>ch r. e = entryFor ch r \<and> cameFrom tr ch r \<and>
     (committed c tr r \<or> set (rdocs r) \<subseteq> set (bdocs a) \<and> set (renrich r) \<subseteq> set (benrich a))))"

lemma steady_redriving: "steady D c H (redriving c a)"
  by (rule steadyI) (simp add: redriving_def)

lemma growing_redriving: "growing (redriving c a)"
proof (rule growingI)
  show "redriving c a tr v \<Longrightarrow> redriving c a (tr @ [x]) v" for tr v x
    unfolding redriving_def using cameFrom_mono [of tr _ _ "[x]"] committed_mono [of c tr _ "[x]"] by blast
qed

lemma redriving_skip: "redriving c a tr v \<Longrightarrow> redriving c (a\<lparr>bledger := bledger a @ [skipEntry q]\<rparr>) tr v"
  by (auto simp: redriving_def skipEntry_def)

lemma redriving_result:
  assumes "redriving c a tr v" "cameFrom tr ch r"
  shows "redriving c (addResult ch r [entryFor ch r] (noteSeen ch a)) tr v"
  unfolding redriving_def
proof (intro ballI)
  let ?b = "addResult ch r [entryFor ch r] (noteSeen ch a)"
  fix e assume "e \<in> set (bledger ?b)"
  then consider "e \<in> set (bledger a)" | "e = entryFor ch r" by (auto simp: addResult_def noteSeen_def)
  then show "e = skipEntry (le_seq e) \<or> (\<exists>ch r. e = entryFor ch r \<and> cameFrom tr ch r \<and>
     (committed c tr r \<or> set (rdocs r) \<subseteq> set (bdocs ?b) \<and> set (renrich r) \<subseteq> set (benrich ?b)))"
  proof cases
    case 1
    have "set (bdocs a) \<subseteq> set (bdocs ?b)" "set (benrich a) \<subseteq> set (benrich ?b)" by (auto simp: addResult_def noteSeen_def)
    then show ?thesis using assms(1) 1 unfolding redriving_def by (meson order_trans)
  next
    case 2
    then show ?thesis using assms(2) by (intro disjI2 exI [of _ ch] exI [of _ r]) (auto simp: addResult_def)
  qed
qed

text \<open>After a flush every entry is settled.\<close>

definition settled :: "string \<Rightarrow> work_batch \<Rightarrow> work_event list \<Rightarrow> view \<Rightarrow> bool" where
  "settled c a tr v \<longleftrightarrow> (\<forall>e \<in> set (bledger a). resolves c tr e)"

lemma steady_settled: "steady D c H (settled c a)"
  by (rule steadyI) (simp add: settled_def)

lemma growing_settled: "growing (settled c a)"
  by (rule growingI) (auto simp: settled_def intro: resolves_mono)

lemma settled_redriving: "settled c a tr v \<Longrightarrow> redriving c a tr v"
  unfolding settled_def redriving_def resolves_def by blast

lemma does_flushRedrive: "does D c H (redriving c a) (flushRedrive c a) (settled c)"
proof (cases "bdocs a = [] \<and> benrich a = [] \<and> bclear a = []")
  case True
  have "resolves c tr e" if "redriving c a tr v" "e \<in> set (bledger a)" for tr v e
    using that True unfolding redriving_def resolves_def committed_def by fastforce
  then show ?thesis using True by (simp add: flushRedrive_def worker.does_Return [OF steady_redriving] settled_def)
next
  case False
  let ?P = "redriving c a"
  let ?w = "CommitWrite (writeBatch c None None (a\<lparr>bledger := []\<rparr>))"
  have st: "steady D c H (\<lambda>tr v. ?P tr v \<and> Wrote ?w \<in> set tr)" by (rule steady_P [OF steady_redriving])
  have fl: "settled c ((flushed a)\<lparr>bledger := bledger a\<rparr>) tr v" if w: "?P tr v" "Wrote ?w \<in> set tr" for tr v
  proof -
    have 1: "committed c tr r" if "set (rdocs r) \<subseteq> set (bdocs a)" "set (renrich r) \<subseteq> set (benrich a)" for r
      unfolding committed_def by (rule disjI2, rule exI, rule conjI [OF w(2)]) (use that in \<open>simp add: writeBatch_def\<close>)
    show ?thesis unfolding settled_def resolves_def using w(1) 1 unfolding redriving_def by simp blast
  qed
  have wr: "does D c H ?P (awaitf (writef ?w) (\<lambda>_. Return ((flushed a)\<lparr>bledger := bledger a\<rparr>))) (settled c)"
  proof (rule worker.does_awaitf)
    show "does D c H ?P (writef ?w) (\<lambda>_ tr v. ?P tr v \<and> Wrote ?w \<in> set tr)"
      by (rule does_quiet [OF steady_redriving growing_redriving _ _ st]) (auto intro: quiet_batch)
    show "does D c H (\<lambda>tr v. ?P tr v \<and> Wrote ?w \<in> set tr) (Return ((flushed a)\<lparr>bledger := bledger a\<rparr>)) (settled c)"
      by (rule worker.does_Return [OF st]) (use fl in blast)
  qed
  have "does D c H ?P (Acquire RedriveUnit (\<lambda>e. case e of Some x \<Rightarrow> Throw x
      | None \<Rightarrow> awaitf (writef ?w) (\<lambda>_. Return ((flushed a)\<lparr>bledger := bledger a\<rparr>)))) (settled c)"
  proof (rule worker.does_Acquire [OF steady_redriving])
    show "does D c H ?P (case x of Some x \<Rightarrow> Throw x
      | None \<Rightarrow> awaitf (writef ?w) (\<lambda>_. Return ((flushed a)\<lparr>bledger := bledger a\<rparr>))) (settled c)" for x
      using wr by (cases x) (simp_all add: worker.does_Throw)
  qed
  then show ?thesis unfolding flushRedrive_def if_not_P [OF False] .
qed

lemma does_redriveChanges: "does D c H (redriving c a) (redriveChanges c mx chs a) (settled c)"
proof (induction chs arbitrary: a)
  case Nil
  show ?case unfolding redriveChanges.simps by (rule does_flushRedrive)
next
  case (Cons ch chs)
  let ?P = "redriving c a"
  have asked: "does D c H (\<lambda>tr v. ?P tr v \<and> Asked ch m \<in> set tr) (case m of
       None \<Rightarrow> Throw OtherError
     | Some hit \<Rightarrow> if \<not> hit \<or> seenBefore ch a
         then redriveChanges c mx chs (a\<lparr>bledger := bledger a @ [skipEntry (changeSeq ch)]\<rparr>)
         else awaitf (workOne mx ch) (\<lambda>r. let a1 = addResult ch r [entryFor ch r] (noteSeen ch a) in
           awaitf (if bstaged a1 \<ge> SUB_COMMIT_BYTES then flushRedrive c a1 else Return a1) (\<lambda>a2. redriveChanges c mx chs a2)))
     (settled c)" (is "does D c H ?A _ _") for m
  proof (cases m)
    case None
    then show ?thesis by (simp add: worker.does_Throw)
  next
    case (Some hit)
    have st: "steady D c H ?A" by (rule steady_P [OF steady_redriving])
    have gr: "growing ?A" by (rule growing_conj [OF growing_redriving]) (simp add: growing_def)
    have skip: "does D c H ?A (redriveChanges c mx chs (a\<lparr>bledger := bledger a @ [skipEntry (changeSeq ch)]\<rparr>)) (settled c)"
      by (rule worker.does_pre [OF Cons.IH]) (use redriving_skip in blast)
    have work: "does D c H ?A (awaitf (workOne mx ch) (\<lambda>r. let a1 = addResult ch r [entryFor ch r] (noteSeen ch a) in
        awaitf (if bstaged a1 \<ge> SUB_COMMIT_BYTES then flushRedrive c a1 else Return a1) (\<lambda>a2. redriveChanges c mx chs a2))) (settled c)"
      unfolding Let_def
    proof (rule worker.does_awaitf)
      show "does D c H ?A (workOne mx ch) (\<lambda>r tr v. ?A tr v \<and> cameFrom tr ch r)" by (rule does_workOne [OF st gr])
      fix r
      let ?a1 = "addResult ch r [entryFor ch r] (noteSeen ch a)"
      have "does D c H (redriving c ?a1) (awaitf (if bstaged ?a1 \<ge> SUB_COMMIT_BYTES then flushRedrive c ?a1 else Return ?a1)
          (\<lambda>a2. redriveChanges c mx chs a2)) (settled c)"
      proof (rule worker.does_awaitf)
        show "does D c H (redriving c ?a1) (if bstaged ?a1 \<ge> SUB_COMMIT_BYTES then flushRedrive c ?a1 else Return ?a1) (redriving c)"
          by (rule worker.does_if, rule worker.does_post [OF does_flushRedrive settled_redriving], assumption)
            (rule worker.does_Return [OF steady_redriving])
      qed (rule Cons.IH)
      then show "does D c H (\<lambda>tr v. ?A tr v \<and> cameFrom tr ch r)
          (awaitf (if bstaged ?a1 \<ge> SUB_COMMIT_BYTES then flushRedrive c ?a1 else Return ?a1) (\<lambda>a2. redriveChanges c mx chs a2)) (settled c)"
        by (rule worker.does_pre) (use redriving_result in blast)
    qed
    show ?thesis unfolding Some option.case(2) by (rule worker.does_if [OF skip [unfolded Some] work [unfolded Some]])
  qed
  show ?case unfolding redriveChanges.simps
    by (rule worker.does_unlessHalted [OF steady_redriving worker.does_Throw does_asked [OF steady_redriving growing_redriving asked]])
qed

lemma does_redrivePages: "does D c H (\<lambda>_ _. True) (redrivePages c mx n pos) (\<lambda>_ _ _. True)"
proof (induction n arbitrary: pos)
  case 0
  show ?case by (simp add: worker.does_Return)
next
  case (Suc n)
  let ?T = "\<lambda>_ _. True"
  let ?U = "\<lambda>_ _ _. True"
  have ret: "does D c H P (Return ()) ?U" if "steady D c H P" for P by (rule worker.does_Return [OF that]) simp
  have tell: "does D c H (settled c a) (awaitf (if bledger a = [] then Return () else writef (RecordMany c (bledger a))) (\<lambda>_. redrivePages c mx n q)) ?U" for a q
  proof (rule worker.does_awaitf)
    have "does D c H (settled c a) (writef (RecordMany c (bledger a))) ?U"
      by (rule does_quiet [OF steady_settled growing_settled]) (auto simp: quiet_def settled_def)
    then show "does D c H (settled c a) (if bledger a = [] then Return () else writef (RecordMany c (bledger a))) ?U"
      using ret [OF steady_settled] by simp
  qed (rule Suc.IH)
  have page: "does D c H ?T (awaitf (readf (changesAt qs)) (\<lambda>chs.
      awaitf (redriveChanges c mx chs ((newBatch 0)\<lparr>bledger := unresolved qs chs\<rparr>)) (\<lambda>a. unlessHalted (Return ())
        (awaitf (if bledger a = [] then Return () else writef (RecordMany c (bledger a))) (\<lambda>_. redrivePages c mx n (last qs)))))) ?U" for qs
  proof (rule worker.does_awaitf)
    let ?R = "\<lambda>chs. redriving c ((newBatch 0)\<lparr>bledger := unresolved qs chs\<rparr>)"
    show "does D c H ?T (readf (changesAt qs)) ?R"
      by (rule worker.does_readf [OF _ steady_redriving]) (auto simp: redriving_def unresolved_def skipEntry_def)
    show "does D c H (?R chs) (awaitf (redriveChanges c mx chs ((newBatch 0)\<lparr>bledger := unresolved qs chs\<rparr>)) (\<lambda>a. unlessHalted (Return ())
        (awaitf (if bledger a = [] then Return () else writef (RecordMany c (bledger a))) (\<lambda>_. redrivePages c mx n (last qs))))) ?U" for chs
      by (rule worker.does_awaitf [OF does_redriveChanges worker.does_unlessHalted [OF steady_settled ret [OF steady_settled] tell]])
  qed
  have "does D c H ?T (awaitf (readf (ledgerDeferred c pos REDRIVE_PAGE)) (\<lambda>qs. if qs = [] then Return ()
      else awaitf (readf (changesAt qs)) (\<lambda>chs. awaitf (redriveChanges c mx chs ((newBatch 0)\<lparr>bledger := unresolved qs chs\<rparr>)) (\<lambda>a.
        unlessHalted (Return ()) (awaitf (if bledger a = [] then Return () else writef (RecordMany c (bledger a))) (\<lambda>_.
          redrivePages c mx n (last qs))))))) ?U"
  proof (rule worker.does_awaitf)
    show "does D c H ?T (readf (ledgerDeferred c pos REDRIVE_PAGE)) (\<lambda>_ _ _. True)" by (rule worker.does_readf) simp_all
    show "does D c H ?T (if qs = [] then Return () else awaitf (readf (changesAt qs)) (\<lambda>chs.
        awaitf (redriveChanges c mx chs ((newBatch 0)\<lparr>bledger := unresolved qs chs\<rparr>)) (\<lambda>a.
        unlessHalted (Return ()) (awaitf (if bledger a = [] then Return () else writef (RecordMany c (bledger a))) (\<lambda>_.
          redrivePages c mx n (last qs)))))) ?U" for qs
      by (rule worker.does_if [OF ret page]) simp
  qed
  then show ?case unfolding redrivePages.simps by (rule worker.does_unlessHalted [OF worker.steady_True(1) ret [OF worker.steady_True(1)]])
qed

lemma does_rerunDeferred: "does D c H (\<lambda>_ _. True) (rerunDeferred c mx n) (\<lambda>_ _ _. True)"
proof -
  have ret: "does D c H (\<lambda>_ _. True) (Return ()) (\<lambda>_ _ _. True)" by (rule worker.does_Return) simp_all
  note un = worker.does_unlessHalted [OF worker.steady_True(1) ret]
  have "does D c H (\<lambda>_ _. True) (tryf (redrivePages c mx n 0) (\<lambda>x. case x of
       Inl e \<Rightarrow> unlessHalted (Return ()) (Throw e) | Inr _ \<Rightarrow> Return ())) (\<lambda>_ _ _. True)"
    by (rule worker.does_tryf [OF does_redrivePages]) (simp_all add: ret un worker.does_Throw)
  then have "does D c H (\<lambda>_ _. True) (if \<not> ok then Return () else unlessHalted (Return ()) (tryf (redrivePages c mx n 0) (\<lambda>x. case x of
       Inl e \<Rightarrow> unlessHalted (Return ()) (Throw e) | Inr _ \<Rightarrow> Return ()))) (\<lambda>_ _ _. True)" for ok
    using ret un by (cases ok) (simp only: simp_thms if_True if_False)+
  then have "does D c H (\<lambda>_ _. True) (awaitf (readf meta_rekeyed) (\<lambda>ok. if \<not> ok then Return ()
      else unlessHalted (Return ()) (tryf (redrivePages c mx n 0) (\<lambda>x. case x of
        Inl e \<Rightarrow> unlessHalted (Return ()) (Throw e) | Inr _ \<Rightarrow> Return ())))) (\<lambda>_ _ _. True)"
    by (rule worker.does_awaitf [rotated]) (rule worker.does_readf, simp_all)
  then show ?thesis unfolding rerunDeferred_def by (rule un)
qed

end
