(* ===== verification/EngineWorkProps.thy ===== *)
theory EngineWorkProps
  imports EngineWorkLoops
begin

text \<open>What holds of a worker in every state it can reach.\<close>

section \<open>Every run keeps the invariant\<close>

definition running :: "deps \<Rightarrow> string \<Rightarrow> worker_system \<Rightarrow> bool" where
  "running D c s \<longleftrightarrow> idle s \<or> keeps D c (whead s) (wtrace s) (wview s) \<and>
     (\<forall>p. wtask s = Some p \<longrightarrow> fwp D (around c (whead s)) (keeps D c (whead s)) p (\<lambda>_ _ _. True) (wtrace s) (wview s))"

definition sound :: "deps \<Rightarrow> string \<Rightarrow> worker_system \<Rightarrow> bool" where
  "sound D c s \<longleftrightarrow> base D c (wtrace s) (wview s) \<and> running D c s"

lemma keeps_base: "keeps D c H tr v \<Longrightarrow> base D c tr v"
  by (simp add: keeps_def)

lemma running_task:
  assumes "running D c s" "wtask s = Some p" "\<not> idle s"
  shows "keeps D c (whead s) (wtrace s) (wview s)"
    "fwp D (around c (whead s)) (keeps D c (whead s)) p (\<lambda>_ _ _. True) (wtrace s) (wview s)"
  using assms by (auto simp: running_def)

text \<open>Between two events the database is where the procedure expects it.\<close>

abbreviation going_on :: "deps \<Rightarrow> string \<Rightarrow> worker_system \<Rightarrow> unit flow \<Rightarrow> work_event list \<Rightarrow> view \<Rightarrow> bool" where
  "going_on D c s p tr v \<equiv> keeps D c (whead s) tr v \<and> fwp D (around c (whead s)) (keeps D c (whead s)) p (\<lambda>_ _ _. True) tr v"

lemma sound_resumed: "going_on D c s p (wtrace s) (wview s) \<Longrightarrow> sound D c (resumed p s)"
  unfolding sound_def running_def by (simp add: resumed_def, blast intro: keeps_base)

lemma sound_noted: "going_on D c s p (wtrace s @ [e]) (wview s) \<Longrightarrow> sound D c (noted e (resumed p s))"
  unfolding sound_def running_def by (simp add: resumed_def noted_def, blast intro: keeps_base)

lemma sound_wrote: "going_on D c s p (wtrace s @ [Wrote q]) (wrote (wview s) t) \<Longrightarrow> sound D c (resumed p (wroteTo q t s))"
  unfolding sound_def running_def by (simp add: resumed_def noted_def wroteTo_def wrote_def, blast intro: keeps_base)

lemma sound_begun:
  assumes "sound D c s" "\<And>H. does D c H (\<lambda>_ _. True) p (\<lambda>_ _ _. True)"
  shows "sound D c (begun p s)"
proof (cases "idle s")
  case True
  let ?H = "headSeq (vdb (wview s))"
  have b: "base D c (wtrace s) (wview s)" using assms(1) by (simp add: sound_def)
  then have k: "keeps D c ?H (wtrace s) (wview s)" by (simp add: keeps_def)
  have "fwp D (around c ?H) (keeps D c ?H) p (worker.fine (\<lambda>_ _ _. True)) (wtrace s) (wview s)"
    using assms(2) k unfolding worker.does_def by blast
  then have "fwp D (around c ?H) (keeps D c ?H) p (\<lambda>_ _ _. True) (wtrace s) (wview s)" by (rule worker.fwp_conseq) simp
  then show ?thesis using b k True by (simp add: begun_def sound_def running_def)
qed (use assms(1) in \<open>simp add: begun_def\<close>)

lemma sound_idle: "sound D c s \<Longrightarrow> idle (s\<lparr>wtask := x\<rparr>) \<Longrightarrow> sound D c (s\<lparr>wtask := x\<rparr>)"
  by (simp add: sound_def running_def)

lemma sound_halted: "sound D c s \<Longrightarrow> sound D c (s\<lparr>whalted := b\<rparr>)"
  by (simp add: sound_def running_def idle_def)

lemma sound_event:
  assumes "sound D c s"
  shows "sound D c (workEvent D c mx now e s)"
proof (cases "idle s")
  case True
  show ?thesis
  proof (cases e)
    case (StartAttach n)
    then show ?thesis using sound_begun [OF assms does_attach] by simp
  next
    case (StartRedrive n)
    then show ?thesis using sound_begun [OF assms does_rerunDeferred] by simp
  next
    case Halt
    then show ?thesis using sound_halted [OF assms] by simp
  next
    case Die
    then show ?thesis using sound_idle [OF assms] by (simp add: idle_def)
  qed (use True assms in \<open>auto simp: idle_def stepTask_def failWrite_def split: option.splits flow.splits\<close>)
next
  case False
  then obtain p where p: "wtask s = Some p" by (auto simp: idle_def split: option.splits)
  let ?H = "whead s"
  have r: "running D c s" using assms by (simp add: sound_def)
  note k = running_task(1) [OF r p False]
  note f = running_task(2) [OF r p False]
  have R: "around c ?H (wview s) (wview s)" by (rule worker.R_refl)
  have wf: "sound D c (resumed (g (Some y)) s)" if "p = Write q g" for q g y
    by (rule sound_resumed) (use f R k that in simp)
  have wr: "sound D c (resumed (g x) (wroteTo q t s))" if "p = Write q g" "writeEffect D now q (vdb (wview s)) = Some t" for q g t x
  proof (rule sound_wrote)
    have "fwp D (around c ?H) (keeps D c ?H) (Write q g) (\<lambda>_ _ _. True) (wtrace s) (wview s)" using f that(1) by simp
    from this [unfolded fwp.simps, rule_format, OF R k, THEN conjunct2, rule_format, OF that(2)]
    show "going_on D c s (g x) (wtrace s @ [Wrote q]) (wrote (wview s) t)" by blast
  qed
  show ?thesis
  proof (cases e)
    case (StartAttach n)
    then show ?thesis using sound_begun [OF assms does_attach] by simp
  next
    case (StartRedrive n)
    then show ?thesis using sound_begun [OF assms does_rerunDeferred] by simp
  next
    case Halt
    then show ?thesis using sound_halted [OF assms] by simp
  next
    case Step
    show ?thesis
    proof (cases p)
      case (Halted g)
      then show ?thesis using Step p f R k sound_resumed [of D c s] by (simp add: stepTask_def)
    next
      case (Look g)
      then show ?thesis using Step p f R k sound_resumed [of D c s] by (simp add: stepTask_def)
    next
      case (Write q g)
      then show ?thesis using Step p wr wf by (auto simp: stepTask_def split: option.splits)
    qed (use Step p assms in \<open>simp_all add: stepTask_def\<close>)
  next
    case (ReadFails y)
    show ?thesis
    proof (cases p)
      case (Look g)
      then show ?thesis using ReadFails p f R k sound_resumed [of D c s] by simp
    qed (use ReadFails p assms in simp_all)
  next
    case (WriteFails y took)
    show ?thesis
    proof (cases p)
      case (Write q g)
      then show ?thesis using WriteFails p wr wf by (auto simp: failWrite_def split: option.splits)
    qed (use WriteFails p assms in \<open>simp_all add: failWrite_def\<close>)
  next
    case (Admitted x)
    show ?thesis
    proof (cases p)
      case (Acquire u g)
      then show ?thesis using Admitted p f R k sound_resumed [of D c s] by simp
    qed (use Admitted p assms in simp_all)
  next
    case (MatchAnswer b)
    show ?thesis
    proof (cases p)
      case (Matches ch g)
      then show ?thesis using MatchAnswer p f R k keeps_more [OF k] sound_noted [of D c s] by simp
    qed (use MatchAnswer p assms in simp_all)
  next
    case (WorkAnswer a)
    show ?thesis
    proof (cases p)
      case (Work ch n g)
      then show ?thesis using WorkAnswer p f R k keeps_more [OF k] sound_noted [of D c s] by simp
    qed (use WorkAnswer p assms in simp_all)
  next
    case Die
    then show ?thesis using sound_idle [OF assms] by (simp add: idle_def)
  qed
qed

lemma sound_elsewhere:
  assumes "sound D c s" "outside D c s v"
  shows "sound D c (s\<lparr>wview := v\<rparr>)"
proof -
  let ?u = "wview s"
  have o: "store_inv D (vdb v)" "carries (vdb ?u) (vdb v)" "vcut v \<le> vfloor v" "vfloor v \<le> headSeq (vdb v)"
    "consumers (vdb v) c = consumers (vdb ?u) c \<or> consumers (vdb v) c = None"
    "consumers (vdb v) (seedConsumerName c) = consumers (vdb ?u) (seedConsumerName c)"
    using assms(2) by (auto simp: outside_def Let_def)
  have b: "view_ok D ?u" "covered c (wtrace s) ?u" "promised c (wtrace s)" using assms(1) by (simp_all add: sound_def base_def)
  have base: "base D c (wtrace s) v"
    using view_ok_carries [OF b(1) o(2,1,3,4)] covered_carries [OF b(2) o(2,5,6)] b(3) by (simp add: base_def)
  show ?thesis
  proof (cases "idle s")
    case True
    then show ?thesis using base by (simp add: sound_def running_def idle_def)
  next
    case False
    then obtain p where p: "wtask s = Some p" by (auto simp: idle_def split: option.splits)
    have r: "running D c s" using assms(1) by (simp add: sound_def)
    note k = running_task(1) [OF r p False]
    have a: "around c (whead s) ?u v" using assms(2) False by (auto simp: outside_def Let_def around_def)
    moreover have "keeps D c (whead s) (wtrace s) v"
    proof -
      have "whead s \<le> headSeq (vdb v)" using keeps_view(4) [OF k] o(2) by (simp add: carries_def)
      then show ?thesis using base by (simp add: keeps_def)
    qed
    ultimately show ?thesis
      using base p worker.fwp_stable [OF running_task(2) [OF r p False]] by (simp add: sound_def running_def)
  qed
qed

lemma at_work_sound: "at_work D c mx s \<Longrightarrow> sound D c s"
proof (induction rule: at_work.induct)
  case (opened v)
  then show ?case by (simp add: sound_def base_def view_ok_def covered_def promised_def due_def running_def idle_def)
qed (rule sound_event sound_elsewhere, assumption+)+

section \<open>Two runs\<close>

definition sample_start :: "store \<Rightarrow> worker_system" where
  "sample_start s = \<lparr>wview = \<lparr>vdb = s, vfloor = 0, vcut = 0\<rparr>, wtask = None, whalted = False, whead = 0, wtrace = []\<rparr>"

fun run_of :: "worker_event list \<Rightarrow> worker_system \<Rightarrow> worker_system" where
  "run_of [] s = s"
| "run_of (e # es) s = run_of es (workEvent sample_deps ''w'' 1 7 e s)"

lemma at_work_run: "at_work sample_deps ''w'' 1 s \<Longrightarrow> at_work sample_deps ''w'' 1 (run_of es s)"
  by (induction es arbitrary: s) (simp_all add: at_work.event)

text \<open>A fresh worker is seeded: it takes the parent, wants nothing of the child, and its page is written.\<close>

definition seed_events :: "worker_event list" where
  "seed_events = [StartAttach (Suc (Suc (Suc (Suc 0)))), Step, Step, Step, Step, Step, Step, Step, Step,
     Step, MatchAnswer (Some True), WorkAnswer (Worked None [] []), Step, MatchAnswer (Some False),
     Admitted None, Step, Step, Step, Step]"

text \<open>Evaluation goes to the next await and no further: continuations stay as they are.\<close>

lemma flow_congs:
  "Look k = Look k" "Halted h = Halted h" "Write q w = Write q w" "Acquire u a = Acquire u a"
  "Matches ch m = Matches ch m" "Work ch n wk = Work ch n wk"
  by simp_all

lemma awaitf_cong: "p = q \<Longrightarrow> awaitf p k = awaitf q k" and tryf_cong: "r = t \<Longrightarrow> tryf r l = tryf t l"
  by simp_all

lemma awaitf_simps:
  "awaitf (Return a) k = k a" "awaitf (Throw e) k = Throw e" "awaitf (Halted h) k = Halted (\<lambda>x. awaitf (h x) k)"
  "awaitf (Look l) k = Look (\<lambda>x. awaitf (l x) k)" "awaitf (Write q w) k = Write q (\<lambda>x. awaitf (w x) k)"
  "awaitf (Acquire u a') k = Acquire u (\<lambda>x. awaitf (a' x) k)" "awaitf (Matches ch m) k = Matches ch (\<lambda>x. awaitf (m x) k)"
  "awaitf (Work ch n v) k = Work ch n (\<lambda>x. awaitf (v x) k)"
  by (simp_all add: awaitf_def)

lemmas flow_eval = awaitf_simps readf_def viewf_def writef_def unlessHalted_def
lemmas event_eval = begun_def idle_def stepTask_def failWrite_def resumed_def noted_def wroteTo_def run_of.simps

lemmas batch_eval = newBatch_def addResult_def noteWorked_def noteSeen_def seenBefore_def workedResult_def entryFor_def
  docBytes_def enrichBytes_def optBytes_def SUB_COMMIT_BYTES_def nothingIn_def flushed_def writeBatch_def

lemmas commit_eval = commit_def publishing_def commitConsumer_def setCursor_def moveCursor_def recordEntry_def ledgerUpsert_def
  clearAttempts_def consumerDocuments_def ebind_def

text \<open>A worker that owes the parent: it was deferred, and the re-drive has it enriched.\<close>

definition owing :: store where
  "owing = (stocked None)\<lparr>meta_rekeyed := True,
     work_ledger := [\<lparr>lconsumer = ''w'', lseq = 1, lattempts = 1, loutcome = Some Deferred, lupdated_at = 0\<rparr>]\<rparr>"

definition redrive_events :: "worker_event list" where
  "redrive_events = [StartRedrive (Suc 0), Step, Step, Step, Step, Step, Step, Step, MatchAnswer (Some True),
     WorkAnswer (Worked None [] [\<lparr>en_documentId = ''P'', en_markdown = None, en_metadata = Some [(''k'', JNum 1)]\<rparr>]),
     Admitted None, Step, Step, Step]"

lemmas seed_eval = attach_def seedConsumer_def seedFrom_def consumerCursor_def seedPage_def SEED_PAGE_def workOne_def
  flushSeed_def beginSeed_def endSeed_def headSeq_def maxSeq_def seedConsumerName_def

lemmas redrive_eval = rerunDeferred_def ledger_key_def ledgerDeferred_def REDRIVE_PAGE_def changesAt_def unresolved_def workOne_def
  flushRedrive_def recordMany_def maxSeq_def seedConsumerName_def headSeq_def enrichOne_def docById_def obj_spread_def updDoc_def appendChange_def upd_where_def

lemmas sample_eval = sample_start_def stocked_def two_accounts_def empty_store_def sample_doc_def

lemma seed_run:
  "let v = vdb (wview (run_of seed_events (sample_start (stocked None)))) in documents v = documents (stocked None) \<and>
     consumers v ''w'' = Some 2 \<and> consumers v ''seed:w'' = None"
  by (simp add: flow_eval event_eval batch_eval commit_eval seed_eval seed_events_def sample_eval Let_def
      cong: flow_congs awaitf_cong tryf_cong)

lemma redrive_run:
  "let tr = wtrace (run_of redrive_events (sample_start owing)) in length tr = 4 \<and>
     tr ! 3 = Wrote (RecordMany ''w'' [\<lparr>le_seq = 1, le_attempts = 1, le_outcome = Some Done\<rparr>])"
  by (simp add: flow_eval event_eval batch_eval commit_eval redrive_eval redrive_events_def owing_def sample_eval Let_def
      cong: flow_congs awaitf_cong tryf_cong)

lemma sample_opened: "store_inv sample_deps s \<Longrightarrow> (\<forall>d \<in> set (documents s). 0 < seq d) \<Longrightarrow> consumers s ''w'' = None \<Longrightarrow>
    at_work sample_deps ''w'' 1 (run_of es (sample_start s))"
  unfolding sample_start_def by (rule at_work_run, rule at_work.opened) simp_all

section \<open>The properties\<close>

text \<open>
  C3: A worker is not passed by. In every state a worker can reach (any reads and writes failing or losing their
  reply, the signal raised, the process killed, other writers and the pruner in between), a live document at or
  below the worker's cursor (and, while it is being seeded, at or below the seed's cursor) was offered to the
  worker in its present version; if the worker wanted it, it was worked, and its outcome and its outputs are written.
\<close>

theorem no_document_is_passed_by:
  assumes "at_work D c mx s" "d \<in> set (documents (vdb (wview s)))" "archived_at d = None"
    and "consumers (vdb (wview s)) c = Some k" "seq d \<le> k"
    and "case consumers (vdb (wview s)) (seedConsumerName c) of None \<Rightarrow> True | Some p \<Rightarrow> seq d \<le> p"
  shows "handled c (wtrace s) (did d) (seq d)"
proof -
  have "covered c (wtrace s) (wview s)" using at_work_sound [OF assms(1)] by (simp add: sound_def base_def)
  moreover have "due c (wview s) d" using assms(3-6) by (simp add: due_def)
  ultimately show ?thesis using assms(2) by (simp add: covered_def)
qed

theorem no_document_is_passed_by_witness:
  "handled ''w'' (wtrace (run_of seed_events (sample_start (stocked None)))) ''P'' 1"
proof -
  let ?s = "run_of seed_events (sample_start (stocked None))"
  let ?d = "sample_doc 1 ''P'' ''p'' None None"
  have w: "at_work sample_deps ''w'' 1 ?s"
    by (rule sample_opened [OF store_inv_stocked]) (simp_all add: sample_eval Let_def)
  note r = seed_run [unfolded Let_def]
  have d: "?d \<in> set (documents (vdb (wview ?s)))" using r by (simp add: stocked_def Let_def)
  have "handled ''w'' (wtrace ?s) (did ?d) (seq ?d)"
    by (rule no_document_is_passed_by [OF w d, where k = 2]) (use r in \<open>simp_all add: sample_doc_def seedConsumerName_def\<close>)
  then show ?thesis by (simp add: sample_doc_def)
qed

text \<open>
  C6: A re-drive takes a deferral off the ledger only after its outputs are written: when it records an outcome
  other than a skip, a run of the worker on that change came to this result, and what it emitted was committed before.
\<close>

theorem deferral_is_settled_after_its_output:
  assumes "at_work D c mx s" "n < length (wtrace s)" "wtrace s ! n = Wrote (RecordMany c' es)" "e \<in> set es"
    and "le_outcome e \<noteq> Some Skip"
  shows "\<exists>ch r. e = entryFor ch r \<and> cameFrom (take n (wtrace s)) ch r \<and> committed c (take n (wtrace s)) r"
proof -
  have "promised c (wtrace s)" using at_work_sound [OF assms(1)] by (simp add: sound_def base_def)
  then have "resolves c (take n (wtrace s)) e" using assms(2-4) by (auto simp: promised_def)
  moreover have "e \<noteq> skipEntry (le_seq e)" using assms(5) by (auto simp: skipEntry_def dest: arg_cong [of _ _ le_outcome])
  ultimately show ?thesis by (auto simp: resolves_def)
qed

theorem deferral_is_settled_after_its_output_witness:
  "\<exists>ch r. \<lparr>le_seq = 1, le_attempts = 1, le_outcome = Some Done\<rparr> = entryFor ch r \<and>
     committed ''w'' (take 3 (wtrace (run_of redrive_events (sample_start owing)))) r"
proof -
  let ?s = "run_of redrive_events (sample_start owing)"
  have "same_corpus (stocked None) owing" by (simp add: same_corpus_def owing_def)
  then have "store_inv sample_deps owing" using same_corpus_inv store_inv_stocked by blast
  then have w: "at_work sample_deps ''w'' 1 ?s"
    by (rule sample_opened) (simp_all add: owing_def sample_eval Let_def)
  note r = redrive_run [unfolded Let_def]
  show ?thesis
    using deferral_is_settled_after_its_output [OF w, of 3 "''w''" "[\<lparr>le_seq = 1, le_attempts = 1, le_outcome = Some Done\<rparr>]"
      "\<lparr>le_seq = 1, le_attempts = 1, le_outcome = Some Done\<rparr>"] r by auto
qed

end
