(* ===== verification/ChangesPrune.thy ===== *)
theory ChangesPrune
  imports EngineWork
begin

text \<open>
  \<open>pruneChangesOnce\<close> of src/main/core/changes-maintenance.ts, over the statements of src/main/core/store/store.ts
  it uses: how far the change log may be cut, and the cutting. Other writers run between its statements. The
  write-ahead log is left out.
\<close>

section \<open>The log and its reads\<close>

record prune_db =
  plog :: "change_row list"
  pfloor :: "nat option"
  pcursors :: "string \<Rightarrow> nat option"
  prekeyed :: bool

text \<open>\<open>WHERE seq >= ? ORDER BY seq LIMIT 1\<close>.\<close>

definition rowFrom :: "nat \<Rightarrow> change_row list \<Rightarrow> change_row option" where
  "rowFrom q log = (case sort_key cseq (filter (\<lambda>r. q \<le> cseq r) log) of [] \<Rightarrow> None | r # _ \<Rightarrow> Some r)"

lemma rowFrom_Some: "rowFrom q log = Some r \<Longrightarrow> r \<in> set log \<and> q \<le> cseq r \<and> (\<forall>x \<in> set log. q \<le> cseq x \<longrightarrow> cseq r \<le> cseq x)"
proof -
  let ?xs = "sort_key cseq (filter (\<lambda>r. q \<le> cseq r) log)"
  assume "rowFrom q log = Some r"
  then obtain rs where xs: "?xs = r # rs" by (auto simp: rowFrom_def split: list.splits)
  have "sorted (map cseq ?xs)" by simp
  then have "\<forall>x \<in> set ?xs. cseq r \<le> cseq x" unfolding xs by auto
  moreover have "r \<in> set ?xs" unfolding xs by simp
  ultimately show ?thesis by simp
qed

lemma rowFrom_None: "rowFrom q log = None \<longleftrightarrow> (\<forall>x \<in> set log. cseq x < q)"
proof -
  have "rowFrom q log = None \<longleftrightarrow> sort_key cseq (filter (\<lambda>r. q \<le> cseq r) log) = []"
    by (simp add: rowFrom_def split: list.splits)
  also have "\<dots> \<longleftrightarrow> filter (\<lambda>r. q \<le> cseq r) log = []" by (metis length_0_conv length_sort)
  finally show ?thesis by (auto simp: filter_empty_conv not_le)
qed

text \<open>
  The bisection of \<open>firstSeqAtOrAfter\<close>: every row below \<open>lo\<close> is older than \<open>since\<close>, the first row from \<open>hi\<close> on, if
  any, is not.
\<close>

function bisect :: "time \<Rightarrow> change_row list \<Rightarrow> nat \<Rightarrow> nat \<Rightarrow> nat" where
  "bisect since log lo hi = (if lo < hi then
     let mid = (lo + hi) div 2 in
     case rowFrom mid log of
       None \<Rightarrow> bisect since log lo mid
     | Some r \<Rightarrow> if since \<le> cat r then bisect since log lo mid else bisect since log (Suc (cseq r)) hi
     else lo)"
  by pat_completeness auto
termination
proof (relation "measure (\<lambda>(since, log, lo, hi). hi - lo)")
  fix since log lo hi mid r
  assume h: "lo < hi" "mid = (lo + hi) div 2" "rowFrom mid log = Some r" "\<not> since \<le> cat r"
  have "mid \<le> cseq r" using rowFrom_Some [OF h(3)] by blast
  then show "((since, log, Suc (cseq r), hi), (since, log, lo, hi)) \<in> measure (\<lambda>(since, log, lo, hi). hi - lo)"
    using h(1,2) by auto
qed auto

declare bisect.simps [simp del]

definition firstSeqAtOrAfter :: "time \<Rightarrow> change_row list \<Rightarrow> nat" where
  "firstSeqAtOrAfter since log = (if log = [] then 1 else
     let top = Max (cseq ` set log); lo = bisect since log (Min (cseq ` set log)) (Suc top) in
     case rowFrom lo log of Some r \<Rightarrow> cseq r | None \<Rightarrow> Suc top)"

definition consumerFloor :: "string list \<Rightarrow> prune_db \<Rightarrow> nat option" where
  "consumerFloor names db = (let cs = List.map_filter (pcursors db) names in if cs = [] then None else Some (Min (set cs)))"

definition logHead :: "change_row list \<Rightarrow> nat" where
  "logHead log = foldr max (map cseq log) 0"

section \<open>The writes\<close>

text \<open>The floor is never lowered.\<close>

definition publishChangesFloor :: "nat \<Rightarrow> prune_db \<Rightarrow> prune_db" where
  "publishChangesFloor limit db = db\<lparr>pfloor := Some (case pfloor db of None \<Rightarrow> limit | Some f \<Rightarrow> max f limit)\<rparr>"

definition lowest :: "nat \<Rightarrow> nat \<Rightarrow> change_row list \<Rightarrow> nat list" where
  "lowest limit batch log = take batch (map cseq (sort_key cseq (filter (\<lambda>r. cseq r < limit) log)))"

definition deleteChangesBelow :: "nat \<Rightarrow> nat \<Rightarrow> prune_db \<Rightarrow> nat \<times> prune_db" where
  "deleteChangesBelow limit batch db = (if batch = 0 then (0, db) else
     let gone = lowest limit batch (plog db); rest = filter (\<lambda>r. cseq r \<notin> set gone) (plog db) in
     (length (plog db) - length rest, db\<lparr>plog := rest\<rparr>))"

section \<open>One run\<close>

definition CHANGES_RETENTION_MS :: time where "CHANGES_RETENTION_MS = 48 * 3600000"
definition PRUNE_BATCH :: nat where "PRUNE_BATCH = 50000"

datatype prune_result =
    RekeyPending
  | NoConsumers
  | Pruned nat nat nat

text \<open>
  \<open>env k\<close> is what the others do before the \<open>k\<close>-th statement; \<open>fuel\<close> the windows at most. None is a run that is not
  through after them.
\<close>

fun pruneLoop :: "(nat \<Rightarrow> prune_db \<Rightarrow> prune_db) \<Rightarrow> nat \<Rightarrow> nat \<Rightarrow> nat \<Rightarrow> nat \<Rightarrow> nat \<Rightarrow> nat \<Rightarrow> prune_db \<Rightarrow> (prune_result \<times> prune_db) option" where
  "pruneLoop env k limit batch deleted batches 0 db = None"
| "pruneLoop env k limit batch deleted batches (Suc fuel) db =
     (let (n, db') = deleteChangesBelow limit batch (env k db) in
      if n = 0 then Some (Pruned limit deleted batches, db')
      else pruneLoop env (Suc k) limit batch (deleted + n) (Suc batches) fuel db')"

definition pruneChangesOnce :: "(nat \<Rightarrow> prune_db \<Rightarrow> prune_db) \<Rightarrow> (unit \<Rightarrow> string list) \<Rightarrow> time \<Rightarrow> nat \<Rightarrow> nat \<Rightarrow> prune_db \<Rightarrow>
    (prune_result \<times> prune_db) option" where
  "pruneChangesOnce env active now batch fuel db0 =
     (let db1 = env 0 db0 in
      if \<not> prekeyed db1 then Some (RekeyPending, db1)
      else let db2 = env 1 db1 in
      case consumerFloor (active ()) db2 of
        None \<Rightarrow> Some (NoConsumers, db2)
      | Some floor \<Rightarrow>
          let db3 = env 2 db2; cutoffSeq = firstSeqAtOrAfter (now - CHANGES_RETENTION_MS) (plog db3);
              db4 = env 3 db3; head = logHead (plog db4);
              limit = min floor (min cutoffSeq head);
              db5 = publishChangesFloor limit (env 4 db4)
          in pruneLoop env 5 limit batch 0 0 fuel db5)"

section \<open>The bisection finds the first row that is not older\<close>

text \<open>The log's times go with its seqs.\<close>

definition in_time :: "change_row list \<Rightarrow> bool" where
  "in_time log \<longleftrightarrow> (\<forall>x \<in> set log. \<forall>y \<in> set log. cseq x \<le> cseq y \<longrightarrow> cat x \<le> cat y)"

text \<open>What it is to find: the least seq of a row that is not older, or the one after the newest.\<close>

definition firstNotOlder :: "time \<Rightarrow> change_row list \<Rightarrow> nat" where
  "firstNotOlder since log = (let young = cseq ` set (filter (\<lambda>r. since \<le> cat r) log) in
     if young \<noteq> {} then Min young else if log = [] then 1 else Suc (Max (cseq ` set log)))"

lemma bisect_sound:
  assumes "in_time log" "lo \<le> hi" "\<forall>x \<in> set log. cseq x < lo \<longrightarrow> cat x < since" "\<forall>x \<in> set log. hi \<le> cseq x \<longrightarrow> since \<le> cat x"
  shows "(\<forall>x \<in> set log. cseq x < bisect since log lo hi \<longrightarrow> cat x < since) \<and> (\<forall>x \<in> set log. bisect since log lo hi \<le> cseq x \<longrightarrow> since \<le> cat x)"
  using assms
proof (induction since log lo hi rule: bisect.induct)
  case (1 since log lo hi)
  show ?case
  proof (cases "lo < hi")
    case False
    then show ?thesis using "1.prems" by (subst (1 2) bisect.simps) simp
  next
    case True
    let ?mid = "(lo + hi) div 2"
    have mid: "lo \<le> ?mid" "?mid \<le> hi" using True by auto
    show ?thesis
    proof (cases "rowFrom ?mid log")
      case None
      then have "\<forall>x \<in> set log. ?mid \<le> cseq x \<longrightarrow> since \<le> cat x" by (auto simp: rowFrom_None)
      moreover have "bisect since log lo hi = bisect since log lo ?mid" using True None by (subst bisect.simps) simp
      ultimately show ?thesis using "1.IH"(1) [OF True refl None "1.prems"(1) mid(1) "1.prems"(3)] by simp
    next
      case (Some r)
      note r = rowFrom_Some [OF Some]
      show ?thesis
      proof (cases "since \<le> cat r")
        case young: True
        have "\<forall>x \<in> set log. ?mid \<le> cseq x \<longrightarrow> since \<le> cat x" using r young "1.prems"(1) unfolding in_time_def by force
        moreover have "bisect since log lo hi = bisect since log lo ?mid" using True Some young by (subst bisect.simps) simp
        ultimately show ?thesis using "1.IH"(2) [OF True refl Some young "1.prems"(1) mid(1) "1.prems"(3)] by simp
      next
        case old: False
        have "cseq r < hi" using r old "1.prems"(4) by (auto simp: not_le [symmetric])
        moreover have "\<forall>x \<in> set log. cseq x < Suc (cseq r) \<longrightarrow> cat x < since"
          using r old "1.prems"(1) unfolding in_time_def by force
        moreover have "bisect since log lo hi = bisect since log (Suc (cseq r)) hi" using True Some old by (subst bisect.simps) simp
        ultimately show ?thesis using "1.IH"(3) [OF True refl Some old "1.prems"(1) _ _ "1.prems"(4)] by simp
      qed
    qed
  qed
qed

lemma firstSeqAtOrAfter_eq:
  assumes "in_time log"
  shows "firstSeqAtOrAfter since log = firstNotOlder since log"
proof (cases "log = []")
  case True
  then show ?thesis by (simp add: firstSeqAtOrAfter_def firstNotOlder_def)
next
  case False
  let ?min = "Min (cseq ` set log)" and ?top = "Max (cseq ` set log)"
  let ?lo = "bisect since log ?min (Suc ?top)"
  have in_range: "?min \<le> cseq x \<and> cseq x \<le> ?top" if "x \<in> set log" for x using that by simp
  have "?min \<le> Suc ?top" using False in_range by (metis (no_types) last_in_set le_SucI le_trans)
  moreover have "\<forall>x \<in> set log. cseq x < ?min \<longrightarrow> cat x < since" "\<forall>x \<in> set log. Suc ?top \<le> cseq x \<longrightarrow> since \<le> cat x"
    using in_range by (meson not_le not_less_eq_eq)+
  ultimately have b: "\<forall>x \<in> set log. cseq x < ?lo \<longrightarrow> cat x < since" "\<forall>x \<in> set log. ?lo \<le> cseq x \<longrightarrow> since \<le> cat x"
    using bisect_sound [OF assms, of ?min "Suc ?top" since] by blast+
  let ?young = "cseq ` set (filter (\<lambda>r. since \<le> cat r) log)"
  show ?thesis
  proof (cases "rowFrom ?lo log")
    case None
    then have "\<forall>x \<in> set log. cseq x < ?lo" by (simp add: rowFrom_None)
    then have "\<forall>x \<in> set log. cat x < since" using b(1) by blast
    then have "filter (\<lambda>r. since \<le> cat r) log = []" by (auto simp: filter_empty_conv not_le)
    then show ?thesis using None False by (simp add: firstSeqAtOrAfter_def firstNotOlder_def Let_def)
  next
    case (Some r)
    note r = rowFrom_Some [OF Some]
    have y: "cseq r \<in> ?young" using r b(2) by auto
    have "cseq r \<le> q" if q: "q \<in> ?young" for q
    proof -
      obtain x where "x \<in> set log" "since \<le> cat x" "q = cseq x" using q by auto
      then have "?lo \<le> cseq x" using b(1) by (meson not_le)
      then show ?thesis using r \<open>x \<in> set log\<close> \<open>q = cseq x\<close> by blast
    qed
    then have "Min ?young = cseq r" using y by (intro Min_eqI) auto
    then show ?thesis using Some False y by (auto simp: firstSeqAtOrAfter_def firstNotOlder_def Let_def)
  qed
qed

section \<open>What a run takes\<close>

text \<open>
  The others only add rows at the end of the log, in time, leave the floor alone, and move the cursors of the
  attached workers forward.
\<close>

definition benign :: "(nat \<Rightarrow> prune_db \<Rightarrow> prune_db) \<Rightarrow> string list \<Rightarrow> bool" where
  "benign env names \<longleftrightarrow> (\<forall>k db.
     (\<exists>new. plog (env k db) = plog db @ new \<and> (\<forall>r \<in> set new. \<forall>x \<in> set (plog db). cseq x < cseq r)) \<and>
     (in_time (plog db) \<longrightarrow> in_time (plog (env k db))) \<and> pfloor (env k db) = pfloor db \<and>
     (\<forall>c \<in> set names. \<forall>q. pcursors db c = Some q \<longrightarrow> (\<exists>p \<ge> q. pcursors (env k db) c = Some p)))"

lemma benignD:
  assumes "benign env names"
  shows "r \<in> set (plog db) \<Longrightarrow> r \<in> set (plog (env k db))"
    "r \<in> set (plog (env k db)) \<Longrightarrow> r \<notin> set (plog db) \<Longrightarrow> x \<in> set (plog db) \<Longrightarrow> cseq x < cseq r"
    "in_time (plog db) \<Longrightarrow> in_time (plog (env k db))" "pfloor (env k db) = pfloor db"
    "c \<in> set names \<Longrightarrow> pcursors db c = Some q \<Longrightarrow> \<exists>p \<ge> q. pcursors (env k db) c = Some p"
    "\<exists>new. plog (env k db) = plog db @ new \<and> (\<forall>r \<in> set new. \<forall>x \<in> set (plog db). cseq x < cseq r)"
proof -
  obtain new where n: "plog (env k db) = plog db @ new" "\<forall>r \<in> set new. \<forall>x \<in> set (plog db). cseq x < cseq r"
    using assms unfolding benign_def by meson
  show "r \<in> set (plog db) \<Longrightarrow> r \<in> set (plog (env k db))" using n(1) by simp
  show "r \<in> set (plog (env k db)) \<Longrightarrow> r \<notin> set (plog db) \<Longrightarrow> x \<in> set (plog db) \<Longrightarrow> cseq x < cseq r" using n by auto
  show "\<exists>new. plog (env k db) = plog db @ new \<and> (\<forall>r \<in> set new. \<forall>x \<in> set (plog db). cseq x < cseq r)" using n by blast
qed (use assms in \<open>unfold benign_def, blast\<close>)+

lemma lowest_below: "q \<in> set (lowest limit batch log) \<Longrightarrow> q < limit"
proof -
  assume "q \<in> set (lowest limit batch log)"
  then have "q \<in> set (map cseq (sort_key cseq (filter (\<lambda>r. cseq r < limit) log)))"
    unfolding lowest_def by (rule in_set_takeD)
  then show "q < limit" by auto
qed

lemma lowest_some:
  assumes "r \<in> set log" "cseq r < limit" "0 < batch"
  shows "\<exists>x \<in> set log. cseq x \<in> set (lowest limit batch log)"
proof -
  let ?xs = "map cseq (sort_key cseq (filter (\<lambda>r. cseq r < limit) log))"
  have "cseq r \<in> set ?xs" using assms(1,2) by simp
  then have ne: "?xs \<noteq> []" by (metis list.distinct(1) list.set_cases)
  then have "hd ?xs \<in> set (take batch ?xs)" using assms(3) by (cases ?xs; cases batch) auto
  moreover have "hd ?xs \<in> set ?xs" using ne by (rule hd_in_set)
  then have "\<exists>x \<in> set log. cseq x = hd ?xs" by auto
  ultimately show ?thesis unfolding lowest_def by metis
qed

lemma deleteChangesBelow_keeps:
  assumes "deleteChangesBelow limit batch db = (n, db')"
  shows "r \<in> set (plog db') \<Longrightarrow> r \<in> set (plog db)" "r \<in> set (plog db) \<Longrightarrow> limit \<le> cseq r \<Longrightarrow> r \<in> set (plog db')"
    "pfloor db' = pfloor db" "pcursors db' = pcursors db"
  using assms lowest_below by (fastforce simp: deleteChangesBelow_def Let_def split: if_splits)+

lemma deleteChangesBelow_count:
  assumes "deleteChangesBelow limit batch db = (n, db')" "0 < batch"
  shows "n = 0 \<Longrightarrow> \<forall>r \<in> set (plog db'). limit \<le> cseq r"
    "n \<noteq> 0 \<Longrightarrow> length (filter (\<lambda>r. cseq r < limit) (plog db')) < length (filter (\<lambda>r. cseq r < limit) (plog db))"
proof -
  let ?gone = "lowest limit batch (plog db)"
  have d: "n = length (plog db) - length (plog db')" "plog db' = filter (\<lambda>r. cseq r \<notin> set ?gone) (plog db)"
    using assms by (auto simp: deleteChangesBelow_def Let_def)
  show "\<forall>r \<in> set (plog db'). limit \<le> cseq r" if n: "n = 0"
  proof (intro ballI)
    fix r assume r: "r \<in> set (plog db')"
    show "limit \<le> cseq r"
    proof (rule ccontr)
      assume "\<not> limit \<le> cseq r"
      then obtain x where "x \<in> set (plog db)" "cseq x \<in> set ?gone" using lowest_some r d(2) assms(2) by (metis filter_is_subset not_le subsetD)
      then have "length (plog db') < length (plog db)" unfolding d(2) by (intro length_filter_less) auto
      then show False using n d(1) by simp
    qed
  qed
  show "length (filter (\<lambda>r. cseq r < limit) (plog db')) < length (filter (\<lambda>r. cseq r < limit) (plog db))" if n: "n \<noteq> 0"
  proof -
    have "plog db' \<noteq> plog db" using n d(1) by auto
    then obtain x where x: "x \<in> set (plog db)" "cseq x \<in> set ?gone" unfolding d(2) by (metis (mono_tags, lifting) filter_True)
    then have "x \<in> set (filter (\<lambda>r. cseq r < limit) (plog db))" using lowest_below by simp
    moreover have "filter (\<lambda>r. cseq r < limit) (plog db') = filter (\<lambda>r. cseq r \<notin> set ?gone) (filter (\<lambda>r. cseq r < limit) (plog db))"
      unfolding d(2) by (simp add: conj_commute)
    ultimately show ?thesis using x(2) by (metis (no_types, lifting) length_filter_less)
  qed
qed

lemma pruneLoop_keeps:
  assumes "pruneLoop env k limit batch dn bn fuel db = Some (res, db')" "benign env names" "0 < batch"
  shows "(\<forall>r \<in> set (plog db). limit \<le> cseq r \<longrightarrow> r \<in> set (plog db')) \<and> (\<forall>r \<in> set (plog db'). limit \<le> cseq r) \<and>
     pfloor db' = pfloor db \<and> (\<exists>d b. res = Pruned limit d b) \<and>
     (\<forall>c \<in> set names. \<forall>q. pcursors db c = Some q \<longrightarrow> (\<exists>p \<ge> q. pcursors db' c = Some p))"
  using assms(1)
proof (induction fuel arbitrary: k dn bn db)
  case (Suc fuel)
  obtain n db1 where d: "deleteChangesBelow limit batch (env k db) = (n, db1)" by force
  note e = benignD [OF assms(2)]
  note kd = deleteChangesBelow_keeps [OF d]
  have log: "\<forall>r \<in> set (plog db). limit \<le> cseq r \<longrightarrow> r \<in> set (plog db1)" using e(1) kd(2) by blast
  have cur: "\<forall>c \<in> set names. \<forall>q. pcursors db c = Some q \<longrightarrow> (\<exists>p \<ge> q. pcursors db1 c = Some p)" using e(5) kd(4) by simp
  have fl: "pfloor db1 = pfloor db" using kd(3) e(4) by simp
  show ?case
  proof (cases "n = 0")
    case True
    then have "res = Pruned limit dn bn" "db' = db1" using Suc.prems d by simp_all
    then show ?thesis using log cur fl deleteChangesBelow_count(1) [OF d assms(3) True] by blast
  next
    case False
    then have "pruneLoop env (Suc k) limit batch (dn + n) (Suc bn) fuel db1 = Some (res, db')" using Suc.prems d by simp
    note ih = Suc.IH [OF this]
    have "\<exists>p \<ge> q. pcursors db' c = Some p" if c: "c \<in> set names" "pcursors db c = Some q" for c q
    proof -
      obtain p where "q \<le> p" "pcursors db1 c = Some p" using cur c by blast
      then show ?thesis using ih c(1) le_trans by blast
    qed
    then show ?thesis using log ih fl by simp
  qed
qed simp

lemma pruneLoop_ends:
  assumes "benign env names" "0 < batch" "limit = 0 \<or> (\<exists>x \<in> set (plog db). limit \<le> cseq x)"
    and "length (filter (\<lambda>r. cseq r < limit) (plog db)) < fuel"
  shows "pruneLoop env k limit batch dn bn fuel db \<noteq> None"
  using assms(3,4)
proof (induction fuel arbitrary: k dn bn db)
  case (Suc fuel)
  obtain n db1 where d: "deleteChangesBelow limit batch (env k db) = (n, db1)" by force
  obtain new where new: "plog (env k db) = plog db @ new" "\<forall>r \<in> set new. \<forall>x \<in> set (plog db). cseq x < cseq r"
    using benignD(6) [OF assms(1)] by blast
  show ?case
  proof (cases "n = 0")
    case True
    then show ?thesis using d by simp
  next
    case False
    have "\<not> cseq r < limit" if r: "r \<in> set new" for r
    proof -
      consider "limit = 0" | x where "x \<in> set (plog db)" "limit \<le> cseq x" using Suc.prems(1) by blast
      then show ?thesis using new(2) r by cases (simp, fastforce)
    qed
    then have "filter (\<lambda>r. cseq r < limit) (plog (env k db)) = filter (\<lambda>r. cseq r < limit) (plog db)" unfolding new(1) by simp
    then have len: "length (filter (\<lambda>r. cseq r < limit) (plog db1)) < fuel"
      using deleteChangesBelow_count(2) [OF d assms(2) False] Suc.prems(2) by simp
    have "limit = 0 \<or> (\<exists>x \<in> set (plog db1). limit \<le> cseq x)"
      using Suc.prems(1) benignD(1) [OF assms(1)] deleteChangesBelow_keeps(2) [OF d] by blast
    then have "pruneLoop env (Suc k) limit batch (dn + n) (Suc bn) fuel db1 \<noteq> None" by (rule Suc.IH [OF _ len])
    then show ?thesis using d False by simp
  qed
qed simp

lemma logHead_mem: "log \<noteq> [] \<Longrightarrow> \<exists>x \<in> set log. cseq x = logHead log"
proof -
  have "xs \<noteq> [] \<Longrightarrow> foldr max xs 0 \<in> set xs" for xs :: "nat list"
  proof (induction xs)
    case (Cons a xs)
    then show ?case by (cases "xs = []") (auto simp: max_def)
  qed simp
  note this [of "map cseq log"]
  then show "log \<noteq> [] \<Longrightarrow> \<exists>x \<in> set log. cseq x = logHead log" by (auto simp: logHead_def)
qed

lemma logHead_le: "x \<in> set log \<Longrightarrow> cseq x \<le> logHead log"
  unfolding logHead_def by (induction log) (auto simp: le_max_iff_disj)

lemma consumerFloor_le:
  assumes "consumerFloor names db = Some f" "c \<in> set names" "pcursors db c = Some q"
  shows "f \<le> q"
proof -
  have "q \<in> set (List.map_filter (pcursors db) names)" using assms(2,3) by (force simp: List.map_filter_def)
  then show ?thesis using assms(1) by (auto simp: consumerFloor_def Let_def split: if_splits)
qed

lemma firstNotOlder_le: "r \<in> set log \<Longrightarrow> since \<le> cat r \<Longrightarrow> firstNotOlder since log \<le> cseq r"
  by (auto simp: firstNotOlder_def Let_def intro!: Min_le)

text \<open>The state and the limit with which the deletions start.\<close>

lemma pruneChangesOnce_parts:
  assumes "pruneChangesOnce env active now batch fuel db = Some (Pruned limit d b, db')"
  obtains floor where "consumerFloor (active ()) (env 1 (env 0 db)) = Some floor"
    "limit = min floor (min (firstSeqAtOrAfter (now - CHANGES_RETENTION_MS) (plog (env 2 (env 1 (env 0 db)))))
       (logHead (plog (env 3 (env 2 (env 1 (env 0 db)))))))"
    "pruneLoop env 5 limit batch 0 0 fuel (publishChangesFloor limit (env 4 (env 3 (env 2 (env 1 (env 0 db)))))) = Some (Pruned limit d b, db')"
proof -
  obtain floor where f: "consumerFloor (active ()) (env 1 (env 0 db)) = Some floor"
    using assms by (auto simp: pruneChangesOnce_def Let_def split: if_splits option.splits)
  let ?l = "min floor (min (firstSeqAtOrAfter (now - CHANGES_RETENTION_MS) (plog (env 2 (env 1 (env 0 db)))))
       (logHead (plog (env 3 (env 2 (env 1 (env 0 db)))))))"
  have p: "pruneLoop env 5 ?l batch 0 0 fuel (publishChangesFloor ?l (env 4 (env 3 (env 2 (env 1 (env 0 db)))))) = Some (Pruned limit d b, db')"
    using assms f by (auto simp: pruneChangesOnce_def Let_def split: if_splits)
  have "limit = l" if "pruneLoop env k l batch dn bn fuel s = Some (Pruned limit d b, db')" for k l dn bn fuel s
    using that by (induction fuel arbitrary: k dn bn s) (auto simp: Let_def split: prod.splits if_splits)
  from this [OF p] show ?thesis using that f p by blast
qed

lemma logHead_grows: "set log \<subseteq> set log' \<Longrightarrow> logHead log \<le> logHead log'"
proof (cases "log = []")
  case False
  assume "set log \<subseteq> set log'"
  then show ?thesis using logHead_mem [OF False] logHead_le [of _ log'] by (metis subsetD)
qed (simp add: logHead_def)

section \<open>The properties\<close>

text \<open>
  C40: The bisection over a log with gaps finds what a scan would: the least seq of a row that is not older than the
  given time, or the seq after the newest row when all are older. It needs the rows' times to go with their seqs.
\<close>

theorem first_seq_is_the_first:
  assumes "in_time log"
  shows "firstSeqAtOrAfter since log = firstNotOlder since log"
  by (rule firstSeqAtOrAfter_eq [OF assms])

definition sample_row :: "nat \<Rightarrow> time \<Rightarrow> change_row" where
  "sample_row q t = \<lparr>cseq = q, kind = DocumentChange, ref_id = ''d'', cat = t\<rparr>"

definition sample_log :: "change_row list" where
  "sample_log = [sample_row 3 0, sample_row 40 10, sample_row 41 200000000, sample_row 90 200000005]"

lemma sample_log_in_time: "in_time sample_log"
  by (simp add: in_time_def sample_log_def sample_row_def)

theorem first_seq_is_the_first_witness: "firstSeqAtOrAfter 200000000 sample_log = 41 \<and> firstSeqAtOrAfter 300000000 sample_log = 91"
  using first_seq_is_the_first [OF sample_log_in_time, of 200000000] first_seq_is_the_first [OF sample_log_in_time, of 300000000]
  by (simp add: firstNotOlder_def sample_log_def sample_row_def)

text \<open>
  C38: A prune run that deletes is safe for those who read the log. Whatever rows, younger than all before, and
  whatever cursor moves come in between: no row at or above the limit is taken and none below it is left; all rows of
  the last 48 hours stay and the head does not regress; the limit is not above the cursor of an attached worker that
  had a row when the run began; and the floor that was published before the first deletion is not below the limit.
\<close>

theorem prune_run_spares:
  assumes "pruneChangesOnce env active now batch fuel db = Some (Pruned limit d b, db')"
    and "benign env (active ())" "in_time (plog db)" "0 < batch"
  shows "(\<forall>r \<in> set (plog db). r \<in> set (plog db') \<longleftrightarrow> limit \<le> cseq r) \<and>
     (\<forall>r \<in> set (plog db). now - CHANGES_RETENTION_MS \<le> cat r \<longrightarrow> r \<in> set (plog db')) \<and>
     logHead (plog db) \<le> logHead (plog db') \<and>
     (\<forall>c \<in> set (active ()). \<forall>q. pcursors db c = Some q \<longrightarrow> (\<exists>p. pcursors db' c = Some p \<and> q \<le> p \<and> limit \<le> p)) \<and>
     (\<exists>f. pfloor db' = Some f \<and> limit \<le> f)"
proof -
  define db2 where "db2 = env 1 (env 0 db)"
  define db3 where "db3 = env 2 db2"
  define db4 where "db4 = env 3 db3"
  define db5 where "db5 = env 4 db4"
  note e = benignD [OF assms(2)]
  obtain floor where f: "consumerFloor (active ()) db2 = Some floor"
    "limit = min floor (min (firstSeqAtOrAfter (now - CHANGES_RETENTION_MS) (plog db3)) (logHead (plog db4)))"
    "pruneLoop env 5 limit batch 0 0 fuel (publishChangesFloor limit db5) = Some (Pruned limit d b, db')"
    using pruneChangesOnce_parts [OF assms(1)] unfolding db2_def db3_def db4_def db5_def by blast
  note l = pruneLoop_keeps [OF f(3) assms(2,4)]
  have grow: "r \<in> set (plog db3)" "r \<in> set (plog db4)" if "r \<in> set (plog db)" for r
    using e(1) that by (simp_all add: db2_def db3_def db4_def)
  have late: "r \<in> set (plog db')" if "r \<in> set (plog db4)" "limit \<le> cseq r" for r
    using l e(1) that by (simp add: db5_def publishChangesFloor_def)
  have spared: "r \<in> set (plog db') \<longleftrightarrow> limit \<le> cseq r" if "r \<in> set (plog db)" for r
    using l late grow(2) [OF that] by blast
  have time: "in_time (plog db3)" using e(3) assms(3) by (simp add: db2_def db3_def)
  have young: "limit \<le> cseq r" if r: "r \<in> set (plog db)" "now - CHANGES_RETENTION_MS \<le> cat r" for r
    using firstNotOlder_le [OF grow(1) [OF r(1)] r(2)] f(2) by (simp add: firstSeqAtOrAfter_eq [OF time])
  have head: "logHead (plog db) \<le> logHead (plog db')"
  proof (cases "plog db = []")
    case False
    then have "plog db4 \<noteq> []" using grow(2) by (metis last_in_set list.size(3) length_pos_if_in_set less_numeral_extra(3))
    then obtain x where x: "x \<in> set (plog db4)" "cseq x = logHead (plog db4)" using logHead_mem by blast
    have "logHead (plog db) \<le> logHead (plog db4)" using grow(2) by (intro logHead_grows) blast
    also have "\<dots> \<le> logHead (plog db')" using late [OF x(1)] f(2) x(2) logHead_le by (metis min.cobounded2 le_trans)
    finally show ?thesis .
  qed (simp add: logHead_def)
  have cursors: "\<exists>p. pcursors db' c = Some p \<and> q \<le> p \<and> limit \<le> p" if c: "c \<in> set (active ())" "pcursors db c = Some q" for c q
  proof -
    obtain q0 where "q \<le> q0" "pcursors (env 0 db) c = Some q0" using e(5) [OF c] by blast
    then obtain q2 where q2: "q \<le> q2" "pcursors db2 c = Some q2" using e(5) [OF c(1)] unfolding db2_def by (meson le_trans)
    obtain q3 where "q2 \<le> q3" "pcursors db3 c = Some q3" using e(5) [OF c(1) q2(2)] unfolding db3_def by blast
    then obtain q4 where "q2 \<le> q4" "pcursors db4 c = Some q4" using e(5) [OF c(1)] unfolding db4_def by (meson le_trans)
    then obtain q5 where q5: "q2 \<le> q5" "pcursors db5 c = Some q5" using e(5) [OF c(1)] unfolding db5_def by (meson le_trans)
    have "\<exists>p \<ge> q5. pcursors db' c = Some p" using l c(1) q5(2) by (simp add: publishChangesFloor_def)
    then obtain p where "q5 \<le> p" "pcursors db' c = Some p" by blast
    moreover have "limit \<le> q2" using consumerFloor_le [OF f(1) c(1) q2(2)] f(2) by simp
    ultimately show ?thesis using q2(1) q5(1) by auto
  qed
  have "\<exists>g. pfloor db' = Some g \<and> limit \<le> g"
    using l by (auto simp: publishChangesFloor_def split: option.splits)
  then show ?thesis using spared young head cursors by blast
qed

text \<open>A run over the sample log with a worker at seq 60: the two old rows go. A document arrives in between.\<close>

definition sample_env :: "nat \<Rightarrow> prune_db \<Rightarrow> prune_db" where
  "sample_env k db = (if k = 5 \<and> (\<forall>r \<in> set (plog db). cseq r < 91 \<and> cat r \<le> 200000006)
     then db\<lparr>plog := plog db @ [sample_row 91 200000006]\<rparr> else db)"

definition sample_prune_db :: prune_db where
  "sample_prune_db = \<lparr>plog = sample_log, pfloor = None, pcursors = [''w'' \<mapsto> 60], prekeyed = True\<rparr>"

lemma sample_env_benign: "benign sample_env [''w'']"
  by (auto simp: benign_def sample_env_def in_time_def sample_row_def)

lemma sample_prune_run:
  "\<exists>db'. pruneChangesOnce sample_env (\<lambda>_. [''w'']) 200000006 1 4 sample_prune_db = Some (Pruned 41 2 2, db')"
proof -
  let ?run = "pruneChangesOnce sample_env (\<lambda>_. [''w'']) 200000006 1 4 sample_prune_db"
  have "(case ?run of Some (r, _) \<Rightarrow> r = Pruned 41 2 2 | None \<Rightarrow> False)" by code_simp
  then show ?thesis by (auto split: option.splits prod.splits)
qed

theorem prune_run_spares_witness:
  "\<exists>db'. pruneChangesOnce sample_env (\<lambda>_. [''w'']) 200000006 1 4 sample_prune_db = Some (Pruned 41 2 2, db') \<and>
     sample_row 40 10 \<notin> set (plog db') \<and> sample_row 41 200000000 \<in> set (plog db')"
proof -
  obtain db' where r: "pruneChangesOnce sample_env (\<lambda>_. [''w'']) 200000006 1 4 sample_prune_db = Some (Pruned 41 2 2, db')"
    using sample_prune_run by blast
  have m: "sample_row 40 10 \<in> set (plog sample_prune_db)" "sample_row 41 200000000 \<in> set (plog sample_prune_db)"
    by (simp_all add: sample_prune_db_def sample_log_def)
  have t: "in_time (plog sample_prune_db)" using sample_log_in_time by (simp add: sample_prune_db_def)
  have "r \<in> set (plog db') \<longleftrightarrow> 41 \<le> cseq r" if "r \<in> set (plog sample_prune_db)" for r
    using prune_run_spares [OF r sample_env_benign t] that by simp
  from this [OF m(1)] this [OF m(2)] show ?thesis using r by (simp add: sample_row_def)
qed

text \<open>
  C39: A prune run comes to its end, however many rows the others add while it deletes: there is a number of windows
  that is enough, the number of rows below the limit when the deletions begin.
\<close>

theorem prune_run_ends:
  assumes "benign env (active ())" "0 < batch"
  shows "\<exists>n. \<forall>fuel. n < fuel \<longrightarrow> pruneChangesOnce env active now batch fuel db \<noteq> None"
proof -
  define db2 where "db2 = env 1 (env 0 db)"
  define db4 where "db4 = env 3 (env 2 db2)"
  have "pruneLoop env 5 l batch 0 0 fuel (publishChangesFloor l (env 4 db4)) \<noteq> None"
    if "length (plog (env 4 db4)) < fuel" "l \<le> logHead (plog db4)" for l fuel
  proof (rule pruneLoop_ends [OF assms])
    show "l = 0 \<or> (\<exists>x \<in> set (plog (publishChangesFloor l (env 4 db4))). l \<le> cseq x)"
    proof (cases "plog db4 = []")
      case True
      then show ?thesis using that(2) by (simp add: logHead_def)
    next
      case False
      then obtain x where "x \<in> set (plog db4)" "cseq x = logHead (plog db4)" using logHead_mem by blast
      then have "x \<in> set (plog (env 4 db4))" "l \<le> cseq x" using benignD(1) [OF assms(1)] that(2) by simp_all
      then show ?thesis by (auto simp: publishChangesFloor_def)
    qed
    have "length (filter (\<lambda>r. cseq r < l) (plog (env 4 db4))) \<le> length (plog (env 4 db4))" by (rule length_filter_le)
    then show "length (filter (\<lambda>r. cseq r < l) (plog (publishChangesFloor l (env 4 db4)))) < fuel"
      using le_less_trans [OF _ that(1)] by (simp add: publishChangesFloor_def)
  qed
  then have "pruneChangesOnce env active now batch fuel db \<noteq> None" if "length (plog (env 4 db4)) < fuel" for fuel
    using that unfolding pruneChangesOnce_def Let_def db2_def db4_def by (auto split: option.splits)
  then show ?thesis by blast
qed

theorem prune_run_ends_witness: "\<exists>n. pruneChangesOnce sample_env (\<lambda>_. [''w'']) 200000006 1 n sample_prune_db \<noteq> None"
  using prune_run_ends [OF sample_env_benign, of 1 200000006 sample_prune_db] by (metis lessI zero_less_one)

text \<open>What a worker reads of the pruned log is what EngineWork lets it see behind the limit.\<close>

lemma pruned_view:
  assumes "plog db' = filter (\<lambda>r. limit \<le> cseq r) (changes s)"
  shows "feedRows pos \<lparr>vdb = s, vfloor = f, vcut = limit\<rparr> = take FEED_BATCH (sort_key cseq (filter (\<lambda>r. pos < cseq r) (plog db')))"
  using assms by (simp add: feedRows_def conj_commute)

end
