(* ===== verification/FolderScope.thy ===== *)
theory FolderScope
  imports Reconcile
begin

text \<open>
  A folder-scope edit: \<open>withLegacyMirror\<close> and \<open>applyFolderScopeTx\<close> of
  src/main/core/store/write-tx.ts. Config, cursor, re-attribution and archival are one transaction.
\<close>

section \<open>The legacy mirror\<close>

text \<open>\<open>r.id\<close> of an array element; \<open>undefined\<close> (None) when there is no such property.\<close>

definition member :: "string \<Rightarrow> json \<Rightarrow> json option" where
  "member k v = (case v of JObj ob \<Rightarrow> obj_get k ob | _ \<Rightarrow> None)"

text \<open>An array element that is \<open>undefined\<close> prints as null; a property that is \<open>undefined\<close> is left out.\<close>

definition as_element :: "json option \<Rightarrow> json" where
  "as_element v = (case v of None \<Rightarrow> JNull | Some x \<Rightarrow> x)"

definition as_property :: "string \<Rightarrow> json option \<Rightarrow> jobj" where
  "as_property k v = (case v of None \<Rightarrow> [] | Some x \<Rightarrow> [(k, x)])"

definition legacyRoot :: "json \<Rightarrow> json" where
  "legacyRoot r = JObj (as_property ''rootFolderId'' (member ''id'' r) @
     as_property ''rootName'' (member ''name'' r))"

definition withLegacyMirror :: "string \<Rightarrow> jobj \<Rightarrow> jobj" where
  "withLegacyMirror src cfg = (case obj_get ''folderRoots'' cfg of
     Some (JArr roots) \<Rightarrow>
       if src = ''local-folder''
       then obj_put ''paths'' (JArr (map (\<lambda>r. as_element (member ''id'' r)) roots)) cfg
       else if src = ''google-docs'' \<or> src = ''onedrive''
       then obj_put ''roots'' (JArr (map legacyRoot roots)) cfg
       else cfg
   | _ \<Rightarrow> cfg)"

section \<open>The edit\<close>

text \<open>\<open>fi_expected\<close>: the parsed \<open>expectedConfigJson\<close>, None when it does not parse.\<close>

record folder_scope_input =
  fi_account :: string
  fi_config :: jobj
  fi_cursor :: "json option"
  fi_archiveScopeRootIds :: "string list"
  fi_reattribute :: "(string \<times> string) list" \<comment> \<open>(from, to)\<close>
  fi_archiveRefs :: "external_ref list"
  fi_expected :: "jobj option"

record folder_scope_result =
  fr_archived :: nat
  fr_reattributed :: nat
  fr_remaining :: nat
  fr_stale :: bool

definition liveInRoots :: "string \<Rightarrow> string list \<Rightarrow> doc_row \<Rightarrow> bool" where
  "liveInRoots acct roots d \<longleftrightarrow> account_id d = acct \<and> archived_at d = None \<and>
     (case scope_root_id d of None \<Rightarrow> False | Some r \<Rightarrow> r \<in> set roots)"

text \<open>FOLDER_SCOPE_REATTRIBUTE; the count is the statement's \<open>changes\<close>.\<close>

definition restamp :: "string \<Rightarrow> string \<times> string \<Rightarrow> nat \<times> store \<Rightarrow> nat \<times> store" where
  "restamp acct ft ns = (case (ft, ns) of ((from_root, to_root), (n, s)) \<Rightarrow>
     (n + length (filter (liveInRoots acct [from_root]) (documents s)),
      s\<lparr>documents := upd_where (liveInRoots acct [from_root])
         (\<lambda>d. d\<lparr>scope_root_id := Some to_root\<rparr>) (documents s)\<rparr>))"

text \<open>
  The paged loop archives the rows of a page, reads the next page and ends with the first that is
  not full. \<open>fuel\<close> bounds the pages; None is running out.
\<close>

definition FOLDER_SCOPE_ARCHIVE_PAGE :: nat where
  "FOLDER_SCOPE_ARCHIVE_PAGE = 5000"

fun archivePages :: "nat \<Rightarrow> nat \<Rightarrow> time \<Rightarrow> string \<Rightarrow> string list \<Rightarrow> nat \<times> store \<Rightarrow>
    (nat \<times> store) option" where
  "archivePages 0 page now acct roots ns = None"
| "archivePages (Suc fuel) page now acct roots ns = (case ns of (n, s) \<Rightarrow>
     let rows = take page (filter (liveInRoots acct roots) (documents s));
         s1 = fold (\<lambda>d t. snd (archiveRow now (did d) t)) rows s
     in if length rows < page then Some (n + length rows, s1)
        else archivePages fuel page now acct roots (n + length rows, s1))"

definition archiveRefOne :: "time \<Rightarrow> string \<Rightarrow> external_ref \<Rightarrow> nat \<times> store \<Rightarrow> nat \<times> store" where
  "archiveRefOne now acct r ns = (case ns of (n, s) \<Rightarrow>
     let (q, t) = archiveByRef now acct r s in (if q = None then n else n + 1, t))"

definition scopedAccount :: "folder_scope_input \<Rightarrow> account_row \<Rightarrow> account_row" where
  "scopedAccount i a = a\<lparr>
     config := Some (withLegacyMirror (source a) (keepOptions (Some (config a)) (fi_config i))),
     acursor := Some (case fi_cursor i of None \<Rightarrow> JNull | Some c \<Rightarrow> c)\<rparr>"

definition liveOf :: "string \<Rightarrow> store \<Rightarrow> nat" where
  "liveOf acct s = length (filter (\<lambda>d. account_id d = acct \<and> archived_at d = None) (documents s))"

definition scopeEdit :: "nat \<Rightarrow> nat \<Rightarrow> time \<Rightarrow> folder_scope_input \<Rightarrow> account_row \<Rightarrow> store \<Rightarrow>
    (folder_scope_result \<times> store) option" where
  "scopeEdit fuel page now i acc s =
     (let s1 = snd (appendChange now AccountChange (aid acc) (updAccount (aid acc) (scopedAccount i) s));
          (re, s2) = fold (restamp (aid acc)) (fi_reattribute i) (0, s1)
      in case archivePages fuel page now (aid acc) (fi_archiveScopeRootIds i) (0, s2) of
           None \<Rightarrow> None
         | Some (n, s3) \<Rightarrow>
             let (m, s4) = fold (archiveRefOne now (aid acc)) (fi_archiveRefs i) (n, s3)
             in Some (\<lparr>fr_archived = m, fr_reattributed = re, fr_remaining = liveOf (aid acc) s4,
                       fr_stale = False\<rparr>, s4))"

definition contradiction :: "folder_scope_input \<Rightarrow> (string \<times> string) option" where
  "contradiction i = find (\<lambda>p. fst p \<in> set (fi_archiveScopeRootIds i)) (fi_reattribute i)"

definition applyFolderScopeTx :: "nat \<Rightarrow> time \<Rightarrow> folder_scope_input \<Rightarrow> store \<Rightarrow>
    (tx_error + (folder_scope_result \<times> store)) option" where
  "applyFolderScopeTx fuel now i s = (case getAccountRow (fi_account i) s of
     None \<Rightarrow> Some (Inl (UnknownAccount (fi_account i)))
   | Some acc \<Rightarrow> (case contradiction i of
       Some p \<Rightarrow> Some (Inl (ScopeContradiction (fst p)))
     | None \<Rightarrow> (case (config acc, fi_expected i) of
         (Some stored, Some expected) \<Rightarrow>
           if stored \<noteq> expected
           then Some (Inr (\<lparr>fr_archived = 0, fr_reattributed = 0, fr_remaining = 0, fr_stale = True\<rparr>, s))
           else map_option Inr (scopeEdit fuel FOLDER_SCOPE_ARCHIVE_PAGE now i acc s)
       | _ \<Rightarrow> Some (Inl BadJson))))"

definition applyFolderScope :: "nat \<Rightarrow> time \<Rightarrow> folder_scope_input \<Rightarrow> store \<Rightarrow>
    (tx_error + (folder_scope_result \<times> store)) option" where
  "applyFolderScope fuel now i s =
     (case applyFolderScopeTx fuel now i (s\<lparr>accountAppends := []\<rparr>) of
        None \<Rightarrow> None
      | Some m \<Rightarrow> Some (publishing (\<lambda>_. m) s))"

end
