(* ===== verification/FolderScopeProps.thy ===== *)
theory FolderScopeProps
  imports FolderScope EnginePass AccountProps ReconcileInv
begin

text \<open>
  What a folder-scope edit promises: it returns, it leaves no live document under a root that left
  the scope, it touches nothing else, it keeps the invariant, the account's options and a legacy
  mirror an older build can read, and of two saves from one reading only the first is applied.
\<close>

section \<open>Re-attribution\<close>

text \<open>What the sequence of restamps does to one row.\<close>

definition restamped :: "string \<Rightarrow> (string \<times> string) list \<Rightarrow> doc_row \<Rightarrow> doc_row" where
  "restamped acct ps d = fold (\<lambda>p d. if liveInRoots acct [fst p] d
     then d\<lparr>scope_root_id := Some (snd p)\<rparr> else d) ps d"

lemma restamped_simps [simp]:
  "restamped acct [] d = d"
  "restamped acct (p # ps) d = restamped acct ps
     (if liveInRoots acct [fst p] d then d\<lparr>scope_root_id := Some (snd p)\<rparr> else d)"
  by (simp_all add: restamped_def)

lemma restamped_only: "\<exists>x. restamped acct ps d = d\<lparr>scope_root_id := x\<rparr>"
proof (induction ps arbitrary: d)
  case Nil
  show ?case by (intro exI [of _ "scope_root_id d"]) simp
next
  case (Cons p ps)
  obtain x where "restamped acct (p # ps) d = (if liveInRoots acct [fst p] d
      then d\<lparr>scope_root_id := Some (snd p)\<rparr> else d)\<lparr>scope_root_id := x\<rparr>"
    using Cons.IH by (simp only: restamped_simps) blast
  then show ?case by (intro exI [of _ x]) (simp split: if_splits)
qed

lemma restamped_fields [simp]:
  "did (restamped acct ps d) = did d" "account_id (restamped acct ps d) = account_id d"
  "archived_at (restamped acct ps d) = archived_at d" "parent_id (restamped acct ps d) = parent_id d"
  "nat_key (restamped acct ps d) = nat_key d" "has_key a r (restamped acct ps d) = has_key a r d"
  using restamped_only [of acct ps d] by (auto simp: nat_key_def has_key_def)

lemma restamped_other: "account_id d \<noteq> acct \<Longrightarrow> restamped acct ps d = d"
  by (induction ps arbitrary: d) (simp_all add: liveInRoots_def)

text \<open>The loop rewrites the documents column and nothing else.\<close>

lemma restamp_docs:
  "\<exists>k. fold (restamp acct) ps (n, s) = (k, s\<lparr>documents := map (restamped acct ps) (documents s)\<rparr>)"
proof (induction ps arbitrary: n s)
  case Nil
  have "map (restamped acct []) (documents s) = documents s" by (simp add: map_idI)
  then show ?case by (intro exI [of _ n]) simp
next
  case (Cons p ps)
  obtain f to_root where p: "p = (f, to_root)" by (cases p)
  let ?s = "s\<lparr>documents := upd_where (liveInRoots acct [f]) (\<lambda>d. d\<lparr>scope_root_id := Some to_root\<rparr>)
     (documents s)\<rparr>"
  have "restamp acct p (n, s) = (n + length (filter (liveInRoots acct [f]) (documents s)), ?s)"
    by (simp add: restamp_def p)
  with Cons.IH [of "n + length (filter (liveInRoots acct [f]) (documents s))" ?s]
  obtain k where "fold (restamp acct) (p # ps) (n, s) =
      (k, ?s\<lparr>documents := map (restamped acct ps) (documents ?s)\<rparr>)"
    by auto
  moreover have "map (restamped acct ps) (documents ?s) = map (restamped acct (p # ps)) (documents s)"
    by (simp add: upd_where_def p)
  ultimately show ?case by simp
qed

lemma store_inv_restamped:
  assumes "store_inv D s"
  shows "store_inv D (s\<lparr>documents := map (restamped acct ps) (documents s)\<rparr>)" (is "store_inv D ?t")
  unfolding store_inv_def
proof (intro conjI)
  note inv = store_invD [OF assms]
  let ?g = "restamped acct ps"
  have fields: "rowid (?g d) = rowid d" "title (?g d) = title d" "markdown (?g d) = markdown d"
    "languages (?g d) = languages d" "seq (?g d) = seq d" for d
    using restamped_only [of acct ps d] by auto
  have docs: "documents ?t = upd_where (\<lambda>_. True) ?g (documents s)" by (simp add: upd_where_def)
  show "keys_ok ?t"
    by (rule keys_ok_upd [OF _ _ _ docs inv(1)]) (simp_all add: fields)
  show "index_ok D ?t"
    by (rule index_ok_upd [OF _ _ _ _ _ docs _ _ inv(2)]) (simp_all add: fields)
  show "feed_ok ?t" using inv(3) by (auto simp: feed_ok_def fields)
  show "refs_ok ?t" using inv(4) by (auto simp: refs_ok_def)
qed

section \<open>The page loop\<close>

lemma page_archiving:
  "fold (\<lambda>d t. snd (archiveRow now (did d) t)) rows s = archiving now (map did rows) s"
  by (induction rows arbitrary: s) (simp_all add: archiveRow_touch)

lemma archives_live:
  assumes "archives I g" "archived_at (g d) = None"
  shows "did d \<notin> I \<and> g d = d"
proof -
  have "did d \<notin> I" using assms unfolding archives_def by blast
  then show ?thesis using assms unfolding archives_def by blast
qed

definition pageRows :: "string \<Rightarrow> string list \<Rightarrow> nat \<Rightarrow> store \<Rightarrow> doc_row list" where
  "pageRows acct roots page s = take page (filter (liveInRoots acct roots) (documents s))"

lemma archivePages_Suc:
  "archivePages (Suc fuel) page now acct roots (n, s) = (let rows = pageRows acct roots page s in
     if length rows < page then Some (n + length rows, archiving now (map did rows) s)
     else archivePages fuel page now acct roots (n + length rows, archiving now (map did rows) s))"
  by (simp add: page_archiving pageRows_def Let_def del: length_take)

declare archivePages.simps(2) [simp del]

lemma archivePages_archiving:
  assumes "archivePages fuel page now acct roots (n, s) = Some (m, t)"
  shows "\<exists>is. t = archiving now is s \<and>
    set is \<subseteq> did ` {d \<in> set (documents s). liveInRoots acct roots d} \<and>
    (\<forall>d \<in> set (documents t). \<not> liveInRoots acct roots d)"
  using assms
proof (induction fuel arbitrary: n s)
  case (Suc fuel)
  let ?rows = "pageRows acct roots page s"
  let ?is = "map did ?rows"
  let ?s1 = "archiving now ?is s"
  obtain g where g: "archives (set ?is) g" "documents ?s1 = map g (documents s)"
    using archiving_documents by blast
  have live: "d \<in> set (documents s) \<and> did d \<notin> set ?is"
    if "d \<in> set (documents ?s1)" "liveInRoots acct roots d" for d
  proof -
    from that(1) obtain e where e: "e \<in> set (documents s)" "d = g e" by (auto simp: g(2))
    then have "archived_at (g e) = None" using that(2) by (simp add: liveInRoots_def)
    from archives_live [OF g(1) this] e show ?thesis by simp
  qed
  have sub: "set ?is \<subseteq> did ` {d \<in> set (documents s). liveInRoots acct roots d}"
    by (auto simp: pageRows_def dest: in_set_takeD)
  show ?case
  proof (cases "length ?rows < page")
    case True
    then have t: "t = ?s1" using Suc.prems by (simp add: archivePages_Suc Let_def)
    have "?rows = filter (liveInRoots acct roots) (documents s)"
      using True by (simp add: pageRows_def)
    then have "\<not> liveInRoots acct roots d" if "d \<in> set (documents ?s1)" for d
      using live [OF that] by auto
    with sub t show ?thesis by blast
  next
    case False
    then have "archivePages fuel page now acct roots (n + length ?rows, ?s1) = Some (m, t)"
      using Suc.prems by (simp add: archivePages_Suc Let_def)
    from Suc.IH [OF this] obtain js where js: "t = archiving now js ?s1"
      "set js \<subseteq> did ` {d \<in> set (documents ?s1). liveInRoots acct roots d}"
      "\<forall>d \<in> set (documents t). \<not> liveInRoots acct roots d" by blast
    have "set js \<subseteq> did ` {d \<in> set (documents s). liveInRoots acct roots d}"
      using js(2) live by blast
    with js sub show ?thesis by (intro exI [of _ "?is @ js"]) simp
  qed
qed simp

text \<open>A full page takes that many rows off those that are left.\<close>

definition leaving :: "string \<Rightarrow> string list \<Rightarrow> store \<Rightarrow> nat" where
  "leaving acct roots s = length (filter (liveInRoots acct roots) (documents s))"

lemma page_leaving:
  fixes s :: store and roots :: "string list" and acct :: string and page :: nat
  defines "rows \<equiv> take page (filter (liveInRoots acct roots) (documents s))"
  shows "leaving acct roots (archiving now (map did rows) s) + length rows \<le> leaving acct roots s"
proof -
  obtain g where g: "archives (set (map did rows)) g"
    "documents (archiving now (map did rows) s) = map g (documents s)"
    using archiving_documents by blast
  let ?P = "liveInRoots acct roots"
  have P: "?P d \<and> did d \<notin> set (map did rows)" if "?P (g d)" for d
    using archives_live [OF g(1), of d] that by (simp add: liveInRoots_def)
  let ?gone = "filter (\<lambda>d. ?P d \<and> \<not> ?P (g d)) (documents s)"
  have "leaving acct roots (archiving now (map did rows) s) + length ?gone = leaving acct roots s"
    unfolding leaving_def g(2) by (rule filter_map_shrinks [OF _ refl]) (use P in blast)
  moreover have "length rows \<le> length ?gone"
  proof -
    have "rows = filter (\<lambda>d. \<not> ?P (g d)) rows"
      using P by (intro filter_True [symmetric]) auto
    also have "\<dots> = filter (\<lambda>d. \<not> ?P (g d)) (take page (filter ?P (documents s)))"
      by (simp only: rows_def)
    also have "length \<dots> \<le> length (filter (\<lambda>d. \<not> ?P (g d)) (filter ?P (documents s)))"
      by (rule length_filter_take)
    also have "\<dots> \<le> length ?gone"
      unfolding filter_filter by (rule length_filter_le_imp) simp
    finally show ?thesis by simp
  qed
  ultimately show ?thesis by simp
qed

lemma archivePages_ends:
  assumes "leaving acct roots s < fuel * page"
  shows "\<exists>mt. archivePages fuel page now acct roots (n, s) = Some mt"
  using assms
proof (induction fuel arbitrary: n s)
  case (Suc fuel)
  let ?rows = "pageRows acct roots page s"
  show ?case
  proof (cases "length ?rows < page")
    case True
    then show ?thesis by (simp add: archivePages_Suc Let_def)
  next
    case False
    then have "length ?rows = page" by (simp add: pageRows_def)
    then have "leaving acct roots (archiving now (map did ?rows) s) < fuel * page"
      using page_leaving [of acct roots now page s] Suc.prems by (simp add: pageRows_def)
    from Suc.IH [OF this] False show ?thesis by (simp add: archivePages_Suc Let_def)
  qed
qed simp

section \<open>The listed references\<close>

text \<open>The ids an archival of \<open>r\<close> may take: its live document and that document's live children.\<close>

definition familyOf :: "string \<Rightarrow> external_ref \<Rightarrow> store \<Rightarrow> string set" where
  "familyOf acct r s = {did d |d. d \<in> set (documents s) \<and> archived_at d = None \<and>
     (has_key acct r d \<or> (\<exists>p \<in> set (documents s). has_key acct r p \<and> parent_id d = Some (did p)))}"

lemma familyOf_archiving: "familyOf acct r (archiving now is s) \<subseteq> familyOf acct r s"
proof
  fix i assume "i \<in> familyOf acct r (archiving now is s)"
  obtain g where g: "archives (set is) g" "documents (archiving now is s) = map g (documents s)"
    using archiving_documents by blast
  have keep: "has_key acct r (g d) = has_key acct r d" "did (g d) = did d" for d
    using g(1) by (simp_all add: archives_def has_key_nat_key)
  from \<open>i \<in> _\<close> obtain d where d: "d \<in> set (documents s)" "did (g d) = i" "archived_at (g d) = None"
    "has_key acct r (g d) \<or> (\<exists>p \<in> set (documents s). has_key acct r (g p) \<and> parent_id (g d) = Some (did (g p)))"
    by (auto simp: familyOf_def g(2))
  from archives_live [OF g(1) d(3)] d show "i \<in> familyOf acct r s"
    unfolding familyOf_def keep by auto
qed

lemma archiveRefOne_archiving:
  assumes "keys_ok s"
  shows "\<exists>m is. archiveRefOne now acct r (n, s) = (m, archiving now is s) \<and> set is \<subseteq> familyOf acct r s \<and>
    (\<forall>d \<in> set (documents (archiving now is s)). has_key acct r d \<longrightarrow> archived_at d \<noteq> None)"
proof (cases "\<exists>d. findDocRow acct r s = Some d \<and> archived_at d = None")
  case False
  then have "archiveByRef now acct r s = (None, s)"
    by (auto simp: archiveByRef_eq split: option.splits)
  moreover have "archived_at d \<noteq> None" if "d \<in> set (documents s)" "has_key acct r d" for d
    using False findDocRow_unique [OF assms that] by auto
  ultimately show ?thesis by (intro exI [of _ n] exI [of _ "[]"]) (auto simp: archiveRefOne_def)
next
  case True
  then obtain d where d: "findDocRow acct r s = Some d" "archived_at d = None" by blast
  from findDocRow_Some [OF d(1)] have in_s: "d \<in> set (documents s)" "has_key acct r d" by auto
  let ?u = "touch now (did d) (archivedRow now) s"
  let ?is = "did d # liveChildren (did d) ?u"
  have t: "snd (archiveByRef now acct r s) = archiving now ?is s"
    using d by (simp add: archiveByRef_eq Let_def archiveChildren_archiving)
  obtain g where "archives (set [did d]) g" "documents (archiving now [did d] s) = map g (documents s)"
    using archiving_documents by blast
  from liveChildren_archives [OF this] have kids: "set (liveChildren (did d) ?u) \<subseteq> set (liveChildren (did d) s)"
    by simp
  have "set (liveChildren (did d) s) \<subseteq> familyOf acct r s"
    using in_s by (auto simp: liveChildren_def familyOf_def)
  moreover have "did d \<in> familyOf acct r s" using in_s d(2) by (auto simp: familyOf_def)
  ultimately have sub: "set ?is \<subseteq> familyOf acct r s" using kids by auto
  obtain h where h: "archives (set ?is) h" "documents (archiving now ?is s) = map h (documents s)"
    using archiving_documents by blast
  have gone: "archived_at e \<noteq> None"
    if "e \<in> set (documents (archiving now ?is s))" "has_key acct r e" for e
  proof
    assume "archived_at e = None"
    from that(1) obtain e0 where e0: "e0 \<in> set (documents s)" "e = h e0" unfolding h(2) by auto
    then have "did e0 \<notin> set ?is" "e = e0"
      using archives_live [OF h(1), of e0] \<open>archived_at e = None\<close> by auto
    moreover have "e = d" using findDocRow_unique [OF assms, of e acct r] e0 calculation(2) that(2) d(1) by simp
    ultimately show False by simp
  qed
  show ?thesis
    by (cases "archiveByRef now acct r s")
      (use t sub gone in \<open>auto simp: archiveRefOne_def intro!: exI [of _ ?is]\<close>)
qed

lemma archiveRefs_archiving:
  assumes "store_inv D s"
  shows "\<exists>m is. fold (archiveRefOne now acct) rs (n, s) = (m, archiving now is s) \<and>
    set is \<subseteq> (\<Union>r \<in> set rs. familyOf acct r s) \<and>
    (\<forall>r \<in> set rs. \<forall>d \<in> set (documents (archiving now is s)). has_key acct r d \<longrightarrow> archived_at d \<noteq> None)"
  using assms
proof (induction rs arbitrary: n s)
  case Nil
  show ?case by (intro exI [of _ n] exI [of _ "[]"]) simp
next
  case (Cons r rs)
  obtain k "is" where one: "archiveRefOne now acct r (n, s) = (k, archiving now is s)"
    "set is \<subseteq> familyOf acct r s"
    "\<forall>d \<in> set (documents (archiving now is s)). has_key acct r d \<longrightarrow> archived_at d \<noteq> None"
    using archiveRefOne_archiving [OF store_invD(1) [OF Cons.prems], of now acct r n]
    by (elim exE conjE) (rule that)
  let ?s = "archiving now is s"
  obtain m js where rest: "fold (archiveRefOne now acct) rs (k, ?s) = (m, archiving now js ?s)"
    "set js \<subseteq> (\<Union>r \<in> set rs. familyOf acct r ?s)"
    "\<forall>r \<in> set rs. \<forall>d \<in> set (documents (archiving now js ?s)). has_key acct r d \<longrightarrow> archived_at d \<noteq> None"
    using Cons.IH [OF archiving_inv [OF Cons.prems], of k now "is"]
    by (elim exE conjE) (rule that)
  obtain g where g: "archives (set js) g" "documents (archiving now js ?s) = map g (documents ?s)"
    using archiving_documents by blast
  have "archived_at e \<noteq> None" if "e \<in> set (documents (archiving now js ?s))" "has_key acct r e" for e
  proof
    assume live: "archived_at e = None"
    from that(1) obtain e0 where e0: "e0 \<in> set (documents ?s)" "e = g e0" unfolding g(2) by auto
    with live archives_live [OF g(1), of e0] have "e = e0" by simp
    with one(3) e0(1) that(2) live show False by blast
  qed
  moreover have "set js \<subseteq> (\<Union>q \<in> set rs. familyOf acct q s)"
    by (rule subset_trans [OF rest(2)]) (intro UN_mono familyOf_archiving order.refl)
  with one(2) have "set (is @ js) \<subseteq> (\<Union>q \<in> set (r # rs). familyOf acct q s)" by auto
  ultimately show ?case
    using one(1) rest by (intro exI [of _ m] exI [of _ "is @ js"]) auto
qed

section \<open>The whole edit\<close>

text \<open>The store once the account row is rewritten and the documents are re-attributed.\<close>

definition rescoped :: "time \<Rightarrow> folder_scope_input \<Rightarrow> account_row \<Rightarrow> store \<Rightarrow> store" where
  "rescoped now i acc s = (let s1 = updated now (aid acc) (scopedAccount i) s in
     s1\<lparr>documents := map (restamped (aid acc) (fi_reattribute i)) (documents s1)\<rparr>)"

lemma scopedAccount_fields [simp]:
  "aid (scopedAccount i a) = aid a" "keeps_name (scopedAccount i)"
  by (simp_all add: scopedAccount_def keeps_name_def)

lemma rescoped_fields [simp]:
  "documents (rescoped now i acc s) = map (restamped (aid acc) (fi_reattribute i)) (documents s)"
  "accounts (rescoped now i acc s) = upd_where (\<lambda>a. aid a = aid acc) (scopedAccount i) (accounts s)"
  by (simp_all add: rescoped_def updated_def Let_def) (simp add: appendChange_def updAccount_def Let_def)

lemma store_inv_rescoped: "store_inv D s \<Longrightarrow> store_inv D (rescoped now i acc s)"
  unfolding rescoped_def Let_def by (intro store_inv_restamped store_inv_updated) simp_all

definition outside :: "folder_scope_input \<Rightarrow> store \<Rightarrow> bool" where
  "outside i s \<longleftrightarrow> (\<forall>d \<in> set (documents s).
     \<not> liveInRoots (fi_account i) (fi_archiveScopeRootIds i) d \<and>
     (\<forall>r \<in> set (fi_archiveRefs i). has_key (fi_account i) r d \<longrightarrow> archived_at d \<noteq> None))"

lemma outside_archiving:
  assumes "\<forall>d \<in> set (documents s). \<not> liveInRoots acct roots d"
  shows "\<forall>d \<in> set (documents (archiving now is s)). \<not> liveInRoots acct roots d"
proof
  obtain g where g: "archives (set is) g" "documents (archiving now is s) = map g (documents s)"
    using archiving_documents by blast
  fix d assume "d \<in> set (documents (archiving now is s))"
  then obtain e where e: "e \<in> set (documents s)" "d = g e" unfolding g(2) by auto
  show "\<not> liveInRoots acct roots d"
  proof
    assume live: "liveInRoots acct roots d"
    then have "archived_at (g e) = None" by (simp add: e(2) liveInRoots_def)
    from archives_live [OF g(1) this] live e assms show False by auto
  qed
qed

lemma scopeEdit_shape:
  assumes inv: "store_inv D s" and acc: "aid acc = fi_account i"
    and edit: "scopeEdit fuel page now i acc s = Some (r, t)"
  obtains "is" where "t = archiving now is (rescoped now i acc s)"
    "set is \<subseteq> did ` {d \<in> set (documents (rescoped now i acc s)).
        liveInRoots (fi_account i) (fi_archiveScopeRootIds i) d} \<union>
      (\<Union>r \<in> set (fi_archiveRefs i). familyOf (fi_account i) r (rescoped now i acc s))"
    "outside i t" "fr_remaining r = liveOf (fi_account i) t" "\<not> fr_stale r"
proof -
  let ?u = "rescoped now i acc s" and ?roots = "fi_archiveScopeRootIds i"
  let ?s1 = "updated now (aid acc) (scopedAccount i) s"
  obtain re where re: "fold (restamp (aid acc)) (fi_reattribute i) (0, ?s1) = (re, ?u)"
    using restamp_docs [of "aid acc" "fi_reattribute i" 0 ?s1] by (auto simp: rescoped_def Let_def)
  have eq: "scopeEdit fuel page now i acc s =
      (case archivePages fuel page now (aid acc) ?roots (0, ?u) of None \<Rightarrow> None
       | Some (n, s3) \<Rightarrow> let (m, s4) = fold (archiveRefOne now (aid acc)) (fi_archiveRefs i) (n, s3)
           in Some (\<lparr>fr_archived = m, fr_reattributed = re, fr_remaining = liveOf (aid acc) s4,
                fr_stale = False\<rparr>, s4))"
    using re by (simp add: scopeEdit_def updated_def Let_def)
  then obtain n s3 where pages: "archivePages fuel page now (fi_account i) ?roots (0, ?u) = Some (n, s3)"
    using edit by (auto simp: acc split: option.splits)
  obtain js where js: "s3 = archiving now js ?u"
    "set js \<subseteq> did ` {d \<in> set (documents ?u). liveInRoots (fi_account i) ?roots d}"
    "\<forall>d \<in> set (documents s3). \<not> liveInRoots (fi_account i) ?roots d"
    using archivePages_archiving [OF pages] by (elim exE conjE) (rule that)
  have inv3: "store_inv D s3" unfolding js(1) by (intro archiving_inv store_inv_rescoped inv)
  obtain m ks where ks: "fold (archiveRefOne now (fi_account i)) (fi_archiveRefs i) (n, s3) = (m, archiving now ks s3)"
    "set ks \<subseteq> (\<Union>r \<in> set (fi_archiveRefs i). familyOf (fi_account i) r s3)"
    "\<forall>r \<in> set (fi_archiveRefs i). \<forall>d \<in> set (documents (archiving now ks s3)).
       has_key (fi_account i) r d \<longrightarrow> archived_at d \<noteq> None"
    using archiveRefs_archiving [OF inv3, of now "fi_account i" "fi_archiveRefs i" n]
    by (elim exE conjE) (rule that)
  have t: "t = archiving now ks s3" "fr_remaining r = liveOf (fi_account i) t" "\<not> fr_stale r"
    using edit ks(1) by (auto simp: eq acc pages)
  have "set ks \<subseteq> (\<Union>r \<in> set (fi_archiveRefs i). familyOf (fi_account i) r ?u)"
    by (rule subset_trans [OF ks(2)]) (unfold js(1), intro UN_mono familyOf_archiving order.refl)
  with js(2) have sub: "set (js @ ks) \<subseteq> did ` {d \<in> set (documents ?u). liveInRoots (fi_account i) ?roots d} \<union>
      (\<Union>r \<in> set (fi_archiveRefs i). familyOf (fi_account i) r ?u)"
    by (simp only: set_append) (rule Un_mono)
  have "outside i t"
    using outside_archiving [OF js(3), of now ks] ks(3) by (simp add: outside_def t(1))
  then show thesis
    by (intro that [of "js @ ks"]) (use t sub in \<open>simp_all only: js(1) archiving_simps not_False_eq_True\<close>)
qed

lemma applyFolderScope_edit:
  assumes "applyFolderScope fuel now i s = Some (Inr (r, t))" "\<not> fr_stale r"
  obtains acc t' where "getAccountRow (fi_account i) s = Some acc" "contradiction i = None"
    "config acc \<noteq> None" "config acc = fi_expected i"
    "scopeEdit fuel FOLDER_SCOPE_ARCHIVE_PAGE now i acc (s\<lparr>accountAppends := []\<rparr>) = Some (r, t')"
    "t = t'\<lparr>accountPublishedAt := fold (\<lambda>(i, at) m. m(i \<mapsto> at)) (accountAppends t')
       (accountPublishedAt t'), accountAppends := []\<rparr>"
proof -
  let ?s = "s\<lparr>accountAppends := []\<rparr>"
  obtain t' where tx: "applyFolderScopeTx fuel now i ?s = Some (Inr (r, t'))"
    and t: "t = t'\<lparr>accountPublishedAt := fold (\<lambda>(i, at) m. m(i \<mapsto> at)) (accountAppends t')
       (accountPublishedAt t'), accountAppends := []\<rparr>"
    using assms(1) by (auto simp: applyFolderScope_def publishing_def split: option.splits)
  have g: "getAccountRow (fi_account i) ?s = getAccountRow (fi_account i) s"
    by (simp add: getAccountRow_def)
  from tx obtain acc where acc: "getAccountRow (fi_account i) s = Some acc"
    by (cases "getAccountRow (fi_account i) s") (simp_all add: applyFolderScopeTx_def g)
  from tx have c: "contradiction i = None"
    by (cases "contradiction i") (simp_all add: applyFolderScopeTx_def g acc)
  from tx obtain stored expected where e: "config acc = Some stored" "fi_expected i = Some expected"
    by (cases "config acc"; cases "fi_expected i") (simp_all add: applyFolderScopeTx_def g acc c)
  from tx assms(2) have same: "stored = expected"
    by (cases "stored = expected") (auto simp: applyFolderScopeTx_def g acc c e)
  from tx have "scopeEdit fuel FOLDER_SCOPE_ARCHIVE_PAGE now i acc ?s = Some (r, t')"
    by (simp add: applyFolderScopeTx_def g acc c e same)
  with acc c e same t show thesis by (intro that [of acc t']) simp_all
qed

section \<open>The properties of a folder-scope edit\<close>

lemma published_inv:
  assumes "store_inv D t'"
  shows "store_inv D (t'\<lparr>accountPublishedAt := p, accountAppends := a\<rparr>)"
  by (subst same_corpus_inv [of t']) (simp_all add: same_corpus_def assms)

lemma start_inv: "store_inv D s \<Longrightarrow> store_inv D (s\<lparr>accountAppends := []\<rparr>)"
  by (subst same_corpus_inv [of s]) (simp_all add: same_corpus_def)

lemma edit_shape:
  assumes "store_inv D s" "applyFolderScope fuel now i s = Some (Inr (r, t))" "\<not> fr_stale r"
  obtains acc "is" where "getAccountRow (fi_account i) s = Some acc" "config acc = fi_expected i"
    "contradiction i = None" "config acc \<noteq> None"
    "documents t = documents (archiving now is (rescoped now i acc (s\<lparr>accountAppends := []\<rparr>)))"
    "accounts t = upd_where (\<lambda>a. aid a = aid acc) (scopedAccount i) (accounts s)"
    "set is \<subseteq> did ` {d \<in> set (map (restamped (aid acc) (fi_reattribute i)) (documents s)).
        liveInRoots (fi_account i) (fi_archiveScopeRootIds i) d} \<union>
      (\<Union>r \<in> set (fi_archiveRefs i). familyOf (fi_account i) r (rescoped now i acc (s\<lparr>accountAppends := []\<rparr>)))"
    "outside i t" "fr_remaining r = liveOf (fi_account i) t" "store_inv D t" "accountAppends t = []"
proof -
  let ?s = "s\<lparr>accountAppends := []\<rparr>"
  obtain acc t' where e: "getAccountRow (fi_account i) s = Some acc" "contradiction i = None"
    "config acc \<noteq> None" "config acc = fi_expected i"
    "scopeEdit fuel FOLDER_SCOPE_ARCHIVE_PAGE now i acc ?s = Some (r, t')"
    and t: "t = t'\<lparr>accountPublishedAt := fold (\<lambda>(i, at) m. m(i \<mapsto> at)) (accountAppends t')
       (accountPublishedAt t'), accountAppends := []\<rparr>"
    by (rule applyFolderScope_edit [OF assms(2,3)])
  have acc: "aid acc = fi_account i" using getAccountRow_in [OF e(1)] by simp
  obtain "is" where f: "t' = archiving now is (rescoped now i acc ?s)"
    "set is \<subseteq> did ` {d \<in> set (documents (rescoped now i acc ?s)).
        liveInRoots (fi_account i) (fi_archiveScopeRootIds i) d} \<union>
      (\<Union>r \<in> set (fi_archiveRefs i). familyOf (fi_account i) r (rescoped now i acc ?s))"
    "outside i t'" "fr_remaining r = liveOf (fi_account i) t'"
    by (rule scopeEdit_shape [OF start_inv [OF assms(1)] acc e(5)])
  have inv: "store_inv D t"
    unfolding t by (rule published_inv, unfold f(1)) (intro archiving_inv store_inv_rescoped start_inv assms(1))
  have fields: "documents t = documents t'" "accounts t = accounts t'" "accountAppends t = []"
    by (simp_all add: t)
  show thesis
  proof (rule that [OF e(1,4,2,3), of "is"])
    show "documents t = documents (archiving now is (rescoped now i acc ?s))"
      "accounts t = upd_where (\<lambda>a. aid a = aid acc) (scopedAccount i) (accounts s)"
      by (simp_all add: fields f(1))
    show "outside i t" "fr_remaining r = liveOf (fi_account i) t"
      using f(3,4) by (simp_all add: outside_def liveOf_def fields)
  qed (use f(2) inv fields in simp_all)
qed

text \<open>
  C12: after a folder-scope edit no live document of the account carries a root the edit archives and
  none is listed for archival, the reported remainder is the number of live documents, and the
  account row holds the new cursor.
\<close>

theorem folder_scope_edit_lands:
  assumes "store_inv D s" "applyFolderScope fuel now i s = Some (Inr (r, t))" "\<not> fr_stale r"
  shows "(\<forall>d \<in> set (documents t). account_id d = fi_account i \<and> archived_at d = None \<longrightarrow>
      scope_root_id d \<notin> Some ` set (fi_archiveScopeRootIds i) \<and> refOf d \<notin> set (fi_archiveRefs i)) \<and>
    fr_remaining r = length (filter (\<lambda>d. account_id d = fi_account i \<and> archived_at d = None) (documents t)) \<and>
    (\<exists>a. getAccountRow (fi_account i) t = Some a \<and>
       acursor a = Some (case fi_cursor i of None \<Rightarrow> JNull | Some c \<Rightarrow> c))"
proof -
  obtain acc where acc: "getAccountRow (fi_account i) s = Some acc"
    and accs: "accounts t = upd_where (\<lambda>a. aid a = aid acc) (scopedAccount i) (accounts s)"
    and out: "outside i t" and rem: "fr_remaining r = liveOf (fi_account i) t"
    by (rule edit_shape [OF assms])
  have keyed: "account_id d = fi_account i \<Longrightarrow> has_key (fi_account i) (refOf d) d" for d
    by (simp add: has_key_def refOf_def)
  have "getAccountRow (fi_account i) t = Some (scopedAccount i acc)"
    using acc getAccountRow_in [OF acc] by (simp add: getAccountRow_def accs find_upd_where)
  moreover have "scope_root_id d \<notin> Some ` set (fi_archiveScopeRootIds i) \<and> refOf d \<notin> set (fi_archiveRefs i)"
    if "d \<in> set (documents t)" "account_id d = fi_account i" "archived_at d = None" for d
  proof
    from out that have "\<not> liveInRoots (fi_account i) (fi_archiveScopeRootIds i) d"
      by (simp add: outside_def)
    with that show "scope_root_id d \<notin> Some ` set (fi_archiveScopeRootIds i)"
      by (auto simp: liveInRoots_def)
    from out that keyed show "refOf d \<notin> set (fi_archiveRefs i)"
      unfolding outside_def by blast
  qed
  ultimately show ?thesis by (simp add: rem liveOf_def scopedAccount_def)
qed

lemma familyOf_E:
  assumes "x \<in> familyOf a r s"
  obtains d where "d \<in> set (documents s)" "did d = x" "archived_at d = None"
    "has_key a r d \<or> (\<exists>p \<in> set (documents s). has_key a r p \<and> parent_id d = Some (did p))"
  using assms unfolding familyOf_def mem_Collect_eq by (elim exE conjE) (rule that, simp_all)

lemma familyOf_restamped:
  assumes "x \<in> familyOf a r u" "documents u = map (restamped b ps) (documents s)"
  shows "x \<in> familyOf a r s"
proof -
  obtain e where e: "e \<in> set (documents u)" "did e = x" "archived_at e = None"
    "has_key a r e \<or> (\<exists>p \<in> set (documents u). has_key a r p \<and> parent_id e = Some (did p))"
    by (rule familyOf_E [OF assms(1)])
  obtain d where d: "d \<in> set (documents s)" "e = restamped b ps d" using e(1) by (auto simp: assms(2))
  have "has_key a r d \<or> (\<exists>p \<in> set (documents s). has_key a r p \<and> parent_id d = Some (did p))"
    using e(4) by (auto simp: assms(2) d(2))
  with d e(2,3) show ?thesis unfolding familyOf_def by (intro CollectI exI [of _ d]) auto
qed

text \<open>
  What the edit says nothing of: a document that neither leaves by its root nor is listed, nor is
  the child of one that does. (A child shares its parent's fate, so a child of a leaving document
  is not among the spared, whether the edit archives it or not.)
\<close>

definition leavesScope :: "folder_scope_input \<Rightarrow> doc_row \<Rightarrow> bool" where
  "leavesScope i d \<longleftrightarrow>
     liveInRoots (fi_account i) (fi_archiveScopeRootIds i) (restamped (fi_account i) (fi_reattribute i) d) \<or>
     (\<exists>r \<in> set (fi_archiveRefs i). has_key (fi_account i) r d)"

definition keptInScope :: "folder_scope_input \<Rightarrow> store \<Rightarrow> doc_row \<Rightarrow> bool" where
  "keptInScope i s d \<longleftrightarrow> archived_at d \<noteq> None \<or>
     (\<not> leavesScope i d \<and> (\<forall>p \<in> set (documents s). parent_id d = Some (did p) \<longrightarrow> \<not> leavesScope i p))"

text \<open>
  C29: a folder-scope edit spares the rest: an archived document, and a live one that neither
  leaves with the edit (by its root or by the list) nor has a parent that does, keeps its whole
  row, its place in the change feed included; only its scope root moves, along the
  re-attributions.
\<close>

theorem folder_scope_edit_spares:
  assumes "store_inv D s" "applyFolderScope fuel now i s = Some (Inr (r, t))" "\<not> fr_stale r"
    and "d \<in> set (documents s)" "keptInScope i s d"
  shows "restamped (fi_account i) (fi_reattribute i) d \<in> set (documents t) \<and>
    (\<exists>x. restamped (fi_account i) (fi_reattribute i) d = d\<lparr>scope_root_id := x\<rparr>)"
proof -
  let ?h = "restamped (fi_account i) (fi_reattribute i)"
  obtain acc "is" where acc: "getAccountRow (fi_account i) s = Some acc"
    and docs: "documents t = documents (archiving now is (rescoped now i acc (s\<lparr>accountAppends := []\<rparr>)))"
    and sub: "set is \<subseteq> did ` {d \<in> set (map (restamped (aid acc) (fi_reattribute i)) (documents s)).
        liveInRoots (fi_account i) (fi_archiveScopeRootIds i) d} \<union>
      (\<Union>r \<in> set (fi_archiveRefs i). familyOf (fi_account i) r (rescoped now i acc (s\<lparr>accountAppends := []\<rparr>)))"
    by (rule edit_shape [OF assms(1-3)])
  have aid: "aid acc = fi_account i" using getAccountRow_in [OF acc] by simp
  obtain g where g: "archives (set is) g" "documents t = map g (map ?h (documents s))"
    using archiving_documents [of "is" now "rescoped now i acc (s\<lparr>accountAppends := []\<rparr>)"]
    by (auto simp: docs aid)
  have same: "e = d" if "e \<in> set (documents s)" "did e = did d" for e
    using same_did [OF store_invD(1) [OF assms(1)] that(1) assms(4) that(2)] .
  have "did d \<notin> set is"
  proof
    assume "did d \<in> set is"
    with sub consider e where "e \<in> set (documents s)" "did e = did d"
        "liveInRoots (fi_account i) (fi_archiveScopeRootIds i) (?h e)"
      | r where "r \<in> set (fi_archiveRefs i)" "did d \<in> familyOf (fi_account i) r (rescoped now i acc (s\<lparr>accountAppends := []\<rparr>))"
      by (auto simp: aid)
    then show False
    proof cases
      case 1
      with same [OF 1(1,2)] assms(5) show False by (auto simp: keptInScope_def leavesScope_def liveInRoots_def)
    next
      case 2
      have "documents (rescoped now i acc (s\<lparr>accountAppends := []\<rparr>)) =
          map (restamped (aid acc) (fi_reattribute i)) (documents s)" by simp
      from familyOf_restamped [OF 2(2) this]
      obtain e where e: "e \<in> set (documents s)" "did e = did d" "archived_at e = None"
        "has_key (fi_account i) r e \<or>
         (\<exists>p \<in> set (documents s). has_key (fi_account i) r p \<and> parent_id e = Some (did p))"
        by (rule familyOf_E)
      with same [OF e(1,2)] assms(5) 2(1) show False by (auto simp: keptInScope_def leavesScope_def)
    qed
  qed
  then have "g (?h d) = ?h d" using g(1) by (simp add: archives_def)
  then have "?h d \<in> set (documents t)" using assms(4) by (force simp: g(2))
  with restamped_only show ?thesis by blast
qed

text \<open>
  A folder-scope edit always comes back: with fuel for the pages its live documents can fill, it
  returns a result or throws.
\<close>

theorem folder_scope_edit_ends:
  assumes "liveOf (fi_account i) s < fuel * FOLDER_SCOPE_ARCHIVE_PAGE"
  shows "\<exists>m. applyFolderScope fuel now i s = Some m"
proof -
  let ?s = "s\<lparr>accountAppends := []\<rparr>"
  have "\<exists>rt. scopeEdit fuel FOLDER_SCOPE_ARCHIVE_PAGE now i acc ?s = Some rt"
    if "getAccountRow (fi_account i) s = Some acc" for acc
  proof -
    have aid: "aid acc = fi_account i" using getAccountRow_in [OF that] by simp
    let ?s1 = "updated now (aid acc) (scopedAccount i) ?s" and ?u = "rescoped now i acc ?s"
    obtain re where re: "fold (restamp (aid acc)) (fi_reattribute i) (0, ?s1) = (re, ?u)"
      using restamp_docs [of "aid acc" "fi_reattribute i" 0 ?s1] by (auto simp: rescoped_def Let_def)
    have "length (filter (liveInRoots (aid acc) (fi_archiveScopeRootIds i) \<circ> restamped (aid acc) (fi_reattribute i))
        (documents s)) \<le> liveOf (fi_account i) s"
      unfolding liveOf_def by (rule length_filter_le_imp) (simp add: liveInRoots_def aid)
    then have "leaving (aid acc) (fi_archiveScopeRootIds i) ?u < fuel * FOLDER_SCOPE_ARCHIVE_PAGE"
      using assms by (simp add: leaving_def filter_map)
    from archivePages_ends [OF this, of now 0] obtain n s3 where
      "archivePages fuel FOLDER_SCOPE_ARCHIVE_PAGE now (aid acc) (fi_archiveScopeRootIds i) (0, ?u) = Some (n, s3)"
      by auto
    with re show ?thesis
      by (simp add: scopeEdit_def updated_def Let_def split: prod.splits)
  qed
  then have "\<exists>m. applyFolderScopeTx fuel now i ?s = Some m"
    by (auto simp: applyFolderScopeTx_def getAccountRow_def split: option.splits)
  then show ?thesis by (auto simp: applyFolderScope_def)
qed

text \<open>
  a folder-scope edit, applied, stale or refused, keeps the invariant of the corpus; a refused
  one has no new store at all.
\<close>

theorem folder_scope_keeps_invariant:
  assumes "store_inv D s" "applyFolderScope fuel now i s = Some (Inr (r, t))"
  shows "store_inv D t \<and> (fr_stale r \<longrightarrow> accounts t = accounts s \<and> documents t = documents s \<and>
    changes t = changes s)"
proof (cases "fr_stale r")
  case False
  have "store_inv D t" by (rule edit_shape [OF assms False])
  with False show ?thesis by simp
next
  case True
  let ?s = "s\<lparr>accountAppends := []\<rparr>"
  obtain t' where tx: "applyFolderScopeTx fuel now i ?s = Some (Inr (r, t'))"
    and t: "t = t'\<lparr>accountPublishedAt := fold (\<lambda>(i, at) m. m(i \<mapsto> at)) (accountAppends t')
       (accountPublishedAt t'), accountAppends := []\<rparr>"
    using assms(2) by (auto simp: applyFolderScope_def publishing_def split: option.splits)
  have "t' = ?s"
    using tx True
    by (auto simp: applyFolderScopeTx_def scopeEdit_def Let_def split: option.splits if_splits prod.splits)
  with published_inv [OF start_inv [OF assms(1)]] show ?thesis by (simp add: t)
qed

text \<open>
  No lost update between two saves from the same reading of the settings: once the first is
  applied, a second that expects the old config (and the config did change) is stale and writes
  nothing.
\<close>

theorem folder_scope_second_save_is_stale:
  assumes "store_inv D s" "applyFolderScope fuel now i s = Some (Inr (r, t))" "\<not> fr_stale r"
    and "fi_account j = fi_account i" "fi_expected j = fi_expected i" "contradiction j = None"
    and "getAccountRow (fi_account i) t = Some a" "config a \<noteq> fi_expected i"
  shows "applyFolderScope fuel' now' j t = Some (Inr
    (\<lparr>fr_archived = 0, fr_reattributed = 0, fr_remaining = 0, fr_stale = True\<rparr>, t))"
proof -
  obtain acc where acc: "getAccountRow (fi_account i) s = Some acc" "config acc = fi_expected i"
    "config acc \<noteq> None"
    and accs: "accounts t = upd_where (\<lambda>a. aid a = aid acc) (scopedAccount i) (accounts s)"
    and none: "accountAppends t = []"
    by (rule edit_shape [OF assms(1-3)])
  have "getAccountRow (fi_account i) t = Some (scopedAccount i acc)"
    using acc(1) getAccountRow_in [OF acc(1)] by (simp add: getAccountRow_def accs find_upd_where)
  with assms(7) have "config a \<noteq> None" by (auto simp: scopedAccount_def)
  then obtain stored where stored: "config a = Some stored" by auto
  have same: "t\<lparr>accountAppends := []\<rparr> = t" using none by simp
  show ?thesis
    using assms(4-8) acc(2,3) stored none
    by (auto simp: applyFolderScope_def applyFolderScopeTx_def same publishing_def)
qed

section \<open>The config an edit writes\<close>

lemma withLegacyMirror_get:
  "k \<noteq> ''paths'' \<Longrightarrow> k \<noteq> ''roots'' \<Longrightarrow> obj_get k (withLegacyMirror src c) = obj_get k c"
  by (auto simp: withLegacyMirror_def split: option.splits json.splits)

lemma keepOptions_get: "k \<noteq> ''options'' \<Longrightarrow> obj_get k (keepOptions rowConfig c) = obj_get k c"
  by (auto simp: keepOptions_def Let_def obj_get_append split: option.splits)

lemma optionsOf_mirror: "optionsOf (Some (withLegacyMirror src c)) = optionsOf (Some c)"
  by (simp add: optionsOf_def withLegacyMirror_get)

text \<open>
  a folder-scope edit keeps the options of every account, and the edited account declares
  exactly the folder roots of the edit.
\<close>

theorem folder_scope_edit_keeps_options:
  assumes "store_inv D s" "applyFolderScope fuel now i s = Some (Inr (r, t))" "\<not> fr_stale r"
    and "x \<in> set (accounts s)"
  shows "\<exists>x' \<in> set (accounts t). aid x' = aid x \<and> optionsOf (config x') = optionsOf (config x) \<and>
    (aid x = fi_account i \<longrightarrow> (\<exists>c. config x' = Some c \<and>
       obj_get ''folderRoots'' c = obj_get ''folderRoots'' (fi_config i)))"
proof -
  obtain acc where acc: "getAccountRow (fi_account i) s = Some acc"
    and accs: "accounts t = upd_where (\<lambda>a. aid a = aid acc) (scopedAccount i) (accounts s)"
    by (rule edit_shape [OF assms(1-3)])
  have aid: "aid acc = fi_account i" using getAccountRow_in [OF acc] by simp
  let ?x = "if aid x = aid acc then scopedAccount i x else x"
  have "?x \<in> set (accounts t)" using assms(4) by (auto simp: accs set_upd_where)
  moreover have "optionsOf (config (scopedAccount i x)) = optionsOf (config x)"
    using optionsOf_keepOptions [of "Some (config x)" "fi_config i"]
    by (simp add: scopedAccount_def optionsOf_mirror)
  moreover have "\<exists>c. config (scopedAccount i x) = Some c \<and>
      obj_get ''folderRoots'' c = obj_get ''folderRoots'' (fi_config i)"
    by (simp add: scopedAccount_def withLegacyMirror_get keepOptions_get)
  ultimately show ?thesis by (intro bexI [of _ ?x]) (auto simp: aid)
qed

text \<open>
  The legacy mirror names the same scope: a build that does not know the folder roots reads from
  the mirrored config the ids this build reads from them.
\<close>

theorem legacy_mirror_names_the_scope:
  assumes "src \<in> {''local-folder'', ''google-docs'', ''onedrive''}"
    and "obj_get ''folderRoots'' cfg = Some (JArr rs)"
    and "\<forall>r \<in> set rs. \<exists>x. member ''id'' r = Some (JStr x)"
    and "\<forall>x. stringOf (Some (JStr x)) = x"
    and "src = ''local-folder'' \<longrightarrow> obj_get ''roots'' cfg = None"
  shows "declaredScopeIds stringOf (withLegacyMirror src cfg) =
      Some (map (\<lambda>r. stringOf (member ''id'' r)) rs) \<and>
    declaredScopeIds stringOf (obj_drop ''folderRoots'' (withLegacyMirror src cfg)) =
      declaredScopeIds stringOf (withLegacyMirror src cfg)"
proof -
  let ?m = "withLegacyMirror src cfg"
  have legacy: "(case legacyRoot r of JObj ob \<Rightarrow> obj_get ''rootFolderId'' ob | _ \<Rightarrow> None) = member ''id'' r"
    if "r \<in> set rs" for r
    using assms(3) that by (auto simp: legacyRoot_def as_property_def split: option.splits)
  have ids: "(case as_element (member ''id'' r) of JStr x \<Rightarrow> x | _ \<Rightarrow> []) = stringOf (member ''id'' r)"
    "case as_element (member ''id'' r) of JStr x \<Rightarrow> True | _ \<Rightarrow> False" if "r \<in> set rs" for r
    using assms(3,4) that by (force simp: as_element_def)+
  have now_ids: "declaredScopeIds stringOf ?m = Some (map (\<lambda>r. stringOf (member ''id'' r)) rs)"
    using assms(2) by (simp add: declaredScopeIds_def withLegacyMirror_get member_def)
  have "declaredScopeIds stringOf (obj_drop ''folderRoots'' ?m) = Some (map (\<lambda>r. stringOf (member ''id'' r)) rs)"
    using assms(1,2,5) legacy ids
    by (auto simp: declaredScopeIds_def withLegacyMirror_def)
  with now_ids show ?thesis by simp
qed

section \<open>An edit of a sample account\<close>

text \<open>
  One cloud account with the roots R1 and R2: a parent under R1, its child under R2, and a third
  document under R3. The edit removes R1, moves R3 to R2 and lists nothing.
\<close>

definition root :: "string \<Rightarrow> json" where
  "root x = JObj [(''id'', JStr x), (''name'', JStr x)]"

definition two_roots :: jobj where
  "two_roots = [(''folderRoots'', JArr [root ''R1'', root ''R2'']), (''options'', JObj [(''k'', JBool True)])]"

definition scoped :: store where
  "scoped = (stocked None)\<lparr>
     accounts := [(sample_account ''a'')\<lparr>source := ''onedrive'', config := Some two_roots\<rparr>, sample_account ''b''],
     documents := [(sample_doc 1 ''P'' ''p'' None None)\<lparr>scope_root_id := Some ''R1''\<rparr>,
                   (sample_doc 2 ''C'' ''c'' (Some ''P'') None)\<lparr>scope_root_id := Some ''R2''\<rparr>,
                   (sample_doc 3 ''Q'' ''q'' None None)\<lparr>scope_root_id := Some ''R3''\<rparr>],
     changes := changes (stocked None) @ [\<lparr>cseq = 3, kind = DocumentChange, ref_id = ''Q'', cat = 0\<rparr>],
     change_counter := 3,
     documents_fts := (documents_fts (stocked None))
       (3 \<mapsto> ftsRow sample_deps ''Q'' (Some ''q'') (Some ''q'') [''en'']),
     documents_tri := (documents_tri (stocked None))(3 \<mapsto> triRow ''Q'' (Some ''q'') (Some ''q''))\<rparr>"

definition one_root :: folder_scope_input where
  "one_root = \<lparr>fi_account = ''a'', fi_config = [(''folderRoots'', JArr [root ''R2''])],
     fi_cursor = None, fi_archiveScopeRootIds = [''R1''], fi_reattribute = [(''R3'', ''R2'')],
     fi_archiveRefs = [], fi_expected = Some two_roots\<rparr>"

definition rescoped_after :: store where
  "rescoped_after = (case applyFolderScope 1 1000 one_root scoped of
     Some m \<Rightarrow> after m | None \<Rightarrow> empty_store)"

definition edit_result :: folder_scope_result where
  "edit_result = \<lparr>fr_archived = 1, fr_reattributed = 1, fr_remaining = 2, fr_stale = False\<rparr>"

lemma scoped_edit: "applyFolderScope 1 1000 one_root scoped = Some (Inr (edit_result, rescoped_after))"
proof -
  have "case applyFolderScope 1 1000 one_root scoped of Some (Inr (r, t)) \<Rightarrow> r = edit_result | _ \<Rightarrow> False"
    by code_simp
  then show ?thesis by (auto simp: rescoped_after_def after_def split: option.splits sum.splits)
qed

lemma store_inv_scoped: "store_inv sample_deps scoped"
  by (simp add: scoped_def store_inv_def keys_ok_def index_ok_def feed_ok_def refs_ok_def stocked_def
      Let_def fts_view_def tri_view_def fun_eq_iff two_accounts_def sample_account_def sample_doc_def
      nat_key_def is_doc_change_def)

lemma edit_fresh: "\<not> fr_stale edit_result"
  by (simp add: edit_result_def)

theorem folder_scope_edit_lands_witness:
  "\<exists>a. getAccountRow ''a'' rescoped_after = Some a \<and> acursor a = Some JNull"
  using folder_scope_edit_lands [OF store_inv_scoped scoped_edit edit_fresh] by (simp add: one_root_def)

theorem folder_scope_edit_spares_witness:
  "(sample_doc 3 ''Q'' ''q'' None None)\<lparr>scope_root_id := Some ''R2''\<rparr> \<in> set (documents rescoped_after)"
proof -
  let ?d = "(sample_doc 3 ''Q'' ''q'' None None)\<lparr>scope_root_id := Some ''R3''\<rparr>"
  have moved: "restamped (fi_account one_root) (fi_reattribute one_root) ?d =
      ?d\<lparr>scope_root_id := Some ''R2''\<rparr>"
    by (simp add: one_root_def liveInRoots_def sample_doc_def)
  have "\<not> leavesScope one_root ?d"
    unfolding leavesScope_def moved by (simp add: one_root_def liveInRoots_def)
  then have kept: "keptInScope one_root scoped ?d"
    by (simp add: keptInScope_def sample_doc_def)
  have "?d \<in> set (documents scoped)" by (simp add: scoped_def)
  from folder_scope_edit_spares [OF store_inv_scoped scoped_edit edit_fresh this kept] moved
  show ?thesis by simp
qed

theorem folder_scope_edit_ends_witness: "\<exists>m. applyFolderScope 1 1000 one_root scoped = Some m"
  by (rule folder_scope_edit_ends)
    (simp add: liveOf_def scoped_def sample_doc_def one_root_def FOLDER_SCOPE_ARCHIVE_PAGE_def)

theorem folder_scope_keeps_invariant_witness: "store_inv sample_deps rescoped_after"
  using folder_scope_keeps_invariant [OF store_inv_scoped scoped_edit] by simp

theorem folder_scope_second_save_is_stale_witness:
  "applyFolderScope 1 2000 one_root rescoped_after = Some (Inr
     (\<lparr>fr_archived = 0, fr_reattributed = 0, fr_remaining = 0, fr_stale = True\<rparr>, rescoped_after))"
proof -
  have "case getAccountRow ''a'' rescoped_after of Some a \<Rightarrow> config a \<noteq> Some two_roots | None \<Rightarrow> False"
    by code_simp
  then obtain a where "getAccountRow (fi_account one_root) rescoped_after = Some a"
    "config a \<noteq> fi_expected one_root"
    by (auto simp: one_root_def split: option.splits)
  moreover have "contradiction one_root = None" by (simp add: contradiction_def one_root_def)
  ultimately show ?thesis
    by (intro folder_scope_second_save_is_stale [OF store_inv_scoped scoped_edit edit_fresh refl refl])
qed

theorem folder_scope_edit_keeps_options_witness:
  "\<exists>x' \<in> set (accounts rescoped_after). aid x' = ''a'' \<and>
     optionsOf (config x') = Some (JObj [(''k'', JBool True)])"
proof -
  let ?a = "(sample_account ''a'')\<lparr>source := ''onedrive'', config := Some two_roots\<rparr>"
  have "?a \<in> set (accounts scoped)" by (simp add: scoped_def)
  from folder_scope_edit_keeps_options [OF store_inv_scoped scoped_edit edit_fresh this] show ?thesis
    by (auto simp: optionsOf_def two_roots_def sample_account_def)
qed

theorem legacy_mirror_names_the_scope_witness:
  "declaredScopeIds (\<lambda>v. case v of Some (JStr x) \<Rightarrow> x | _ \<Rightarrow> ''undefined'')
     (obj_drop ''folderRoots'' (withLegacyMirror ''onedrive'' two_roots)) = Some [''R1'', ''R2'']"
  using legacy_mirror_names_the_scope [of "''onedrive''" two_roots "[root ''R1'', root ''R2'']"
      "\<lambda>v. case v of Some (JStr x) \<Rightarrow> x | _ \<Rightarrow> ''undefined''"]
  by (simp add: two_roots_def root_def member_def)

text \<open>The archived parent's child is still live: the page loop does not follow the children.\<close>

lemma folder_scope_leaves_children_live:
  "\<exists>p \<in> set (documents rescoped_after). \<exists>c \<in> set (documents rescoped_after).
     archived_at p \<noteq> None \<and> parent_id c = Some (did p) \<and> archived_at c = None"
  by code_simp

end
