(* ===== verification/LedgerRekey.thy ===== *)
theory LedgerRekey
  imports Reconcile
begin

text \<open>
  The paged re-key repair of the work ledger: \<open>rekeyLedgerPageTx\<close> of
  src/main/core/store/write-tx.ts. \<open>meta_rekeyed\<close> and \<open>meta_rekey_cursor\<close> are the two meta rows.
\<close>

definition LEDGER_REKEY_PAGE :: nat where
  "LEDGER_REKEY_PAGE = 5000"

record rekey_page_result =
  rk_done :: bool
  rk_scanned :: nat

text \<open>\<open>SELECT MIN(consumer) FROM work_ledger WHERE consumer > ?\<close>\<close>

definition nextConsumer :: "string \<Rightarrow> store \<Rightarrow> string option" where
  "nextConsumer c s = (case filter (\<lambda>x. x > c) (map lconsumer (work_ledger s)) of
     [] \<Rightarrow> None | x # xs \<Rightarrow> Some (fold min xs x))"

definition finishRekey :: "nat \<Rightarrow> store \<Rightarrow> rekey_page_result \<times> store" where
  "finishRekey scanned s = (\<lparr>rk_done = True, rk_scanned = scanned\<rparr>,
     s\<lparr>meta_rekeyed := True, meta_rekey_cursor := None\<rparr>)"

definition deferredRows :: "string \<Rightarrow> nat \<Rightarrow> nat \<Rightarrow> store \<Rightarrow> (nat \<times> nat) list" where
  "deferredRows c after_seq limit s = take limit (sort_key fst (map (\<lambda>r. (lseq r, lattempts r))
     (filter (\<lambda>r. lconsumer r = c \<and> loutcome r = Some Deferred \<and> lseq r > after_seq)
       (work_ledger s))))"

definition isCurrent :: "nat \<Rightarrow> store \<Rightarrow> bool" where
  "isCurrent q s \<longleftrightarrow> (\<exists>d \<in> set (documents s). seq d = q)"

definition changeAt :: "nat \<Rightarrow> store \<Rightarrow> change_row option" where
  "changeAt q s = find (\<lambda>c. cseq c = q) (changes s)"

definition currentSeq :: "nat \<Rightarrow> store \<Rightarrow> nat option" where
  "currentSeq q s = (case changeAt q s of
     None \<Rightarrow> None
   | Some c \<Rightarrow> if kind c = DocumentChange then map_option seq (docById (ref_id c) s) else None)"

definition ledgerAt :: "string \<Rightarrow> nat \<Rightarrow> store \<Rightarrow> ledger_row option" where
  "ledgerAt c q s = find (\<lambda>r. ledger_key r = (c, q)) (work_ledger s)"

definition delLedger :: "string \<Rightarrow> nat \<Rightarrow> store \<Rightarrow> store" where
  "delLedger c q s = s\<lparr>work_ledger := filter (\<lambda>r. ledger_key r \<noteq> (c, q)) (work_ledger s)\<rparr>"

text \<open>One deferred row of the page: (its seq, its attempts).\<close>

definition rekeyRow :: "time \<Rightarrow> string \<Rightarrow> nat \<times> nat \<Rightarrow> store \<Rightarrow> store" where
  "rekeyRow now c r s =
     (if isCurrent (fst r) s then s
      else let s1 = (case currentSeq (fst r) s of
              None \<Rightarrow> s
            | Some q \<Rightarrow> (case ledgerAt c q s of
                None \<Rightarrow> s\<lparr>work_ledger := work_ledger s @ [\<lparr>lconsumer = c, lseq = q,
                    lattempts = snd r, loutcome = Some Deferred, lupdated_at = now\<rparr>]\<rparr>
              | Some there \<Rightarrow>
                  if loutcome there = Some Done then s
                  else s\<lparr>work_ledger := upd_where (\<lambda>x. ledger_key x = (c, q))
                    (\<lambda>x. x\<lparr>loutcome := Some Deferred, lattempts := 0, lupdated_at := now\<rparr>)
                    (work_ledger s)\<rparr>))
           in delLedger c (fst r) s1)"

definition rekeyFrom :: "time \<Rightarrow> nat \<Rightarrow> string \<Rightarrow> nat \<Rightarrow> store \<Rightarrow> rekey_page_result \<times> store" where
  "rekeyFrom now limit c after_seq s =
     (let rows = deferredRows c after_seq limit s;
          s1 = fold (rekeyRow now c) rows s
      in if length rows = limit
         then (\<lparr>rk_done = False, rk_scanned = length rows\<rparr>,
               s1\<lparr>meta_rekey_cursor := Some (c, fst (last rows))\<rparr>)
         else case nextConsumer c s1 of
           None \<Rightarrow> finishRekey (length rows) s1
         | Some n \<Rightarrow> (\<lparr>rk_done = False, rk_scanned = length rows\<rparr>,
               s1\<lparr>meta_rekey_cursor := Some (n, 0)\<rparr>))"

definition rekeyLedgerPageTx :: "time \<Rightarrow> nat \<Rightarrow> store \<Rightarrow> rekey_page_result \<times> store" where
  "rekeyLedgerPageTx now limit s = (case meta_rekey_cursor s of
     Some (c, q) \<Rightarrow> rekeyFrom now limit c q s
   | None \<Rightarrow> (case nextConsumer [] s of
       None \<Rightarrow> finishRekey 0 s
     | Some c \<Rightarrow> rekeyFrom now limit c 0 s))"

section \<open>One attempt of the repair job\<close>

text \<open>
  The page loop of \<open>registerLedgerRekey\<close> (src/main/core/changes-maintenance.ts): pages until one
  reports \<open>done\<close>. The result is (pages, deferred rows scanned, store); None is running out of
  fuel. Nothing else writes between the pages.
\<close>

fun rekeyPages :: "nat \<Rightarrow> (nat \<Rightarrow> time) \<Rightarrow> nat \<Rightarrow> nat \<times> nat \<times> store \<Rightarrow> (nat \<times> nat \<times> store) option" where
  "rekeyPages 0 clock limit st = None"
| "rekeyPages (Suc fuel) clock limit (pages, scanned, s) =
     (case rekeyLedgerPageTx (clock pages) limit s of (r, t) \<Rightarrow>
        if rk_done r then Some (pages + 1, scanned + rk_scanned r, t)
        else rekeyPages fuel clock limit (pages + 1, scanned + rk_scanned r, t))"

definition rekeyAttempt :: "nat \<Rightarrow> (nat \<Rightarrow> time) \<Rightarrow> nat \<Rightarrow> store \<Rightarrow> (nat \<times> nat \<times> store) option" where
  "rekeyAttempt fuel clock limit s =
     (if meta_rekeyed s then Some (0, 0, s) else rekeyPages fuel clock limit (0, 0, s))"

end
