(* ===== verification/LedgerRekeyProps.thy ===== *)
theory LedgerRekeyProps
  imports LedgerRekey Samples
begin

text \<open>
  The ledger repair: an attempt comes back, it leaves no deferral keyed on a seq no document
  carries, and it loses no deferral whose document is still there.
\<close>

section \<open>Rows of the ledger\<close>

definition ledger_ok :: "store \<Rightarrow> bool" where
  "ledger_ok s \<longleftrightarrow> distinct (map ledger_key (work_ledger s)) \<and>
     (\<forall>x \<in> set (work_ledger s). lconsumer x \<noteq> [] \<and> 0 < lseq x \<and> lseq x \<le> change_counter s) \<and>
     (\<forall>d \<in> set (documents s). 0 < seq d \<and> seq d \<le> change_counter s)"

text \<open>What the repair never writes.\<close>

definition same_docs :: "store \<Rightarrow> store \<Rightarrow> bool" where
  "same_docs s t \<longleftrightarrow> documents t = documents s \<and> changes t = changes s \<and>
     change_counter t = change_counter s"

lemma same_docs_refl [simp]: "same_docs s s" by (simp add: same_docs_def)

lemma same_docs_trans: "same_docs s t \<Longrightarrow> same_docs t u \<Longrightarrow> same_docs s u"
  by (simp add: same_docs_def)

lemma same_docs_current:
  assumes "same_docs s t"
  shows "isCurrent q t = isCurrent q s" "currentSeq q t = currentSeq q s"
proof -
  have "docById i t = docById i s" for i using assms by (simp add: same_docs_def docById_def)
  then show "currentSeq q t = currentSeq q s"
    using assms by (auto simp: same_docs_def currentSeq_def changeAt_def split: option.split)
  show "isCurrent q t = isCurrent q s" using assms by (simp add: same_docs_def isCurrent_def)
qed

lemma currentSeq_current: "currentSeq q s = Some p \<Longrightarrow> isCurrent p s"
  by (auto simp: currentSeq_def isCurrent_def split: option.splits if_splits dest!: docById_Some)

text \<open>The row a stale deferral is moved to.\<close>

definition moved :: "time \<Rightarrow> string \<Rightarrow> nat \<times> nat \<Rightarrow> store \<Rightarrow> ledger_row list" where
  "moved now c r s = (case currentSeq (fst r) s of
     None \<Rightarrow> work_ledger s
   | Some q \<Rightarrow> (case ledgerAt c q s of
       None \<Rightarrow> work_ledger s @ [\<lparr>lconsumer = c, lseq = q, lattempts = snd r,
         loutcome = Some Deferred, lupdated_at = now\<rparr>]
     | Some there \<Rightarrow> if loutcome there = Some Done then work_ledger s
         else upd_where (\<lambda>x. ledger_key x = (c, q))
           (\<lambda>x. x\<lparr>loutcome := Some Deferred, lattempts := 0, lupdated_at := now\<rparr>) (work_ledger s)))"

lemma rekeyRow_eq:
  "rekeyRow now c r s = (if isCurrent (fst r) s then s
     else s\<lparr>work_ledger := filter (\<lambda>x. ledger_key x \<noteq> (c, fst r)) (moved now c r s)\<rparr>)"
  by (simp add: rekeyRow_def moved_def delLedger_def Let_def split: option.splits)

lemma same_docs_rekeyRow [simp]: "same_docs s (rekeyRow now c r s)"
  by (simp add: rekeyRow_eq same_docs_def)

lemma same_docs_rekeyRows [simp]: "same_docs s (fold (rekeyRow now c) rs s)"
proof (induction rs arbitrary: s)
  case (Cons r rs)
  from same_docs_trans [OF same_docs_rekeyRow Cons.IH] show ?case by simp
qed simp

lemma moved_rows:
  assumes "x \<in> set (moved now c r s)"
  shows "x \<in> set (work_ledger s) \<or> (lconsumer x = c \<and> isCurrent (lseq x) s)"
  using assms
  by (auto simp: moved_def set_upd_where ledger_key_def split: option.splits if_splits
      dest: currentSeq_current)

lemma rekeyRow_rows:
  assumes "x \<in> set (work_ledger (rekeyRow now c r s))"
  shows "(x \<in> set (work_ledger s) \<and> \<not> (ledger_key x = (c, fst r) \<and> \<not> isCurrent (fst r) s)) \<or>
    (lconsumer x = c \<and> isCurrent (lseq x) s)"
  using assms moved_rows [of x now c r s] by (auto simp: rekeyRow_eq split: if_splits)

lemma rekeyRows_rows:
  assumes "x \<in> set (work_ledger (fold (rekeyRow now c) rs s))"
  shows "(x \<in> set (work_ledger s) \<and> \<not> (\<exists>r \<in> set rs. ledger_key x = (c, fst r) \<and> \<not> isCurrent (fst r) s)) \<or>
    (lconsumer x = c \<and> isCurrent (lseq x) s)"
  using assms
proof (induction rs arbitrary: s)
  case (Cons r rs)
  let ?t = "rekeyRow now c r s"
  have "isCurrent q ?t = isCurrent q s" for q by (rule same_docs_current) simp
  with Cons.IH [of ?t] Cons.prems have
    "(x \<in> set (work_ledger ?t) \<and> \<not> (\<exists>r \<in> set rs. ledger_key x = (c, fst r) \<and> \<not> isCurrent (fst r) s)) \<or>
      (lconsumer x = c \<and> isCurrent (lseq x) s)"
    by simp
  with rekeyRow_rows [of x now c r s] show ?case by auto
qed simp

section \<open>Nothing is lost\<close>

text \<open>The deferral of (c, q), whose document's seq is now p, is still owed, or was settled at p.\<close>

definition owed :: "string \<Rightarrow> nat \<Rightarrow> nat \<Rightarrow> store \<Rightarrow> bool" where
  "owed c q p s \<longleftrightarrow>
     (\<exists>x \<in> set (work_ledger s). ledger_key x = (c, q) \<and> loutcome x = Some Deferred) \<or>
     (\<exists>x \<in> set (work_ledger s). ledger_key x = (c, p) \<and> loutcome x \<in> {Some Deferred, Some Done})"

lemma moved_owed:
  assumes "currentSeq q s = Some p" "fst r = q"
  shows "\<exists>x \<in> set (moved now c r s). ledger_key x = (c, p) \<and> loutcome x \<in> {Some Deferred, Some Done}"
proof (cases "ledgerAt c p s")
  case None
  then show ?thesis using assms by (simp add: moved_def ledger_key_def)
next
  case (Some there)
  then have there: "there \<in> set (work_ledger s)" "ledger_key there = (c, p)"
    unfolding ledgerAt_def by (auto dest: find_Some_set)
  show ?thesis
  proof (cases "loutcome there = Some Done")
    case True
    with there Some assms show ?thesis by (auto simp: moved_def)
  next
    case False
    let ?x = "there\<lparr>loutcome := Some Deferred, lattempts := 0, lupdated_at := now\<rparr>"
    have "?x \<in> set (moved now c r s)"
      using there Some assms False by (auto simp: moved_def set_upd_where image_iff)
    moreover have "ledger_key ?x = (c, p)" using there(2) by (simp add: ledger_key_def)
    ultimately show ?thesis by (intro bexI [of _ ?x]) simp_all
  qed
qed

lemma moved_keeps:
  assumes "x \<in> set (work_ledger s)" "loutcome x \<in> {Some Deferred, Some Done}"
  shows "\<exists>y \<in> set (moved now c r s). ledger_key y = ledger_key x \<and>
    (loutcome y = loutcome x \<or> loutcome y = Some Deferred)"
proof (cases "moved now c r s = work_ledger s")
  case True
  with assms show ?thesis by auto
next
  case False
  let ?up = "\<lambda>x. x\<lparr>loutcome := Some Deferred, lattempts := 0, lupdated_at := now\<rparr>"
  from False consider z where "moved now c r s = work_ledger s @ [z]"
    | P where "moved now c r s = upd_where P ?up (work_ledger s)"
    by (auto simp: moved_def split: option.splits if_splits)
  then show ?thesis
  proof cases
    case 2
    let ?y = "if P x then ?up x else x"
    have "?y \<in> set (moved now c r s)" using assms(1) by (auto simp: 2 set_upd_where)
    then show ?thesis by (intro bexI [of _ ?y]) (simp_all add: ledger_key_def)
  qed (use assms in auto)
qed

lemma rekeyRow_owed:
  assumes "owed c q p s" "currentSeq q s = Some p" "\<not> isCurrent q s"
  shows "owed c q p (rekeyRow now c' r s)"
proof (cases "isCurrent (fst r) s")
  case True
  with assms show ?thesis by (simp add: rekeyRow_eq)
next
  case stale: False
  let ?M = "moved now c' r s"
  have rows: "work_ledger (rekeyRow now c' r s) = filter (\<lambda>x. ledger_key x \<noteq> (c', fst r)) ?M"
    using stale by (simp add: rekeyRow_eq)
  have p: "p \<noteq> fst r" using stale currentSeq_current [OF assms(2)] by auto
  show ?thesis
  proof (cases "\<exists>x \<in> set (work_ledger s). ledger_key x = (c, p) \<and> loutcome x \<in> {Some Deferred, Some Done}")
    case True
    then obtain x where x: "x \<in> set (work_ledger s)" "ledger_key x = (c, p)"
      "loutcome x \<in> {Some Deferred, Some Done}" by blast
    from moved_keeps [OF x(1,3), of now c' r] x obtain y where "y \<in> set ?M" "ledger_key y = (c, p)"
      "loutcome y \<in> {Some Deferred, Some Done}" by auto
    with p show ?thesis unfolding owed_def rows by (intro disjI2 bexI [of _ y]) auto
  next
    case False
    then obtain x where x: "x \<in> set (work_ledger s)" "ledger_key x = (c, q)" "loutcome x = Some Deferred"
      using assms(1) by (auto simp: owed_def)
    show ?thesis
    proof (cases "c' = c \<and> fst r = q")
      case True
      with moved_owed [OF assms(2), of r now c] obtain y where "y \<in> set ?M" "ledger_key y = (c, p)"
        "loutcome y \<in> {Some Deferred, Some Done}" by auto
      with p show ?thesis unfolding owed_def rows by (intro disjI2 bexI [of _ y]) auto
    next
      case False
      from moved_keeps [OF x(1), of now c' r] x obtain y where "y \<in> set ?M" "ledger_key y = (c, q)"
        "loutcome y = Some Deferred" by auto
      with False show ?thesis unfolding owed_def rows by (intro disjI1 bexI [of _ y]) auto
    qed
  qed
qed

lemma rekeyRows_owed:
  assumes "owed c q p s" "currentSeq q s = Some p" "\<not> isCurrent q s"
  shows "owed c q p (fold (rekeyRow now c') rs s)"
  using assms
proof (induction rs arbitrary: s)
  case (Cons r rs)
  have "same_docs s (rekeyRow now c' r s)" by simp
  from same_docs_current [OF this, of q] Cons.IH [OF rekeyRow_owed [OF Cons.prems, of now c' r]] Cons.prems(2,3)
  show ?case by simp
qed simp

section \<open>A page\<close>

lemma nextConsumer_Some:
  assumes "nextConsumer c s = Some n"
  shows "n \<in> lconsumer ` set (work_ledger s)" "c < n"
    "x \<in> set (work_ledger s) \<Longrightarrow> c < lconsumer x \<Longrightarrow> n \<le> lconsumer x"
proof -
  obtain y ys where f: "filter (\<lambda>x. x > c) (map lconsumer (work_ledger s)) = y # ys" "n = fold min ys y"
    using assms by (auto simp: nextConsumer_def split: list.splits)
  then have n: "n = Min (set (filter (\<lambda>x. x > c) (map lconsumer (work_ledger s))))"
    using Min.set_eq_fold [of y ys] by simp
  have "n \<in> set (filter (\<lambda>x. x > c) (map lconsumer (work_ledger s)))"
    unfolding n by (rule Min_in) (simp_all add: f(1))
  then show "n \<in> lconsumer ` set (work_ledger s)" "c < n" by auto
  show "x \<in> set (work_ledger s) \<Longrightarrow> c < lconsumer x \<Longrightarrow> n \<le> lconsumer x"
    unfolding n by (rule Min_le) auto
qed

lemma nextConsumer_None:
  "nextConsumer c s = None \<Longrightarrow> x \<in> set (work_ledger s) \<Longrightarrow> \<not> c < lconsumer x"
  by (auto simp: nextConsumer_def filter_empty_conv split: list.splits)

text \<open>The page holds every deferred row between the cursor and its last row.\<close>

lemma sorted_take_prefix:
  assumes "sorted (map f xs)" "x \<in> set xs" "x \<notin> set (take k xs)" "y \<in> set (take k xs)"
  shows "f y \<le> f x"
proof -
  have split: "set xs = set (take k xs) \<union> set (drop k xs)"
    by (metis append_take_drop_id set_append)
  then have "x \<in> set (drop k xs)" using assms(2,3) by blast
  moreover have "sorted (map f (take k xs) @ map f (drop k xs))"
    using assms(1) by (simp flip: map_append)
  ultimately show ?thesis using assms(4) by (auto simp: sorted_append)
qed

lemma deferredRows_set:
  "r \<in> set (deferredRows c a limit s) \<Longrightarrow> \<exists>x \<in> set (work_ledger s). ledger_key x = (c, fst r) \<and> a < fst r"
  by (force simp: deferredRows_def ledger_key_def dest!: in_set_takeD)

lemma deferredRows_complete:
  assumes "x \<in> set (work_ledger s)" "lconsumer x = c" "loutcome x = Some Deferred" "a < lseq x"
    and "distinct (map ledger_key (work_ledger s))"
    and "length (deferredRows c a limit s) = limit \<Longrightarrow> limit \<noteq> 0 \<and> lseq x \<le> fst (last (deferredRows c a limit s))"
  shows "\<exists>r \<in> set (deferredRows c a limit s). fst r = lseq x"
proof -
  let ?all = "sort_key fst (map (\<lambda>r. (lseq r, lattempts r))
     (filter (\<lambda>r. lconsumer r = c \<and> loutcome r = Some Deferred \<and> lseq r > a) (work_ledger s)))"
  have rows: "deferredRows c a limit s = take limit ?all" by (simp add: deferredRows_def)
  have x: "(lseq x, lattempts x) \<in> set ?all" using assms(1-4) by auto
  show ?thesis
  proof (cases "(lseq x, lattempts x) \<in> set (take limit ?all)")
    case True
    then show ?thesis unfolding rows by force
  next
    case False
    have len: "length (take limit ?all) = limit"
    proof (rule ccontr)
      assume "length (take limit ?all) \<noteq> limit"
      then have "take limit ?all = ?all" by simp
      with False x show False by simp
    qed
    with assms(6) rows have "limit \<noteq> 0" "lseq x \<le> fst (last (take limit ?all))" by auto
    with len have ne: "take limit ?all \<noteq> []" by (metis list.size(3))
    let ?l = "last (take limit ?all)"
    have l: "?l \<in> set (take limit ?all)" by (rule last_in_set [OF ne])
    have "fst ?l \<le> fst (lseq x, lattempts x)"
      by (rule sorted_take_prefix [OF sorted_sort_key x False l])
    with \<open>lseq x \<le> fst ?l\<close> have "fst ?l = lseq x" by simp
    with l show ?thesis unfolding rows by blast
  qed
qed

definition upto :: "string \<Rightarrow> nat \<Rightarrow> store \<Rightarrow> bool" where
  "upto c a s \<longleftrightarrow> (\<forall>x \<in> set (work_ledger s). loutcome x = Some Deferred \<and>
     (lconsumer x < c \<or> (lconsumer x = c \<and> lseq x \<le> a)) \<longrightarrow> isCurrent (lseq x) s)"

definition ahead :: "string \<Rightarrow> nat \<Rightarrow> store \<Rightarrow> nat" where
  "ahead c a s = card {x \<in> lconsumer ` set (work_ledger s). c < x} * (change_counter s + 2) +
     (change_counter s + 1 - a)"

lemma moved_keys:
  "map ledger_key (moved now c r s) = map ledger_key (work_ledger s) \<or>
   (\<exists>q. isCurrent q s \<and> (c, q) \<notin> ledger_key ` set (work_ledger s) \<and>
      map ledger_key (moved now c r s) = map ledger_key (work_ledger s) @ [(c, q)])"
proof (cases "currentSeq (fst r) s")
  case None
  then show ?thesis by (simp add: moved_def)
next
  case (Some q)
  show ?thesis
  proof (cases "ledgerAt c q s")
    case None
    then have "(c, q) \<notin> ledger_key ` set (work_ledger s)"
      by (auto simp: ledgerAt_def find_None_iff_all)
    with None Some currentSeq_current [OF Some] show ?thesis
      by (intro disjI2 exI [of _ q]) (simp add: moved_def, simp add: ledger_key_def)
  next
    case (Some there)
    then show ?thesis
      using \<open>currentSeq (fst r) s = Some q\<close> by (simp add: moved_def map_upd_where ledger_key_def)
  qed
qed

lemma rekeyRow_ok:
  assumes "ledger_ok s" "c \<noteq> []"
  shows "ledger_ok (rekeyRow now c r s)"
proof (cases "isCurrent (fst r) s")
  case True
  with assms show ?thesis by (simp add: rekeyRow_eq)
next
  case False
  from moved_keys [of now c r s] have "distinct (map ledger_key (moved now c r s))"
    using assms(1) by (auto simp: ledger_ok_def)
  moreover have "lconsumer x \<noteq> [] \<and> 0 < lseq x \<and> lseq x \<le> change_counter s"
    if x: "x \<in> set (moved now c r s)" for x
  proof -
    from moved_rows [OF x] show ?thesis
    proof (elim disjE conjE)
      assume "lconsumer x = c" "isCurrent (lseq x) s"
      with assms show ?thesis by (auto simp: ledger_ok_def isCurrent_def)
    qed (use assms(1) in \<open>simp add: ledger_ok_def\<close>)
  qed
  ultimately show ?thesis
    using False assms(1) by (auto simp: ledger_ok_def rekeyRow_eq distinct_map_filter_key)
qed

lemma rekeyRows_ok: "ledger_ok s \<Longrightarrow> c \<noteq> [] \<Longrightarrow> ledger_ok (fold (rekeyRow now c) rs s)"
  by (rule fold_invariant_set) (auto intro: rekeyRow_ok)

lemma meta_fields [simp]:
  "ledger_ok (s\<lparr>meta_rekey_cursor := k\<rparr>) = ledger_ok s" "ledger_ok (s\<lparr>meta_rekeyed := b\<rparr>) = ledger_ok s"
  "upto c a (s\<lparr>meta_rekey_cursor := k\<rparr>) = upto c a s" "upto c a (s\<lparr>meta_rekeyed := b\<rparr>) = upto c a s"
  "owed c q p (s\<lparr>meta_rekey_cursor := k\<rparr>) = owed c q p s" "owed c q p (s\<lparr>meta_rekeyed := b\<rparr>) = owed c q p s"
  "ahead c a (s\<lparr>meta_rekey_cursor := k\<rparr>) = ahead c a s"
  "same_docs s0 (s\<lparr>meta_rekey_cursor := k\<rparr>) = same_docs s0 s" "same_docs s0 (s\<lparr>meta_rekeyed := b\<rparr>) = same_docs s0 s"
  by (simp_all add: ledger_ok_def upto_def owed_def ahead_def same_docs_def isCurrent_def)

text \<open>After the page's rows, everything up to the last of them is current.\<close>

lemma page_upto:
  assumes "ledger_ok s" "upto c a s"
    and b: "\<And>x. x \<in> set (work_ledger s) \<Longrightarrow> lconsumer x = c \<Longrightarrow> loutcome x = Some Deferred \<Longrightarrow>
      a < lseq x \<Longrightarrow> lseq x \<le> b \<Longrightarrow> \<exists>r \<in> set rs. fst r = lseq x"
  shows "upto c b (fold (rekeyRow now c) rs s)"
  unfolding upto_def
proof (intro ballI impI)
  let ?t = "fold (rekeyRow now c) rs s"
  have cur: "isCurrent q ?t = isCurrent q s" for q by (rule same_docs_current) simp
  fix x :: ledger_row assume x: "x \<in> set (work_ledger ?t)"
    "loutcome x = Some Deferred \<and> (lconsumer x < c \<or> lconsumer x = c \<and> lseq x \<le> b)"
  show "isCurrent (lseq x) ?t"
  proof (rule ccontr)
    assume stale: "\<not> isCurrent (lseq x) ?t"
    with rekeyRows_rows [OF x(1)] cur have in_s: "x \<in> set (work_ledger s)"
      "\<not> (\<exists>r \<in> set rs. ledger_key x = (c, fst r))"
      by (auto simp: ledger_key_def)
    with stale cur assms(2) x(2) have "lconsumer x = c" "a < lseq x" "lseq x \<le> b"
      by (auto simp: upto_def not_le)
    with b [OF in_s(1)] x(2) in_s(2) show False by (auto simp: ledger_key_def)
  qed
qed

lemma page_consumers:
  assumes "\<And>r. r \<in> set rs \<Longrightarrow> c \<in> lconsumer ` set (work_ledger s)"
  shows "lconsumer ` set (work_ledger (fold (rekeyRow now c) rs s)) \<subseteq> lconsumer ` set (work_ledger s)"
proof
  fix y assume "y \<in> lconsumer ` set (work_ledger (fold (rekeyRow now c) rs s))"
  then obtain x where x: "x \<in> set (work_ledger (fold (rekeyRow now c) rs s))" "y = lconsumer x" by auto
  show "y \<in> lconsumer ` set (work_ledger s)"
  proof (cases rs)
    case Nil
    with x show ?thesis by simp
  next
    case (Cons r rs')
    with rekeyRows_rows [OF x(1)] assms [of r] x(2) show ?thesis by auto
  qed
qed

lemma rekeyFrom_page:
  assumes "ledger_ok s" "upto c a s" "c \<noteq> []" "0 < limit" "rekeyFrom now limit c a s = (r, t)"
  shows "ledger_ok t \<and> same_docs s t \<and>
    (if rk_done r then \<forall>x \<in> set (work_ledger t). loutcome x = Some Deferred \<longrightarrow> isCurrent (lseq x) t
     else \<exists>c' a'. meta_rekey_cursor t = Some (c', a') \<and> c' \<noteq> [] \<and> upto c' a' t \<and> ahead c' a' t < ahead c a s)"
proof -
  let ?rows = "deferredRows c a limit s"
  let ?s1 = "fold (rekeyRow now c) ?rows s"
  have ok1: "ledger_ok ?s1" by (rule rekeyRows_ok [OF assms(1,3)])
  have docs1: "same_docs s ?s1" by simp
  have keys: "distinct (map ledger_key (work_ledger s))" using assms(1) by (simp add: ledger_ok_def)
  have sub: "lconsumer ` set (work_ledger ?s1) \<subseteq> lconsumer ` set (work_ledger s)"
    by (rule page_consumers) (auto dest!: deferredRows_set simp: ledger_key_def)
  show ?thesis
  proof (cases "length ?rows = limit")
    case True
    then have ne: "?rows \<noteq> []" using assms(4) by auto
    let ?l = "fst (last ?rows)"
    have res: "\<not> rk_done r" "t = ?s1\<lparr>meta_rekey_cursor := Some (c, ?l)\<rparr>"
      using assms(5) True by (auto simp: rekeyFrom_def Let_def)
    have l: "a < ?l" "?l \<le> change_counter s"
      using deferredRows_set [OF last_in_set [OF ne]] assms(1)
      by (auto simp: ledger_ok_def ledger_key_def)
    have "upto c ?l ?s1"
      by (rule page_upto [OF assms(1,2)]) (rule deferredRows_complete, use keys assms(4) in auto)
    moreover have "ahead c ?l ?s1 < ahead c a s"
    proof -
      have "card {x \<in> lconsumer ` set (work_ledger ?s1). c < x} \<le> card {x \<in> lconsumer ` set (work_ledger s). c < x}"
        using sub by (intro card_mono) auto
      then have "card {x \<in> lconsumer ` set (work_ledger ?s1). c < x} * (change_counter s + 2) \<le>
          card {x \<in> lconsumer ` set (work_ledger s). c < x} * (change_counter s + 2)"
        by (rule mult_le_mono1)
      with l docs1 show ?thesis by (simp add: ahead_def same_docs_def)
    qed
    ultimately show ?thesis using ok1 docs1 assms(3) by (simp add: res)
  next
    case False
    have all: "upto c b ?s1" for b
      by (rule page_upto [OF assms(1,2)]) (rule deferredRows_complete, use keys False in auto)
    show ?thesis
    proof (cases "nextConsumer c ?s1")
      case None
      then have res: "rk_done r" "t = ?s1\<lparr>meta_rekeyed := True, meta_rekey_cursor := None\<rparr>"
        using assms(5) False by (auto simp: rekeyFrom_def finishRekey_def Let_def)
      have "isCurrent (lseq x) ?s1" if "x \<in> set (work_ledger ?s1)" "loutcome x = Some Deferred" for x
        using all [of "lseq x"] that nextConsumer_None [OF None that(1)] by (auto simp: upto_def)
      then show ?thesis using ok1 docs1 by (simp add: res isCurrent_def)
    next
      case (Some n)
      then have res: "\<not> rk_done r" "t = ?s1\<lparr>meta_rekey_cursor := Some (n, 0)\<rparr>"
        using assms(5) False by (auto simp: rekeyFrom_def finishRekey_def Let_def)
      note n = nextConsumer_Some [OF Some]
      have "upto n 0 ?s1"
        unfolding upto_def
      proof (intro ballI impI)
        fix x :: ledger_row assume x: "x \<in> set (work_ledger ?s1)"
          "loutcome x = Some Deferred \<and> (lconsumer x < n \<or> lconsumer x = n \<and> lseq x \<le> 0)"
        moreover have "0 < lseq x" using ok1 x(1) by (simp add: ledger_ok_def)
        ultimately have "\<not> c < lconsumer x" using n(3) [OF x(1)] by auto
        with all [of "lseq x"] x show "isCurrent (lseq x) ?s1" by (auto simp: upto_def)
      qed
      moreover have "ahead n 0 ?s1 < ahead c a s"
      proof -
        let ?A = "{x \<in> lconsumer ` set (work_ledger ?s1). n < x}" and ?B = "{x \<in> lconsumer ` set (work_ledger s). c < x}"
        have "?A \<subset> ?B" using sub n(1,2) by auto
        then have "card ?A + 1 \<le> card ?B" using psubset_card_mono [of ?B ?A] by simp
        then have "(card ?A + 1) * (change_counter s + 2) \<le> card ?B * (change_counter s + 2)"
          by (rule mult_le_mono1)
        with docs1 show ?thesis by (simp add: ahead_def same_docs_def)
      qed
      moreover have "n \<noteq> []" using n(1) ok1 by (auto simp: ledger_ok_def)
      ultimately show ?thesis using ok1 docs1 by (simp add: res)
    qed
  qed
qed

section \<open>The page loop\<close>

definition resumable :: "store \<Rightarrow> bool" where
  "resumable s \<longleftrightarrow> ledger_ok s \<and>
     (\<forall>c a. meta_rekey_cursor s = Some (c, a) \<longrightarrow> c \<noteq> [] \<and> upto c a s)"

definition togo :: "store \<Rightarrow> nat" where
  "togo s = (case meta_rekey_cursor s of None \<Rightarrow> ahead [] 0 s | Some (c, a) \<Rightarrow> ahead c a s)"

lemma rekeyFrom_owed:
  assumes "owed c q p s" "currentSeq q s = Some p" "\<not> isCurrent q s" "rekeyFrom now limit c' a s = (r, t)"
  shows "owed c q p t \<and> (rk_done r \<longrightarrow> meta_rekeyed t)"
  using rekeyRows_owed [OF assms(1-3), of now c' "deferredRows c' a limit s"] assms(4)
  by (auto simp: rekeyFrom_def finishRekey_def Let_def split: if_splits option.splits)

lemma rekeyFrom_marks: "rekeyFrom now limit c a s = (r, t) \<Longrightarrow> rk_done r \<Longrightarrow> meta_rekeyed t"
  by (auto simp: rekeyFrom_def finishRekey_def Let_def split: if_splits option.splits)

lemma rekeyPage:
  assumes "resumable s" "0 < limit" "rekeyLedgerPageTx now limit s = (r, t)"
  shows "ledger_ok t \<and> same_docs s t \<and>
    (if rk_done r then meta_rekeyed t \<and> (\<forall>x \<in> set (work_ledger t). loutcome x = Some Deferred \<longrightarrow> isCurrent (lseq x) t)
     else resumable t \<and> togo t < togo s)"
proof (cases "meta_rekey_cursor s")
  case (Some ca)
  obtain c a where ca: "ca = (c, a)" by (cases ca)
  from assms(1) Some have pre: "ledger_ok s" "upto c a s" "c \<noteq> []" by (auto simp: resumable_def ca)
  have from_page: "rekeyFrom now limit c a s = (r, t)"
    using assms(3) Some by (simp add: rekeyLedgerPageTx_def ca)
  from rekeyFrom_page [OF pre assms(2) from_page] rekeyFrom_marks [OF from_page] Some show ?thesis
    by (auto simp: resumable_def togo_def ca split: if_splits)
next
  case None
  from assms(1) have ok: "ledger_ok s" by (simp add: resumable_def)
  show ?thesis
  proof (cases "nextConsumer [] s")
    case empty: None
    have "work_ledger s = []"
    proof (cases "work_ledger s")
      case (Cons x xs)
      with ok have "[] < lconsumer x" by (auto simp: ledger_ok_def neq_Nil_conv)
      with nextConsumer_None [OF empty, of x] Cons show ?thesis by simp
    qed
    with assms(3) None empty ok show ?thesis
      by (auto simp: rekeyLedgerPageTx_def finishRekey_def)
  next
    case (Some n)
    note n = nextConsumer_Some [OF Some]
    have from_page: "rekeyFrom now limit n 0 s = (r, t)"
      using assms(3) None Some by (simp add: rekeyLedgerPageTx_def)
    have "n \<noteq> []" using n(2) by auto
    moreover have "upto n 0 s"
      unfolding upto_def
    proof (intro ballI impI)
      fix x :: ledger_row assume x: "x \<in> set (work_ledger s)"
        "loutcome x = Some Deferred \<and> (lconsumer x < n \<or> lconsumer x = n \<and> lseq x \<le> 0)"
      then have "[] < lconsumer x" "0 < lseq x" using ok by (auto simp: ledger_ok_def neq_Nil_conv)
      with n(3) [OF x(1)] x(2) show "isCurrent (lseq x) s" by auto
    qed
    moreover have "ahead n 0 s \<le> ahead [] 0 s"
    proof -
      have "card {x \<in> lconsumer ` set (work_ledger s). n < x} \<le> card {x \<in> lconsumer ` set (work_ledger s). [] < x}"
        using n(2) by (intro card_mono) auto
      then have "card {x \<in> lconsumer ` set (work_ledger s). n < x} * (change_counter s + 2) \<le>
          card {x \<in> lconsumer ` set (work_ledger s). [] < x} * (change_counter s + 2)"
        by (rule mult_le_mono1)
      then show ?thesis by (simp add: ahead_def)
    qed
    ultimately show ?thesis
      using rekeyFrom_page [OF ok _ _ assms(2) from_page] rekeyFrom_marks [OF from_page] None
      by (auto simp: resumable_def togo_def split: if_splits)
  qed
qed

lemma rekeyPages_end:
  assumes "resumable s" "0 < limit" "togo s < fuel"
  shows "\<exists>pages scanned t. rekeyPages fuel clock limit (n, m, s) = Some (pages, scanned, t) \<and>
    meta_rekeyed t \<and> same_docs s t \<and> (\<forall>x \<in> set (work_ledger t). loutcome x = Some Deferred \<longrightarrow> isCurrent (lseq x) t)"
  using assms
proof (induction fuel arbitrary: n m s)
  case (Suc fuel)
  obtain r t where p: "rekeyLedgerPageTx (clock n) limit s = (r, t)" by fastforce
  note page = rekeyPage [OF Suc.prems(1,2) p]
  show ?case
  proof (cases "rk_done r")
    case True
    with page p show ?thesis by auto
  next
    case False
    with page Suc.prems(3) have "resumable t" "togo t < fuel" "same_docs s t" by auto
    from Suc.IH [OF this(1) Suc.prems(2) this(2), of "n + 1" "m + rk_scanned r"] False p
      same_docs_trans [OF \<open>same_docs s t\<close>]
    show ?thesis by auto
  qed
qed simp

lemma rekeyPages_owed:
  assumes "owed c q p s" "currentSeq q s = Some p" "\<not> isCurrent q s"
    and "resumable s" "0 < limit" "rekeyPages fuel clock limit (n, m, s) = Some (pages, scanned, t)"
  shows "owed c q p t"
  using assms
proof (induction fuel arbitrary: n m s)
  case (Suc fuel)
  obtain r u where p: "rekeyLedgerPageTx (clock n) limit s = (r, u)" by fastforce
  note page = rekeyPage [OF Suc.prems(4,5) p]
  have owed_u: "owed c q p u"
    using p rekeyFrom_owed [OF Suc.prems(1-3)] Suc.prems(1)
    by (auto simp: rekeyLedgerPageTx_def finishRekey_def split: option.splits)
  show ?case
  proof (cases "rk_done r")
    case True
    with Suc.prems(6) p owed_u show ?thesis by simp
  next
    case False
    with page have res: "resumable u" and docs: "same_docs s u" by auto
    have "currentSeq q u = Some p" "\<not> isCurrent q u"
      using same_docs_current [OF docs, of q] Suc.prems(2,3) by simp_all
    from Suc.IH [OF owed_u this res Suc.prems(5)] False p Suc.prems(6) show ?thesis by simp
  qed
qed simp

section \<open>The properties of the repair\<close>

lemma resumable_fresh: "ledger_ok s \<Longrightarrow> meta_rekey_cursor s = None \<Longrightarrow> resumable s"
  by (simp add: resumable_def)

lemma togo_fresh: "meta_rekey_cursor s = None \<Longrightarrow>
    togo s \<le> card (lconsumer ` set (work_ledger s)) * (change_counter s + 2) + change_counter s + 1"
proof -
  assume "meta_rekey_cursor s = None"
  moreover have "card {x \<in> lconsumer ` set (work_ledger s). [] < x} \<le> card (lconsumer ` set (work_ledger s))"
    by (intro card_mono) auto
  then have "card {x \<in> lconsumer ` set (work_ledger s). [] < x} * (change_counter s + 2) \<le>
      card (lconsumer ` set (work_ledger s)) * (change_counter s + 2)" by (rule mult_le_mono1)
  ultimately show ?thesis by (simp add: togo_def ahead_def)
qed

lemma rekey_repairs:
  assumes "ledger_ok s" "meta_rekey_cursor s = None" "0 < limit"
    and "card (lconsumer ` set (work_ledger s)) * (change_counter s + 2) + change_counter s + 1 < fuel"
  shows "\<exists>pages scanned t. rekeyPages fuel clock limit (0, 0, s) = Some (pages, scanned, t) \<and>
    meta_rekeyed t \<and> same_docs s t \<and> (\<forall>x \<in> set (work_ledger t). loutcome x = Some Deferred \<longrightarrow> isCurrent (lseq x) t)"
  by (rule rekeyPages_end [OF resumable_fresh [OF assms(1,2)] assms(3)])
    (use togo_fresh [OF assms(2)] assms(4) in simp)



section \<open>A ledger with a stale deferral\<close>

text \<open>The parent changed again, as change 3, after a worker deferred its change 1.\<close>

definition stale_ledger :: store where
  "stale_ledger = (stocked None)\<lparr>
     documents := [(sample_doc 1 ''P'' ''p'' None None)\<lparr>seq := 3\<rparr>, sample_doc 2 ''C'' ''c'' (Some ''P'') None],
     changes := changes (stocked None) @ [\<lparr>cseq = 3, kind = DocumentChange, ref_id = ''P'', cat = 0\<rparr>],
     change_counter := 3,
     work_ledger := [\<lparr>lconsumer = ''w'', lseq = 1, lattempts = 2, loutcome = Some Deferred, lupdated_at = 0\<rparr>,
                     \<lparr>lconsumer = ''w'', lseq = 2, lattempts = 0, loutcome = Some Done, lupdated_at = 0\<rparr>]\<rparr>"

lemma stale_ledger_ok: "ledger_ok stale_ledger" "meta_rekey_cursor stale_ledger = None"
  "\<not> meta_rekeyed stale_ledger"
  by (simp_all add: ledger_ok_def stale_ledger_def ledger_key_def sample_doc_def stocked_def Let_def
      two_accounts_def empty_store_def)

lemma stale_ledger_fuel:
  "card (lconsumer ` set (work_ledger stale_ledger)) * (change_counter stale_ledger + 2) +
     change_counter stale_ledger + 1 < 10"
  by (simp add: stale_ledger_def)



end
