(* ===== verification/Admission.thy ===== *)
theory Admission
  imports Prelude
begin

text \<open>
  \<open>createAdmission\<close> of src/main/core/admission.ts: the one owner of background admission.

  The closure's variables are the record \<open>adm\<close>; a promise that is still open is an entry of
  \<open>waiters\<close>, \<open>idleWaiters\<close>, and a callback that may still run an entry of \<open>units\<close> (a \<open>release\<close> not
  called yet), \<open>holds\<close> (a slow-mode timer), \<open>fgOpen\<close> (a leave not called yet) or \<open>wake\<close>. Every event
  of the outside (a call, a timer, an abort) is a step, the clock is read once per event. Instants
  are milliseconds; a slow-mode hold is kept in quarter milliseconds, as it may be a quarter of the
  unit's duration.
\<close>

section \<open>State\<close>

type_synonym instant = int

datatype unit_kind = Ingest | Convert | ReconcileUnit | Redrive

definition FOREGROUND_GRACE_MS :: instant where "FOREGROUND_GRACE_MS = 300"
definition MAX_FOREGROUND_WAIT_MS :: instant where "MAX_FOREGROUND_WAIT_MS = 10000"
definition KIND_AGING_MS :: instant where "KIND_AGING_MS = 5000"
definition SLOW_MODE_MAX_HOLD_MS :: instant where "SLOW_MODE_MAX_HOLD_MS = 2000"

fun RANK :: "unit_kind \<Rightarrow> nat" where
  "RANK Ingest = 0" | "RANK Convert = 1" | "RANK ReconcileUnit = 2" | "RANK Redrive = 3"

record waiter =
  wid :: nat
  wkind :: unit_kind
  enq :: instant

record unit_run =
  uid :: nat
  escaped :: bool
  started :: instant

record idle_waiter =
  iid :: nat
  since :: instant

datatype outcome_event = Admitted nat | Rejected nat | IdleResolved nat | IdleRejected nat

text \<open>\<open>fgLastLeave\<close> is None before the first leave (\<open>NEGATIVE_INFINITY\<close>).\<close>

record adm =
  slots :: nat
  waiters :: "waiter list"
  idleWaiters :: "idle_waiter list"
  running :: nat
  held :: nat
  escapedRunning :: nat
  fgInFlight :: nat
  fgLastLeave :: "instant option"
  wake :: "instant option"
  admittedOf :: "unit_kind \<Rightarrow> nat"
  waitMsOf :: "unit_kind \<Rightarrow> instant"
  starvationEscapes :: nat
  slowModeHoldQ :: instant
  enrichmentWaits :: nat
  enrichmentWaitMs :: instant
  units :: "unit_run list"
  holds :: "(nat \<times> instant) list"
  fgOpen :: "nat list"
  outcomes :: "outcome_event list"

definition createAdmission :: "nat \<Rightarrow> adm" where
  "createAdmission n = \<lparr>slots = n, waiters = [], idleWaiters = [], running = 0, held = 0,
     escapedRunning = 0, fgInFlight = 0, fgLastLeave = None, wake = None, admittedOf = (\<lambda>_. 0),
     waitMsOf = (\<lambda>_. 0), starvationEscapes = 0, slowModeHoldQ = 0, enrichmentWaits = 0,
     enrichmentWaitMs = 0, units = [], holds = [], fgOpen = [], outcomes = []\<rparr>"

definition foregroundBusy :: "instant \<Rightarrow> adm \<Rightarrow> bool" where
  "foregroundBusy now s \<longleftrightarrow> fgInFlight s > 0 \<or>
     (case fgLastLeave s of None \<Rightarrow> False | Some l \<Rightarrow> now - l < FOREGROUND_GRACE_MS)"

section \<open>Which waiter may start\<close>

text \<open>
  \<open>waiters.forEach((w, i) => { if (ok(w) && (best < 0 || better(w, waiters[best]))) best = i })\<close>
\<close>

fun bestFrom :: "(waiter \<Rightarrow> bool) \<Rightarrow> (waiter \<Rightarrow> waiter \<Rightarrow> bool) \<Rightarrow> waiter list \<Rightarrow> nat \<Rightarrow>
    (nat \<times> waiter) option \<Rightarrow> (nat \<times> waiter) option" where
  "bestFrom ok better [] i best = best"
| "bestFrom ok better (w # ws) i best = bestFrom ok better ws (Suc i)
     (if ok w \<and> (case best of None \<Rightarrow> True | Some (_, b) \<Rightarrow> better w b) then Some (i, w) else best)"

definition older :: "waiter \<Rightarrow> waiter \<Rightarrow> bool" where
  "older a b \<longleftrightarrow> enq a < enq b"

definition ranked :: "waiter \<Rightarrow> waiter \<Rightarrow> bool" where
  "ranked a b \<longleftrightarrow> RANK (wkind a) < RANK (wkind b) \<or>
     (RANK (wkind a) = RANK (wkind b) \<and> enq a < enq b)"

definition starved :: "instant \<Rightarrow> waiter \<Rightarrow> bool" where
  "starved now w \<longleftrightarrow> now - enq w \<ge> MAX_FOREGROUND_WAIT_MS"

definition aged :: "instant \<Rightarrow> waiter \<Rightarrow> bool" where
  "aged now w \<longleftrightarrow> now - enq w \<ge> KIND_AGING_MS"

text \<open>The pick is (index, waiter, escaped).\<close>

definition pickNext :: "instant \<Rightarrow> adm \<Rightarrow> (nat \<times> waiter \<times> bool) option" where
  "pickNext now s =
     (if foregroundBusy now s
      then if escapedRunning s > 0 then None
           else (case bestFrom (starved now) older (waiters s) 0 None of
             None \<Rightarrow> None | Some (i, w) \<Rightarrow> Some (i, w, True))
      else (case bestFrom (aged now) older (waiters s) 0 None of
         Some (i, w) \<Rightarrow> Some (i, w, False)
       | None \<Rightarrow> (case bestFrom (\<lambda>_. True) ranked (waiters s) 0 None of
           None \<Rightarrow> None | Some (i, w) \<Rightarrow> Some (i, w, False))))"

section \<open>Admitting\<close>

definition cut_at :: "nat \<Rightarrow> 'a list \<Rightarrow> 'a list" where
  "cut_at i xs = take i xs @ drop (Suc i) xs"

definition admit :: "instant \<Rightarrow> waiter \<Rightarrow> bool \<Rightarrow> adm \<Rightarrow> adm" where
  "admit now w esc s = s\<lparr>
     running := running s + 1,
     escapedRunning := (if esc then escapedRunning s + 1 else escapedRunning s),
     starvationEscapes := (if esc then starvationEscapes s + 1 else starvationEscapes s),
     waitMsOf := (waitMsOf s)(wkind w := waitMsOf s (wkind w) + (now - enq w)),
     admittedOf := (admittedOf s)(wkind w := admittedOf s (wkind w) + 1),
     units := units s @ [\<lparr>uid = wid w, escaped = esc, started = now\<rparr>],
     outcomes := outcomes s @ [Admitted (wid w)]\<rparr>"

text \<open>The \<open>while\<close> of \<open>pump\<close>; \<open>n\<close> is the number of waiters, each round takes one.\<close>

fun pumpLoop :: "nat \<Rightarrow> instant \<Rightarrow> adm \<Rightarrow> adm" where
  "pumpLoop 0 now s = s"
| "pumpLoop (Suc n) now s =
     (if running s < slots s \<and> waiters s \<noteq> []
      then (case pickNext now s of
         None \<Rightarrow> s
       | Some (i, w, esc) \<Rightarrow> pumpLoop n now (admit now w esc (s\<lparr>waiters := cut_at i (waiters s)\<rparr>)))
      else s)"

fun min_opt :: "instant option \<Rightarrow> instant \<Rightarrow> instant option" where
  "min_opt None b = Some b"
| "min_opt (Some a) b = Some (min a b)"

text \<open>None is \<open>POSITIVE_INFINITY\<close>: no timer.\<close>

definition wakeAt :: "instant \<Rightarrow> adm \<Rightarrow> instant option" where
  "wakeAt now s =
     (if waiters s = [] \<and> idleWaiters s = [] then None
      else if \<not> foregroundBusy now s then None
      else let at0 = (if fgInFlight s = 0
               then map_option (\<lambda>l. l + FOREGROUND_GRACE_MS) (fgLastLeave s) else None);
               at1 = (if escapedRunning s = 0 \<and> running s < slots s
               then foldl min_opt at0 (map (\<lambda>w. enq w + MAX_FOREGROUND_WAIT_MS) (waiters s)) else at0)
           in map_option (max now) at1)"

definition armWake :: "instant \<Rightarrow> adm \<Rightarrow> adm" where
  "armWake now s = s\<lparr>wake := wakeAt now s\<rparr>"

definition pump :: "instant \<Rightarrow> adm \<Rightarrow> adm" where
  "pump now s = armWake now (pumpLoop (length (waiters s)) now s)"

section \<open>The calls and the callbacks\<close>

definition acquire :: "instant \<Rightarrow> nat \<Rightarrow> unit_kind \<Rightarrow> bool \<Rightarrow> adm \<Rightarrow> adm" where
  "acquire now i k aborted s =
     (if aborted then s\<lparr>outcomes := outcomes s @ [Rejected i]\<rparr>
      else pump now (s\<lparr>waiters := waiters s @ [\<lparr>wid = i, wkind = k, enq = now\<rparr>]\<rparr>))"

definition acquireAborts :: "instant \<Rightarrow> nat \<Rightarrow> adm \<Rightarrow> adm" where
  "acquireAborts now i s =
     (if i \<notin> wid ` set (waiters s) then s
      else armWake now (s\<lparr>waiters := filter (\<lambda>w. wid w \<noteq> i) (waiters s),
                          outcomes := outcomes s @ [Rejected i]\<rparr>))"

text \<open>The hold in quarter milliseconds: \<open>min(2000, factor * (now - t0))\<close>.\<close>

definition slowHold :: "instant \<Rightarrow> bool \<Rightarrow> unit_run \<Rightarrow> adm \<Rightarrow> instant" where
  "slowHold now userActive u s =
     (if userActive
      then min (4 * SLOW_MODE_MAX_HOLD_MS) ((if slots s = 1 then 4 else 1) * (now - started u))
      else 0)"

definition release :: "instant \<Rightarrow> bool \<Rightarrow> nat \<Rightarrow> adm \<Rightarrow> adm" where
  "release now userActive i s = (case find (\<lambda>u. uid u = i) (units s) of
     None \<Rightarrow> s
   | Some u \<Rightarrow>
       let s1 = s\<lparr>units := remove1 u (units s),
                  escapedRunning := (if escaped u then escapedRunning s - 1 else escapedRunning s)\<rparr>;
           h = slowHold now userActive u s
       in if h > 0
          then s1\<lparr>held := held s + 1, slowModeHoldQ := slowModeHoldQ s + h, holds := holds s @ [(i, h)]\<rparr>
          else pump now (s1\<lparr>running := running s - 1\<rparr>))"

definition holdEnds :: "instant \<Rightarrow> nat \<Rightarrow> adm \<Rightarrow> adm" where
  "holdEnds now i s = (case find (\<lambda>h. fst h = i) (holds s) of
     None \<Rightarrow> s
   | Some h \<Rightarrow> pump now (s\<lparr>holds := remove1 h (holds s), held := held s - 1, running := running s - 1\<rparr>))"

definition foreground :: "instant \<Rightarrow> nat \<Rightarrow> adm \<Rightarrow> adm" where
  "foreground now i s = armWake now (s\<lparr>fgInFlight := fgInFlight s + 1, fgOpen := i # fgOpen s\<rparr>)"

definition leave :: "instant \<Rightarrow> nat \<Rightarrow> adm \<Rightarrow> adm" where
  "leave now i s =
     (if i \<notin> set (fgOpen s) then s
      else let n = fgInFlight s - 1 in
        armWake now (s\<lparr>fgOpen := remove1 i (fgOpen s), fgInFlight := n,
          fgLastLeave := (if n = 0 then Some now else fgLastLeave s)\<rparr>))"

definition foregroundIdle :: "instant \<Rightarrow> nat \<Rightarrow> bool \<Rightarrow> adm \<Rightarrow> adm" where
  "foregroundIdle now i aborted s =
     (if aborted then s\<lparr>outcomes := outcomes s @ [IdleRejected i]\<rparr>
      else if \<not> foregroundBusy now s then s\<lparr>outcomes := outcomes s @ [IdleResolved i]\<rparr>
      else armWake now (s\<lparr>enrichmentWaits := enrichmentWaits s + 1,
        idleWaiters := idleWaiters s @ [\<lparr>iid = i, since = now\<rparr>]\<rparr>))"

text \<open>\<open>entry.finish(err)\<close>, from the cap timer, the abort listener or the wake timer.\<close>

definition finishIdle :: "instant \<Rightarrow> bool \<Rightarrow> nat \<Rightarrow> adm \<Rightarrow> adm" where
  "finishIdle now err i s = (case find (\<lambda>e. iid e = i) (idleWaiters s) of
     None \<Rightarrow> s
   | Some e \<Rightarrow> s\<lparr>idleWaiters := remove1 e (idleWaiters s),
        enrichmentWaitMs := enrichmentWaitMs s + (now - since e),
        outcomes := outcomes s @ [if err then IdleRejected i else IdleResolved i]\<rparr>)"

definition wakeFires :: "instant \<Rightarrow> adm \<Rightarrow> adm" where
  "wakeFires now s =
     (let s1 = s\<lparr>wake := None\<rparr>;
          s2 = (if \<not> foregroundBusy now s1
                then fold (finishIdle now False) (map iid (idleWaiters s1)) s1 else s1)
      in pump now s2)"

section \<open>The snapshot\<close>

record adm_snapshot =
  snSlots :: nat
  snRunning :: nat
  snHeld :: nat
  snForegroundInFlight :: nat
  snForegroundBusy :: bool
  snWaiting :: "unit_kind \<Rightarrow> nat"
  snAdmitted :: "unit_kind \<Rightarrow> nat"
  snWaitMs :: "unit_kind \<Rightarrow> instant"
  snStarvationEscapes :: nat
  snSlowModeHoldQ :: instant
  snEnrichmentWaits :: nat
  snEnrichmentWaitMs :: instant

definition snapshot :: "instant \<Rightarrow> adm \<Rightarrow> adm_snapshot" where
  "snapshot now s = \<lparr>snSlots = slots s, snRunning = running s, snHeld = held s,
     snForegroundInFlight = fgInFlight s, snForegroundBusy = foregroundBusy now s,
     snWaiting = (\<lambda>k. length (filter (\<lambda>w. wkind w = k) (waiters s))),
     snAdmitted = admittedOf s, snWaitMs = waitMsOf s, snStarvationEscapes = starvationEscapes s,
     snSlowModeHoldQ = slowModeHoldQ s, snEnrichmentWaits = enrichmentWaits s,
     snEnrichmentWaitMs = enrichmentWaitMs s\<rparr>"

section \<open>Runs\<close>

datatype adm_event =
    Acquire nat unit_kind bool
  | AcquireAborts nat
  | Release nat bool
  | HoldEnds nat
  | Foreground nat
  | Leave nat
  | ForegroundIdle nat bool
  | IdleCap nat
  | IdleAborts nat
  | WakeFires

fun handle :: "instant \<Rightarrow> adm_event \<Rightarrow> adm \<Rightarrow> adm" where
  "handle now (Acquire i k aborted) s = acquire now i k aborted s"
| "handle now (AcquireAborts i) s = acquireAborts now i s"
| "handle now (Release i active) s = release now active i s"
| "handle now (HoldEnds i) s = holdEnds now i s"
| "handle now (Foreground i) s = foreground now i s"
| "handle now (Leave i) s = leave now i s"
| "handle now (ForegroundIdle i aborted) s = foregroundIdle now i aborted s"
| "handle now (IdleCap i) s = finishIdle now False i s"
| "handle now (IdleAborts i) s = finishIdle now True i s"
| "handle now WakeFires s = wakeFires now s"

text \<open>
  A reached state with the clock of its last event. Time does not run backwards, a call has its
  own id, and the wake timer fires only when it is armed and due. \<open>ok\<close> restricts the runs.
\<close>

definition enabled :: "instant \<Rightarrow> adm_event \<Rightarrow> adm \<Rightarrow> bool" where
  "enabled now e s \<longleftrightarrow> (case e of
     Acquire i k a \<Rightarrow> i \<notin> wid ` set (waiters s) \<and> i \<notin> uid ` set (units s) \<and> i \<notin> fst ` set (holds s)
   | Foreground i \<Rightarrow> i \<notin> set (fgOpen s)
   | ForegroundIdle i a \<Rightarrow> i \<notin> iid ` set (idleWaiters s)
   | WakeFires \<Rightarrow> (case wake s of None \<Rightarrow> False | Some a \<Rightarrow> a \<le> now)
   | _ \<Rightarrow> True)"

inductive reached :: "(instant \<Rightarrow> adm_event \<Rightarrow> adm \<Rightarrow> bool) \<Rightarrow> nat \<Rightarrow> instant \<Rightarrow> adm \<Rightarrow> bool" for ok n where
  created: "reached ok n t0 (createAdmission n)"
| event: "reached ok n t s \<Longrightarrow> t \<le> now \<Longrightarrow> enabled now e s \<Longrightarrow> ok now e s \<Longrightarrow>
    reached ok n now (handle now e s)"

section \<open>The enrichment lane\<close>

datatype lane_window = Always | Night | IdleWindow

datatype lane_state = Disabled | Battery | UntilSynced | Open | UntilNight | UntilIdle

record enrichment_inputs =
  enabledPref :: bool
  windowPref :: lane_window
  onBattery :: bool
  userActive :: bool
  weak :: bool
  syncing :: bool

text \<open>\<open>hour\<close> is \<open>at.getHours()\<close>.\<close>

definition enrichmentLane :: "nat \<Rightarrow> enrichment_inputs \<Rightarrow> lane_state" where
  "enrichmentLane hour p =
     (if \<not> enabledPref p then Disabled
      else if onBattery p then Battery
      else if weak p \<and> syncing p then UntilSynced
      else case windowPref p of
         Always \<Rightarrow> Open
       | Night \<Rightarrow> if hour \<ge> 22 \<or> hour < 7 then Open else UntilNight
       | IdleWindow \<Rightarrow> if userActive p then UntilIdle else Open)"

end
