(* ===== verification/AdmissionProps.thy ===== *)
theory AdmissionProps
  imports Admission
begin

text \<open>
  What admission promises: its counters are the units in flight and never exceed the slots, a
  foreground call is only ever disturbed by one starved unit, waiting units go by age and rank, and
  no waiter is left behind without a slot taken or a timer armed.
\<close>

section \<open>Accounting\<close>

definition accounted :: "adm \<Rightarrow> bool" where
  "accounted s \<longleftrightarrow> running s = length (units s) + length (holds s) \<and> held s = length (holds s) \<and>
     escapedRunning s = length (filter escaped (units s)) \<and> fgInFlight s = length (fgOpen s) \<and>
     running s \<le> slots s \<and> escapedRunning s \<le> 1"

lemma pickNext_escapes: "pickNext now s = Some (i, w, True) \<Longrightarrow> escapedRunning s = 0"
  by (auto simp: pickNext_def split: if_splits option.splits)

lemma accounted_admit:
  assumes "accounted s" "running s < slots s" "esc \<Longrightarrow> escapedRunning s = 0"
  shows "accounted (admit now w esc s)"
  using assms by (auto simp: accounted_def admit_def)

lemma accounted_fields [simp]:
  "accounted (s\<lparr>waiters := x\<rparr>) = accounted s" "accounted (s\<lparr>wake := y\<rparr>) = accounted s"
  "accounted (s\<lparr>outcomes := z\<rparr>) = accounted s"
  "accounted (s\<lparr>enrichmentWaits := a, idleWaiters := b\<rparr>) = accounted s"
  "accounted (s\<lparr>idleWaiters := b, enrichmentWaitMs := c, outcomes := z\<rparr>) = accounted s"
  "accounted (s\<lparr>waiters := x, outcomes := z\<rparr>) = accounted s"
  by (simp_all add: accounted_def)

lemma accounted_armWake [simp]: "accounted (armWake now s) = accounted s"
  by (simp add: armWake_def)

lemma accounted_pumpLoop: "accounted s \<Longrightarrow> accounted (pumpLoop n now s)"
proof (induction n arbitrary: s)
  case (Suc n)
  show ?case
  proof (cases "running s < slots s \<and> waiters s \<noteq> []")
    case True
    show ?thesis
    proof (cases "pickNext now s")
      case None
      with True Suc.prems show ?thesis by simp
    next
      case (Some p)
      obtain i w esc where p: "p = (i, w, esc)" by (cases p)
      let ?s = "s\<lparr>waiters := cut_at i (waiters s)\<rparr>"
      have "accounted (admit now w esc ?s)"
        by (rule accounted_admit) (use Suc.prems True Some pickNext_escapes p in auto)
      from Suc.IH [OF this] True Some p show ?thesis by simp
    qed
  next
    case False
    with Suc.prems show ?thesis by auto
  qed
qed simp

lemma accounted_pump: "accounted s \<Longrightarrow> accounted (pump now s)"
  by (simp add: pump_def accounted_pumpLoop)

lemma accounted_finishIdle: "accounted s \<Longrightarrow> accounted (finishIdle now err i s)"
  by (simp add: finishIdle_def accounted_def split: option.splits)

lemma accounted_release:
  assumes "accounted s"
  shows "accounted (release now active i s)"
proof (cases "find (\<lambda>u. uid u = i) (units s)")
  case None
  with assms show ?thesis by (simp add: release_def)
next
  case (Some u)
  then have u: "u \<in> set (units s)" by (auto dest: find_Some_set)
  then obtain k where ne: "length (units s) = Suc k" by (cases "units s") auto
  have esc: "length (filter escaped (remove1 u (units s))) =
      (if escaped u then length (filter escaped (units s)) - 1 else length (filter escaped (units s)))"
    using u by (simp add: filter_remove1 length_remove1 remove1_idem)
  let ?s = "s\<lparr>units := remove1 u (units s),
     escapedRunning := (if escaped u then escapedRunning s - 1 else escapedRunning s)\<rparr>"
  have freed: "accounted (?s\<lparr>running := running s - 1\<rparr>)"
    using assms u ne esc by (simp add: accounted_def length_remove1)
  have kept: "accounted (?s\<lparr>held := held s + 1, slowModeHoldQ := q, holds := holds s @ [(i, h)]\<rparr>)" for q h
    using assms u ne esc by (simp add: accounted_def length_remove1)
  show ?thesis
  proof (cases "slowHold now active u s > 0")
    case True
    with kept Some show ?thesis by (simp add: release_def Let_def)
  next
    case False
    with accounted_pump [OF freed] Some show ?thesis by (simp add: release_def Let_def)
  qed
qed

lemma accounted_holdEnds:
  assumes "accounted s"
  shows "accounted (holdEnds now i s)"
proof (cases "find (\<lambda>h. fst h = i) (holds s)")
  case None
  with assms show ?thesis by (simp add: holdEnds_def)
next
  case (Some h)
  then have h: "h \<in> set (holds s)" by (auto dest: find_Some_set)
  then obtain k where "length (holds s) = Suc k" by (cases "holds s") auto
  with assms h have "accounted (s\<lparr>holds := remove1 h (holds s), held := held s - 1, running := running s - 1\<rparr>)"
    by (simp add: accounted_def length_remove1)
  from accounted_pump [OF this] Some show ?thesis by (simp add: holdEnds_def)
qed

lemma accounted_wakeFires: "accounted s \<Longrightarrow> accounted (wakeFires now s)"
  unfolding wakeFires_def Let_def
  by (intro accounted_pump) (auto intro!: fold_invariant_set [of accounted] accounted_finishIdle)

lemma accounted_leave: "accounted s \<Longrightarrow> accounted (leave now i s)"
proof (cases "i \<in> set (fgOpen s)")
  case True
  then obtain k where "length (fgOpen s) = Suc k" by (cases "fgOpen s") auto
  moreover assume "accounted s"
  ultimately have "accounted (s\<lparr>fgOpen := remove1 i (fgOpen s), fgInFlight := fgInFlight s - 1, fgLastLeave := l\<rparr>)" for l
    using True by (simp add: accounted_def length_remove1)
  with True show ?thesis by (simp add: leave_def Let_def)
qed (simp add: leave_def)

lemma accounted_acquire: "accounted s \<Longrightarrow> accounted (acquire now i k aborted s)"
  by (simp add: acquire_def accounted_pump)

lemma accounted_foreground: "accounted s \<Longrightarrow> accounted (foreground now i s)"
  unfolding foreground_def accounted_armWake by (simp add: accounted_def)

lemma accounted_rest:
  "accounted s \<Longrightarrow> accounted (acquireAborts now i s)" "accounted s \<Longrightarrow> accounted (foregroundIdle now i aborted s)"
  by (simp_all add: acquireAborts_def foregroundIdle_def)

lemma accounted_handle: "accounted s \<Longrightarrow> accounted (handle now e s)"
  by (cases e) (simp_all add: accounted_acquire accounted_rest accounted_release accounted_holdEnds
      accounted_foreground accounted_leave accounted_finishIdle accounted_wakeFires)

lemma slots_pumpLoop [simp]: "slots (pumpLoop n now s) = slots s"
  by (induction n arbitrary: s) (auto simp: admit_def split: option.splits)

lemma slots_pump [simp]: "slots (pump now s) = slots s"
  by (simp add: pump_def armWake_def)

lemma slots_finishIdle [simp]: "slots (finishIdle now err i s) = slots s"
  by (simp add: finishIdle_def split: option.splits)

lemma slots_handle [simp]: "slots (handle now e s) = slots s"
proof -
  have "slots (fold (finishIdle now False) is s') = slots s'" for "is" s'
    by (rule fold_frame) simp
  then show ?thesis
    by (cases e) (simp_all add: acquire_def acquireAborts_def release_def holdEnds_def foreground_def
        leave_def foregroundIdle_def wakeFires_def armWake_def Let_def split: option.splits)
qed

lemma reached_accounted:
  assumes "reached ok n t s"
  shows "accounted s \<and> slots s = n"
  using assms
proof induction
  case (created t0)
  show ?case by (simp add: createAdmission_def accounted_def)
qed (simp add: accounted_handle)

section \<open>The pick\<close>

lemma bestFrom_None: "bestFrom ok better ws i b = None \<longleftrightarrow> b = None \<and> (\<forall>w \<in> set ws. \<not> ok w)"
  by (induction ws arbitrary: i b) auto

text \<open>\<open>done\<close>: what the scan has seen before, of which \<open>b\<close> is the best.\<close>

lemma bestFrom_Some:
  assumes irr: "\<And>a. \<not> better a a" and tr: "\<And>a b c. better a b \<Longrightarrow> better b c \<Longrightarrow> better a c"
    and "bestFrom ok better ws (length seen) b = Some (j, w)"
    and "case b of None \<Rightarrow> \<forall>x \<in> set seen. \<not> ok x
      | Some (k, v) \<Rightarrow> k < length seen \<and> seen ! k = v \<and> ok v \<and> (\<forall>x \<in> set seen. ok x \<longrightarrow> \<not> better x v)"
  shows "j < length (seen @ ws) \<and> (seen @ ws) ! j = w \<and> ok w \<and> (\<forall>x \<in> set (seen @ ws). ok x \<longrightarrow> \<not> better x w)"
  using assms(3,4)
proof (induction ws arbitrary: seen b)
  case Nil
  then show ?case by simp
next
  case (Cons v ws)
  let ?b = "if ok v \<and> (case b of None \<Rightarrow> True | Some (_, b) \<Rightarrow> better v b) then Some (length seen, v) else b"
  have "case ?b of None \<Rightarrow> \<forall>x \<in> set (seen @ [v]). \<not> ok x
      | Some (k, u) \<Rightarrow> k < length (seen @ [v]) \<and> (seen @ [v]) ! k = u \<and> ok u \<and>
          (\<forall>x \<in> set (seen @ [v]). ok x \<longrightarrow> \<not> better x u)"
  proof (cases b)
    case None
    with Cons.prems(2) irr show ?thesis by auto
  next
    case (Some p)
    obtain k u where p: "p = (k, u)" by (cases p)
    from Cons.prems(2) have u: "k < length seen" "seen ! k = u" "ok u" "\<forall>x \<in> set seen. ok x \<longrightarrow> \<not> better x u"
      by (auto simp: Some p)
    show ?thesis
    proof (cases "ok v \<and> better v u")
      case True
      then have "\<forall>x \<in> set seen. ok x \<longrightarrow> \<not> better x v" using u(4) tr by blast
      with True irr show ?thesis by (auto simp: Some p)
    next
      case False
      with u show ?thesis by (auto simp: Some p nth_append)
    qed
  qed
  from Cons.IH [of "seen @ [v]" ?b] this Cons.prems(1) show ?case by simp
qed

lemma older_order: "\<not> older a a" "older a b \<Longrightarrow> older b c \<Longrightarrow> older a c"
  by (auto simp: older_def)

lemma ranked_order: "\<not> ranked a a" "ranked a b \<Longrightarrow> ranked b c \<Longrightarrow> ranked a c"
  by (auto simp: ranked_def)

lemma best_oldest:
  assumes "bestFrom ok older ws 0 None = Some (j, w)"
  shows "j < length ws \<and> ws ! j = w \<and> ok w \<and> (\<forall>x \<in> set ws. ok x \<longrightarrow> enq w \<le> enq x)"
  using bestFrom_Some [where better = older and ok = ok and ws = ws and seen = "[]" and b = None and j = j and w = w,
      OF older_order] assms by (auto simp: older_def not_less)

lemma best_rank:
  assumes "bestFrom ok ranked ws 0 None = Some (j, w)"
  shows "j < length ws \<and> ws ! j = w \<and> (\<forall>x \<in> set ws. ok x \<longrightarrow> \<not> ranked x w)"
  using bestFrom_Some [where better = ranked and ok = ok and ws = ws and seen = "[]" and b = None and j = j and w = w,
      OF ranked_order] assms by simp

lemma pickNext_None:
  "pickNext now s = None \<longleftrightarrow> waiters s = [] \<or>
     (foregroundBusy now s \<and> (escapedRunning s > 0 \<or> (\<forall>w \<in> set (waiters s). \<not> starved now w)))"
proof -
  have starved: "(\<forall>w \<in> set (waiters s). \<not> starved now w) \<longleftrightarrow>
      bestFrom (starved now) older (waiters s) 0 None = None" by (simp add: bestFrom_None)
  have nobody: "bestFrom (\<lambda>_. True) ranked (waiters s) 0 None = None \<longleftrightarrow> waiters s = []"
    "waiters s = [] \<Longrightarrow> bestFrom ok older (waiters s) 0 None = None" for ok
    by (auto simp: bestFrom_None)
  show ?thesis
    unfolding starved pickNext_def using nobody by (auto split: option.splits)
qed

lemma pickNext_Some:
  assumes "pickNext now s = Some (i, w, esc)"
  shows "i < length (waiters s) \<and> waiters s ! i = w \<and> esc = foregroundBusy now s \<and>
    (if esc then escapedRunning s = 0 \<and> starved now w \<and> (\<forall>x \<in> set (waiters s). enq w \<le> enq x)
     else if \<exists>x \<in> set (waiters s). aged now x then aged now w \<and> (\<forall>x \<in> set (waiters s). enq w \<le> enq x)
     else \<forall>x \<in> set (waiters s). \<not> ranked x w)"
proof (cases "foregroundBusy now s")
  case True
  with assms have b: "escapedRunning s = 0" "bestFrom (starved now) older (waiters s) 0 None = Some (i, w)" "esc"
    by (auto simp: pickNext_def split: if_splits option.splits)
  from best_oldest [OF b(2)] have w: "i < length (waiters s)" "waiters s ! i = w" "starved now w"
    "\<forall>x \<in> set (waiters s). starved now x \<longrightarrow> enq w \<le> enq x" by auto
  have "enq w \<le> enq x" if "x \<in> set (waiters s)" for x
    using w(3,4) that by (cases "starved now x") (auto simp: starved_def)
  with w True b show ?thesis by simp
next
  case False
  show ?thesis
  proof (cases "bestFrom (aged now) older (waiters s) 0 None")
    case None
    with assms False have b: "bestFrom (\<lambda>_. True) ranked (waiters s) 0 None = Some (i, w)" "\<not> esc"
      by (auto simp: pickNext_def split: option.splits prod.splits)
    from None have "\<not> (\<exists>x \<in> set (waiters s). aged now x)" by (simp add: bestFrom_None)
    with best_rank [OF b(1)] b(2) False show ?thesis by auto
  next
    case (Some p)
    with assms False have b: "bestFrom (aged now) older (waiters s) 0 None = Some (i, w)" "\<not> esc"
      by (auto simp: pickNext_def split: option.splits prod.splits)
    from best_oldest [OF b(1)] have w: "i < length (waiters s)" "waiters s ! i = w" "aged now w"
      "\<forall>x \<in> set (waiters s). aged now x \<longrightarrow> enq w \<le> enq x" by auto
    have "enq w \<le> enq x" if "x \<in> set (waiters s)" for x
      using w(3,4) that by (cases "aged now x") (auto simp: aged_def)
    moreover have "\<exists>x \<in> set (waiters s). aged now x" using w(1-3) nth_mem by auto
    ultimately show ?thesis using w b(2) False by simp
  qed
qed

section \<open>What the pump admits, and when it stops\<close>

lemma foregroundBusy_fields [simp]:
  "foregroundBusy now (s\<lparr>waiters := x\<rparr>) = foregroundBusy now s"
  "foregroundBusy now (s\<lparr>wake := y\<rparr>) = foregroundBusy now s"
  "foregroundBusy now (admit now' w esc s) = foregroundBusy now s"
  "foregroundBusy now (armWake now' s) = foregroundBusy now s"
  by (simp_all add: foregroundBusy_def admit_def armWake_def)

lemma set_cut_at: "set (cut_at i xs) \<subseteq> set xs"
  by (auto simp: cut_at_def dest: in_set_takeD in_set_dropD)

lemma length_cut_at: "i < length xs \<Longrightarrow> length (cut_at i xs) = length xs - 1"
  by (simp add: cut_at_def)

definition admissible :: "instant \<Rightarrow> bool \<Rightarrow> waiter list \<Rightarrow> unit_run \<Rightarrow> bool" where
  "admissible now busy ws u \<longleftrightarrow> escaped u = busy \<and> (\<exists>w \<in> set ws. wid w = uid u \<and> (busy \<longrightarrow> starved now w))"

lemma pumpLoop_admits:
  "\<exists>new. units (pumpLoop n now s) = units s @ new \<and>
     (\<forall>u \<in> set new. admissible now (foregroundBusy now s) (waiters s) u) \<and>
     set (waiters (pumpLoop n now s)) \<subseteq> set (waiters s) \<and>
     foregroundBusy t (pumpLoop n now s) = foregroundBusy t s \<and>
     fgInFlight (pumpLoop n now s) = fgInFlight s \<and> fgLastLeave (pumpLoop n now s) = fgLastLeave s"
proof (induction n arbitrary: s)
  case (Suc n)
  show ?case
  proof (cases "running s < slots s \<and> waiters s \<noteq> [] \<and> pickNext now s \<noteq> None")
    case True
    then obtain i w esc where p: "pickNext now s = Some (i, w, esc)" by auto
    let ?s = "admit now w esc (s\<lparr>waiters := cut_at i (waiters s)\<rparr>)"
    have step: "pumpLoop (Suc n) now s = pumpLoop n now ?s" using True p by simp
    have sub: "set (waiters ?s) \<subseteq> set (waiters s)" using set_cut_at by (simp add: admit_def)
    have same: "fgInFlight ?s = fgInFlight s" "fgLastLeave ?s = fgLastLeave s" by (simp_all add: admit_def)
    from Suc.IH [of ?s] obtain new where new: "units (pumpLoop n now ?s) = units ?s @ new"
      "\<forall>u \<in> set new. admissible now (foregroundBusy now s) (waiters ?s) u"
      "set (waiters (pumpLoop n now ?s)) \<subseteq> set (waiters ?s)"
      "foregroundBusy t (pumpLoop n now ?s) = foregroundBusy t s"
      "fgInFlight (pumpLoop n now ?s) = fgInFlight s" "fgLastLeave (pumpLoop n now ?s) = fgLastLeave s"
      by (auto simp: same)
    from pickNext_Some [OF p] have w: "w \<in> set (waiters s)" "esc = foregroundBusy now s" "esc \<longrightarrow> starved now w"
      by (auto split: if_splits)
    let ?u = "\<lparr>uid = wid w, escaped = esc, started = now\<rparr>"
    have "admissible now (foregroundBusy now s) (waiters s) ?u" using w by (auto simp: admissible_def)
    moreover have "admissible now (foregroundBusy now s) (waiters s) u" if "u \<in> set new" for u
      using new(2) that sub unfolding admissible_def by blast
    ultimately have "\<forall>u \<in> set (?u # new). admissible now (foregroundBusy now s) (waiters s) u" by simp
    moreover have "units (pumpLoop (Suc n) now s) = units s @ ?u # new"
      unfolding step new(1) by (simp add: admit_def)
    ultimately show ?thesis using new(3-6) sub unfolding step by (intro exI [of _ "?u # new"]) blast
  next
    case False
    then have "pumpLoop (Suc n) now s = s" by (cases "pickNext now s") auto
    then show ?thesis by (intro exI [of _ "[]"]) simp
  qed
qed simp

text \<open>The loop stops with no slot, no waiter, or the foreground busy and nobody allowed past it.\<close>

lemma pumpLoop_stops:
  assumes "length (waiters s) \<le> n"
  shows "slots s \<le> running (pumpLoop n now s) \<or> waiters (pumpLoop n now s) = [] \<or>
    (foregroundBusy now s \<and> (escapedRunning (pumpLoop n now s) > 0 \<or>
       (\<forall>w \<in> set (waiters (pumpLoop n now s)). \<not> starved now w)))"
  using assms
proof (induction n arbitrary: s)
  case (Suc n)
  show ?case
  proof (cases "running s < slots s \<and> waiters s \<noteq> [] \<and> pickNext now s \<noteq> None")
    case True
    then obtain i w esc where p: "pickNext now s = Some (i, w, esc)" by auto
    let ?s = "admit now w esc (s\<lparr>waiters := cut_at i (waiters s)\<rparr>)"
    have step: "pumpLoop (Suc n) now s = pumpLoop n now ?s" using True p by simp
    from pickNext_Some [OF p] have "i < length (waiters s)" by simp
    then have "length (waiters ?s) \<le> n" using Suc.prems by (simp add: admit_def length_cut_at)
    moreover have "slots ?s = slots s" by (simp add: admit_def)
    ultimately show ?thesis using Suc.IH [of ?s] unfolding step by simp
  next
    case False
    then have "pumpLoop (Suc n) now s = s" by (cases "pickNext now s") auto
    with False pickNext_None [of now s] show ?thesis by auto
  qed
qed simp

section \<open>The wake timer\<close>

text \<open>
  The timer is no later than the end of the grace (so that, before it is due, the foreground is
  busy), and with every slot free it is no later than the waiters' starvation deadlines.
\<close>

definition in_grace :: "instant \<Rightarrow> adm \<Rightarrow> bool" where
  "in_grace a s \<longleftrightarrow> fgInFlight s > 0 \<or> (\<exists>l. fgLastLeave s = Some l \<and> a \<le> l + FOREGROUND_GRACE_MS)"

definition woken :: "instant \<Rightarrow> adm \<Rightarrow> bool" where
  "woken t s \<longleftrightarrow> (\<forall>a. wake s = Some a \<longrightarrow> in_grace a s) \<and>
     (waiters s \<noteq> [] \<and> running s = 0 \<longrightarrow>
        (\<exists>a. wake s = Some a \<and> (\<forall>w \<in> set (waiters s). a \<le> max t (enq w + MAX_FOREGROUND_WAIT_MS))))"

lemma woken_later: "woken t s \<Longrightarrow> t \<le> t' \<Longrightarrow> woken t' s"
  unfolding woken_def by (meson max.mono order.trans order_refl)

lemma foldl_min_opt:
  "(case foldl min_opt b xs of None \<Rightarrow> b = None \<and> xs = []
    | Some m \<Rightarrow> (\<forall>x \<in> set xs. m \<le> x) \<and> (case b of None \<Rightarrow> True | Some x \<Rightarrow> m \<le> x))"
proof (induction xs arbitrary: b)
  case (Cons x xs)
  show ?case using Cons.IH [of "min_opt b x"] by (cases b) (auto split: option.splits)
qed (simp split: option.splits)

lemma woken_armWake:
  assumes "accounted s" "foregroundBusy now s" "0 < slots s"
  shows "woken now (armWake now s)"
proof -
  let ?at0 = "if fgInFlight s = 0 then map_option (\<lambda>l. l + FOREGROUND_GRACE_MS) (fgLastLeave s) else None"
  let ?ds = "map (\<lambda>w. enq w + MAX_FOREGROUND_WAIT_MS) (waiters s)"
  let ?at1 = "if escapedRunning s = 0 \<and> running s < slots s then foldl min_opt ?at0 ?ds else ?at0"
  have at1: "(case ?at1 of None \<Rightarrow> ?at0 = None | Some m \<Rightarrow> (case ?at0 of None \<Rightarrow> True | Some x \<Rightarrow> m \<le> x))"
    using foldl_min_opt [of ?at0 ?ds] by (auto split: option.splits if_splits)
  have grace: "in_grace a (armWake now s)" if "wakeAt now s = Some a" for a
  proof (cases "fgInFlight s = 0")
    case False
    then show ?thesis by (simp add: in_grace_def armWake_def)
  next
    case True
    with assms(2) obtain l where l: "fgLastLeave s = Some l" "now - l < FOREGROUND_GRACE_MS"
      by (auto simp: foregroundBusy_def split: option.splits)
    from that assms(2) obtain m where m: "?at1 = Some m" "a = max now m"
      by (auto simp: wakeAt_def Let_def split: if_splits)
    moreover have "now \<le> l + FOREGROUND_GRACE_MS" using l(2) by linarith
    ultimately have "a \<le> l + FOREGROUND_GRACE_MS" using at1 True l(1) unfolding m by auto
    with l show ?thesis by (simp add: in_grace_def armWake_def)
  qed
  have "\<exists>a. wakeAt now s = Some a \<and> (\<forall>w \<in> set (waiters s). a \<le> max now (enq w + MAX_FOREGROUND_WAIT_MS))"
    if "waiters s \<noteq> []" "running s = 0"
  proof -
    from that(2) assms(1) have "escapedRunning s = 0" by (auto simp: accounted_def)
    with that assms(2,3) have w: "wakeAt now s = map_option (max now) (foldl min_opt ?at0 ?ds)"
      by (simp add: wakeAt_def Let_def)
    from that(1) have "?ds \<noteq> []" by simp
    then obtain m where m: "foldl min_opt ?at0 ?ds = Some m" "\<forall>x \<in> set ?ds. m \<le> x"
      using foldl_min_opt [of ?at0 ?ds] by (cases "foldl min_opt ?at0 ?ds") (simp_all only: option.case, blast+)
    then show ?thesis by (auto simp: w)
  qed
  with grace show ?thesis by (auto simp: woken_def armWake_def)
qed

lemma woken_idle: "waiters s = [] \<or> running s \<noteq> 0 \<Longrightarrow> \<not> foregroundBusy now s \<Longrightarrow> woken now (armWake now s)"
  by (auto simp: woken_def armWake_def wakeAt_def)

lemma woken_pump:
  assumes "accounted s" "0 < slots s"
  shows "woken now (pump now s)"
proof -
  let ?r = "pumpLoop (length (waiters s)) now s"
  have acc: "accounted ?r" by (rule accounted_pumpLoop [OF assms(1)])
  have busy: "foregroundBusy now ?r = foregroundBusy now s"
    using pumpLoop_admits [of "length (waiters s)" now s now] by blast
  show ?thesis
  proof (cases "foregroundBusy now s")
    case True
    show ?thesis unfolding pump_def by (rule woken_armWake [OF acc]) (simp_all add: busy True assms(2))
  next
    case False
    have "waiters ?r = [] \<or> running ?r \<noteq> 0"
      using pumpLoop_stops [of s "length (waiters s)" now] False assms(2) by auto
    then show ?thesis unfolding pump_def by (rule woken_idle) (simp add: busy False)
  qed
qed

text \<open>An abort is handled before the wake timer is due: timers do not run late against it.\<close>

definition punctual :: "instant \<Rightarrow> adm_event \<Rightarrow> adm \<Rightarrow> bool" where
  "punctual now e s \<longleftrightarrow> (case e of AcquireAborts i \<Rightarrow> (case wake s of Some a \<Rightarrow> now < a | None \<Rightarrow> True) | _ \<Rightarrow> True)"

lemma woken_frame:
  "waiters t = waiters s \<Longrightarrow> running t = running s \<Longrightarrow> wake t = wake s \<Longrightarrow> fgInFlight t = fgInFlight s \<Longrightarrow>
    fgLastLeave t = fgLastLeave s \<Longrightarrow> woken now t = woken now s"
  by (simp add: woken_def in_grace_def)

lemma finishIdle_frame [simp]:
  "waiters (finishIdle now err i s) = waiters s" "running (finishIdle now err i s) = running s"
  "wake (finishIdle now err i s) = wake s" "fgInFlight (finishIdle now err i s) = fgInFlight s"
  "fgLastLeave (finishIdle now err i s) = fgLastLeave s" "units (finishIdle now err i s) = units s"
  by (simp_all add: finishIdle_def split: option.splits)

lemma woken_finishIdle: "woken now s \<Longrightarrow> woken now (finishIdle now err i s)"
  by (subst woken_frame [of _ s]) simp_all

lemma in_grace_busy: "in_grace a s \<Longrightarrow> now < a \<Longrightarrow> foregroundBusy now s"
  by (auto simp: in_grace_def foregroundBusy_def)

lemma woken_acquireAborts:
  assumes "accounted s" "0 < slots s" "woken now s" "punctual now (AcquireAborts i) s"
  shows "woken now (acquireAborts now i s)"
proof (cases "i \<in> wid ` set (waiters s)")
  case True
  let ?s = "s\<lparr>waiters := filter (\<lambda>w. wid w \<noteq> i) (waiters s), outcomes := outcomes s @ [Rejected i]\<rparr>"
  have same: "foregroundBusy now ?s = foregroundBusy now s" by (simp add: foregroundBusy_def)
  have "woken now (armWake now ?s)"
  proof (cases "foregroundBusy now s")
    case True
    then show ?thesis by (intro woken_armWake) (simp_all add: same assms)
  next
    case False
    have "running s \<noteq> 0"
    proof
      assume "running s = 0"
      with assms(3) True obtain a where a: "wake s = Some a" by (auto simp: woken_def)
      with assms(3) have "in_grace a s" by (simp add: woken_def)
      moreover have "now < a" using assms(4) a by (simp add: punctual_def)
      ultimately show False using False in_grace_busy by simp
    qed
    then show ?thesis by (intro woken_idle) (simp_all add: same False)
  qed
  with True show ?thesis by (simp add: acquireAborts_def)
next
  case False
  with assms(3) show ?thesis by (simp add: acquireAborts_def)
qed

lemma woken_release:
  assumes "accounted s" "0 < slots s" "woken now s"
  shows "woken now (release now active i s)"
proof (cases "find (\<lambda>u. uid u = i) (units s)")
  case None
  with assms show ?thesis by (simp add: release_def)
next
  case (Some u)
  then have u: "u \<in> set (units s)" by (auto dest: find_Some_set)
  then obtain k where ne: "length (units s) = Suc k" by (cases "units s") auto
  show ?thesis
  proof (cases "slowHold now active u s > 0")
    case True
    with assms(3) Some show ?thesis
      by (simp add: release_def Let_def woken_def in_grace_def)
  next
    case False
    let ?s = "s\<lparr>units := remove1 u (units s),
       escapedRunning := (if escaped u then escapedRunning s - 1 else escapedRunning s), running := running s - 1\<rparr>"
    have esc: "length (filter escaped (remove1 u (units s))) =
        (if escaped u then length (filter escaped (units s)) - 1 else length (filter escaped (units s)))"
      using u by (simp add: filter_remove1 length_remove1 remove1_idem)
    have "accounted ?s" using assms(1) u ne esc by (simp add: accounted_def length_remove1)
    from woken_pump [OF this] False Some assms(2) show ?thesis by (simp add: release_def Let_def)
  qed
qed

lemma woken_holdEnds:
  assumes "accounted s" "0 < slots s" "woken now s"
  shows "woken now (holdEnds now i s)"
proof (cases "find (\<lambda>h. fst h = i) (holds s)")
  case None
  with assms show ?thesis by (simp add: holdEnds_def)
next
  case (Some h)
  then have h: "h \<in> set (holds s)" by (auto dest: find_Some_set)
  then obtain k where "length (holds s) = Suc k" by (cases "holds s") auto
  with assms(1) h have "accounted (s\<lparr>holds := remove1 h (holds s), held := held s - 1, running := running s - 1\<rparr>)"
    by (simp add: accounted_def length_remove1)
  from woken_pump [OF this] Some assms(2) show ?thesis by (simp add: holdEnds_def)
qed

lemma woken_handle:
  assumes "accounted s" "0 < slots s" "woken now s" "punctual now e s"
  shows "woken now (handle now e s)"
proof (cases e)
  case (Acquire i k aborted)
  then show ?thesis
    using assms(1,3) woken_pump [of "s\<lparr>waiters := waiters s @ [\<lparr>wid = i, wkind = k, enq = now\<rparr>]\<rparr>" now] assms(2)
      woken_frame [of "s\<lparr>outcomes := outcomes s @ [Rejected i]\<rparr>" s]
    by (simp add: acquire_def)
next
  case (Foreground i)
  have "accounted (s\<lparr>fgInFlight := fgInFlight s + 1, fgOpen := i # fgOpen s\<rparr>)"
    using assms(1) by (simp add: accounted_def)
  from woken_armWake [OF this] assms(2) show ?thesis
    by (simp add: Foreground foreground_def foregroundBusy_def)
next
  case (Leave i)
  show ?thesis
  proof (cases "i \<in> set (fgOpen s)")
    case True
    let ?s = "s\<lparr>fgOpen := remove1 i (fgOpen s), fgInFlight := fgInFlight s - 1,
       fgLastLeave := (if fgInFlight s - 1 = 0 then Some now else fgLastLeave s)\<rparr>"
    obtain k where "length (fgOpen s) = Suc k" using True by (cases "fgOpen s") auto
    then have "accounted ?s" using assms(1) True by (simp add: accounted_def length_remove1)
    moreover have "foregroundBusy now ?s" by (simp add: foregroundBusy_def FOREGROUND_GRACE_MS_def)
    ultimately have "woken now (armWake now ?s)" by (intro woken_armWake) (simp_all add: assms(2))
    with True show ?thesis by (simp add: Leave leave_def Let_def)
  qed (use assms(3) in \<open>simp add: Leave leave_def\<close>)
next
  case (ForegroundIdle i aborted)
  let ?s = "s\<lparr>enrichmentWaits := enrichmentWaits s + 1, idleWaiters := idleWaiters s @ [\<lparr>iid = i, since = now\<rparr>]\<rparr>"
  have "woken now (armWake now ?s)" if "foregroundBusy now s"
    by (rule woken_armWake) (use assms(1,2) that in \<open>simp_all add: foregroundBusy_def\<close>)
  then show ?thesis
    using assms(3) woken_frame [of "s\<lparr>outcomes := outcomes s @ [x]\<rparr>" s for x]
    by (simp add: ForegroundIdle foregroundIdle_def)
next
  case WakeFires
  let ?s = "s\<lparr>wake := None\<rparr>"
  let ?t = "if \<not> foregroundBusy now ?s then fold (finishIdle now False) (map iid (idleWaiters ?s)) ?s else ?s"
  have "accounted ?t" using assms(1) by (auto intro!: fold_invariant_set [of accounted] accounted_finishIdle)
  moreover have "slots ?t = slots s" using fold_frame [of slots "finishIdle now False"] by simp
  ultimately show ?thesis using woken_pump [of ?t now] assms(2) by (simp add: WakeFires wakeFires_def Let_def)
qed (use assms in \<open>simp_all add: woken_acquireAborts woken_release woken_holdEnds woken_finishIdle\<close>)

lemma reached_woken:
  assumes "reached punctual n t s" "0 < n"
  shows "woken t s"
  using assms
proof induction
  case (created t0)
  show ?case by (simp add: createAdmission_def woken_def)
next
  case (event t s now e)
  from reached_accounted [OF event.hyps(1)] event.prems event.hyps(2-) event.IH show ?case
    by (intro woken_handle) (auto intro: woken_later)
qed

section \<open>The properties of admission\<close>

text \<open>
  C10: in every run the slots are respected: the units in flight, those held back by slow mode
  included, never exceed the slots, at most one of them is past a busy foreground, and the counters
  are exactly the calls that are open.
\<close>

theorem admission_accounts:
  assumes "reached ok n t s"
  shows "running s = length (units s) + length (holds s) \<and> running s \<le> n \<and>
    held s = length (holds s) \<and> length (filter escaped (units s)) \<le> 1 \<and>
    escapedRunning s = length (filter escaped (units s)) \<and> fgInFlight s = length (fgOpen s)"
  using reached_accounted [OF assms] by (auto simp: accounted_def)

lemma handle_units:
  assumes "u \<in> set (units (handle now e s))" "u \<notin> set (units s)"
  shows "admissible now (foregroundBusy now s) (waiters s) u \<or>
    (\<exists>i k. e = Acquire i k False \<and> admissible now (foregroundBusy now s)
       (waiters s @ [\<lparr>wid = i, wkind = k, enq = now\<rparr>]) u)"
proof -
  have pumped: "admissible now (foregroundBusy now r) (waiters r) u"
    if "u \<in> set (units (pump now r))" "u \<notin> set (units r)" for r
    using pumpLoop_admits [of "length (waiters r)" now r now] that by (auto simp: pump_def armWake_def)
  have idle: "units (fold (finishIdle now False) is r) = units r"
    "waiters (fold (finishIdle now False) is r) = waiters r"
    "fgInFlight (fold (finishIdle now False) is r) = fgInFlight r"
    "fgLastLeave (fold (finishIdle now False) is r) = fgLastLeave r" for "is" r
    by (rule fold_frame, simp)+
  have busy: "foregroundBusy now x = foregroundBusy now s"
    if "fgInFlight x = fgInFlight s" "fgLastLeave x = fgLastLeave s" for x
    using that by (simp add: foregroundBusy_def)
  show ?thesis
  proof (cases e)
    case (Acquire i k aborted)
    with assms pumped [of "s\<lparr>waiters := waiters s @ [\<lparr>wid = i, wkind = k, enq = now\<rparr>]\<rparr>"] show ?thesis
      by (cases aborted) (simp_all add: acquire_def)
  next
    case (Release i active)
    then obtain v where v: "find (\<lambda>v. uid v = i) (units s) = Some v" "\<not> slowHold now active v s > 0"
      using assms by (auto simp: release_def Let_def split: option.splits if_splits dest: notin_set_remove1)
    let ?r = "s\<lparr>units := remove1 v (units s),
       escapedRunning := (if escaped v then escapedRunning s - 1 else escapedRunning s), running := running s - 1\<rparr>"
    from assms v have "u \<in> set (units (pump now ?r))" by (simp add: Release release_def Let_def)
    moreover have "u \<notin> set (units ?r)" using assms(2) by (auto dest: notin_set_remove1)
    ultimately have "admissible now (foregroundBusy now ?r) (waiters ?r) u" by (rule pumped)
    then show ?thesis using busy [of ?r] by simp
  next
    case (HoldEnds i)
    then obtain h where h: "find (\<lambda>h. fst h = i) (holds s) = Some h"
      using assms by (auto simp: holdEnds_def split: option.splits)
    let ?r = "s\<lparr>holds := remove1 h (holds s), held := held s - 1, running := running s - 1\<rparr>"
    from assms h have "u \<in> set (units (pump now ?r))" by (simp add: HoldEnds holdEnds_def)
    then have "admissible now (foregroundBusy now ?r) (waiters ?r) u" by (rule pumped) (simp add: assms(2))
    then show ?thesis using busy [of ?r] by simp
  next
    case WakeFires
    let ?s = "s\<lparr>wake := None\<rparr>"
    let ?r = "if \<not> foregroundBusy now ?s then fold (finishIdle now False) (map iid (idleWaiters ?s)) ?s else ?s"
    have "u \<in> set (units (pump now ?r))" using assms(1) by (simp add: WakeFires wakeFires_def Let_def)
    moreover have "units ?r = units s" by (simp add: idle)
    ultimately have "admissible now (foregroundBusy now ?r) (waiters ?r) u" using assms(2) by (intro pumped) simp_all
    moreover have "foregroundBusy now ?r = foregroundBusy now s" by (rule busy) (simp_all add: idle)
    moreover have "waiters ?r = waiters s" by (simp add: idle)
    ultimately show ?thesis by (simp only:) simp
  qed (use assms in \<open>auto simp: acquireAborts_def foreground_def leave_def foregroundIdle_def armWake_def
      Let_def split: if_splits\<close>)
qed

text \<open>
  C31: while a foreground call runs, or in the grace after it, nothing is admitted but a waiter that
  has starved for the full foreground wait, and only if no other such unit is in flight.
\<close>

theorem admission_spares_foreground:
  assumes "reached ok n t s" "foregroundBusy now s"
    and "u \<in> set (units (handle now e s))" "u \<notin> set (units s)"
  shows "escaped u \<and> (\<exists>w \<in> set (waiters s). wid w = uid u \<and> now - enq w \<ge> MAX_FOREGROUND_WAIT_MS) \<and>
    length (filter escaped (units (handle now e s))) \<le> 1"
proof -
  have "accounted (handle now e s)" by (rule accounted_handle) (use reached_accounted [OF assms(1)] in blast)
  then have "length (filter escaped (units (handle now e s))) \<le> 1" by (simp add: accounted_def)
  moreover have "\<not> starved now \<lparr>wid = i, wkind = k, enq = now\<rparr>" for i k
    by (simp add: starved_def MAX_FOREGROUND_WAIT_MS_def)
  then have "escaped u \<and> (\<exists>w \<in> set (waiters s). wid w = uid u \<and> starved now w)"
    using handle_units [OF assms(3,4)] assms(2) by (auto simp: admissible_def)
  ultimately show ?thesis by (simp add: starved_def)
qed

text \<open>
  C32: the pick is fair: past a busy foreground, or once some waiter has aged, the longest waiting goes
  first; else no waiter of a better rank, or of the same rank and longer waiting, is passed over.
\<close>

theorem admission_picks_fairly:
  assumes "pickNext now s = Some (i, w, esc)"
  shows "i < length (waiters s) \<and> waiters s ! i = w \<and> esc = foregroundBusy now s \<and>
    (if esc \<or> (\<exists>x \<in> set (waiters s). now - enq x \<ge> KIND_AGING_MS)
     then \<forall>x \<in> set (waiters s). enq w \<le> enq x
     else \<forall>x \<in> set (waiters s). RANK (wkind w) \<le> RANK (wkind x) \<and>
       (RANK (wkind w) = RANK (wkind x) \<longrightarrow> enq w \<le> enq x))"
  using pickNext_Some [OF assms]
  by (auto simp: aged_def ranked_def not_less split: if_splits)


section \<open>Sample runs\<close>

fun run :: "(instant \<times> adm_event) list \<Rightarrow> adm \<Rightarrow> adm" where
  "run [] s = s"
| "run ((now, e) # es) s = run es (handle now e s)"

fun allowed :: "(instant \<Rightarrow> adm_event \<Rightarrow> adm \<Rightarrow> bool) \<Rightarrow> instant \<Rightarrow> (instant \<times> adm_event) list \<Rightarrow> adm \<Rightarrow> bool" where
  "allowed ok t [] s = True"
| "allowed ok t ((now, e) # es) s = (t \<le> now \<and> enabled now e s \<and> ok now e s \<and> allowed ok now es (handle now e s))"

lemma run_reached: "reached ok n t s \<Longrightarrow> allowed ok t es s \<Longrightarrow> \<exists>t'. reached ok n t' (run es s)"
proof (induction es arbitrary: t s)
  case (Cons ne es)
  obtain now e where ne: "ne = (now, e)" by (cases ne)
  with Cons.prems have "reached ok n now (handle now e s)" by (auto intro: reached.event)
  from Cons.IH [OF this] Cons.prems(2) show ?case by (simp add: ne)
qed auto

text \<open>A unit starts, a foreground call comes and goes, a second unit has to wait for the grace.\<close>

definition busy_run :: "(instant \<times> adm_event) list" where
  "busy_run = [(0, Foreground 1), (0, Acquire 7 Ingest False), (5, Acquire 8 Redrive False)]"

definition waiting :: adm where
  "waiting = run busy_run (createAdmission 2)"

lemma waiting_state: "waiters waiting = [\<lparr>wid = 7, wkind = Ingest, enq = 0\<rparr>, \<lparr>wid = 8, wkind = Redrive, enq = 5\<rparr>]"
  "running waiting = 0" "units waiting = []" "fgInFlight waiting = 1" "escapedRunning waiting = 0"
  by code_simp+

lemma waiting_reached: "\<exists>t. reached punctual 2 t waiting"
  unfolding waiting_def
proof (rule run_reached [OF reached.created])
  show "allowed punctual 0 busy_run (createAdmission 2)" by code_simp
qed

theorem admission_accounts_witness: "running waiting \<le> 2 \<and> fgInFlight waiting = length (fgOpen waiting)"
  using waiting_reached admission_accounts by blast


theorem admission_picks_fairly_witness:
  "list_all (\<lambda>x. (0::int) \<le> enq x) (waiters waiting)"
proof -
  have "pickNext 10000 waiting = Some (0, \<lparr>wid = 7, wkind = Ingest, enq = 0\<rparr>, True)" by code_simp
  from admission_picks_fairly [OF this] show ?thesis by (simp add: list_all_iff)
qed

theorem admission_spares_foreground_witness:
  "\<exists>w \<in> set (waiters waiting). wid w = 7 \<and> (10000::int) - enq w \<ge> MAX_FOREGROUND_WAIT_MS"
proof -
  let ?u = "\<lparr>uid = 7, escaped = True, started = 10000\<rparr>"
  have "?u \<in> set (units (handle 10000 WakeFires waiting))" by code_simp
  moreover have "foregroundBusy 10000 waiting" by (simp add: foregroundBusy_def waiting_state)
  ultimately show ?thesis
    using waiting_reached admission_spares_foreground [of punctual 2 _ waiting 10000 ?u WakeFires]
    by (auto simp: waiting_state)
qed

text \<open>
  Without that promptness a waiter can be stranded: the grace is over, the due wake timer has not run
  yet, and the abort of another waiter clears it without pumping.
\<close>

definition late_abort :: "(instant \<times> adm_event) list" where
  "late_abort = busy_run @ [(10, Leave 1), (311, AcquireAborts 8)]"

lemma abort_can_strand:
  "\<exists>t s. reached (\<lambda>_ _ _. True) 2 t s \<and> waiters s \<noteq> [] \<and> running s = 0 \<and> wake s = None \<and>
     \<not> foregroundBusy 311 s \<and> units s = [] \<and> holds s = []"
proof -
  let ?s = "run late_abort (createAdmission 2)"
  have "allowed (\<lambda>_ _ _. True) 0 late_abort (createAdmission 2)" by code_simp
  from run_reached [OF reached.created this] obtain t where "reached (\<lambda>_ _ _. True) 2 t ?s" by blast
  moreover have "waiters ?s \<noteq> [] \<and> running ?s = 0 \<and> wake ?s = None \<and> \<not> foregroundBusy 311 ?s \<and>
      units ?s = [] \<and> holds ?s = []" by code_simp
  ultimately show ?thesis by blast
qed

end
