(* ===== verification/SyncRole.thy ===== *)
theory SyncRole
  imports AccountWrite
begin

text \<open>
  src/main/core/sync/role.ts: the phase of a device, who may write and send, and the gate around the
  engine that holds work back while the device is a read-only copy.
\<close>

section \<open>Phases\<close>

text \<open>None is no \<open>sync_state\<close> row.\<close>

record sync_gate =
  grole :: sync_role
  gjoining :: bool
  gjoined :: bool
  gtracking :: bool

definition toGate :: "sync_state_row option \<Rightarrow> sync_gate" where
  "toGate r = (case r of
     None \<Rightarrow> \<lparr>grole = Normal, gjoining = False, gjoined = False, gtracking = False\<rparr>
   | Some y \<Rightarrow> \<lparr>grole = role y, gjoining = joining y, gjoined = joined y, gtracking = tracking y\<rparr>)"

definition gateFrom :: "sync_gate \<Rightarrow> bool" where
  "gateFrom g \<longleftrightarrow> grole g = Follower \<or> gjoining g"

datatype sync_phase = Alone | Joining | Leader | LeaderFenced | FollowerPhase

definition phaseOf :: "sync_gate \<Rightarrow> bool \<Rightarrow> sync_phase" where
  "phaseOf g fenced =
     (if grole g = Follower then FollowerPhase
      else if gjoining g then Joining
      else if gtracking g then (if fenced then LeaderFenced else Leader)
      else Alone)"

definition bootPhase :: "sync_gate \<Rightarrow> sync_phase" where
  "bootPhase g = phaseOf g (gtracking g \<and> \<not> gateFrom g)"

definition canWrite :: "sync_phase \<Rightarrow> bool" where
  "canWrite p \<longleftrightarrow> p = Alone \<or> p = Leader"

record lease_snapshot =
  isMaster :: bool
  multiDevice :: bool
  lreason :: string

record role_wire =
  leads :: bool
  follows :: bool
  reason :: string

definition reason_or :: "lease_snapshot option \<Rightarrow> string \<Rightarrow> string" where
  "reason_or l d = (case l of None \<Rightarrow> d | Some x \<Rightarrow> lreason x)"

definition roleOf :: "sync_phase \<Rightarrow> lease_snapshot option \<Rightarrow> role_wire" where
  "roleOf phase lease = (case phase of
     FollowerPhase \<Rightarrow> \<lparr>leads = False, follows = True, reason = reason_or lease ''follower-copy''\<rparr>
   | Joining \<Rightarrow> \<lparr>leads = False, follows = True, reason = reason_or lease ''follower-copy''\<rparr>
   | LeaderFenced \<Rightarrow> (case lease of
       None \<Rightarrow> \<lparr>leads = False, follows = False, reason = ''fenced-boot''\<rparr>
     | Some l \<Rightarrow> \<lparr>leads = False, follows = (if isMaster l then False else multiDevice l), reason = lreason l\<rparr>)
   | Leader \<Rightarrow> \<lparr>leads = True, follows = False, reason = reason_or lease ''solo''\<rparr>
   | Alone \<Rightarrow> (case lease of
       None \<Rightarrow> \<lparr>leads = True, follows = False, reason = ''solo''\<rparr>
     | Some l \<Rightarrow> if isMaster l then \<lparr>leads = True, follows = False, reason = lreason l\<rparr>
                 else \<lparr>leads = False, follows = multiDevice l, reason = lreason l\<rparr>))"

section \<open>The gate around the engine\<close>

text \<open>
  A proxy (\<open>GatedHandle\<close>) is its place in \<open>handles\<close>; the handle \<open>real.run\<close> or \<open>real.attach\<close>
  gives back is a fresh number. \<open>calls\<close> is what the gate asked of the engine. A \<open>closeWriter\<close>
  is two events, before and after it awaits the stops, with the proxies it set out to stop.
\<close>

datatype gated_kind = GRun | GAttach

record gated =
  gkind :: gated_kind
  gsubject :: string
  inner :: "nat option"
  stopped :: bool

datatype engine_call =
    RealRun string nat
  | RealAttach string nat
  | StopInner nat
  | RealRerun
  | RealVerb string string

record gate =
  handles :: "gated list"
  held :: "nat list"
  live :: "nat list"
  runs :: "string \<rightharpoonup> nat"
  holding :: bool
  closings :: "(nat \<times> nat list) list"
  closing :: "nat option"
  closes :: nat
  inners :: nat
  calls :: "engine_call list"

definition gateEngine :: gate where
  "gateEngine = \<lparr>handles = [], held = [], live = [], runs = Map.empty, holding = False,
     closings = [], closing = None, closes = 0, inners = 0, calls = []\<rparr>"

definition newProxy :: "gated_kind \<Rightarrow> string \<Rightarrow> gate \<Rightarrow> gate" where
  "newProxy k x s = s\<lparr>handles := handles s @ [\<lparr>gkind = k, gsubject = x, inner = None, stopped = False\<rparr>]\<rparr>"

definition start :: "(nat \<Rightarrow> engine_call) \<Rightarrow> nat \<Rightarrow> gate \<Rightarrow> gate" where
  "start fn p s = s\<lparr>handles := (handles s)[p := (handles s ! p)\<lparr>inner := Some (inners s)\<rparr>],
     live := (if p \<in> set (live s) then live s else live s @ [p]), inners := inners s + 1, calls := calls s @ [fn (inners s)]\<rparr>"

definition dropLive :: "nat \<Rightarrow> gate \<Rightarrow> gate" where
  "dropLive p s = s\<lparr>live := filter (\<lambda>q. q \<noteq> p) (live s)\<rparr>"

text \<open>\<open>e.run\<close> for the account, as it is read-only, owned here, owned elsewhere at this call.\<close>

definition gateRun :: "string \<Rightarrow> bool \<Rightarrow> bool \<Rightarrow> bool \<Rightarrow> gate \<Rightarrow> gate" where
  "gateRun i readOnly owns ownedByOther s =
     (let p = length (handles s); s1 = newProxy GRun i s in
      if holding s \<or> ownedByOther then s1
      else if readOnly \<and> \<not> owns then s1
      else let s2 = (case runs s i of None \<Rightarrow> s1 | Some prev \<Rightarrow> dropLive prev s1)
           in start (RealRun i) p (s2\<lparr>runs := (runs s2)(i \<mapsto> p)\<rparr>))"

definition gateAttach :: "string \<Rightarrow> bool \<Rightarrow> gate \<Rightarrow> gate" where
  "gateAttach w readOnly s =
     (let p = length (handles s); s1 = newProxy GAttach w s in
      if holding s \<or> readOnly then s1\<lparr>held := held s1 @ [p]\<rparr> else start (RealAttach w) p s1)"

definition gateRerun :: "bool \<Rightarrow> gate \<Rightarrow> gate" where
  "gateRerun readOnly s = (if readOnly \<or> holding s then s else s\<lparr>calls := calls s @ [RealRerun]\<rparr>)"

definition REFUSED :: "string list" where
  "REFUSED = [''connect'', ''reconnect'', ''applyScope'', ''remove'', ''pause'', ''resume'',
     ''updateConfig'', ''setOption'']"

text \<open>\<open>mine\<close>: ownsSource of the source \<open>connect\<close> names, ownsAccount of the account of the others.\<close>

definition gateVerb :: "string \<Rightarrow> string \<Rightarrow> bool \<Rightarrow> bool \<Rightarrow> gate \<Rightarrow> tx_error + gate" where
  "gateVerb m x readOnly mine s =
     (if readOnly \<and> \<not> mine then Inl (SyncReadOnly m) else Inr (s\<lparr>calls := calls s @ [RealVerb m x]\<rparr>))"

definition gateStop :: "nat \<Rightarrow> gate \<Rightarrow> gate" where
  "gateStop p s = (let s1 = dropLive p (s\<lparr>handles := (handles s)[p := (handles s ! p)\<lparr>stopped := True\<rparr>]\<rparr>)
     in case inner (handles s ! p) of None \<Rightarrow> s1 | Some h \<Rightarrow> s1\<lparr>calls := calls s1 @ [StopInner h]\<rparr>)"

definition innersOf :: "nat list \<Rightarrow> gate \<Rightarrow> nat list" where
  "innersOf ps s = concat (map (\<lambda>p. case inner (handles s ! p) of None \<Rightarrow> [] | Some h \<Rightarrow> [h]) ps)"

definition closeBegin :: "gate \<Rightarrow> gate" where
  "closeBegin s = s\<lparr>holding := True, closings := closings s @ [(closes s, live s)],
     closing := Some (closes s), closes := closes s + 1,
     calls := calls s @ map StopInner (innersOf (live s) s)\<rparr>"

definition closeOne :: "nat \<Rightarrow> gate \<Rightarrow> gate" where
  "closeOne p s =
     (let g = handles s ! p;
          s1 = dropLive p s;
          s2 = (if gkind g = GRun then s1\<lparr>runs := (\<lambda>k. if runs s1 k = Some p then None else runs s1 k)\<rparr> else s1);
          s3 = s2\<lparr>handles := (handles s2)[p := g\<lparr>inner := None\<rparr>]\<rparr>
      in if gkind g = GAttach \<and> \<not> stopped g \<and> p \<notin> set (held s3) then s3\<lparr>held := held s3 @ [p]\<rparr> else s3)"

definition closeEnd :: "nat \<Rightarrow> gate \<Rightarrow> gate" where
  "closeEnd c s = (case find (\<lambda>x. fst x = c) (closings s) of
     None \<Rightarrow> s
   | Some (_, ps) \<Rightarrow> (let s1 = fold closeOne ps s in
       s1\<lparr>closings := filter (\<lambda>x. fst x \<noteq> c) (closings s1),
          closing := (if closing s1 = Some c then None else closing s1)\<rparr>))"

text \<open>The end of \<open>release()\<close>, once no quiesce is in flight.\<close>

definition releaseDone :: "gate \<Rightarrow> gate" where
  "releaseDone s = (if closing s \<noteq> None then s else s\<lparr>holding := False\<rparr>)"

definition attachOne :: "nat \<Rightarrow> gate \<Rightarrow> gate" where
  "attachOne p s = (if stopped (handles s ! p) then s
     else start (RealAttach (gsubject (handles s ! p))) p s)"

text \<open>What \<open>attachHeld\<close> does after it awaited \<open>release()\<close>.\<close>

definition attachHeld :: "bool \<Rightarrow> gate \<Rightarrow> gate" where
  "attachHeld readOnly s = (if readOnly then s else fold attachOne (held s) (s\<lparr>held := []\<rparr>))"

datatype gate_event =
    Run string bool bool bool
  | Attach string bool
  | Rerun bool
  | Verb string string bool bool
  | Stop nat
  | CloseBegin
  | CloseEnd nat
  | ReleaseDone
  | AttachHeld bool

fun gateStep :: "gate_event \<Rightarrow> gate \<Rightarrow> gate" where
  "gateStep (Run i ro owns other) s = gateRun i ro owns other s"
| "gateStep (Attach w ro) s = gateAttach w ro s"
| "gateStep (Rerun ro) s = gateRerun ro s"
| "gateStep (Verb m x ro mine) s = (case gateVerb m x ro mine s of Inl _ \<Rightarrow> s | Inr t \<Rightarrow> t)"
| "gateStep (Stop p) s = (if p < length (handles s) then gateStop p s else s)"
| "gateStep CloseBegin s = closeBegin s"
| "gateStep (CloseEnd c) s = closeEnd c s"
| "gateStep ReleaseDone s = releaseDone s"
| "gateStep (AttachHeld ro) s = attachHeld ro s"

text \<open>Reached states; \<open>ok\<close> restricts which events happen when.\<close>

inductive gate_reached :: "(gate_event \<Rightarrow> gate \<Rightarrow> bool) \<Rightarrow> gate \<Rightarrow> bool" for ok where
  opened: "gate_reached ok gateEngine"
| stepped: "gate_reached ok s \<Longrightarrow> ok e s \<Longrightarrow> gate_reached ok (gateStep e s)"

section \<open>Who sends\<close>

record send_ownership =
  ownsAccount :: "string \<Rightarrow> bool"
  ownerOf :: "string \<Rightarrow> string option"
  thisDevice :: "string option"
  deviceName :: "string \<Rightarrow> string option"

definition sendFromMessage :: "string \<Rightarrow> string" where
  "sendFromMessage device = ''not sent: Send from '' @ device"

text \<open>\<open>ownedSender\<close>'s send: None passes the intent on, Some is the error it throws.\<close>

definition ownedSend :: "bool \<Rightarrow> send_ownership \<Rightarrow> string \<Rightarrow> string option" where
  "ownedSend readOnly o1 i =
     (if ownsAccount o1 i then None
      else let ownerId = ownerOf o1 i; mine = (ownerId = None \<or> ownerId = thisDevice o1) in
        if \<not> mine \<or> readOnly
        then Some (sendFromMessage (case ownerId of
               None \<Rightarrow> ''the device that paired it''
             | Some d \<Rightarrow> if d = [] then ''the device that paired it'' else (case deviceName o1 d of Some n \<Rightarrow> n | None \<Rightarrow> take 8 d)))
        else None)"

datatype lookup_result = NoSender | PlainSender | OwnedSender

definition followerLookup :: "(string \<Rightarrow> bool) \<Rightarrow> bool \<Rightarrow> bool \<Rightarrow> string \<Rightarrow> lookup_result" where
  "followerLookup has readOnly withOwner src =
     (if withOwner \<and> has src \<and> isDeviceOwned src then OwnedSender
      else if readOnly then NoSender
      else if has src then PlainSender else NoSender)"

end
