(* ===== verification/SyncRoleProps.thy ===== *)
theory SyncRoleProps
  imports SyncRole Samples
begin

text \<open>
  What the role gate promises: only a device that may write is shown as leader, nothing that a
  read-only device must not start is started, a close leaves nothing running, and no worker that was
  handed to the gate is forgotten.
\<close>

section \<open>Phases\<close>

text \<open>
  A device is never told it leads unless it may write, and one that is gated (a follower, or
  mid-join) may not write, is shown as a follower and wakes that way; a leader with tracking on wakes
  fenced.
\<close>

theorem role_is_never_overstated:
  "(leads (roleOf (phaseOf g fenced) l) \<longrightarrow>
      canWrite (phaseOf g fenced) \<and> \<not> follows (roleOf (phaseOf g fenced) l)) \<and>
   (gateFrom g \<longrightarrow> \<not> canWrite (phaseOf g fenced) \<and> follows (roleOf (phaseOf g fenced) l)) \<and>
   (canWrite (bootPhase g) \<longleftrightarrow> \<not> gateFrom g \<and> \<not> gtracking g)"
  by (auto simp: roleOf_def phaseOf_def bootPhase_def canWrite_def gateFrom_def
      split: sync_phase.splits option.splits sync_role.splits)

definition joining_gate :: sync_gate where
  "joining_gate = \<lparr>grole = Normal, gjoining = True, gjoined = False, gtracking = True\<rparr>"

theorem role_is_never_overstated_witness:
  "\<not> canWrite (phaseOf joining_gate False) \<and> follows (roleOf (phaseOf joining_gate False) None)"
  using role_is_never_overstated [of joining_gate False None] by (simp add: joining_gate_def gateFrom_def)

section \<open>What the gate lets start\<close>

definition permitted :: "gate_event \<Rightarrow> gate \<Rightarrow> engine_call \<Rightarrow> bool" where
  "permitted e s c \<longleftrightarrow> (case c of
     RealRun i h \<Rightarrow> \<not> holding s \<and> (\<exists>ro owns. e = Run i ro owns False \<and> (ro \<longrightarrow> owns))
   | RealAttach w h \<Rightarrow> (e = Attach w False \<and> \<not> holding s) \<or> e = AttachHeld False
   | RealRerun \<Rightarrow> e = Rerun False \<and> \<not> holding s
   | RealVerb m x \<Rightarrow> (\<exists>ro mine. e = Verb m x ro mine \<and> (ro \<longrightarrow> mine))
   | StopInner h \<Rightarrow> True)"

lemma calls_closeOnes: "calls (fold closeOne ps s) = calls s"
  by (rule fold_frame) (simp add: closeOne_def dropLive_def Let_def)

lemma calls_attachOnes:
  "\<exists>cs. calls (fold attachOne ps s) = calls s @ cs \<and> (\<forall>c \<in> set cs. \<exists>w h. c = RealAttach w h)"
proof (induction ps arbitrary: s)
  case (Cons p ps)
  have one: "\<exists>cs. calls (attachOne p s) = calls s @ cs \<and> (\<forall>c \<in> set cs. \<exists>w h. c = RealAttach w h)"
    by (auto simp: attachOne_def start_def)
  obtain cs where cs: "calls (attachOne p s) = calls s @ cs" "\<forall>c \<in> set cs. \<exists>w h. c = RealAttach w h"
    using one by blast
  obtain ds where ds: "calls (fold attachOne ps (attachOne p s)) = calls (attachOne p s) @ ds"
    "\<forall>c \<in> set ds. \<exists>w h. c = RealAttach w h"
    using Cons.IH by blast
  show ?case using cs ds by (intro exI [of _ "cs @ ds"]) auto
qed simp

text \<open>
  C14: the gate starts nothing it must not: every call it makes of the engine at an event is one the
  event may make. A run of an account another device owns is never started, a read-only device runs
  only an account it owns, attaches and re-drives nothing, and applies a verb only to its own.
\<close>

theorem gate_calls_are_permitted:
  "\<exists>new. calls (gateStep e s) = calls s @ new \<and> (\<forall>c \<in> set new. permitted e s c)"
proof (cases e)
  case (Run i ro owns other)
  have drop: "calls (dropLive q r) = calls r" for q r by (simp add: dropLive_def)
  show ?thesis
    by (auto simp: Run gateRun_def Let_def newProxy_def start_def permitted_def drop split: option.splits)
next
  case (CloseEnd c)
  have "calls (closeEnd c s) = calls s"
    by (simp add: closeEnd_def Let_def calls_closeOnes split: option.splits)
  then show ?thesis by (simp add: CloseEnd)
next
  case (AttachHeld ro)
  obtain cs where cs: "calls (fold attachOne (held s) (s\<lparr>held := []\<rparr>)) = calls s @ cs"
    "\<forall>c \<in> set cs. \<exists>w h. c = RealAttach w h"
    using calls_attachOnes [of "held s" "s\<lparr>held := []\<rparr>"] by auto
  have "permitted (AttachHeld False) s c" if "c \<in> set cs" for c
    using cs(2) that by (auto simp: permitted_def)
  with cs(1) show ?thesis
    by (cases ro) (auto simp: AttachHeld attachHeld_def)
next
  case (Verb m x ro mine)
  show ?thesis by (simp add: Verb gateVerb_def permitted_def)
next
  case (Stop p)
  show ?thesis by (simp add: Stop gateStop_def Let_def dropLive_def permitted_def split: option.splits)
next
  case CloseBegin
  show ?thesis by (auto simp: CloseBegin closeBegin_def permitted_def)
qed (simp_all add: gateAttach_def gateRerun_def releaseDone_def Let_def newProxy_def start_def permitted_def)

section \<open>Nothing keeps running, nothing is forgotten\<close>

text \<open>\<open>X\<close>: attach proxies that are just being moved between the lists.\<close>

definition gate_okx :: "nat set \<Rightarrow> gate \<Rightarrow> bool" where
  "gate_okx X s \<longleftrightarrow> (\<forall>p \<in> set (held s) \<union> set (live s). p < length (handles s)) \<and>
     (\<forall>cps \<in> set (closings s). \<forall>p \<in> set (snd cps). p < length (handles s)) \<and>
     (\<forall>i p. runs s i = Some p \<longrightarrow> p < length (handles s) \<and> gkind (handles s ! p) = GRun) \<and>
     (\<forall>p < length (handles s). gkind (handles s ! p) = GAttach \<longrightarrow>
        p \<in> X \<or> stopped (handles s ! p) \<or> p \<in> set (live s) \<or> p \<in> set (held s))"

named_theorems gate_intros \<open>how the gate's moves keep its lists\<close>

lemma okx_newProxy [gate_intros]: "gate_okx X s \<Longrightarrow> gate_okx (insert (length (handles s)) X) (newProxy k x s)"
  by (auto simp: gate_okx_def newProxy_def nth_append less_Suc_eq)

lemma okx_start [gate_intros]:
  "gate_okx (insert p X) s \<Longrightarrow> p < length (handles s) \<Longrightarrow> gate_okx X (start fn p s)"
  by (auto simp: gate_okx_def start_def nth_list_update split: if_splits)

lemma okx_hold [gate_intros]:
  "gate_okx (insert p X) s \<Longrightarrow> p < length (handles s) \<Longrightarrow> gate_okx X (s\<lparr>held := held s @ [p]\<rparr>)"
  by (auto simp: gate_okx_def)

lemma okx_dropLive [gate_intros]: "gate_okx X s \<Longrightarrow> gate_okx (insert p X) (dropLive p s)"
  by (auto simp: gate_okx_def dropLive_def)

lemma okx_done:
  "gate_okx (insert p X) s \<Longrightarrow> gkind (handles s ! p) = GRun \<or> stopped (handles s ! p) \<or> p \<in> set (held s) \<Longrightarrow>
    gate_okx X s"
  by (auto simp: gate_okx_def)

lemma okx_weaken: "gate_okx X s \<Longrightarrow> X \<subseteq> Y \<Longrightarrow> gate_okx Y s"
  by (auto simp: gate_okx_def)

lemma okx_dropRun:
  "gate_okx X s \<Longrightarrow> runs s i = Some q \<Longrightarrow> gate_okx X (dropLive q s)"
  by (auto simp: gate_okx_def dropLive_def)

lemma okx_runs:
  "gate_okx X s \<Longrightarrow> p < length (handles s) \<Longrightarrow> gkind (handles s ! p) = GRun \<Longrightarrow>
    gate_okx X (s\<lparr>runs := (runs s)(i \<mapsto> p)\<rparr>)"
  by (auto simp: gate_okx_def)

lemma okx_gateRun:
  assumes "gate_okx {} s"
  shows "gate_okx {} (gateRun i ro owns other s)"
proof -
  let ?p = "length (handles s)" and ?s1 = "newProxy GRun i s"
  have new: "handles ?s1 ! ?p = \<lparr>gkind = GRun, gsubject = i, inner = None, stopped = False\<rparr>"
    "length (handles ?s1) = Suc ?p" "runs ?s1 = runs s"
    by (simp_all add: newProxy_def)
  have s1: "gate_okx {} ?s1" using okx_newProxy [OF assms] by (rule okx_done) (simp add: new)
  let ?s2 = "case runs s i of None \<Rightarrow> ?s1 | Some prev \<Rightarrow> dropLive prev ?s1"
  have same: "handles ?s2 = handles ?s1" "runs ?s2 = runs s"
    by (simp_all add: dropLive_def new split: option.split)
  have "gate_okx {} ?s2" using s1 okx_dropRun [OF s1, of i] by (simp add: new split: option.split)
  then have "gate_okx {} (?s2\<lparr>runs := (runs ?s2)(i \<mapsto> ?p)\<rparr>)"
    by (rule okx_runs) (simp_all add: same new)
  then have "gate_okx {?p} (?s2\<lparr>runs := (runs ?s2)(i \<mapsto> ?p)\<rparr>)" by (rule okx_weaken) simp
  then have "gate_okx {} (start (RealRun i) ?p (?s2\<lparr>runs := (runs ?s2)(i \<mapsto> ?p)\<rparr>))"
    by (rule okx_start) (simp add: same new)
  with s1 show ?thesis unfolding gateRun_def Let_def by simp
qed

lemma okx_gateAttach:
  assumes "gate_okx {} s"
  shows "gate_okx {} (gateAttach w ro s)"
proof -
  have "gate_okx {length (handles s)} (newProxy GAttach w s)" using okx_newProxy [OF assms] by simp
  moreover have "length (handles s) < length (handles (newProxy GAttach w s))" by (simp add: newProxy_def)
  ultimately show ?thesis unfolding gateAttach_def Let_def by (simp add: okx_hold okx_start)
qed

lemma okx_gateStop: "gate_okx {} s \<Longrightarrow> p < length (handles s) \<Longrightarrow> gate_okx {} (gateStop p s)"
  by (auto simp: gateStop_def Let_def dropLive_def gate_okx_def nth_list_update split: option.split)

lemma okx_closeOne:
  assumes "gate_okx X s" "p < length (handles s)"
  shows "gate_okx X (closeOne p s)"
proof -
  let ?g = "handles s ! p"
  let ?s1 = "dropLive p s"
  let ?s2 = "if gkind ?g = GRun then ?s1\<lparr>runs := (\<lambda>k. if runs ?s1 k = Some p then None else runs ?s1 k)\<rparr> else ?s1"
  let ?s3 = "?s2\<lparr>handles := (handles ?s2)[p := ?g\<lparr>inner := None\<rparr>]\<rparr>"
  have "gate_okx (insert p X) ?s1" by (rule okx_dropLive [OF assms(1)])
  then have "gate_okx (insert p X) ?s2" by (auto simp: gate_okx_def)
  then have s3: "gate_okx (insert p X) ?s3"
    using assms(2) by (auto simp: gate_okx_def dropLive_def nth_list_update split: if_splits)
  have at: "handles ?s3 ! p = ?g\<lparr>inner := None\<rparr>" "p < length (handles ?s3)"
    using assms(2) by (simp_all add: dropLive_def)
  show ?thesis
  proof (cases "gkind ?g = GAttach \<and> \<not> stopped ?g \<and> p \<notin> set (held ?s3)")
    case True
    then have "closeOne p s = ?s3\<lparr>held := held ?s3 @ [p]\<rparr>"
      by (auto simp: closeOne_def Let_def dropLive_def)
    with okx_hold [OF s3 at(2)] show ?thesis by simp
  next
    case False
    then have "gkind ?g = GRun \<or> stopped ?g \<or> p \<in> set (held ?s3)" by (cases "gkind ?g") auto
    with at(1) have "gkind (handles ?s3 ! p) = GRun \<or> stopped (handles ?s3 ! p) \<or> p \<in> set (held ?s3)" by simp
    from okx_done [OF s3 this] False show ?thesis by (auto simp: closeOne_def Let_def)
  qed
qed

lemma closeOne_fields [simp]:
  "length (handles (closeOne p s)) = length (handles s)" "closings (closeOne p s) = closings s"
  "closing (closeOne p s) = closing s" "holding (closeOne p s) = holding s" "closes (closeOne p s) = closes s"
  "set (live (closeOne p s)) = set (live s) - {p}"
  by (auto simp: closeOne_def dropLive_def Let_def)

lemma okx_closeOnes:
  "gate_okx X s \<Longrightarrow> \<forall>p \<in> set ps. p < length (handles s) \<Longrightarrow> gate_okx X (fold closeOne ps s)"
  by (induction ps arbitrary: s) (simp_all add: okx_closeOne)

lemma okx_closeEnd:
  assumes "gate_okx {} s"
  shows "gate_okx {} (closeEnd c s)"
proof (cases "find (\<lambda>x. fst x = c) (closings s)")
  case None
  with assms show ?thesis by (simp add: closeEnd_def)
next
  case (Some x)
  obtain k ps where x: "x = (k, ps)" by (cases x)
  from find_Some_set [OF Some] assms have "\<forall>p \<in> set ps. p < length (handles s)" by (auto simp: gate_okx_def x)
  from okx_closeOnes [OF assms this] show ?thesis
    using Some by (auto simp: closeEnd_def Let_def x gate_okx_def)
qed

lemma okx_attachOne:
  assumes "gate_okx (insert p X) s" "p < length (handles s)"
  shows "gate_okx X (attachOne p s)"
  using okx_start [OF assms] okx_done [OF assms(1)] by (simp add: attachOne_def)

lemma attachOne_fields [simp]:
  "length (handles (attachOne p s)) = length (handles s)" "held (attachOne p s) = held s"
  "closings (attachOne p s) = closings s" "holding (attachOne p s) = holding s" "closes (attachOne p s) = closes s"
  by (simp_all add: attachOne_def start_def)

lemma okx_attachOnes:
  "gate_okx (set ps \<union> X) s \<Longrightarrow> \<forall>p \<in> set ps. p < length (handles s) \<Longrightarrow> gate_okx X (fold attachOne ps s)"
proof (induction ps arbitrary: s)
  case (Cons p ps)
  then have "gate_okx (set ps \<union> X) (attachOne p s)" by (intro okx_attachOne) simp_all
  with Cons.IH [of "attachOne p s"] Cons.prems(2) show ?case by simp
qed simp

lemma okx_attachHeld:
  assumes "gate_okx {} s"
  shows "gate_okx {} (attachHeld ro s)"
proof -
  have "gate_okx (set (held s) \<union> {}) (s\<lparr>held := []\<rparr>)" using assms by (auto simp: gate_okx_def)
  moreover have "\<forall>p \<in> set (held s). p < length (handles (s\<lparr>held := []\<rparr>))" using assms by (simp add: gate_okx_def)
  ultimately have "gate_okx {} (fold attachOne (held s) (s\<lparr>held := []\<rparr>))" by (rule okx_attachOnes)
  with assms show ?thesis by (simp add: attachHeld_def)
qed

lemma okx_gateStep: "gate_okx {} s \<Longrightarrow> gate_okx {} (gateStep e s)"
proof (cases e)
  case (Verb m x ro mine)
  assume "gate_okx {} s"
  then show ?thesis by (simp add: Verb gateVerb_def gate_okx_def)
next
  case CloseBegin
  assume "gate_okx {} s"
  then show ?thesis by (auto simp: CloseBegin closeBegin_def gate_okx_def)
qed (simp_all add: okx_gateRun okx_gateAttach okx_gateStop okx_closeEnd okx_attachHeld,
     simp_all add: gateRerun_def releaseDone_def gate_okx_def)

lemma reached_okx: "gate_reached ok s \<Longrightarrow> gate_okx {} s"
proof (induction rule: gate_reached.induct)
  case opened
  show ?case by (simp add: gate_okx_def gateEngine_def)
qed (rule okx_gateStep)

section \<open>A close leaves nothing running\<close>

text \<open>
  What a closed gate promises as long as \<open>attachHeld\<close> never resumes under a close that began after
  its \<open>release()\<close> was done: while holding, what is live is what some close in flight set out to stop.
\<close>

definition quiet_ok :: "gate_event \<Rightarrow> gate \<Rightarrow> bool" where
  "quiet_ok e s \<longleftrightarrow> (case e of AttachHeld ro \<Rightarrow> \<not> holding s | _ \<Rightarrow> True)"

definition closing_ids :: "gate \<Rightarrow> bool" where
  "closing_ids s \<longleftrightarrow> distinct (map fst (closings s)) \<and> (\<forall>x \<in> set (closings s). fst x < closes s)"

definition quiet :: "gate \<Rightarrow> bool" where
  "quiet s \<longleftrightarrow> closing_ids s \<and>
     (holding s \<longrightarrow> (\<forall>p \<in> set (live s). \<exists>x \<in> set (closings s). p \<in> set (snd x)))"

lemma closeOnes_fields [simp]:
  "closings (fold closeOne ps s) = closings s" "closes (fold closeOne ps s) = closes s"
  "closing (fold closeOne ps s) = closing s"
  "holding (fold closeOne ps s) = holding s" "set (live (fold closeOne ps s)) = set (live s) - set ps"
  by (induction ps arbitrary: s) auto

lemma quiet_closeEnd:
  assumes "quiet s"
  shows "quiet (closeEnd c s)"
proof (cases "find (\<lambda>x. fst x = c) (closings s)")
  case None
  with assms show ?thesis by (simp add: closeEnd_def)
next
  case (Some x)
  obtain ps where x: "x = (c, ps)" "x \<in> set (closings s)"
    using find_Some_set [OF Some] by (cases x) auto
  have ids: "closing_ids s" using assms by (simp add: quiet_def)
  have only: "y = x" if "y \<in> set (closings s)" "fst y = c" for y
    using ids that x unfolding closing_ids_def by (metis eq_key_imp_eq_value fst_conv prod.collapse)
  have "closing_ids (closeEnd c s)"
    using ids by (simp add: closeEnd_def Some x Let_def closing_ids_def distinct_map_filter)
  moreover have "\<exists>y \<in> set (closings (closeEnd c s)). p \<in> set (snd y)"
    if "holding (closeEnd c s)" "p \<in> set (live (closeEnd c s))" for p
  proof -
    from that have p: "holding s" "p \<in> set (live s)" "p \<notin> set ps"
      by (simp_all add: closeEnd_def Some x Let_def)
    then obtain y where y: "y \<in> set (closings s)" "p \<in> set (snd y)" using assms by (auto simp: quiet_def)
    moreover have "fst y \<noteq> c" using y p(3) only [OF y(1)] x(1) by (metis snd_conv)
    ultimately have "y \<in> set (closings (closeEnd c s)) \<and> p \<in> set (snd y)" by (simp add: closeEnd_def Some x Let_def)
    then show ?thesis by blast
  qed
  ultimately show ?thesis by (simp add: quiet_def)
qed

lemma quiet_gateStep:
  assumes "quiet s" "quiet_ok e s"
  shows "quiet (gateStep e s)"
proof (cases e)
  case (Run i ro owns other)
  with assms show ?thesis
    by (cases "holding s") (auto simp: gateRun_def Let_def newProxy_def start_def dropLive_def quiet_def
        closing_ids_def split: option.split)
next
  case (CloseEnd c)
  with assms show ?thesis by (simp add: quiet_closeEnd)
next
  case CloseBegin
  with assms show ?thesis by (auto simp: closeBegin_def quiet_def closing_ids_def less_Suc_eq)
next
  case (AttachHeld ro)
  have keep: "holding (fold attachOne ps r) = holding r" "closings (fold attachOne ps r) = closings r"
    "closes (fold attachOne ps r) = closes r" for ps r
    by (induction ps arbitrary: r) simp_all
  show ?thesis using assms by (simp add: AttachHeld attachHeld_def quiet_def closing_ids_def quiet_ok_def keep)
next
  case (Stop p)
  with assms show ?thesis
    by (auto simp: gateStop_def Let_def dropLive_def quiet_def closing_ids_def split: option.split)
qed (insert assms, auto simp: gateAttach_def gateRerun_def gateVerb_def releaseDone_def Let_def newProxy_def
    start_def quiet_def closing_ids_def)

lemma reached_quiet: "gate_reached quiet_ok s \<Longrightarrow> quiet s"
proof (induction rule: gate_reached.induct)
  case opened
  show ?case by (simp add: quiet_def gateEngine_def closing_ids_def)
qed (rule quiet_gateStep)

section \<open>Properties of the gate\<close>

text \<open>
  C34: a worker handed to the gate is never forgotten: in every state the gate can reach, whatever the
  order of runs, attaches, stops, closes and resumes and whatever the role answers, an attached worker
  nobody stopped is running or is held for the next attachHeld, and a run remembered for an account is a
  run proxy.
\<close>

theorem gate_forgets_no_worker:
  assumes "gate_reached ok s"
  shows "(p < length (handles s) \<and> gkind (handles s ! p) = GAttach \<and> \<not> stopped (handles s ! p) \<longrightarrow>
      p \<in> set (live s) \<or> p \<in> set (held s)) \<and>
    (runs s i = Some q \<longrightarrow> q < length (handles s) \<and> gkind (handles s ! q) = GRun)"
  using reached_okx [OF assms] by (auto simp: gate_okx_def)

definition gate_trace :: "gate_event list \<Rightarrow> gate" where
  "gate_trace es = fold gateStep es gateEngine"

lemma trace_reached: "gate_reached (\<lambda>_ _. True) (gate_trace es)"
proof (induction es rule: rev_induct)
  case Nil
  show ?case by (simp add: gate_trace_def gate_reached.opened)
next
  case (snoc e es)
  then show ?case using gate_reached.stepped [of "\<lambda>_ _. True" "gate_trace es" e] by (simp add: gate_trace_def)
qed

definition close_run :: "gate_event list" where
  "close_run = [Attach ''w'' False, Attach ''x'' True, Run ''a'' False False False, CloseBegin, CloseEnd 0]"

lemma close_run_ends:
  "live (gate_trace close_run) = [] \<and> held (gate_trace close_run) = [1, 0] \<and> holding (gate_trace close_run) \<and>
   closings (gate_trace close_run) = []"
  by code_simp

lemma close_run_handle: "length (handles (gate_trace close_run)) = 3 \<and>
   gkind (handles (gate_trace close_run) ! 0) = GAttach \<and> \<not> stopped (handles (gate_trace close_run) ! 0)"
  by code_simp

theorem gate_forgets_no_worker_witness:
  "0 \<in> set (live (gate_trace close_run)) \<or> 0 \<in> set (held (gate_trace close_run))"
  using gate_forgets_no_worker [OF trace_reached, of 0 close_run] close_run_handle by simp

text \<open>
  a close leaves nothing running: in every state the gate can reach in which it holds and no close is
  still waiting for its stops, no proxy is live, provided attachHeld resumed only while the gate was not
  holding.
\<close>

theorem closed_gate_is_quiet:
  assumes "gate_reached quiet_ok s" and "holding s" and "closings s = []"
  shows "live s = []"
proof -
  have "quiet s" using assms(1) by (rule reached_quiet)
  then show ?thesis using assms(2,3) by (cases "live s") (auto simp: quiet_def)
qed

theorem closed_gate_is_quiet_witness: "live (gate_trace close_run) = []"
proof (rule closed_gate_is_quiet)
  show "gate_reached quiet_ok (gate_trace close_run)"
    unfolding gate_trace_def close_run_def by (simp add: gate_reached.intros quiet_ok_def del: gateStep.simps)
qed (simp_all add: close_run_ends)

text \<open>
  The proviso is needed: a closeWriter between the end of release and the rest of attachHeld leaves the
  gate holding, every close done, and a worker running.
\<close>

lemma close_race_leaves_worker:
  "let s = gate_trace [Attach ''w'' True, CloseBegin, CloseEnd 0, ReleaseDone, CloseBegin, AttachHeld False, CloseEnd 1]
   in holding s \<and> closings s = [] \<and> live s = [0]"
  by code_simp

text \<open>
  The witness of \<open>gate_calls_are_permitted\<close>: what a run of an account this read-only device owns asks.
\<close>

theorem gate_calls_are_permitted_witness:
  "\<exists>new. calls (gateStep (Run ''a'' True True False) gateEngine) = calls gateEngine @ new \<and>
     list_all (permitted (Run ''a'' True True False) gateEngine) new"
  using gate_calls_are_permitted [of "Run ''a'' True True False" gateEngine] by (simp add: list_all_iff)

section \<open>Who sends\<close>

text \<open>
  Of the devices of a vault, a send for a device-owned account with an owner leaves only the owner:
  any other device, leader or not, that does not own the account refuses it with the sentence naming the
  owner, which begins with the mark of a failure before any delivery; a follower refuses a source that is
  not device-owned altogether.
\<close>

theorem only_owner_sends:
  assumes "ownerOf w i = Some d" and "thisDevice w \<noteq> Some d" and "\<not> ownsAccount w i"
  shows "(\<exists>n. ownedSend readOnly w i = Some (sendFromMessage n) \<and> take 10 (sendFromMessage n) = ''not sent: '') \<and>
    (\<not> isDeviceOwned src \<longrightarrow> followerLookup has True withOwner src = NoSender)"
  using assms by (auto simp: ownedSend_def Let_def sendFromMessage_def followerLookup_def)

definition other_owner :: send_ownership where
  "other_owner = \<lparr>ownsAccount = (\<lambda>_. False), ownerOf = (\<lambda>i. if i = ''wa'' then Some ''dev-1'' else None),
     thisDevice = Some ''dev-2'', deviceName = (\<lambda>_. None)\<rparr>"

theorem only_owner_sends_witness:
  "ownedSend False other_owner ''wa'' \<noteq> None"
  using only_owner_sends [where w = other_owner and i = "''wa''" and d = "''dev-1''" and readOnly = False
      and src = "''x''" and has = "\<lambda>_. True" and withOwner = True] by (auto simp: other_owner_def)

end
