(* ===== verification/SyncTables.thy ===== *)
theory SyncTables
  imports Store
begin

text \<open>
  The tables that travel between devices, as src/main/core/sync/ sees them: any table of the copied
  set, by its primary key, with the change tracker of tracking.ts.

  A table is the list of its rows. What the code asks SQLite for (the copied tables, the primary key,
  the columns with their DEFAULT) and what SQLite enforces (UNIQUE, REFERENCES ... ON DELETE CASCADE)
  is the \<open>schema\<close>. References are one level deep, as those of the core tables are (documents, outbox
  and event_drafts to accounts). \<open>search\<close> is the text a document's id is indexed under.
\<close>

datatype cell = CNull | CInt int | CText string | CBlob "byte list"

type_synonym row = "(string \<times> cell) list"
type_synonym key = "cell list"

record schema =
  copiedTables :: "string list"
  primaryKeyColumns :: "string \<Rightarrow> string list"
  tableColumns :: "string \<Rightarrow> (string \<times> cell) list"
  uniques :: "string \<Rightarrow> string list list"
  references :: "(string \<times> string \<times> string) list" \<comment> \<open>(child, column, parent)\<close>

record sync_cursor =
  cSeq :: int
  cCursor :: int

record sync_db =
  tables :: "string \<Rightarrow> row list"
  search :: "cell \<rightharpoonup> cell \<times> cell \<times> cell"
  feed :: "(int \<times> cell \<times> time) list" \<comment> \<open>document rows of changes\<close>
  sync_rows :: "(int \<times> string \<times> key) list" \<comment> \<open>in cursor order\<close>
  rowCursor :: int \<comment> \<open>AUTOINCREMENT\<close>
  sync_imported :: "(string \<times> key) list"
  syncRole :: sync_role
  syncTracking :: bool
  syncEpoch :: int
  after :: sync_cursor

datatype sync_error = SyncStageInvalid string | NotFollower | Constraint string | SyncThrown string

definition COPIED_CORE_TABLES :: "string list" where
  "COPIED_CORE_TABLES = [''accounts'', ''documents'', ''outbox'', ''event_drafts'', ''sync_epochs'',
     ''attention_items'', ''attention_revisions'', ''user_prefs'']"

section \<open>Rows\<close>

definition col :: "string \<Rightarrow> row \<Rightarrow> cell" where
  "col c r = (case map_of r c of None \<Rightarrow> CNull | Some v \<Rightarrow> v)"

definition intCol :: "string \<Rightarrow> row \<Rightarrow> int" where
  "intCol c r = (case col c r of CInt n \<Rightarrow> n | _ \<Rightarrow> 0)"

definition keyOf :: "schema \<Rightarrow> string \<Rightarrow> row \<Rightarrow> key" where
  "keyOf S t r = map (\<lambda>c. col c r) (primaryKeyColumns S t)"

definition rowAt :: "schema \<Rightarrow> string \<Rightarrow> key \<Rightarrow> sync_db \<Rightarrow> row option" where
  "rowAt S t k db = find (\<lambda>r. keyOf S t r = k) (tables db t)"

definition setTable :: "string \<Rightarrow> row list \<Rightarrow> sync_db \<Rightarrow> sync_db" where
  "setTable t rs db = db\<lparr>tables := (tables db)(t := rs)\<rparr>"

text \<open>A UNIQUE constraint never holds two rows apart by a NULL.\<close>

definition clash :: "schema \<Rightarrow> string \<Rightarrow> row \<Rightarrow> row \<Rightarrow> bool" where
  "clash S t a b \<longleftrightarrow> (\<exists>u \<in> set (uniques S t).
     (\<forall>c \<in> set u. col c a = col c b \<and> col c a \<noteq> CNull))"

definition refersTo :: "schema \<Rightarrow> string \<Rightarrow> row \<Rightarrow> string \<Rightarrow> key \<Rightarrow> bool" where
  "refersTo S c r p k \<longleftrightarrow> (\<exists>(c', x, p') \<in> set (references S). c' = c \<and> p' = p \<and>
     col x r \<noteq> CNull \<and> [col x r] = k)"

text \<open>The rows a DELETE takes with it.\<close>

definition cascaded :: "schema \<Rightarrow> string \<Rightarrow> key \<Rightarrow> sync_db \<Rightarrow> (string \<times> row) list" where
  "cascaded S t k db = concat (map (\<lambda>(c, x, p).
     if p = t then map (Pair c) (filter (\<lambda>r. col x r \<noteq> CNull \<and> [col x r] = k) (tables db c)) else []) (references S))"

definition deleteRow :: "schema \<Rightarrow> string \<Rightarrow> key \<Rightarrow> sync_db \<Rightarrow> sync_db" where
  "deleteRow S t k db = (if rowAt S t k db = None then db
     else db\<lparr>tables := (\<lambda>c. filter (\<lambda>r. \<not> (c = t \<and> keyOf S t r = k) \<and> \<not> refersTo S c r t k)
            (tables db c))\<rparr>)"

section \<open>The change tracker (tracking.ts)\<close>

definition trackKey :: "string \<Rightarrow> key \<Rightarrow> sync_db \<Rightarrow> sync_db" where
  "trackKey t k db = db\<lparr>sync_rows := filter (\<lambda>e. snd e \<noteq> (t, k)) (sync_rows db) @ [(rowCursor db + 1, t, k)],
     rowCursor := rowCursor db + 1\<rparr>"

definition tracks :: "schema \<Rightarrow> string \<Rightarrow> sync_db \<Rightarrow> bool" where
  "tracks S t db \<longleftrightarrow> syncTracking db \<and> t \<in> set (copiedTables S)"

definition afterInsert :: "schema \<Rightarrow> string \<Rightarrow> row \<Rightarrow> sync_db \<Rightarrow> sync_db" where
  "afterInsert S t new db =
     (if tracks S t db \<and> t \<noteq> ''documents'' then trackKey t (keyOf S t new) db else db)"

text \<open>A document is found by its seq, unless an update leaves the seq alone.\<close>

definition afterUpdate :: "schema \<Rightarrow> string \<Rightarrow> row \<Rightarrow> row \<Rightarrow> sync_db \<Rightarrow> sync_db" where
  "afterUpdate S t old new db =
     (if \<not> tracks S t db then db
      else if t = ''documents''
      then (if col ''seq'' new = col ''seq'' old then trackKey t (keyOf S t new) db else db)
      else let db1 = trackKey t (keyOf S t new) db in
           if keyOf S t old \<noteq> keyOf S t new then trackKey t (keyOf S t old) db1 else db1)"

definition afterDelete :: "schema \<Rightarrow> string \<Rightarrow> row \<Rightarrow> sync_db \<Rightarrow> sync_db" where
  "afterDelete S t old db = (if tracks S t db then trackKey t (keyOf S t old) db else db)"

section \<open>What the master's own statements do to these tables\<close>

datatype statement = InsertRow string row | UpdateRow string key row | DeleteRow string key

definition parented :: "schema \<Rightarrow> string \<Rightarrow> row \<Rightarrow> sync_db \<Rightarrow> bool" where
  "parented S t r db \<longleftrightarrow> (\<forall>(c, x, p) \<in> set (references S). c = t \<longrightarrow> col x r = CNull \<or> rowAt S p [col x r] db \<noteq> None)"

fun runStatement :: "schema \<Rightarrow> statement \<Rightarrow> sync_db \<Rightarrow> sync_error + sync_db" where
  "runStatement S (InsertRow t r) db =
     (if (\<exists>x \<in> set (tables db t). keyOf S t x = keyOf S t r \<or> clash S t x r) \<or> \<not> parented S t r db
      then Inl (Constraint t)
      else Inr (afterInsert S t r (setTable t (tables db t @ [r]) db)))"
| "runStatement S (UpdateRow t k r) db = (case rowAt S t k db of
      None \<Rightarrow> Inr db
    | Some old \<Rightarrow>
        if (\<exists>x \<in> set (tables db t). keyOf S t x \<noteq> k \<and> (keyOf S t x = keyOf S t r \<or> clash S t x r)) \<or>
           \<not> parented S t r db \<or> (keyOf S t r \<noteq> k \<and> cascaded S t k db \<noteq> [])
        then Inl (Constraint t)
        else Inr (afterUpdate S t old r
               (setTable t (upd_where (\<lambda>x. keyOf S t x = k) (\<lambda>_. r) (tables db t)) db)))"
| "runStatement S (DeleteRow t k) db = (case rowAt S t k db of
      None \<Rightarrow> Inr db
    | Some old \<Rightarrow> Inr (fold (\<lambda>(c, r). afterDelete S c r) (cascaded S t k db @ [(t, old)]) (deleteRow S t k db)))"

end
