(* ===== verification/Delta.thy ===== *)
theory Delta
  imports SyncTables
begin

text \<open>
  src/main/core/sync/delta.ts and \<open>applyDelta\<close> of store/write-tx.ts: what a master sends a follower
  above its cursor, the stage file it is written to, and how the follower applies it.
\<close>

text \<open>The key of a delete is JSON, as the tracker's \<open>pk\<close> column is.\<close>

datatype stage_entry = Del string "json list" | Ups string row

fun entryTable :: "stage_entry \<Rightarrow> string" where
  "entryTable (Del t k) = t" | "entryTable (Ups t r) = t"

section \<open>The stage file\<close>

text \<open>
  What the stage uses of the language: JSON text and back (None: it throws), base64, SHA-256 in hex,
  and what a template literal makes of a value that may be missing. A Buffer is a string of bytes.
\<close>

record codec =
  stringify :: "json \<Rightarrow> string"
  parseJson :: "string \<Rightarrow> json option"
  toBase64 :: "byte list \<Rightarrow> string"
  fromBase64 :: "string \<Rightarrow> byte list"
  sha :: "string \<Rightarrow> string"
  template :: "json option \<Rightarrow> string"

fun encodeCell :: "codec \<Rightarrow> cell \<Rightarrow> json" where
  "encodeCell J CNull = JNull"
| "encodeCell J (CInt n) = JNum n"
| "encodeCell J (CText s) = JStr s"
| "encodeCell J (CBlob b) = JObj [(''$b64'', JStr (toBase64 J b))]"

definition encodeRow :: "codec \<Rightarrow> row \<Rightarrow> jobj" where
  "encodeRow J r = map (\<lambda>(k, v). (k, encodeCell J v)) r"

fun encodeEntry :: "codec \<Rightarrow> stage_entry \<Rightarrow> json" where
  "encodeEntry J (Del t k) = JObj [(''op'', JStr ''delete''), (''tbl'', JStr t), (''pk'', JArr k)]"
| "encodeEntry J (Ups t r) = JObj [(''op'', JStr ''upsert''), (''tbl'', JStr t), (''row'', JObj (encodeRow J r))]"

text \<open>
  None: a value SQLite cannot bind, or an entry of neither shape. Only the row of an upsert is
  decoded, the key of a delete is taken as it is.
\<close>

fun decodeCell :: "codec \<Rightarrow> json \<Rightarrow> cell option" where
  "decodeCell J JNull = Some CNull"
| "decodeCell J (JNum n) = Some (CInt n)"
| "decodeCell J (JStr s) = Some (CText s)"
| "decodeCell J (JObj ob) = (case obj_get ''$b64'' ob of Some (JStr s) \<Rightarrow> Some (CBlob (fromBase64 J s)) | _ \<Rightarrow> None)"
| "decodeCell J _ = None"

fun decodeCells :: "codec \<Rightarrow> json list \<Rightarrow> cell list option" where
  "decodeCells J [] = Some []"
| "decodeCells J (v # vs) = (case decodeCell J v of None \<Rightarrow> None | Some c \<Rightarrow> map_option ((#) c) (decodeCells J vs))"

definition decodeRow :: "codec \<Rightarrow> jobj \<Rightarrow> row option" where
  "decodeRow J ob = map_option (zip (map fst ob)) (decodeCells J (map snd ob))"

definition decodeEntry :: "codec \<Rightarrow> json \<Rightarrow> stage_entry option" where
  "decodeEntry J v = (case v of JObj ob \<Rightarrow>
       (case (obj_get ''op'' ob, obj_get ''tbl'' ob) of
          (Some (JStr oper), Some (JStr t)) \<Rightarrow>
            if oper = ''delete''
            then (case obj_get ''pk'' ob of Some (JArr k) \<Rightarrow> Some (Del t k) | _ \<Rightarrow> None)
            else if oper = ''upsert''
            then (case obj_get ''row'' ob of Some (JObj r) \<Rightarrow> map_option (Ups t) (decodeRow J r) | _ \<Rightarrow> None)
            else None
        | _ \<Rightarrow> None)
     | _ \<Rightarrow> None)"

definition newline :: char where
  "newline = CHR 0x0A"

text \<open>\<open>lines\<close>: the file is read in chunks of \<open>m\<close> bytes, cut at newlines only.\<close>

fun indexOfNewline :: "string \<Rightarrow> nat option" where
  "indexOfNewline [] = None"
| "indexOfNewline (b # bs) = (if b = newline then Some 0 else map_option Suc (indexOfNewline bs))"

lemma indexOfNewline_less: "indexOfNewline bs = Some i \<Longrightarrow> i < length bs"
  by (induction bs arbitrary: i) (auto split: if_splits)

function cutChunk :: "string \<Rightarrow> string \<Rightarrow> string list \<times> string" where
  "cutChunk pending chunk = (case indexOfNewline chunk of
     None \<Rightarrow> ([], pending @ chunk)
   | Some e \<Rightarrow> (let (ls, p) = cutChunk [] (drop (e + 1) chunk) in ((pending @ take (e + 1) chunk) # ls, p)))"
  by pat_completeness auto
termination by (relation "measure (\<lambda>(p, c). length c)") (auto dest: indexOfNewline_less)

declare cutChunk.simps [simp del]

function readLines :: "nat \<Rightarrow> string \<Rightarrow> string \<Rightarrow> string list" where
  "readLines m pending file =
     (if m = 0 \<or> file = [] then (if pending = [] then [] else [pending])
      else (let (ls, p) = cutChunk pending (take m file) in ls @ readLines m p (drop m file)))"
  by pat_completeness auto
termination by (relation "measure (\<lambda>(m, p, f). length f)") auto

declare readLines.simps [simp del]

definition CHUNK_BYTES :: nat where
  "CHUNK_BYTES = 1024 * 1024"

definition fileLines :: "string \<Rightarrow> string list" where
  "fileLines file = readLines CHUNK_BYTES [] file"

definition entryLine :: "codec \<Rightarrow> stage_entry \<Rightarrow> string" where
  "entryLine J e = stringify J (encodeEntry J e) @ [newline]"

definition targetJson :: "sync_cursor \<Rightarrow> json" where
  "targetJson t = JObj [(''seq'', JNum (cSeq t)), (''cursor'', JNum (cCursor t))]"

definition digestOf :: "codec \<Rightarrow> string list \<Rightarrow> json \<Rightarrow> json option \<Rightarrow> string" where
  "digestOf J ls target ep = sha J (concat ls @ stringify J target @ ''epoch:'' @ template J ep)"

definition trailerJson :: "codec \<Rightarrow> stage_entry list \<Rightarrow> sync_cursor \<Rightarrow> int \<Rightarrow> json" where
  "trailerJson J es target ep = JObj [(''trailer'', JBool True), (''target'', targetJson target),
     (''epoch'', JNum ep), (''rows'', JNum (int (length es))),
     (''sha256'', JStr (digestOf J (map (entryLine J) es) (targetJson target) (Some (JNum ep))))]"

definition writeStage :: "codec \<Rightarrow> stage_entry list \<Rightarrow> sync_cursor \<Rightarrow> int \<Rightarrow> string" where
  "writeStage J es target ep =
     concat (map (entryLine J) es) @ stringify J (trailerJson J es target ep) @ [newline]"

definition MAX_SAFE_INTEGER :: int where
  "MAX_SAFE_INTEGER = 2 ^ 53 - 1"

text \<open>None: a cursor without its two numbers, which SQLite would not bind.\<close>

definition cursorOfJson :: "json \<Rightarrow> sync_cursor option" where
  "cursorOfJson v = (case v of
     JObj ob \<Rightarrow> (case (obj_get ''seq'' ob, obj_get ''cursor'' ob) of
         (Some (JNum a), Some (JNum c)) \<Rightarrow> Some \<lparr>cSeq = a, cCursor = c\<rparr> | _ \<Rightarrow> None)
   | _ \<Rightarrow> None)"

text \<open>An absent target is an undefined the hash refuses.\<close>

definition checkTrailer :: "codec \<Rightarrow> string list \<Rightarrow> jobj \<Rightarrow> sync_error + (sync_cursor \<times> int \<times> nat)" where
  "checkTrailer J ls ob = (case obj_get ''target'' ob of
     None \<Rightarrow> Inl (SyncThrown ''hash.update'')
   | Some target \<Rightarrow>
       if Some (JStr (digestOf J ls target (obj_get ''epoch'' ob))) \<noteq> obj_get ''sha256'' ob
       then Inl (SyncStageInvalid ''checksum'')
       else if obj_get ''rows'' ob \<noteq> Some (JNum (int (length ls))) then Inl (SyncStageInvalid ''row count'')
       else (case obj_get ''epoch'' ob of
           Some (JNum n) \<Rightarrow>
             if \<bar>n\<bar> > MAX_SAFE_INTEGER \<or> n < 0 then Inl (SyncStageInvalid ''epoch'')
             else (case cursorOfJson target of
                 None \<Rightarrow> Inl (SyncThrown ''target'') | Some cur \<Rightarrow> Inr (cur, n, length ls))
         | _ \<Rightarrow> Inl (SyncStageInvalid ''epoch'')))"

definition validateStage :: "codec \<Rightarrow> string \<Rightarrow> sync_error + (sync_cursor \<times> int \<times> nat)" where
  "validateStage J file = (case rev (fileLines file) of
     [] \<Rightarrow> Inl (SyncStageInvalid ''truncated'')
   | lst # before \<Rightarrow>
       if lst = [] \<or> last lst \<noteq> newline then Inl (SyncStageInvalid ''truncated'')
       else (case parseJson J lst of
           Some (JObj ob) \<Rightarrow> if obj_get ''trailer'' ob = Some (JBool True) then checkTrailer J (rev before) ob
                             else Inl (SyncStageInvalid ''no trailer'')
         | _ \<Rightarrow> Inl (SyncStageInvalid ''no trailer'')))"

definition stageEntry :: "codec \<Rightarrow> string \<Rightarrow> stage_entry list \<Rightarrow> sync_error + stage_entry list" where
  "stageEntry J line es = (case Option.bind (parseJson J line) (decodeEntry J) of
     None \<Rightarrow> Inl (SyncThrown ''stage entry'') | Some e \<Rightarrow> Inr (es @ [e]))"

definition stageEntries :: "codec \<Rightarrow> string \<Rightarrow> nat \<Rightarrow> sync_error + stage_entry list" where
  "stageEntries J file rows = efold (stageEntry J) (take rows (fileLines file)) []"

definition readStage :: "codec \<Rightarrow> string \<Rightarrow> sync_error + (stage_entry list \<times> sync_cursor \<times> int)" where
  "readStage J file = ebind (validateStage J file) (\<lambda>(target, ep, n).
     ebind (stageEntries J file n) (\<lambda>es. Inr (es, target, ep)))"

section \<open>Building\<close>

definition maxInt :: "int \<Rightarrow> int list \<Rightarrow> int" where
  "maxInt d xs = foldr max xs d"

definition minInts :: "int list \<Rightarrow> int option" where
  "minInts xs = (case xs of [] \<Rightarrow> None | x # ys \<Rightarrow> Some (foldr min ys x))"

text \<open>Where the answer starts, for a follower that last applied from \<open>fromEpoch\<close>.\<close>

definition rewound :: "sync_db \<Rightarrow> sync_cursor \<Rightarrow> int \<Rightarrow> sync_cursor \<times> int" where
  "rewound db asked fromEpoch =
     (if fromEpoch \<ge> syncEpoch db then (asked, syncEpoch db)
      else let unseen = filter (\<lambda>r. intCol ''epoch'' r > fromEpoch) (tables db ''sync_epochs'') in
        case (minInts (map (intCol ''grant_seq'') unseen), minInts (map (intCol ''grant_cursor'') unseen)) of
          (Some sq, Some cu) \<Rightarrow> (\<lparr>cSeq = min (cSeq asked) sq, cCursor = min (cCursor asked) cu\<rparr>, syncEpoch db)
        | _ \<Rightarrow> (asked, syncEpoch db))"

definition trackedKeys :: "sync_db \<Rightarrow> sync_cursor \<Rightarrow> string \<Rightarrow> key list" where
  "trackedKeys db from t =
     map (\<lambda>e. snd (snd e)) (filter (\<lambda>e. fst e > cCursor from \<and> fst (snd e) = t) (sync_rows db))"

text \<open>
  The \<open>pk\<close> column holds \<open>json_array\<close> of the key columns, and \<open>JSON.parse\<close> reads it. None: json_array
  refuses a BLOB, so the tracker never holds such a key.
\<close>

fun json_cell :: "cell \<Rightarrow> json option" where
  "json_cell CNull = Some JNull"
| "json_cell (CInt n) = Some (JNum n)"
| "json_cell (CText s) = Some (JStr s)"
| "json_cell (CBlob b) = None"

fun json_array :: "key \<Rightarrow> json list option" where
  "json_array [] = Some []"
| "json_array (c # cs) = (case (json_cell c, json_array cs) of (Some v, Some vs) \<Rightarrow> Some (v # vs) | _ \<Rightarrow> None)"

definition deletesOf :: "schema \<Rightarrow> sync_db \<Rightarrow> sync_cursor \<Rightarrow> string \<Rightarrow> stage_entry list" where
  "deletesOf S db from t = concat (map (\<lambda>k. case json_array k of None \<Rightarrow> [] | Some vs \<Rightarrow> [Del t vs])
     (filter (\<lambda>k. rowAt S t k db = None) (trackedKeys db from t)))"

definition rowsFor :: "schema \<Rightarrow> sync_db \<Rightarrow> string \<Rightarrow> key list \<Rightarrow> row list" where
  "rowsFor S db t ks = concat (map (\<lambda>k. case rowAt S t k db of None \<Rightarrow> [] | Some r \<Rightarrow> [r]) ks)"

definition seqOf :: "row \<Rightarrow> int" where
  "seqOf r = intCol ''seq'' r"

definition upsertsOf :: "schema \<Rightarrow> sync_db \<Rightarrow> sync_cursor \<Rightarrow> int \<Rightarrow> string \<Rightarrow> stage_entry list" where
  "upsertsOf S db from fromEpoch t = map (Ups t)
     (if t = ''documents''
      then sort_key seqOf (filter (\<lambda>r. seqOf r > cSeq from) (tables db t)) @
           filter (\<lambda>r. seqOf r \<le> cSeq from) (rowsFor S db t (trackedKeys db from t))
      else rowsFor S db t (trackedKeys db from t) @
           (if t = ''sync_epochs''
            then filter (\<lambda>r. [col ''epoch'' r] \<notin> set (trackedKeys db from t))
                   (sort_key (intCol ''epoch'') (filter (\<lambda>r. intCol ''epoch'' r > fromEpoch) (tables db t)))
            else []))"

definition deltaEntries :: "schema \<Rightarrow> sync_db \<Rightarrow> sync_cursor \<Rightarrow> int \<Rightarrow> stage_entry list" where
  "deltaEntries S db from fromEpoch =
     concat (map (deletesOf S db from) (rev (copiedTables S))) @
     concat (map (upsertsOf S db from fromEpoch) (copiedTables S))"

definition deltaTarget :: "sync_db \<Rightarrow> sync_cursor \<Rightarrow> sync_cursor" where
  "deltaTarget db from = \<lparr>cSeq = max (maxInt 0 (map seqOf (tables db ''documents''))) (cSeq from),
     cCursor = max (maxInt 0 (map fst (sync_rows db))) (cCursor from)\<rparr>"

record delta_ok =
  dTarget :: sync_cursor
  dFrom :: sync_cursor
  dEpoch :: int
  dRows :: nat
  dBytes :: nat
  dSha :: string
  dFile :: string

datatype delta_result = DeltaOk delta_ok | TooLarge

definition buildDelta :: "codec \<Rightarrow> schema \<Rightarrow> sync_db \<Rightarrow> sync_cursor \<Rightarrow> int \<Rightarrow> nat \<Rightarrow> delta_result" where
  "buildDelta J S db asked fromEpoch capBytes =
     (let (from, ep) = rewound db asked fromEpoch;
          es = deltaEntries S db from fromEpoch;
          target = deltaTarget db from;
          ls = map (entryLine J) es;
          bytes = length (concat ls)
      in if bytes > capBytes then TooLarge
         else DeltaOk \<lparr>dTarget = target, dFrom = from, dEpoch = ep, dRows = length es, dBytes = bytes,
           dSha = digestOf J ls (targetJson target) (Some (JNum ep)), dFile = writeStage J es target ep\<rparr>)"

section \<open>Applying\<close>

record apply_log =
  touchedTables :: "string list"
  touchedPrefKeys :: "string list"

text \<open>INSERT OR IGNORE.\<close>

definition noteKey :: "string \<Rightarrow> key \<Rightarrow> sync_db \<Rightarrow> sync_db" where
  "noteKey t k db = (if (t, k) \<in> set (sync_imported db) then db
     else db\<lparr>sync_imported := sync_imported db @ [(t, k)]\<rparr>)"

definition addChange :: "time \<Rightarrow> int \<Rightarrow> cell \<Rightarrow> sync_db \<Rightarrow> sync_db" where
  "addChange now n i db = (if n \<in> fst ` set (feed db) then db else db\<lparr>feed := feed db @ [(n, i, now)]\<rparr>)"

definition searchText :: "row \<Rightarrow> cell \<times> cell \<times> cell" where
  "searchText r = (col ''title'' r, col ''markdown'' r, col ''languages'' r)"

definition unindex :: "schema \<Rightarrow> cell \<Rightarrow> sync_db \<Rightarrow> sync_db" where
  "unindex S i db = (if rowAt S ''documents'' [i] db = None then db else db\<lparr>search := (search db)(i := None)\<rparr>)"

text \<open>\<open>excluded\<close> values for the columns the entry names; the others keep theirs, or their DEFAULT.\<close>

definition overlay :: "row \<Rightarrow> row \<Rightarrow> row" where
  "overlay new old = map (\<lambda>(c, v). (c, case map_of new c of None \<Rightarrow> v | Some w \<Rightarrow> w)) old"

definition upsertRow :: "schema \<Rightarrow> string \<Rightarrow> row \<Rightarrow> sync_db \<Rightarrow> sync_error + sync_db" where
  "upsertRow S t r db =
     (case find (\<lambda>c. c \<notin> fst ` set (tableColumns S t)) (map fst r) of
        Some c \<Rightarrow> Inl (SyncStageInvalid (''column '' @ t @ ''.'' @ c))
      | None \<Rightarrow>
          let k = keyOf S t r;
              merged = (case rowAt S t k db of
                 None \<Rightarrow> overlay r (tableColumns S t)
               | Some old \<Rightarrow> if set (map fst r) \<subseteq> set (primaryKeyColumns S t) then old else overlay r old)
          in if \<exists>x \<in> set (tables db t). keyOf S t x \<noteq> k \<and> clash S t x merged then Inl (Constraint t)
             else Inr (setTable t
               (if rowAt S t k db = None then tables db t @ [merged]
                else upd_where (\<lambda>x. keyOf S t x = k) (\<lambda>_. merged) (tables db t)) db))"

definition applyDelete :: "schema \<Rightarrow> string \<Rightarrow> key \<Rightarrow> sync_db \<Rightarrow> sync_db" where
  "applyDelete S t k db =
     (let db1 = noteKey t k db; i = hd k in
      if t = ''documents'' then deleteRow S t [i] (unindex S i db1)
      else if t = ''accounts''
      then deleteRow S t [i] (fold (unindex S) (map (col ''id'')
             (filter (\<lambda>d. col ''account_id'' d = i) (tables db1 ''documents''))) db1)
      else deleteRow S t k db1)"

definition applyDocument :: "schema \<Rightarrow> time \<Rightarrow> row \<Rightarrow> sync_db \<Rightarrow> sync_error + sync_db" where
  "applyDocument S now r db =
     (let i = col ''id'' r;
          before = rowAt S ''documents'' [i] db;
          db1 = (if seqOf r \<le> 0 \<or> (case before of None \<Rightarrow> False | Some b \<Rightarrow> seqOf r \<le> seqOf b)
                 then noteKey ''documents'' [i] db else db)
      in ebind (upsertRow S ''documents'' r db1) (\<lambda>db2.
        let db3 = (if (case before of None \<Rightarrow> True | Some b \<Rightarrow> searchText b \<noteq> searchText r)
                   then db2\<lparr>search := (search db2)(i \<mapsto> searchText r)\<rparr> else db2)
        in Inr (if seqOf r > 0 then addChange now (seqOf r) i db3 else db3)))"

text \<open>A JSON value as a parameter of a statement. None: SQLite throws.\<close>

fun bindValue :: "json \<Rightarrow> cell option" where
  "bindValue JNull = Some CNull"
| "bindValue (JNum n) = Some (CInt n)"
| "bindValue (JStr s) = Some (CText s)"
| "bindValue _ = None"

fun bindKey :: "json list \<Rightarrow> key option" where
  "bindKey [] = Some []"
| "bindKey (v # vs) = (case (bindValue v, bindKey vs) of (Some c, Some cs) \<Rightarrow> Some (c # cs) | _ \<Rightarrow> None)"

text \<open>The \<open>key\<close> column of user_prefs is TEXT.\<close>

definition prefKeyOf :: "stage_entry \<Rightarrow> string list" where
  "prefKeyOf e = (if entryTable e \<noteq> ''user_prefs'' then []
     else case e of
         Del _ k \<Rightarrow> (case k of JStr s # _ \<Rightarrow> [s] | _ \<Rightarrow> [])
       | Ups _ r \<Rightarrow> (case col ''key'' r of CText s \<Rightarrow> [s] | _ \<Rightarrow> []))"

definition applyEntry :: "schema \<Rightarrow> time \<Rightarrow> stage_entry \<Rightarrow> apply_log \<times> sync_db \<Rightarrow>
    sync_error + (apply_log \<times> sync_db)" where
  "applyEntry S now e ls =
     (if entryTable e \<notin> set (copiedTables S) then Inl (SyncStageInvalid (''table '' @ entryTable e))
      else let lg = \<lparr>touchedTables = List.insert (entryTable e) (touchedTables (fst ls)),
                     touchedPrefKeys = fold List.insert (prefKeyOf e) (touchedPrefKeys (fst ls))\<rparr> in
        case e of
          Del t vs \<Rightarrow> (case bindKey vs of None \<Rightarrow> Inl (SyncThrown ''bind'') | Some k \<Rightarrow> Inr (lg, applyDelete S t k (snd ls)))
        | Ups t r \<Rightarrow>
            if t = ''documents'' then ebind (applyDocument S now r (snd ls)) (\<lambda>d. Inr (lg, d))
            else ebind (upsertRow S t r (noteKey t (keyOf S t r) (snd ls))) (\<lambda>d. Inr (lg, d)))"

text \<open>What COMMIT checks: foreign keys are deferred.\<close>

definition danglingIn :: "schema \<Rightarrow> sync_db \<Rightarrow> bool" where
  "danglingIn S db \<longleftrightarrow> (\<exists>(c, x, p) \<in> set (references S). \<exists>r \<in> set (tables db c).
     col x r \<noteq> CNull \<and> rowAt S p [col x r] db = None)"

definition applyDeltaTx :: "schema \<Rightarrow> time \<Rightarrow> stage_entry list \<Rightarrow> sync_cursor \<Rightarrow> int \<Rightarrow> sync_db \<Rightarrow>
    sync_error + (apply_log \<times> sync_db)" where
  "applyDeltaTx S now es target ep db =
     (if syncRole db \<noteq> Follower then Inl NotFollower
      else ebind (efold (applyEntry S now) es (\<lparr>touchedTables = [], touchedPrefKeys = []\<rparr>, db)) (\<lambda>(lg, d).
        if danglingIn S d then Inl (Constraint ''foreign key'')
        else Inr (lg, d\<lparr>after := target, syncEpoch := ep\<rparr>)))"

record apply_result =
  arApplied :: nat
  arTarget :: sync_cursor
  arTables :: "string list"
  arPrefKeys :: "string list"

definition applyDelta :: "codec \<Rightarrow> schema \<Rightarrow> time \<Rightarrow> string \<Rightarrow> sync_db \<Rightarrow> sync_error + (apply_result \<times> sync_db)" where
  "applyDelta J S now file db = ebind (readStage J file) (\<lambda>(es, target, ep).
     ebind (applyDeltaTx S now es target ep db) (\<lambda>(lg, d).
       Inr (\<lparr>arApplied = length es, arTarget = target, arTables = sort (touchedTables lg),
              arPrefKeys = sort (touchedPrefKeys lg)\<rparr>, d)))"

end
