(* ===== verification/DeltaInv.thy ===== *)
theory DeltaInv
  imports Delta
begin

text \<open>
  What a follower's tables look like while a delta is applied: first the deletes, which take only rows
  the master no longer has, then the upserts, which put the master's rows in place.
\<close>

section \<open>Tables by their key\<close>

definition one_key :: "schema \<Rightarrow> sync_db \<Rightarrow> bool" where
  "one_key S db \<longleftrightarrow> (\<forall>t. distinct (map (keyOf S t) (tables db t)))"

definition shaped :: "schema \<Rightarrow> sync_db \<Rightarrow> bool" where
  "shaped S db \<longleftrightarrow> (\<forall>t \<in> set (copiedTables S). \<forall>r \<in> set (tables db t). map fst r = map fst (tableColumns S t))"

definition apart :: "schema \<Rightarrow> sync_db \<Rightarrow> bool" where
  "apart S db \<longleftrightarrow> (\<forall>t. \<forall>a \<in> set (tables db t). \<forall>b \<in> set (tables db t).
     keyOf S t a \<noteq> keyOf S t b \<longrightarrow> \<not> clash S t a b)"

definition owned_docs :: "sync_db \<Rightarrow> bool" where
  "owned_docs db \<longleftrightarrow> (\<forall>d \<in> set (tables db ''documents''). col ''account_id'' d \<noteq> CNull)"

definition db_ok :: "schema \<Rightarrow> sync_db \<Rightarrow> bool" where
  "db_ok S db \<longleftrightarrow> one_key S db \<and> shaped S db \<and> apart S db \<and> owned_docs db \<and> \<not> danglingIn S db"

definition indexed :: "schema \<Rightarrow> sync_db \<Rightarrow> bool" where
  "indexed S db \<longleftrightarrow> (\<forall>i. search db i = map_option searchText (rowAt S ''documents'' [i] db))"

definition schema_ok :: "schema \<Rightarrow> bool" where
  "schema_ok S \<longleftrightarrow> ''documents'' \<in> set (copiedTables S) \<and>
     primaryKeyColumns S ''documents'' = [''id''] \<and> primaryKeyColumns S ''accounts'' = [''id''] \<and>
     (\<forall>t \<in> set (copiedTables S). distinct (map fst (tableColumns S t)) \<and>
        set (primaryKeyColumns S t) \<subseteq> fst ` set (tableColumns S t)) \<and>
     (\<forall>(c, x, p) \<in> set (references S). p \<in> set (copiedTables S) \<and> p \<notin> fst ` set (references S)) \<and>
     (\<forall>(c, x, p) \<in> set (references S). c = ''documents'' \<longrightarrow> x = ''account_id'' \<and> p = ''accounts'') \<and>
     (''documents'', ''account_id'', ''accounts'') \<in> set (references S)"

lemma rowAt_None: "rowAt S t k db = None \<longleftrightarrow> (\<forall>r \<in> set (tables db t). keyOf S t r \<noteq> k)"
  by (simp add: rowAt_def find_None_iff_all)

lemma rowAt_key: "rowAt S t k db = Some r \<Longrightarrow> r \<in> set (tables db t) \<and> keyOf S t r = k"
  unfolding rowAt_def by (rule find_Some_set)

lemma rowAt_iff: "one_key S db \<Longrightarrow> rowAt S t k db = Some r \<longleftrightarrow> r \<in> set (tables db t) \<and> keyOf S t r = k"
  using find_key [of "keyOf S t" "tables db t" r] rowAt_key [of S t k db r]
  by (auto simp: one_key_def rowAt_def)

lemma rowAt_in: "one_key S db \<Longrightarrow> r \<in> set (tables db t) \<Longrightarrow> rowAt S t (keyOf S t r) db = Some r"
  by (simp add: rowAt_iff)

lemma row_eq:
  assumes "map fst a = map fst b" "distinct (map fst a)" "\<forall>c \<in> fst ` set a. col c a = col c b"
  shows "a = b"
proof (rule nth_equalityI)
  show len: "length a = length b" using assms(1) by (rule map_eq_imp_length_eq)
  fix i assume i: "i < length a"
  have fst: "fst (a ! i) = fst (b ! i)" using assms(1) i len by (metis nth_map)
  have "map_of a (fst (a ! i)) = Some (snd (a ! i))" using assms(2) i by simp
  moreover have "map_of b (fst (b ! i)) = Some (snd (b ! i))" using assms(1,2) i len by simp
  moreover have "col (fst (a ! i)) a = col (fst (a ! i)) b" using assms(3) i by simp
  ultimately have "snd (a ! i) = snd (b ! i)" by (simp add: col_def fst)
  with fst show "a ! i = b ! i" by (simp add: prod_eq_iff)
qed

lemma overlay_full:
  assumes "map fst old = map fst r" "distinct (map fst r)"
  shows "overlay r old = r"
proof (rule nth_equalityI)
  show len: "length (overlay r old) = length r" using map_eq_imp_length_eq [OF assms(1)] by (simp add: overlay_def)
  fix i assume i: "i < length (overlay r old)"
  then have i': "i < length r" "i < length old" using len by (simp_all add: overlay_def)
  have fst: "fst (old ! i) = fst (r ! i)" using assms(1) i' by (metis nth_map)
  have "map_of r (fst (r ! i)) = Some (snd (r ! i))" using assms(2) i' by simp
  then show "overlay r old ! i = r ! i" using i' fst by (simp add: overlay_def split_beta)
qed

section \<open>Deleting\<close>

lemma deleteRow_sub: "set (tables (deleteRow S t k g) c) \<subseteq> set (tables g c)"
  by (auto simp: deleteRow_def)

lemma deleteRow_gone:
  "r \<in> set (tables g c) \<Longrightarrow> r \<notin> set (tables (deleteRow S t k g) c) \<Longrightarrow>
    rowAt S t k g \<noteq> None \<and> ((c = t \<and> keyOf S t r = k) \<or> refersTo S c r t k)"
  by (auto simp: deleteRow_def split: if_splits)

lemma deleteRow_stays:
  "r \<in> set (tables g c) \<Longrightarrow> \<not> (c = t \<and> keyOf S t r = k) \<Longrightarrow> \<not> refersTo S c r t k \<Longrightarrow>
    r \<in> set (tables (deleteRow S t k g) c)"
  by (auto simp: deleteRow_def)

lemma deleteRow_None: "rowAt S t k (deleteRow S t k g) = None"
  by (auto simp: deleteRow_def rowAt_None)

lemma deleteRow_frame [simp]: "search (deleteRow S t k g) = search g"
  by (simp add: deleteRow_def)

lemma one_key_sub:
  assumes "one_key S g" "\<And>t. \<exists>P. tables h t = filter P (tables g t)"
  shows "one_key S h"
  unfolding one_key_def
proof
  fix t
  obtain P where "tables h t = filter P (tables g t)" using assms(2) by blast
  with assms(1) show "distinct (map (keyOf S t) (tables h t))" by (simp add: one_key_def distinct_map_filter_key)
qed

lemma one_key_delete: "one_key S g \<Longrightarrow> one_key S (deleteRow S t k g)"
  by (erule one_key_sub) (auto simp: deleteRow_def intro: exI [of _ "\<lambda>_. True"])

lemma not_danglingD:
  "\<not> danglingIn S g \<Longrightarrow> (c, x, p) \<in> set (references S) \<Longrightarrow> r \<in> set (tables g c) \<Longrightarrow> col x r \<noteq> CNull \<Longrightarrow>
    rowAt S p [col x r] g \<noteq> None"
  unfolding danglingIn_def by force

lemma danglingE:
  assumes "danglingIn S g"
  obtains c x p r where "(c, x, p) \<in> set (references S)" "r \<in> set (tables g c)" "col x r \<noteq> CNull"
    "rowAt S p [col x r] g = None"
  using assms unfolding danglingIn_def by force

lemma refersToI: "(c, x, p) \<in> set (references S) \<Longrightarrow> col x r \<noteq> CNull \<Longrightarrow> refersTo S c r p [col x r]"
  unfolding refersTo_def by force

lemma dangling_delete:
  assumes S: "schema_ok S" and g: "\<not> danglingIn S g"
  shows "\<not> danglingIn S (deleteRow S t k g)"
proof
  assume "danglingIn S (deleteRow S t k g)"
  then obtain c x p r where ref: "(c, x, p) \<in> set (references S)" and r: "r \<in> set (tables (deleteRow S t k g) c)"
    "col x r \<noteq> CNull" and none: "rowAt S p [col x r] (deleteRow S t k g) = None"
    by (rule danglingE)
  have "r \<in> set (tables g c)" using r deleteRow_sub by blast
  with g ref r(2) have "rowAt S p [col x r] g \<noteq> None" by (blast dest: not_danglingD)
  then obtain q where q: "q \<in> set (tables g p)" "keyOf S p q = [col x r]" by (auto simp: rowAt_None)
  then have "q \<notin> set (tables (deleteRow S t k g) p)" using none by (auto simp: rowAt_None)
  from deleteRow_gone [OF q(1) this] have gone: "rowAt S t k g \<noteq> None" "(p = t \<and> [col x r] = k) \<or> refersTo S p q t k"
    using q(2) by auto
  moreover have "\<not> refersTo S p q t k" using S ref by (auto simp: schema_ok_def refersTo_def rev_image_eqI)
  ultimately have "refersTo S c r t k" using refersToI [OF ref r(2)] by simp
  with r gone show False by (auto simp: deleteRow_def)
qed

section \<open>The search index under deletes\<close>

lemma unindex_search: "search (unindex S i g) = (if rowAt S ''documents'' [i] g = None then search g else (search g)(i := None))"
  by (simp add: unindex_def)

lemma unindex_tables [simp]: "tables (unindex S i g) = tables g" "rowAt S t k (unindex S i g) = rowAt S t k g"
  by (simp_all add: unindex_def rowAt_def)

lemma unindexes_tables [simp]: "tables (fold (unindex S) is g) = tables g"
  by (induction "is" arbitrary: g) simp_all

lemma unindexes_search:
  "\<forall>i \<in> set is. rowAt S ''documents'' [i] g \<noteq> None \<Longrightarrow>
    search (fold (unindex S) is g) j = (if j \<in> set is then None else search g j)"
  by (induction "is" arbitrary: g) (auto simp: unindex_search)

lemma noteKey_frame [simp]:
  "tables (noteKey t k g) = tables g" "search (noteKey t k g) = search g" "rowAt S u j (noteKey t k g) = rowAt S u j g"
  by (simp_all add: noteKey_def rowAt_def)

lemma indexed_search: "indexed S g \<Longrightarrow> search g i = map_option searchText (rowAt S ''documents'' [i] g)"
  by (simp add: indexed_def)

lemma doc_key: "schema_ok S \<Longrightarrow> keyOf S ''documents'' r = [col ''id'' r]"
  by (simp add: schema_ok_def keyOf_def)

lemma doc_refers: "schema_ok S \<Longrightarrow> refersTo S ''documents'' r t k \<longleftrightarrow>
    t = ''accounts'' \<and> col ''account_id'' r \<noteq> CNull \<and> [col ''account_id'' r] = k"
  by (auto simp: schema_ok_def refersTo_def)

lemma rowAt_filtered:
  assumes "one_key S g" "tables h t = filter P (tables g t)"
  shows "rowAt S t k h = (case rowAt S t k g of None \<Rightarrow> None | Some r \<Rightarrow> if P r then Some r else None)"
proof -
  have "distinct (map (keyOf S t) (tables h t))" using assms by (simp add: one_key_def distinct_map_filter_key)
  have inj: "r = r'" if "r \<in> set (tables g t)" "r' \<in> set (tables g t)" "keyOf S t r = keyOf S t r'" for r r'
    using assms(1) that unfolding one_key_def by (meson distinct_map_inj)
  show ?thesis
  proof (cases "rowAt S t k g")
    case None
    then have "rowAt S t k h = None" by (auto simp: rowAt_None assms(2))
    with None show ?thesis by simp
  next
    case (Some r)
    have "find (\<lambda>r. keyOf S t r = k) (filter P (tables g t)) = (if P r then Some r else None)"
    proof (cases "P r")
      case True
      then show ?thesis using rowAt_key [OF Some] inj by (auto intro!: find_unique)
    next
      case False
      then show ?thesis using rowAt_key [OF Some] inj by (auto simp: find_None_iff_all)
    qed
    then show ?thesis using Some by (simp add: rowAt_def assms(2))
  qed
qed

section \<open>The deletes of a delta\<close>

text \<open>
  \<open>f\<close> is the follower before the delta, \<open>m\<close> the master: rows are only lost, none that the master has.
\<close>

definition trimmed :: "schema \<Rightarrow> sync_db \<Rightarrow> sync_db \<Rightarrow> sync_db \<Rightarrow> bool" where
  "trimmed S m f g \<longleftrightarrow> one_key S g \<and> owned_docs g \<and> \<not> danglingIn S g \<and> indexed S g \<and>
     (\<forall>t. set (tables g t) \<subseteq> set (tables f t)) \<and>
     (\<forall>t \<in> set (copiedTables S). \<forall>r \<in> set (tables f t). rowAt S t (keyOf S t r) m = Some r \<longrightarrow> r \<in> set (tables g t))"

lemma trimmed_start: "db_ok S f \<Longrightarrow> indexed S f \<Longrightarrow> trimmed S m f f"
  by (simp add: trimmed_def db_ok_def)

lemma indexed_delete_doc:
  assumes S: "schema_ok S" and g: "one_key S g" "indexed S g"
  shows "indexed S (deleteRow S ''documents'' [i] (unindex S i (noteKey t k g)))"
proof -
  let ?h = "deleteRow S ''documents'' [i] (unindex S i (noteKey t k g))"
  have "tables ?h ''documents'' = filter (\<lambda>r. \<not> [col ''id'' r] = [i]) (tables g ''documents'')"
  proof (cases "rowAt S ''documents'' [i] g = None")
    case True
    then have "\<forall>r \<in> set (tables g ''documents''). \<not> [col ''id'' r] = [i]" by (simp add: rowAt_None doc_key [OF S])
    then have "filter (\<lambda>r. \<not> [col ''id'' r] = [i]) (tables g ''documents'') = tables g ''documents''"
      by (rule filter_True)
    then show ?thesis using True by (simp only: deleteRow_def) simp
  next
    case False
    then obtain d where "rowAt S ''documents'' [i] g = Some d" by blast
    then show ?thesis by (simp add: deleteRow_def doc_refers [OF S] doc_key [OF S])
  qed
  note row = rowAt_filtered [OF g(1) this]
  have "search ?h j = map_option searchText (rowAt S ''documents'' [j] ?h)" for j
  proof (cases "j = i")
    case True
    then show ?thesis using indexed_search [OF g(2), of i]
      by (simp add: unindex_search deleteRow_None)
  next
    case False
    then have "rowAt S ''documents'' [j] ?h = rowAt S ''documents'' [j] g"
      using rowAt_key [of S "''documents''" "[j]" g] unfolding row by (auto simp: doc_key [OF S] split: option.split)
    then show ?thesis using False indexed_search [OF g(2), of j] by (simp add: unindex_search)
  qed
  then show ?thesis by (simp add: indexed_def)
qed

lemma indexed_delete_account:
  assumes S: "schema_ok S" and g: "one_key S g" "indexed S g" "\<not> danglingIn S g" "owned_docs g"
  shows "indexed S (deleteRow S ''accounts'' [i] (fold (unindex S) (map (col ''id'')
    (filter (\<lambda>d. col ''account_id'' d = i) (tables g ''documents''))) (noteKey t k g)))" (is "indexed S ?h")
proof -
  let ?ids = "map (col ''id'') (filter (\<lambda>d. col ''account_id'' d = i) (tables g ''documents''))"
  have ids: "\<forall>j \<in> set ?ids. rowAt S ''documents'' [j] (noteKey t k g) \<noteq> None"
    by (auto simp: rowAt_None doc_key [OF S])
  have row0: "rowAt S u j (fold (unindex S) ?ids (noteKey t k g)) = rowAt S u j g" for u j
    by (simp add: rowAt_def)
  have "tables ?h ''documents'' = filter (\<lambda>d. col ''account_id'' d \<noteq> i) (tables g ''documents'')"
  proof (cases "rowAt S ''accounts'' [i] g = None")
    case True
    have "(''documents'', ''account_id'', ''accounts'') \<in> set (references S)" using S by (simp add: schema_ok_def)
    with g(3,4) True have "\<forall>d \<in> set (tables g ''documents''). col ''account_id'' d \<noteq> i"
      unfolding owned_docs_def by (blast dest: not_danglingD)
    then have "filter (\<lambda>d. col ''account_id'' d \<noteq> i) (tables g ''documents'') = tables g ''documents''"
      by (rule filter_True)
    then show ?thesis using True by (simp only: deleteRow_def row0) simp
  next
    case False
    then obtain a where "rowAt S ''accounts'' [i] g = Some a" by blast
    then have "tables ?h ''documents'' =
        filter (\<lambda>d. \<not> (col ''account_id'' d \<noteq> CNull \<and> col ''account_id'' d = i)) (tables g ''documents'')"
      by (simp add: deleteRow_def row0 doc_refers [OF S])
    also have "\<dots> = filter (\<lambda>d. col ''account_id'' d \<noteq> i) (tables g ''documents'')"
      using g(4) by (intro filter_cong) (auto simp: owned_docs_def)
    finally show ?thesis .
  qed
  note row = rowAt_filtered [OF g(1) this]
  have "search ?h j = map_option searchText (rowAt S ''documents'' [j] ?h)" for j
  proof (cases "rowAt S ''documents'' [j] g")
    case None
    then have "j \<notin> set ?ids" by (auto simp: rowAt_None doc_key [OF S])
    then show ?thesis using None indexed_search [OF g(2), of j] unfolding row deleteRow_frame unindexes_search [OF ids]
      by simp
  next
    case (Some d)
    have d: "d \<in> set (tables g ''documents'')" "keyOf S ''documents'' d = [j]" using rowAt_key [OF Some] by blast+
    then have "col ''id'' d = j" unfolding doc_key [OF S] by simp
    moreover note d(1)
    moreover have "d' = d" if "d' \<in> set (tables g ''documents'')" "col ''id'' d' = j" for d'
    proof -
      have "keyOf S ''documents'' d' = [j]" using that(2) unfolding doc_key [OF S] by simp
      with rowAt_in [OF g(1) that(1)] Some show ?thesis by simp
    qed
    ultimately have ids_j: "j \<in> set ?ids \<longleftrightarrow> col ''account_id'' d = i" unfolding set_map set_filter image_iff by blast
    show ?thesis using indexed_search [OF g(2), of j]
      unfolding row Some deleteRow_frame unindexes_search [OF ids] ids_j by simp
  qed
  then show ?thesis by (simp add: indexed_def)
qed

lemma indexed_delete_other:
  assumes S: "schema_ok S" and t: "t \<noteq> ''documents''" "t \<noteq> ''accounts''" and g: "indexed S g"
  shows "indexed S (deleteRow S t k (noteKey t' k' g))"
proof -
  have "tables (deleteRow S t k (noteKey t' k' g)) ''documents'' = tables g ''documents''"
    using t by (auto simp: deleteRow_def doc_refers [OF S] intro: filter_True)
  then show ?thesis using g by (simp add: indexed_def rowAt_def)
qed

text \<open>Up to the index and the note, deleting an entry's key is one DELETE.\<close>

lemma deleteRow_cong: "tables h = tables g \<Longrightarrow> tables (deleteRow S t k h) = tables (deleteRow S t k g)"
  by (simp add: deleteRow_def rowAt_def)

lemma applyDelete_tables:
  assumes "schema_ok S" "length k = length (primaryKeyColumns S t)"
  shows "tables (applyDelete S t k g) = tables (deleteRow S t k g)"
proof (cases "t = ''documents'' \<or> t = ''accounts''")
  case True
  then have "k = [hd k]" using assms by (cases k) (auto simp: schema_ok_def)
  then obtain i where k: "k = [i]" by blast
  have "applyDelete S t k g = deleteRow S t k (if t = ''documents'' then unindex S i (noteKey t k g)
      else fold (unindex S) (map (col ''id'') (filter (\<lambda>d. col ''account_id'' d = i)
        (tables (noteKey t k g) ''documents''))) (noteKey t k g))"
    using True by (auto simp only: applyDelete_def Let_def k list.sel if_True if_False split: if_splits)
  then show ?thesis by (simp only:) (rule deleteRow_cong, simp)
next
  case False
  then show ?thesis unfolding applyDelete_def Let_def by (simp del: noteKey_frame(2,3)) (rule deleteRow_cong, simp)
qed

lemma indexed_applyDelete:
  assumes "schema_ok S" "trimmed S m f g"
  shows "indexed S (applyDelete S t k g)"
  using assms indexed_delete_doc indexed_delete_account indexed_delete_other
  by (simp add: applyDelete_def Let_def trimmed_def)

lemma one_key_tables: "tables h = tables g \<Longrightarrow> one_key S h = one_key S g"
  by (simp add: one_key_def)

lemma dangling_tables: "tables h = tables g \<Longrightarrow> danglingIn S h = danglingIn S g"
  by (simp add: danglingIn_def rowAt_def)

lemma trimmed_delete:
  assumes S: "schema_ok S" and m: "\<not> danglingIn S m" and m1: "one_key S m" and g: "trimmed S m f g"
    and gone: "rowAt S t k m = None" and len: "length k = length (primaryKeyColumns S t)"
  shows "trimmed S m f (applyDelete S t k g) \<and> rowAt S t k (applyDelete S t k g) = None"
proof -
  let ?h = "applyDelete S t k g"
  note tabs = applyDelete_tables [OF S len, of g]
  have "r \<in> set (tables ?h u)" if u: "u \<in> set (copiedTables S)" "r \<in> set (tables f u)" "rowAt S u (keyOf S u r) m = Some r" for u r
  proof -
    have "r \<in> set (tables g u)" using g u by (simp add: trimmed_def)
    moreover have "\<not> (u = t \<and> keyOf S u r = k)" using u(3) gone by auto
    moreover have "\<not> refersTo S u r t k"
    proof
      assume "refersTo S u r t k"
      then obtain x where x: "(u, x, t) \<in> set (references S)" "col x r \<noteq> CNull" "[col x r] = k"
        by (auto simp: refersTo_def)
      have "r \<in> set (tables m u)" using u(3) by (auto dest: rowAt_key)
      with x m gone show False by (blast dest: not_danglingD)
    qed
    ultimately show ?thesis unfolding tabs by (simp add: deleteRow_stays)
  qed
  moreover have "set (tables ?h u) \<subseteq> set (tables f u)" for u
    using g deleteRow_sub [of S t k g u] unfolding tabs trimmed_def by blast
  moreover have "one_key S ?h" using g one_key_delete [of S g t k] one_key_tables [OF tabs] by (simp add: trimmed_def)
  moreover have "\<not> danglingIn S ?h" using g dangling_delete [OF S, of g t k] dangling_tables [OF tabs] by (simp add: trimmed_def)
  moreover have "owned_docs ?h" using g deleteRow_sub [of S t k g "''documents''"] unfolding owned_docs_def trimmed_def tabs by blast
  moreover have "rowAt S t k ?h = None" using deleteRow_None [of S t k g] tabs by (simp add: rowAt_def)
  ultimately show ?thesis using indexed_applyDelete [OF S g] by (simp add: trimmed_def)
qed

lemma applyDelete_sub: "schema_ok S \<Longrightarrow> length k = length (primaryKeyColumns S t) \<Longrightarrow>
    set (tables (applyDelete S t k g) u) \<subseteq> set (tables g u)"
  by (simp add: applyDelete_tables deleteRow_sub)

lemma applyDelete_role [simp]: "syncRole (applyDelete S t k g) = syncRole g"
proof -
  have "syncRole (unindex S i h) = syncRole h" for i h by (simp add: unindex_def)
  then have "syncRole (fold (unindex S) is h) = syncRole h" for "is" h by (rule fold_frame)
  then show ?thesis by (simp add: applyDelete_def Let_def deleteRow_def noteKey_def unindex_def)
qed

definition deletable :: "schema \<Rightarrow> sync_db \<Rightarrow> stage_entry \<Rightarrow> bool" where
  "deletable S m e \<longleftrightarrow> (\<exists>t vs k. e = Del t vs \<and> bindKey vs = Some k \<and> t \<in> set (copiedTables S) \<and> rowAt S t k m = None \<and>
     length k = length (primaryKeyColumns S t))"

lemma apply_deletes:
  assumes S: "schema_ok S" and m: "\<not> danglingIn S m" "one_key S m"
  shows "trimmed S m f g \<Longrightarrow> \<forall>e \<in> set es. deletable S m e \<Longrightarrow>
    \<exists>lg' h. efold (applyEntry S now) es (lg, g) = Inr (lg', h) \<and> trimmed S m f h \<and>
      (\<forall>t vs k. Del t vs \<in> set es \<longrightarrow> bindKey vs = Some k \<longrightarrow> rowAt S t k h = None) \<and>
      (\<forall>t. set (tables h t) \<subseteq> set (tables g t))"
proof (induction es arbitrary: g lg)
  case Nil
  then show ?case by simp
next
  case (Cons e es)
  then obtain t vs k where e: "e = Del t vs" "t \<in> set (copiedTables S)" "rowAt S t k m = None"
    "length k = length (primaryKeyColumns S t)" "bindKey vs = Some k" by (auto simp: deletable_def)
  let ?g = "applyDelete S t k g"
  have g: "trimmed S m f ?g" "rowAt S t k ?g = None" using trimmed_delete [OF S m Cons.prems(1) e(3,4)] by simp_all
  obtain lg' where step: "applyEntry S now e (lg, g) = Inr (lg', ?g)" using e by (simp add: applyEntry_def)
  obtain lg'' h where h: "efold (applyEntry S now) es (lg', ?g) = Inr (lg'', h)" "trimmed S m f h"
    "\<forall>t vs k. Del t vs \<in> set es \<longrightarrow> bindKey vs = Some k \<longrightarrow> rowAt S t k h = None"
    "\<forall>t. set (tables h t) \<subseteq> set (tables ?g t)"
    using Cons.IH [OF g(1)] Cons.prems(2) by (meson list.set_intros(2))
  have "rowAt S t k h = None" using g(2) h(4) unfolding rowAt_None by blast
  moreover have "\<forall>u. set (tables h u) \<subseteq> set (tables g u)" using h(4) applyDelete_sub [OF S e(4), of g] by blast
  ultimately show ?case using h(1,2,3) step e(1,5) by auto
qed

section \<open>Upserting\<close>

definition putRow :: "schema \<Rightarrow> string \<Rightarrow> row \<Rightarrow> sync_db \<Rightarrow> sync_db" where
  "putRow S t r db = setTable t
     (if rowAt S t (keyOf S t r) db = None then tables db t @ [r]
      else upd_where (\<lambda>x. keyOf S t x = keyOf S t r) (\<lambda>_. r) (tables db t)) db"

lemma putRow_other: "u \<noteq> t \<Longrightarrow> tables (putRow S t r db) u = tables db u"
  by (simp add: putRow_def setTable_def)

lemma putRow_set: "set (tables (putRow S t r db) t) = insert r {x \<in> set (tables db t). keyOf S t x \<noteq> keyOf S t r}"
proof (cases "rowAt S t (keyOf S t r) db")
  case None
  then show ?thesis by (auto simp: putRow_def setTable_def rowAt_None)
next
  case (Some x)
  from rowAt_key [OF Some] show ?thesis by (auto simp: putRow_def setTable_def Some set_upd_where image_iff)
qed

lemma putRow_search [simp]: "search (putRow S t r db) = search db"
  by (simp add: putRow_def setTable_def)

lemma putRow_keys: "map (keyOf S t) (tables (putRow S t r db) t) =
    (if rowAt S t (keyOf S t r) db = None then map (keyOf S t) (tables db t) @ [keyOf S t r]
     else map (keyOf S t) (tables db t))"
proof -
  have "map (keyOf S t) (upd_where (\<lambda>x. keyOf S t x = keyOf S t r) (\<lambda>_. r) xs) = map (keyOf S t) xs" for xs
    by (rule map_upd_where) simp
  then show ?thesis by (simp add: putRow_def setTable_def)
qed

lemma one_key_put: "one_key S db \<Longrightarrow> one_key S (putRow S t r db)"
  unfolding one_key_def
proof
  fix u
  assume d: "\<forall>t. distinct (map (keyOf S t) (tables db t))"
  show "distinct (map (keyOf S u) (tables (putRow S t r db) u))"
  proof (cases "u = t")
    case True
    have "keyOf S t r \<notin> keyOf S t ` set (tables db t)" if "rowAt S t (keyOf S t r) db = None"
      using that by (auto simp: rowAt_None)
    with d show ?thesis unfolding True putRow_keys by simp
  next
    case False
    with d show ?thesis by (simp add: putRow_other)
  qed
qed

lemma rowAt_put:
  assumes "one_key S db"
  shows "rowAt S u k (putRow S t r db) = (if u = t \<and> k = keyOf S t r then Some r else rowAt S u k db)"
proof (cases "u = t")
  case True
  have one: "one_key S (putRow S t r db)" using assms by (rule one_key_put)
  have opt: "a = b" if "\<And>x. a = Some x \<longleftrightarrow> b = Some x" for a b :: "row option"
    using that [of "the a"] that [of "the b"] by (cases a; cases b) auto
  have "rowAt S t k (putRow S t r db) = (if k = keyOf S t r then Some r else rowAt S t k db)"
    by (rule opt) (auto simp: rowAt_iff [OF one] rowAt_iff [OF assms] putRow_set)
  then show ?thesis by (simp add: True)
next
  case False
  then show ?thesis by (simp add: rowAt_def putRow_other)
qed

lemma upsertRow_full:
  assumes S: "schema_ok S" "t \<in> set (copiedTables S)"
    and r: "map fst r = map fst (tableColumns S t)"
    and old: "\<And>x. rowAt S t (keyOf S t r) db = Some x \<Longrightarrow> map fst x = map fst (tableColumns S t)"
    and free: "\<forall>x \<in> set (tables db t). keyOf S t x \<noteq> keyOf S t r \<longrightarrow> \<not> clash S t x r"
  shows "upsertRow S t r db = Inr (putRow S t r db)"
proof -
  have dist: "distinct (map fst r)" and pk: "set (primaryKeyColumns S t) \<subseteq> fst ` set r"
    using S r by (auto simp: schema_ok_def simp flip: set_map)
  have known: "find (\<lambda>c. c \<notin> fst ` set (tableColumns S t)) (map fst r) = None"
    by (simp add: find_None_iff_all r)
  have new: "overlay r (tableColumns S t) = r" by (rule overlay_full [OF r [symmetric] dist])
  have upd: "(if set (map fst r) \<subseteq> set (primaryKeyColumns S t) then x else overlay r x) = r"
    if x: "rowAt S t (keyOf S t r) db = Some x" for x
  proof -
    have same: "map fst x = map fst r" using old [OF x] r by simp
    show ?thesis
    proof (cases "set (map fst r) \<subseteq> set (primaryKeyColumns S t)")
      case True
      have "keyOf S t x = keyOf S t r" using rowAt_key [OF x] by simp
      then have "\<forall>c \<in> set (primaryKeyColumns S t). col c x = col c r" by (simp add: keyOf_def)
      with True same have "\<forall>c \<in> fst ` set x. col c x = col c r" by (metis set_map subsetD)
      then have "x = r" using row_eq [OF same] dist same by simp
      with True show ?thesis by simp
    next
      case False
      have "overlay r x = r" by (rule overlay_full [OF same dist])
      with False show ?thesis by simp
    qed
  qed
  show ?thesis
  proof (cases "rowAt S t (keyOf S t r) db")
    case None
    then show ?thesis using free by (auto simp: upsertRow_def known Let_def new putRow_def)
  next
    case (Some x)
    then show ?thesis using free upd [OF Some]
      by (simp only: upsertRow_def known Let_def option.case putRow_def option.simps if_False) auto
  qed
qed

section \<open>The upserts of a delta\<close>

text \<open>\<open>g\<close> is the follower after the deletes: every row is that of \<open>g\<close> or the master's.\<close>

definition merging :: "schema \<Rightarrow> sync_db \<Rightarrow> sync_db \<Rightarrow> sync_db \<Rightarrow> bool" where
  "merging S m g h \<longleftrightarrow> one_key S h \<and> indexed S h \<and>
     (\<forall>t \<in> set (copiedTables S). \<forall>r \<in> set (tables h t). r \<in> set (tables g t) \<or> r \<in> set (tables m t)) \<and>
     (\<forall>t \<in> set (copiedTables S). \<forall>r \<in> set (tables g t). r \<in> set (tables m t) \<longrightarrow> r \<in> set (tables h t)) \<and>
     (\<forall>t. t \<notin> set (copiedTables S) \<longrightarrow> tables h t = tables g t) \<and>
     (\<forall>t k. rowAt S t k g \<noteq> None \<longrightarrow> rowAt S t k h \<noteq> None)"

definition upsertable :: "schema \<Rightarrow> sync_db \<Rightarrow> stage_entry \<Rightarrow> bool" where
  "upsertable S m e \<longleftrightarrow> (\<exists>t r. e = Ups t r \<and> t \<in> set (copiedTables S) \<and> r \<in> set (tables m t))"

text \<open>What the natural keys must not do: a living row took one from a row that lives on.\<close>

definition free_for :: "schema \<Rightarrow> sync_db \<Rightarrow> sync_db \<Rightarrow> bool" where
  "free_for S m g \<longleftrightarrow> (\<forall>t \<in> set (copiedTables S). \<forall>x \<in> set (tables g t). \<forall>r \<in> set (tables m t).
     clash S t x r \<longrightarrow> keyOf S t x = keyOf S t r)"

lemma merging_start: "one_key S g \<Longrightarrow> indexed S g \<Longrightarrow> merging S m g g"
  by (simp add: merging_def)

lemma merging_put:
  assumes m: "one_key S m" and h: "merging S m g h" and t: "t \<in> set (copiedTables S)" and r: "r \<in> set (tables m t)"
    and idx: "indexed S h'" and eq: "tables h' = tables (putRow S t r h)"
  shows "merging S m g h' \<and> r \<in> set (tables h' t) \<and>
    (\<forall>u x. x \<in> set (tables m u) \<and> x \<in> set (tables h u) \<longrightarrow> x \<in> set (tables h' u))"
proof -
  have one: "one_key S h" using h by (simp add: merging_def)
  have rowAt': "rowAt S u k h' = rowAt S u k (putRow S t r h)" for u k by (simp add: rowAt_def eq)
  have keep: "x \<in> set (tables h' u)" if x: "x \<in> set (tables m u)" "x \<in> set (tables h u)" for u x
  proof (cases "u = t \<and> keyOf S t x = keyOf S t r")
    case True
    with rowAt_in [OF m, of x t] rowAt_in [OF m r] x have "x = r" by simp
    with True show ?thesis by (simp add: eq putRow_set)
  next
    case False
    with x show ?thesis by (cases "u = t") (auto simp: eq putRow_set putRow_other)
  qed
  have "x \<in> set (tables g u) \<or> x \<in> set (tables m u)" if "u \<in> set (copiedTables S)" "x \<in> set (tables h' u)" for u x
    using that h r by (cases "u = t") (auto simp: eq putRow_set putRow_other merging_def)
  moreover have "tables h' u = tables g u" if "u \<notin> set (copiedTables S)" for u
    using that h t by (cases "u = t") (auto simp: eq putRow_other merging_def)
  moreover have "rowAt S u k h' \<noteq> None" if "rowAt S u k g \<noteq> None" for u k
    using that h unfolding rowAt' rowAt_put [OF one] by (simp add: merging_def)
  moreover have "one_key S h'" using one_key_tables [OF eq] one_key_put [OF one] by simp
  ultimately show ?thesis using h idx keep by (auto simp: merging_def eq putRow_set)
qed

lemma indexed_put_other: "t \<noteq> ''documents'' \<Longrightarrow> indexed S h \<Longrightarrow> indexed S (putRow S t r h)"
  by (simp add: indexed_def rowAt_def putRow_other)

lemma indexed_put_document:
  assumes S: "schema_ok S" and h: "one_key S h" "indexed S h" and tabs: "tables h' = tables (putRow S ''documents'' r h)"
    and search: "search h' = (if (case rowAt S ''documents'' [col ''id'' r] h of None \<Rightarrow> True
        | Some b \<Rightarrow> searchText b \<noteq> searchText r) then (search h)(col ''id'' r \<mapsto> searchText r) else search h)"
  shows "indexed S h'"
  unfolding indexed_def
proof
  fix i
  have row: "rowAt S ''documents'' [i] h' = (if i = col ''id'' r then Some r else rowAt S ''documents'' [i] h)"
    using rowAt_put [OF h(1), of "''documents''" "[i]" "''documents''" r] by (simp add: rowAt_def tabs doc_key [OF S])
  show "search h' i = map_option searchText (rowAt S ''documents'' [i] h')"
    using indexed_search [OF h(2), of i] unfolding row search by (auto split: option.split)
qed

lemma merging_fit:
  assumes S: "schema_ok S" and m: "db_ok S m" and g: "shaped S g" "free_for S m g" and h: "merging S m g h"
    and t: "t \<in> set (copiedTables S)" "r \<in> set (tables m t)" and eq: "tables h0 = tables h"
  shows "upsertRow S t r h0 = Inr (putRow S t r h0)"
proof (rule upsertRow_full [OF S t(1)])
  show "map fst r = map fst (tableColumns S t)" using m t by (simp add: db_ok_def shaped_def)
  have sh: "map fst x = map fst (tableColumns S t)" if "x \<in> set (tables h t)" for x
  proof -
    have "x \<in> set (tables g t) \<or> x \<in> set (tables m t)" using that h t(1) unfolding merging_def by blast
    moreover have "shaped S m" using m by (simp add: db_ok_def)
    ultimately show ?thesis using g(1) t(1) unfolding shaped_def by blast
  qed
  show "map fst x = map fst (tableColumns S t)" if "rowAt S t (keyOf S t r) h0 = Some x" for x
    using rowAt_key [OF that] sh eq by simp
  show "\<forall>x \<in> set (tables h0 t). keyOf S t x \<noteq> keyOf S t r \<longrightarrow> \<not> clash S t x r"
    using h t m g unfolding merging_def db_ok_def apart_def free_for_def eq by blast
qed

lemma merging_upsert:
  assumes S: "schema_ok S" and m: "db_ok S m" and g: "shaped S g" "free_for S m g" and h: "merging S m g h"
    and e: "e = Ups t r" "t \<in> set (copiedTables S)" "r \<in> set (tables m t)"
  shows "\<exists>lg' h'. applyEntry S now e (lg, h) = Inr (lg', h') \<and> merging S m g h' \<and> r \<in> set (tables h' t) \<and>
    (\<forall>u x. x \<in> set (tables m u) \<and> x \<in> set (tables h u) \<longrightarrow> x \<in> set (tables h' u))"
proof -
  have m1: "one_key S m" using m by (simp add: db_ok_def)
  have hh: "one_key S h" "indexed S h" using h by (simp_all add: merging_def)
  note fit = merging_fit [OF S m g h e(2,3)]
  have noted: "tables (noteKey u k h) = tables h" for u k by simp
  have put_noted: "tables (putRow S t r (noteKey u k h)) = tables (putRow S t r h)" for u k
    by (simp add: putRow_def setTable_def)
  show ?thesis
  proof (cases "t = ''documents''")
    case False
    let ?h = "putRow S t r (noteKey t (keyOf S t r) h)"
    have idx0: "indexed S (noteKey t (keyOf S t r) h)" using hh(2) by (simp add: indexed_def)
    have "indexed S ?h" using indexed_put_other [OF False idx0] .
    from merging_put [OF m1 h e(2,3) this put_noted] fit [OF noted] False e show ?thesis
      by (auto simp: applyEntry_def)
  next
    case True
    let ?i = "col ''id'' r"
    let ?db1 = "if seqOf r \<le> 0 \<or> (case rowAt S ''documents'' [?i] h of None \<Rightarrow> False | Some b \<Rightarrow> seqOf r \<le> seqOf b)
      then noteKey ''documents'' [?i] h else h"
    let ?db2 = "putRow S t r ?db1"
    let ?db3 = "if (case rowAt S ''documents'' [?i] h of None \<Rightarrow> True | Some b \<Rightarrow> searchText b \<noteq> searchText r)
      then ?db2\<lparr>search := (search ?db2)(?i \<mapsto> searchText r)\<rparr> else ?db2"
    let ?h = "if seqOf r > 0 then addChange now (seqOf r) ?i ?db3 else ?db3"
    have "tables ?db1 = tables h" "search ?db1 = search h" by simp_all
    from fit [OF this(1)] have up: "upsertRow S t r ?db1 = Inr ?db2" .
    have doc: "applyDocument S now r h = Inr ?h" using up by (simp only: applyDocument_def Let_def True ebind_simps)
    have change: "tables (addChange now n j d) = tables d" "search (addChange now n j d) = search d" for n j d
      by (simp_all add: addChange_def)
    have tabs: "tables ?h = tables (putRow S t r h)" using put_noted by (simp add: change)
    have srch: "search ?h = (if (case rowAt S ''documents'' [?i] h of None \<Rightarrow> True
        | Some b \<Rightarrow> searchText b \<noteq> searchText r) then (search h)(?i \<mapsto> searchText r) else search h)"
      by (simp add: change)
    have idx: "indexed S ?h" by (rule indexed_put_document [OF S hh _ srch]) (simp add: tabs True)
    obtain lg' where "applyEntry S now e (lg, h) = Inr (lg', ?h)" using e doc True by (simp add: applyEntry_def)
    with merging_put [OF m1 h e(2,3) idx tabs] show ?thesis by blast
  qed
qed

lemma apply_upserts:
  assumes S: "schema_ok S" and m: "db_ok S m" and g: "shaped S g" "free_for S m g"
  shows "merging S m g h \<Longrightarrow> \<forall>e \<in> set es. upsertable S m e \<Longrightarrow>
    \<exists>lg' h'. efold (applyEntry S now) es (lg, h) = Inr (lg', h') \<and> merging S m g h' \<and>
      (\<forall>t r. Ups t r \<in> set es \<longrightarrow> r \<in> set (tables h' t)) \<and>
      (\<forall>u x. x \<in> set (tables m u) \<and> x \<in> set (tables h u) \<longrightarrow> x \<in> set (tables h' u))"
proof (induction es arbitrary: h lg)
  case Nil
  then show ?case by simp
next
  case (Cons e es)
  then obtain t r where e: "e = Ups t r" "t \<in> set (copiedTables S)" "r \<in> set (tables m t)"
    by (auto simp: upsertable_def)
  obtain lg1 h1 where s1: "applyEntry S now e (lg, h) = Inr (lg1, h1)" "merging S m g h1" "r \<in> set (tables h1 t)"
    "\<forall>u x. x \<in> set (tables m u) \<and> x \<in> set (tables h u) \<longrightarrow> x \<in> set (tables h1 u)"
    using merging_upsert [OF S m g Cons.prems(1) e, where now = now and lg = lg] by (elim exE conjE) (rule that)
  have "\<forall>e \<in> set es. upsertable S m e" using Cons.prems(2) by simp
  from Cons.IH [OF s1(2) this, of lg1] obtain lg2 h2 where s2: "efold (applyEntry S now) es (lg1, h1) = Inr (lg2, h2)"
    "merging S m g h2" "\<forall>t r. Ups t r \<in> set es \<longrightarrow> r \<in> set (tables h2 t)"
    "\<forall>u x. x \<in> set (tables m u) \<and> x \<in> set (tables h1 u) \<longrightarrow> x \<in> set (tables h2 u)"
    by (elim exE conjE) (rule that)
  have "r \<in> set (tables h2 t)" using s1(3) s2(4) e(3) by blast
  moreover have "\<forall>u x. x \<in> set (tables m u) \<and> x \<in> set (tables h u) \<longrightarrow> x \<in> set (tables h2 u)" using s1(4) s2(4) by blast
  ultimately show ?case using s1(1) s2(1,2,3) e(1) by auto
qed

end
