(* ===== verification/StageProps.thy ===== *)
theory StageProps
  imports Delta
begin

text \<open>
  The stage file: reading by chunks is reading by lines, what was written is read back, and a file
  that was cut off is refused.
\<close>

section \<open>Lines\<close>

text \<open>The reference: one byte at a time.\<close>

fun splitLines :: "string \<Rightarrow> string \<Rightarrow> string list" where
  "splitLines p [] = (if p = [] then [] else [p])"
| "splitLines p (b # bs) = (if b = newline then (p @ [b]) # splitLines [] bs else splitLines (p @ [b]) bs)"

lemma indexOfNewline_None: "indexOfNewline bs = None \<longleftrightarrow> newline \<notin> set bs"
  by (induction bs) auto

lemma indexOfNewline_Some:
  "indexOfNewline bs = Some e \<Longrightarrow> bs = take e bs @ newline # drop (Suc e) bs \<and> newline \<notin> set (take e bs)"
  by (induction bs arbitrary: e) (auto split: if_splits)

lemma splitLines_plain: "newline \<notin> set c \<Longrightarrow> splitLines p (c @ rest) = splitLines (p @ c) rest"
  by (induction c arbitrary: p) auto

lemma splitLines_line:
  "newline \<notin> set c \<Longrightarrow> splitLines p (c @ newline # rest) = (p @ c @ [newline]) # splitLines [] rest"
  by (simp add: splitLines_plain)

lemma cutChunk_splits: "cutChunk p c = (ls, q) \<Longrightarrow> splitLines p (c @ rest) = ls @ splitLines q rest"
proof (induction p c arbitrary: ls q rule: cutChunk.induct)
  case (1 p c)
  show ?case
  proof (cases "indexOfNewline c")
    case None
    with 1(2) show ?thesis by (simp add: cutChunk.simps [of p c] splitLines_plain indexOfNewline_None)
  next
    case (Some e)
    obtain ls' where ls': "cutChunk [] (drop (Suc e) c) = (ls', q)" "ls = (p @ take (Suc e) c) # ls'"
      using 1(2) Some by (auto simp: cutChunk.simps [of p c] split: prod.splits)
    have rec: "splitLines [] (drop (Suc e) c @ rest) = ls' @ splitLines q rest"
      using 1(1) [OF Some, of ls' q] ls'(1) by simp
    have c: "c = take e c @ newline # drop (Suc e) c" "newline \<notin> set (take e c)"
      using indexOfNewline_Some [OF Some] by simp_all
    have "take (Suc e) c = take e c @ [newline]"
      using indexOfNewline_less [OF Some] c(1) by (metis append_Cons append_Nil append_assoc append_eq_conv_conj
          append_take_drop_id drop_Suc_Cons drop_0 take_Suc_conv_app_nth nth_append_length length_take min.absorb4)
    moreover have "splitLines p (c @ rest) = (p @ take e c @ [newline]) # splitLines [] (drop (Suc e) c @ rest)"
      using splitLines_line [OF c(2), of p "drop (Suc e) c @ rest"] c(1) by (metis append.assoc append_Cons)
    ultimately show ?thesis by (simp add: rec ls'(2))
  qed
qed

lemma readLines_splits: "0 < m \<Longrightarrow> readLines m p bs = splitLines p bs"
proof (induction m p bs rule: readLines.induct)
  case (1 m p bs)
  show ?case
  proof (cases "bs = []")
    case True
    then show ?thesis by (simp add: readLines.simps [of m p])
  next
    case False
    obtain ls q where cut: "cutChunk p (take m bs) = (ls, q)" by (cases "cutChunk p (take m bs)")
    have "readLines m p bs = ls @ readLines m q (drop m bs)"
      using False 1(2) by (simp add: readLines.simps [of m p bs] cut)
    also have "\<dots> = ls @ splitLines q (drop m bs)" using 1(1) [of "(ls, q)" ls q] False 1(2) cut by simp
    also have "\<dots> = splitLines p (take m bs @ drop m bs)" by (rule cutChunk_splits [OF cut, symmetric])
    finally show ?thesis by simp
  qed
qed

lemma fileLines_splits: "fileLines file = splitLines [] file"
  by (simp add: fileLines_def readLines_splits CHUNK_BYTES_def)

definition terminated :: "string list \<Rightarrow> string list" where
  "terminated ls = map (\<lambda>l. l @ [newline]) ls"

lemma splitLines_terminated:
  "\<forall>l \<in> set ls. newline \<notin> set l \<Longrightarrow> splitLines [] (concat (terminated ls) @ rest) = terminated ls @ splitLines [] rest"
  by (induction ls) (simp_all add: terminated_def splitLines_line)

lemma splitLines_rest: "newline \<notin> set q \<Longrightarrow> splitLines [] q = (if q = [] then [] else [q])"
  using splitLines_plain [of q "[]" "[]"] by simp

text \<open>A cut-off sequence of lines is some of the lines and part of the next one.\<close>

lemma cut_lines:
  assumes "n < length (concat (terminated ls))"
  obtains k q where "k < length ls" "take n (concat (terminated ls)) = concat (terminated (take k ls)) @ q"
    "\<exists>r. ls ! k = q @ r"
  using assms
proof (induction ls arbitrary: n thesis)
  case Nil
  then show ?case by (simp add: terminated_def)
next
  case (Cons l ls)
  show ?case
  proof (cases "n \<le> length l")
    case True
    then have "take n (concat (terminated (l # ls))) = take n l" by (simp add: terminated_def)
    then show ?thesis using Cons.prems(1) [of 0 "take n l"]
      by (metis append_take_drop_id length_greater_0_conv list.distinct(1) nth_Cons_0 self_append_conv2
          take_0 concat.simps(1) list.simps(8) terminated_def)
  next
    case False
    then obtain n' where n': "n = length l + Suc n'" by (metis add_Suc_right less_imp_Suc_add not_le_imp_less)
    with Cons.prems(2) have lt: "n' < length (concat (terminated ls))" by (simp add: terminated_def)
    obtain k q r where k: "k < length ls" "take n' (concat (terminated ls)) = concat (terminated (take k ls)) @ q"
      "ls ! k = q @ r"
      using Cons.IH [OF _ lt] by metis
    have "take n (concat (terminated (l # ls))) = l @ [newline] @ take n' (concat (terminated ls))"
      by (simp add: terminated_def n')
    also have "\<dots> = concat (terminated (take (Suc k) (l # ls))) @ q" by (simp add: k(2)) (simp add: terminated_def)
    finally show ?thesis using Cons.prems(1) [of "Suc k" q] k by auto
  qed
qed

section \<open>Entries\<close>

lemma decode_cell:
  "\<forall>b. fromBase64 J (toBase64 J b) = b \<Longrightarrow> decodeCell J (encodeCell J c) = Some c"
  by (cases c) simp_all

lemma decode_cells:
  assumes "\<forall>b. fromBase64 J (toBase64 J b) = b"
  shows "decodeCells J (map (encodeCell J) cs) = Some cs"
  by (induction cs) (simp_all add: decode_cell [OF assms])

lemma decode_row:
  assumes "\<forall>b. fromBase64 J (toBase64 J b) = b"
  shows "decodeRow J (encodeRow J r) = Some r"
proof -
  have "map snd (encodeRow J r) = map (encodeCell J) (map snd r)" "map fst (encodeRow J r) = map fst r"
    by (induction r) (auto simp: encodeRow_def)
  then show ?thesis unfolding decodeRow_def by (simp only: decode_cells [OF assms]) (simp add: zip_map_fst_snd)
qed

lemma decode_entry:
  assumes "\<forall>b. fromBase64 J (toBase64 J b) = b"
  shows "decodeEntry J (encodeEntry J e) = Some e"
  by (cases e) (simp_all add: decodeEntry_def decode_row [OF assms])

text \<open>What the code relies on of JSON and base64, for the values a stage holds.\<close>

definition readable :: "codec \<Rightarrow> json set \<Rightarrow> bool" where
  "readable J vs \<longleftrightarrow> (\<forall>b. fromBase64 J (toBase64 J b) = b) \<and>
     (\<forall>v \<in> vs. parseJson J (stringify J v @ [newline]) = Some v \<and> newline \<notin> set (stringify J v))"

definition stageValues :: "codec \<Rightarrow> stage_entry list \<Rightarrow> sync_cursor \<Rightarrow> int \<Rightarrow> json set" where
  "stageValues J es target ep = insert (trailerJson J es target ep) (encodeEntry J ` set es)"

definition stageTexts :: "codec \<Rightarrow> stage_entry list \<Rightarrow> sync_cursor \<Rightarrow> int \<Rightarrow> string list" where
  "stageTexts J es target ep = map (\<lambda>e. stringify J (encodeEntry J e)) es @ [stringify J (trailerJson J es target ep)]"

lemma writeStage_texts: "writeStage J es target ep = concat (terminated (stageTexts J es target ep))"
  by (simp add: writeStage_def stageTexts_def terminated_def comp_def entryLine_def [abs_def])

lemma stageTexts_plain:
  "readable J (stageValues J es target ep) \<Longrightarrow> \<forall>l \<in> set (stageTexts J es target ep). newline \<notin> set l"
  by (auto simp: readable_def stageValues_def stageTexts_def)

lemma stage_lines:
  assumes "readable J (stageValues J es target ep)"
  shows "fileLines (writeStage J es target ep) =
    map (entryLine J) es @ [stringify J (trailerJson J es target ep) @ [newline]]"
  using splitLines_terminated [OF stageTexts_plain [OF assms], of "[]"]
  by (simp add: fileLines_splits writeStage_texts stageTexts_def terminated_def comp_def entryLine_def [abs_def])

lemma cursor_target: "cursorOfJson (targetJson t) = Some t"
  by (simp add: cursorOfJson_def targetJson_def)

lemma validate_written:
  assumes "readable J (stageValues J es target ep)" "0 \<le> ep" "ep \<le> MAX_SAFE_INTEGER"
  shows "validateStage J (writeStage J es target ep) = Inr (target, ep, length es)"
proof -
  have "parseJson J (stringify J (trailerJson J es target ep) @ [newline]) = Some (trailerJson J es target ep)"
    using assms(1) by (simp add: readable_def stageValues_def)
  with assms(2,3) show ?thesis
    by (simp add: validateStage_def stage_lines [OF assms(1)] trailerJson_def checkTrailer_def cursor_target)
qed

lemma entries_written:
  assumes "readable J (encodeEntry J ` set es)"
  shows "efold (stageEntry J) (map (entryLine J) es) pre = Inr (pre @ es)"
  using assms
proof (induction es arbitrary: pre)
  case (Cons e es)
  then have "parseJson J (entryLine J e) = Some (encodeEntry J e)" "decodeEntry J (encodeEntry J e) = Some e"
    by (simp_all add: readable_def entryLine_def decode_entry)
  with Cons show ?case by (simp add: stageEntry_def readable_def)
qed simp

lemma read_written:
  assumes "readable J (stageValues J es target ep)" "0 \<le> ep" "ep \<le> MAX_SAFE_INTEGER"
  shows "readStage J (writeStage J es target ep) = Inr (es, target, ep)"
proof -
  have "readable J (encodeEntry J ` set es)" using assms(1) by (simp add: readable_def stageValues_def)
  from entries_written [OF this, of "[]"] show ?thesis
    by (simp add: readStage_def validate_written [OF assms] stageEntries_def stage_lines [OF assms(1)])
qed

section \<open>A stage that was cut off\<close>

lemma encodeEntry_no_trailer: "\<exists>ob. encodeEntry J e = JObj ob \<and> obj_get ''trailer'' ob = None"
  by (cases e) simp_all

lemma validate_cut:
  assumes R: "readable J (stageValues J es target ep)" and n: "n < length (writeStage J es target ep)"
  shows "validateStage J (take n (writeStage J es target ep)) \<in>
    {Inl (SyncStageInvalid ''truncated''), Inl (SyncStageInvalid ''no trailer'')}"
proof -
  let ?ts = "stageTexts J es target ep"
  obtain k q r where k: "k < length ?ts" and cut: "take n (writeStage J es target ep) = concat (terminated (take k ?ts)) @ q"
    and q: "?ts ! k = q @ r"
    using n cut_lines [of n ?ts] unfolding writeStage_texts by metis
  have plain: "newline \<notin> set (?ts ! k)" using stageTexts_plain [OF R] k by simp
  then have nq: "newline \<notin> set q" by (simp add: q)
  have "\<forall>l \<in> set (take k ?ts). newline \<notin> set l" using stageTexts_plain [OF R] by (meson in_set_takeD)
  from splitLines_terminated [OF this, of q]
  have ls: "fileLines (take n (writeStage J es target ep)) = terminated (take k ?ts) @ (if q = [] then [] else [q])"
    by (simp add: fileLines_splits cut splitLines_rest [OF nq])
  show ?thesis
  proof (cases "q = []")
    case False
    then have "last q \<noteq> newline" using nq by (metis last_in_set)
    with False ls show ?thesis by (simp add: validateStage_def)
  next
    case True
    show ?thesis
    proof (cases k)
      case 0
      with True ls show ?thesis by (simp add: validateStage_def terminated_def)
    next
      case (Suc j)
      with k have j: "j < length es" by (simp add: stageTexts_def)
      then have "take k ?ts = take j ?ts @ [stringify J (encodeEntry J (es ! j))]"
        using Suc k by (simp add: take_Suc_conv_app_nth stageTexts_def nth_append)
      then have line: "rev (fileLines (take n (writeStage J es target ep))) =
          (stringify J (encodeEntry J (es ! j)) @ [newline]) # rev (terminated (take j ?ts))"
        by (simp add: ls True terminated_def)
      have "parseJson J (stringify J (encodeEntry J (es ! j)) @ [newline]) = Some (encodeEntry J (es ! j))"
        using R j by (simp add: readable_def stageValues_def)
      with encodeEntry_no_trailer [of J "es ! j"] show ?thesis by (auto simp: validateStage_def line)
    qed
  qed
qed

section \<open>Properties\<close>

text \<open>A small codec: the text of a value is its number in a list, in unary.\<close>

definition byte_text :: "byte list \<Rightarrow> string" where
  "byte_text = map (\<lambda>b. char_of (unat b))"

definition text_byte :: "string \<Rightarrow> byte list" where
  "text_byte = map (\<lambda>c. of_nat (of_char c))"

definition numbered :: "json list \<Rightarrow> codec" where
  "numbered vs = \<lparr>
     stringify = (\<lambda>v. replicate (length (takeWhile (\<lambda>x. x \<noteq> v) vs)) (CHR ''1'')),
     parseJson = (\<lambda>s. if length s - 1 < length vs then Some (vs ! (length s - 1)) else None),
     toBase64 = byte_text, fromBase64 = text_byte, sha = (\<lambda>_. ''h''), template = (\<lambda>_. [])\<rparr>"

definition sample_codec :: "stage_entry list \<Rightarrow> sync_cursor \<Rightarrow> int \<Rightarrow> codec" where
  "sample_codec es target ep =
     numbered (map (encodeEntry (numbered [])) es @ [trailerJson (numbered []) es target ep])"

lemma byte_text_back: "text_byte (byte_text b) = b"
proof -
  have one: "of_nat (of_char (char_of (unat x) :: char)) = x" for x :: byte
    using unsigned_less [where ?'a = nat and ?'b = 8 and w = x] by simp
  have "map ((\<lambda>c. of_nat (of_char c)) \<circ> (\<lambda>b. char_of (unat b))) b = b"
    by (rule map_idI) (simp only: comp_def one)
  then show ?thesis by (simp only: byte_text_def text_byte_def map_map)
qed

lemma numbered_encodes:
  "encodeCell (numbered vs) c = encodeCell (numbered []) c" "encodeEntry (numbered vs) e = encodeEntry (numbered []) e"
  "trailerJson (numbered vs) es target ep = trailerJson (numbered []) es target ep"
proof -
  show cell: "encodeCell (numbered vs) c = encodeCell (numbered []) c" for c by (cases c) (simp_all add: numbered_def)
  then show "encodeEntry (numbered vs) e = encodeEntry (numbered []) e" by (cases e) (simp_all add: encodeRow_def)
  show "trailerJson (numbered vs) es target ep = trailerJson (numbered []) es target ep"
    by (simp add: trailerJson_def digestOf_def numbered_def)
qed

lemma numbered_reads:
  assumes "v \<in> set vs"
  shows "parseJson (numbered vs) (stringify (numbered vs) v @ [newline]) = Some v"
proof -
  have "length (takeWhile (\<lambda>x. x \<noteq> v) vs) < length vs" using assms by (induction vs) auto
  from this nth_length_takeWhile [OF this] show ?thesis by (simp add: numbered_def)
qed

lemma sample_readable: "readable (sample_codec es target ep) (stageValues (sample_codec es target ep) es target ep)"
proof -
  let ?vs = "map (encodeEntry (numbered [])) es @ [trailerJson (numbered []) es target ep]"
  have vals: "stageValues (sample_codec es target ep) es target ep = set ?vs"
    unfolding stageValues_def sample_codec_def using numbered_encodes(2,3) [of ?vs] by auto
  have b64: "\<forall>b. fromBase64 (numbered ?vs) (toBase64 (numbered ?vs) b) = b" by (simp add: numbered_def byte_text_back)
  have nl: "newline \<notin> set (stringify (numbered ?vs) v)" for v by (auto simp: numbered_def newline_def)
  have "\<forall>v \<in> set ?vs. parseJson (numbered ?vs) (stringify (numbered ?vs) v @ [newline]) = Some v \<and>
      newline \<notin> set (stringify (numbered ?vs) v)"
    using nl by (intro ballI conjI numbered_reads)
  with b64 show ?thesis unfolding readable_def vals by (simp only: sample_codec_def simp_thms)
qed

definition sample_entries :: "stage_entry list" where
  "sample_entries = [Del ''outbox'' [JStr ''o1''], Ups ''user_prefs'' [(''key'', CText ''theme''), (''value'', CBlob [7])]]"

definition sample_target :: sync_cursor where
  "sample_target = \<lparr>cSeq = 4, cCursor = 9\<rparr>"

definition sample_stage :: string where
  "sample_stage = writeStage (sample_codec sample_entries sample_target 2) sample_entries sample_target 2"

text \<open>
  C17: a stage that buildDelta wrote is read back as it was: the same entries in the same order, BLOB
  columns included, the target cursor and the epoch.
\<close>

theorem stage_round_trip:
  assumes "readable J (stageValues J es target ep)" and "0 \<le> ep" and "ep \<le> MAX_SAFE_INTEGER"
  shows "readStage J (writeStage J es target ep) = Inr (es, target, ep)"
  using assms by (rule read_written)

theorem stage_round_trip_witness:
  "readStage (sample_codec sample_entries sample_target 2) sample_stage = Inr (sample_entries, sample_target, 2)"
  unfolding sample_stage_def by (rule stage_round_trip [OF sample_readable]) (simp_all add: MAX_SAFE_INTEGER_def)

text \<open>
  C18: a stage that was cut off anywhere is refused before anything is applied, whatever the hash
  function: it is reported as truncated or as having no trailer, and applyDelta throws that.
\<close>

theorem cut_stage_is_refused:
  assumes "readable J (stageValues J es target ep)" and "n < length (writeStage J es target ep)"
  shows "applyDelta J S now (take n (writeStage J es target ep)) db \<in>
    {Inl (SyncStageInvalid ''truncated''), Inl (SyncStageInvalid ''no trailer'')}"
  using validate_cut [OF assms] by (auto simp: applyDelta_def readStage_def)

definition no_schema :: schema where
  "no_schema = \<lparr>copiedTables = [], primaryKeyColumns = (\<lambda>_. []), tableColumns = (\<lambda>_. []), uniques = (\<lambda>_. []),
     references = []\<rparr>"

definition empty_db :: sync_db where
  "empty_db = \<lparr>tables = (\<lambda>_. []), search = Map.empty, feed = [], sync_rows = [], rowCursor = 0,
     sync_imported = [], syncRole = Follower, syncTracking = False, syncEpoch = 0, after = \<lparr>cSeq = 0, cCursor = 0\<rparr>\<rparr>"

theorem cut_stage_is_refused_witness:
  "applyDelta (sample_codec sample_entries sample_target 2) no_schema 0 (take 2 sample_stage) empty_db \<in>
    {Inl (SyncStageInvalid ''truncated''), Inl (SyncStageInvalid ''no trailer'')}"
  unfolding sample_stage_def
  by (rule cut_stage_is_refused [OF sample_readable]) (simp add: writeStage_texts stageTexts_def terminated_def sample_entries_def)

end
