(* ===== verification/DeltaProps.thy ===== *)
theory DeltaProps
  imports DeltaInv StageProps
begin

text \<open>
  A follower that pulls has the master's rows: what tracking must have recorded since the last pull,
  that the master's statements do record it, and that the delta then brings it over.
\<close>

section \<open>What a delta covers\<close>

definition covered :: "schema \<Rightarrow> sync_db \<Rightarrow> sync_cursor \<Rightarrow> string \<Rightarrow> key \<Rightarrow> bool" where
  "covered S m from t k \<longleftrightarrow> (\<exists>c > cCursor from. (c, t, k) \<in> set (sync_rows m)) \<or>
     (t = ''documents'' \<and> (\<exists>r. rowAt S t k m = Some r \<and> seqOf r > cSeq from))"

definition in_sync :: "schema \<Rightarrow> sync_db \<Rightarrow> sync_db \<Rightarrow> sync_cursor \<Rightarrow> bool" where
  "in_sync S m f from \<longleftrightarrow> (\<forall>t \<in> set (copiedTables S). \<forall>k. rowAt S t k f \<noteq> rowAt S t k m \<longrightarrow> covered S m from t k)"

text \<open>What the tracker holds is what json_array made of the key columns.\<close>

definition keyed_rows :: "schema \<Rightarrow> sync_db \<Rightarrow> bool" where
  "keyed_rows S m \<longleftrightarrow> (\<forall>(c, t, k) \<in> set (sync_rows m).
     length k = length (primaryKeyColumns S t) \<and> json_array k \<noteq> None)"

lemma bind_array: "json_array k = Some vs \<Longrightarrow> bindKey vs = Some k"
proof (induction k arbitrary: vs)
  case (Cons c k)
  then show ?case by (cases c) (auto split: option.splits)
qed simp

definition older_cursor :: "sync_cursor \<Rightarrow> sync_cursor \<Rightarrow> bool" where
  "older_cursor a b \<longleftrightarrow> cSeq a \<le> cSeq b \<and> cCursor a \<le> cCursor b"

lemma covered_older: "covered S m b t k \<Longrightarrow> older_cursor a b \<Longrightarrow> covered S m a t k"
  unfolding covered_def older_cursor_def by (meson order_le_less_trans)

lemma in_sync_older: "in_sync S m f b \<Longrightarrow> older_cursor a b \<Longrightarrow> in_sync S m f a"
  unfolding in_sync_def using covered_older by blast

lemma rewound_older: "older_cursor (fst (rewound m asked fe)) asked"
  by (auto simp: rewound_def Let_def older_cursor_def split: option.split)

lemma tracked_iff: "k \<in> set (trackedKeys m from t) \<longleftrightarrow> (\<exists>c > cCursor from. (c, t, k) \<in> set (sync_rows m))"
  by (force simp: trackedKeys_def)

lemma rowsFor_set: "set (rowsFor S m t ks) = {r. \<exists>k \<in> set ks. rowAt S t k m = Some r}"
  by (auto simp: rowsFor_def split: option.splits)

definition deltaDeletes :: "schema \<Rightarrow> sync_db \<Rightarrow> sync_cursor \<Rightarrow> stage_entry list" where
  "deltaDeletes S m from = concat (map (deletesOf S m from) (rev (copiedTables S)))"

definition deltaUpserts :: "schema \<Rightarrow> sync_db \<Rightarrow> sync_cursor \<Rightarrow> int \<Rightarrow> stage_entry list" where
  "deltaUpserts S m from fe = concat (map (upsertsOf S m from fe) (copiedTables S))"

lemma deltaEntries_split: "deltaEntries S m from fe = deltaDeletes S m from @ deltaUpserts S m from fe"
  by (simp add: deltaEntries_def deltaDeletes_def deltaUpserts_def)

lemma deletes_deletable:
  assumes "keyed_rows S m"
  shows "\<forall>e \<in> set (deltaDeletes S m from). deletable S m e"
proof
  fix e assume "e \<in> set (deltaDeletes S m from)"
  then obtain t vs k where e: "e = Del t vs" "json_array k = Some vs" "t \<in> set (copiedTables S)"
    "k \<in> set (trackedKeys m from t)" "rowAt S t k m = None"
    by (auto simp: deltaDeletes_def deletesOf_def split: option.splits)
  then obtain c where "(c, t, k) \<in> set (sync_rows m)" by (auto simp: tracked_iff)
  with assms have "length k = length (primaryKeyColumns S t)" unfolding keyed_rows_def by force
  with e bind_array show "deletable S m e" by (auto simp: deletable_def)
qed

lemma upserts_upsertable: "\<forall>e \<in> set (deltaUpserts S m from fe). upsertable S m e"
proof
  fix e assume "e \<in> set (deltaUpserts S m from fe)"
  then obtain t where t: "t \<in> set (copiedTables S)" "e \<in> set (upsertsOf S m from fe t)"
    by (auto simp: deltaUpserts_def)
  then obtain r where e: "e = Ups t r" by (auto simp: upsertsOf_def)
  have "r \<in> set (tables m t)" using t(2) e
    by (auto simp: upsertsOf_def rowsFor_set split: if_splits dest: rowAt_key)
  with e t(1) show "upsertable S m e" by (simp add: upsertable_def)
qed

lemma covered_delete:
  assumes "covered S m from t k" "t \<in> set (copiedTables S)" "rowAt S t k m = None" "keyed_rows S m"
  shows "\<exists>vs. Del t vs \<in> set (deltaDeletes S m from) \<and> bindKey vs = Some k"
proof -
  have k: "k \<in> set (trackedKeys m from t)" using assms(1,3) by (auto simp: covered_def tracked_iff)
  then obtain c where "(c, t, k) \<in> set (sync_rows m)" by (auto simp: tracked_iff)
  with assms(4) obtain vs where vs: "json_array k = Some vs" unfolding keyed_rows_def by force
  then have "Del t vs \<in> set (deletesOf S m from t)" using k assms(3) by (force simp: deletesOf_def)
  with assms(2) bind_array [OF vs] show ?thesis by (auto simp: deltaDeletes_def)
qed

lemma covered_upsert:
  assumes "covered S m from t k" "t \<in> set (copiedTables S)" "rowAt S t k m = Some r"
  shows "Ups t r \<in> set (deltaUpserts S m from fe)"
proof -
  have r: "r \<in> set (tables m t)" using assms(3) by (auto dest: rowAt_key)
  have "Ups t r \<in> set (upsertsOf S m from fe t)"
  proof (cases "t = ''documents'' \<and> seqOf r > cSeq from")
    case True
    with r show ?thesis by (auto simp: upsertsOf_def)
  next
    case False
    with assms(1,3) have "k \<in> set (trackedKeys m from t)" by (auto simp: covered_def tracked_iff)
    with assms(3) have "r \<in> set (rowsFor S m t (trackedKeys m from t))" by (auto simp: rowsFor_set)
    with False show ?thesis by (auto simp: upsertsOf_def)
  qed
  with assms(2) show ?thesis by (auto simp: deltaUpserts_def)
qed

section \<open>A pull brings the rows over\<close>

lemma shaped_sub: "shaped S f \<Longrightarrow> \<forall>t. set (tables g t) \<subseteq> set (tables f t) \<Longrightarrow> shaped S g"
  by (auto simp: shaped_def)

text \<open>A living row of the follower shares no natural key with another living row of the master.\<close>

definition natural_keys_stay :: "schema \<Rightarrow> sync_db \<Rightarrow> sync_db \<Rightarrow> bool" where
  "natural_keys_stay S m f \<longleftrightarrow> (\<forall>t \<in> set (copiedTables S). \<forall>x \<in> set (tables f t). \<forall>r \<in> set (tables m t).
     rowAt S t (keyOf S t x) m \<noteq> None \<longrightarrow> clash S t x r \<longrightarrow> keyOf S t x = keyOf S t r)"

lemma pull_entries:
  assumes S: "schema_ok S" and m: "db_ok S m" "keyed_rows S m" and f: "db_ok S f" "indexed S f"
    and sync: "in_sync S m f from" and nat: "natural_keys_stay S m f"
  shows "\<exists>lg h. efold (applyEntry S now) (deltaEntries S m from fe) (start_log, f) = Inr (lg, h) \<and>
    (\<forall>t \<in> set (copiedTables S). \<forall>k. rowAt S t k h = rowAt S t k m) \<and> indexed S h \<and> \<not> danglingIn S h"
proof -
  have m': "one_key S m" "\<not> danglingIn S m" using m by (simp_all add: db_ok_def)
  have f1: "one_key S f" using f by (simp add: db_ok_def)
  obtain lg1 g where g: "efold (applyEntry S now) (deltaDeletes S m from) (start_log, f) = Inr (lg1, g)" "trimmed S m f g"
    "\<forall>t vs k. Del t vs \<in> set (deltaDeletes S m from) \<longrightarrow> bindKey vs = Some k \<longrightarrow> rowAt S t k g = None"
    "\<forall>t. set (tables g t) \<subseteq> set (tables f t)"
    using apply_deletes [OF S m'(2,1) trimmed_start [OF f] deletes_deletable [OF m(2), of "from"], where now = now and lg = start_log]
    by (elim exE conjE) (rule that)
  have g1: "one_key S g" "indexed S g" "\<not> danglingIn S g" using g(2) by (simp_all add: trimmed_def)
  have alive: "rowAt S t (keyOf S t x) m \<noteq> None" if x: "t \<in> set (copiedTables S)" "x \<in> set (tables g t)" for t x
  proof
    assume none: "rowAt S t (keyOf S t x) m = None"
    have "x \<in> set (tables f t)" using x g(4) by blast
    then have "rowAt S t (keyOf S t x) f \<noteq> rowAt S t (keyOf S t x) m" using rowAt_in [OF f1] none by simp
    with sync x(1) have "covered S m from t (keyOf S t x)" unfolding in_sync_def by blast
    from covered_delete [OF this x(1) none m(2)] g(3) have "rowAt S t (keyOf S t x) g = None" by blast
    with rowAt_in [OF g1(1) x(2)] show False by simp
  qed
  have free: "free_for S m g" unfolding free_for_def
    using nat alive g(4) unfolding natural_keys_stay_def by blast
  have shape: "shaped S g" using shaped_sub [OF _ g(4)] f(1) by (simp add: db_ok_def)
  obtain lg2 h where h: "efold (applyEntry S now) (deltaUpserts S m from fe) (lg1, g) = Inr (lg2, h)" "merging S m g h"
    "\<forall>t r. Ups t r \<in> set (deltaUpserts S m from fe) \<longrightarrow> r \<in> set (tables h t)"
    using apply_upserts [OF S m(1) shape free merging_start [OF g1(1,2)] upserts_upsertable [of S m "from" fe], where now = now and lg = lg1]
    by (elim exE conjE) (rule that)
  have h1: "one_key S h" "indexed S h" using h(2) by (simp_all add: merging_def)
  have equal: "rowAt S t k h = rowAt S t k m" if t: "t \<in> set (copiedTables S)" for t k
  proof (cases "rowAt S t k m")
    case None
    have "rowAt S t k h = None"
    proof (rule ccontr)
      assume "rowAt S t k h \<noteq> None"
      then obtain x where "rowAt S t k h = Some x" by blast
      from rowAt_key [OF this] have x: "x \<in> set (tables h t)" "keyOf S t x = k" by simp_all
      then have "x \<in> set (tables g t) \<or> x \<in> set (tables m t)" using h(2) t unfolding merging_def by blast
      then show False using alive [OF t, of x] rowAt_in [OF m'(1), of x t] x(2) None by auto
    qed
    with None show ?thesis by simp
  next
    case (Some r)
    from rowAt_key [OF Some] have r: "r \<in> set (tables m t)" "keyOf S t r = k" by simp_all
    have "r \<in> set (tables h t)"
    proof (cases "rowAt S t k f = Some r")
      case True
      with r(2) have "r \<in> set (tables g t)" using g(2) t Some unfolding trimmed_def by (blast dest: rowAt_key)
      then show ?thesis using h(2) t r(1) unfolding merging_def by blast
    next
      case False
      with Some have "rowAt S t k f \<noteq> rowAt S t k m" by simp
      with sync t have "covered S m from t k" unfolding in_sync_def by blast
      from covered_upsert [OF this t Some] h(3) show ?thesis by blast
    qed
    from rowAt_in [OF h1(1) this] r(2) Some show ?thesis by simp
  qed
  have "\<not> danglingIn S h"
  proof
    assume "danglingIn S h"
    then obtain c x p r where ref: "(c, x, p) \<in> set (references S)" "r \<in> set (tables h c)" "col x r \<noteq> CNull"
      "rowAt S p [col x r] h = None" by (rule danglingE)
    have p: "p \<in> set (copiedTables S)" using S ref(1) unfolding schema_ok_def by fast
    show False
    proof (cases "c \<in> set (copiedTables S)")
      case True
      have "rowAt S c (keyOf S c r) h = Some r" using rowAt_in [OF h1(1) ref(2)] .
      then have "r \<in> set (tables m c)" using equal [OF True] by (auto dest: rowAt_key)
      from not_danglingD [OF m'(2) ref(1) this ref(3)] ref(4) equal [OF p] show False by simp
    next
      case False
      then have "r \<in> set (tables g c)" using h(2) ref(2) by (simp add: merging_def)
      with not_danglingD [OF g1(3) ref(1)] ref(3) have "rowAt S p [col x r] g \<noteq> None" by simp
      then have "rowAt S p [col x r] h \<noteq> None" using h(2) unfolding merging_def by blast
      with ref(4) show False by simp
    qed
  qed
  moreover have "efold (applyEntry S now) (deltaEntries S m from fe) (start_log, f) = Inr (lg2, h)"
    unfolding deltaEntries_split efold_append g(1) ebind_simps by (rule h(1))
  ultimately show ?thesis using equal h1(2) by blast
qed

section \<open>The master's statements are tracked\<close>

text \<open>The seqs a document statement may carry: a fresh one, or the one the row has.\<close>

definition seq_fresh :: "schema \<Rightarrow> int \<Rightarrow> statement \<Rightarrow> sync_db \<Rightarrow> bool" where
  "seq_fresh S high st m \<longleftrightarrow> (case st of
     InsertRow t r \<Rightarrow> t = ''documents'' \<longrightarrow> seqOf r > high
   | UpdateRow t k r \<Rightarrow> t = ''documents'' \<longrightarrow> keyOf S t r = k \<and> (\<forall>old. rowAt S t k m = Some old \<longrightarrow>
       seqOf r > high \<or> col ''seq'' r = col ''seq'' old)
   | DeleteRow t k \<Rightarrow> True)"

lemma trackKey_frame [simp]:
  "tables (trackKey t k m) = tables m" "rowAt S u j (trackKey t k m) = rowAt S u j m"
  "syncTracking (trackKey t k m) = syncTracking m" "rowCursor (trackKey t k m) = rowCursor m + 1"
  by (simp_all add: trackKey_def rowAt_def)

definition marked :: "sync_db \<Rightarrow> int \<Rightarrow> string \<Rightarrow> key \<Rightarrow> bool" where
  "marked m n t k \<longleftrightarrow> (\<exists>c > n. (c, t, k) \<in> set (sync_rows m))"

lemma marked_track: "n \<le> rowCursor m \<Longrightarrow> marked (trackKey u j m) n t k \<longleftrightarrow> marked m n t k \<or> (t, k) = (u, j)"
proof (cases "(t, k) = (u, j)")
  case False
  then have "(c, t, k) \<in> set (sync_rows (trackKey u j m)) \<longleftrightarrow> (c, t, k) \<in> set (sync_rows m)" for c
    by (auto simp: trackKey_def)
  with False show ?thesis by (auto simp: marked_def)
qed (auto simp: marked_def trackKey_def)

lemma afterInsert_frame [simp]:
  "tables (afterInsert S t r m) = tables m" "syncTracking (afterInsert S t r m) = syncTracking m"
  "rowCursor m \<le> rowCursor (afterInsert S t r m)"
  by (simp_all add: afterInsert_def)

lemma afterUpdate_frame [simp]:
  "tables (afterUpdate S t x r m) = tables m" "syncTracking (afterUpdate S t x r m) = syncTracking m"
  "rowCursor m \<le> rowCursor (afterUpdate S t x r m)"
  by (simp_all add: afterUpdate_def Let_def)

lemma afterDelete_frame [simp]:
  "tables (afterDelete S t r m) = tables m" "syncTracking (afterDelete S t r m) = syncTracking m"
  "rowCursor m \<le> rowCursor (afterDelete S t r m)" "rowAt S u j (afterDelete S t r m) = rowAt S u j m"
  by (simp_all add: afterDelete_def rowAt_def)

lemma marked_deletes:
  "n \<le> rowCursor m \<Longrightarrow> syncTracking m \<Longrightarrow>
    marked (fold (\<lambda>(c, r). afterDelete S c r) xs m) n t k \<longleftrightarrow>
      marked m n t k \<or> (t \<in> set (copiedTables S) \<and> (\<exists>r. (t, r) \<in> set xs \<and> keyOf S t r = k))"
proof (induction xs arbitrary: m)
  case (Cons x xs)
  obtain c r where x: "x = (c, r)" by (cases x)
  have "n \<le> rowCursor (afterDelete S c r m)" using Cons.prems(1) afterDelete_frame(3) by (rule order_trans)
  from Cons.IH [OF this] Cons.prems show ?case
    by (auto simp: x afterDelete_def tracks_def marked_track)
qed (simp add: marked_def)

lemma deletes_frame: "tables (fold (\<lambda>(c, r). afterDelete S c r) xs m) = tables m"
  by (rule fold_frame) (simp add: split_beta)

lemma cascaded_set: "r \<in> set (tables m c) \<Longrightarrow> refersTo S c r t k \<Longrightarrow> (c, r) \<in> set (cascaded S t k m)"
  unfolding cascaded_def refersTo_def
  by (elim bexE) (auto simp: image_iff split: prod.splits)

lemma covered_marked: "covered S m from t k \<longleftrightarrow> marked m (cCursor from) t k \<or>
    (t = ''documents'' \<and> (\<exists>r. rowAt S t k m = Some r \<and> seqOf r > cSeq from))"
  by (simp add: covered_def marked_def)

text \<open>A statement leaves a row alone or makes it covered, and what was covered stays covered.\<close>

definition step_covers :: "schema \<Rightarrow> sync_cursor \<Rightarrow> sync_db \<Rightarrow> sync_db \<Rightarrow> bool" where
  "step_covers S from m m' \<longleftrightarrow> (\<forall>t \<in> set (copiedTables S). \<forall>k.
     (rowAt S t k m' \<noteq> rowAt S t k m \<longrightarrow> covered S m' from t k) \<and>
     (covered S m from t k \<longrightarrow> covered S m' from t k))"

lemma step_in_sync: "step_covers S from m m' \<Longrightarrow> in_sync S m f from \<Longrightarrow> in_sync S m' f from"
  unfolding step_covers_def in_sync_def by metis

lemma covers_delete:
  assumes S: "schema_ok S" and m: "one_key S m" "syncTracking m" and cur: "cCursor from \<le> rowCursor m"
    and run: "runStatement S (DeleteRow t k) m = Inr m'"
  shows "step_covers S from m m'"
proof (cases "rowAt S t k m")
  case None
  with run show ?thesis by (simp add: step_covers_def)
next
  case (Some old)
  let ?d = "deleteRow S t k m" and ?xs = "cascaded S t k m @ [(t, old)]"
  have m': "m' = fold (\<lambda>(c, r). afterDelete S c r) ?xs ?d" using run Some by simp
  have d: "rowCursor ?d = rowCursor m" "syncTracking ?d = syncTracking m" "sync_rows ?d = sync_rows m"
    by (simp_all add: deleteRow_def)
  have row: "rowAt S u j m' = rowAt S u j ?d" for u j by (simp only: m' rowAt_def deletes_frame)
  have mark: "marked m' (cCursor from) u j \<longleftrightarrow> marked m (cCursor from) u j \<or>
      (u \<in> set (copiedTables S) \<and> (\<exists>r. (u, r) \<in> set ?xs \<and> keyOf S u r = j))" for u j
    unfolding m' using marked_deletes [of "cCursor from" ?d S ?xs u j] cur m(2) d by (simp add: marked_def)
  have lost: "marked m' (cCursor from) u j" if u: "u \<in> set (copiedTables S)" and diff: "rowAt S u j ?d \<noteq> rowAt S u j m" for u j
  proof -
    have one: "one_key S ?d" using one_key_delete [OF m(1)] .
    obtain r where r: "rowAt S u j m = Some r"
    proof (cases "rowAt S u j m")
      case None
      then have "rowAt S u j ?d = None" unfolding rowAt_None using deleteRow_sub by blast
      with diff None show ?thesis by simp
    qed (rule that)
    from rowAt_key [OF r] have r': "r \<in> set (tables m u)" "keyOf S u r = j" by simp_all
    have "r \<notin> set (tables ?d u)" using rowAt_in [OF one, of r u] r'(2) diff r by auto
    from deleteRow_gone [OF r'(1) this] have "(u = t \<and> j = k) \<or> refersTo S u r t k" using r'(2) by blast
    then have "(u, r) \<in> set ?xs" using Some r r'(1) by (auto simp: cascaded_set)
    then show ?thesis using mark u r'(2) by blast
  qed
  have keep: "covered S m' from u j" if u: "u \<in> set (copiedTables S)" and c: "covered S m from u j" for u j
  proof (cases "rowAt S u j ?d = rowAt S u j m")
    case True
    with c show ?thesis by (auto simp: covered_marked mark row)
  next
    case False
    with lost [OF u] show ?thesis by (simp add: covered_marked)
  qed
  show ?thesis unfolding step_covers_def row using lost keep by (auto simp: covered_marked)
qed

lemma setTable_frame [simp]:
  "syncTracking (setTable t rs m) = syncTracking m" "rowCursor (setTable t rs m) = rowCursor m"
  "sync_rows (setTable t rs m) = sync_rows m" "marked (setTable t rs m) n u j = marked m n u j"
  by (simp_all add: setTable_def marked_def)

lemma covers_insert:
  assumes m: "syncTracking m" and cur: "cCursor from \<le> rowCursor m" "cSeq from \<le> high"
    and fresh: "seq_fresh S high (InsertRow t r) m" and run: "runStatement S (InsertRow t r) m = Inr m'"
  shows "step_covers S from m m'"
proof -
  let ?s = "setTable t (tables m t @ [r]) m"
  have new: "rowAt S t (keyOf S t r) m = None" and m': "m' = afterInsert S t r ?s"
    using run by (auto simp: rowAt_None split: if_splits)
  have row: "rowAt S u j m' = (if u = t \<and> j = keyOf S t r then Some r else rowAt S u j m)" for u j
    using new by (auto simp: m' afterInsert_def rowAt_def setTable_def find_append split: option.split)
  have mark: "marked m' (cCursor from) u j \<longleftrightarrow> marked m (cCursor from) u j \<or>
      (t \<in> set (copiedTables S) \<and> t \<noteq> ''documents'' \<and> u = t \<and> j = keyOf S t r)" for u j
    using m cur by (auto simp: m' afterInsert_def tracks_def marked_track)
  have "seqOf r > cSeq from" if "t = ''documents''" using fresh that cur(2) by (simp add: seq_fresh_def)
  then show ?thesis unfolding step_covers_def covered_marked mark row using new by auto
qed

lemma marked_update:
  assumes "tracks S t db" "n \<le> rowCursor db" "j = keyOf S t new \<or> j = keyOf S t old"
    and "\<not> (t = ''documents'' \<and> col ''seq'' new \<noteq> col ''seq'' old)"
    and "t = ''documents'' \<Longrightarrow> keyOf S t old = keyOf S t new"
  shows "marked (afterUpdate S t old new db) n t j"
  using assms by (cases "t = ''documents''") (auto simp: afterUpdate_def Let_def marked_track)

lemma covers_update:
  assumes S: "schema_ok S" and m: "one_key S m" "syncTracking m"
    and cur: "cCursor from \<le> rowCursor m" "cSeq from \<le> high"
    and fresh: "seq_fresh S high (UpdateRow t k r) m" and run: "runStatement S (UpdateRow t k r) m = Inr m'"
  shows "step_covers S from m m'"
proof (cases "rowAt S t k m")
  case None
  with run show ?thesis by (simp add: step_covers_def)
next
  case (Some old)
  let ?s = "setTable t (upd_where (\<lambda>x. keyOf S t x = k) (\<lambda>_. r) (tables m t)) m"
  have m': "m' = afterUpdate S t old r ?s" using run Some by (auto split: if_splits)
  have tabs: "tables m' = tables ?s" by (simp add: m' afterUpdate_def Let_def)
  have same: "rowAt S u j m' = rowAt S u j m" if "u \<noteq> t \<or> (j \<noteq> k \<and> j \<noteq> keyOf S t r)" for u j
  proof (cases "u = t")
    case True
    with that have j: "j \<noteq> k" "j \<noteq> keyOf S t r" by simp_all
    have "rowAt S t j m' = map_option (\<lambda>x. if keyOf S t x = k then r else x) (rowAt S t j m)"
      unfolding rowAt_def tabs using j by (simp add: setTable_def find_upd_where)
    with j rowAt_key [of S t j m] show ?thesis by (cases "rowAt S t j m") (auto simp: True)
  next
    case False
    then show ?thesis by (simp add: rowAt_def tabs setTable_def)
  qed
  have old: "keyOf S t old = k" using rowAt_key [OF Some] by simp
  have put: "rowAt S t k m' = Some r" if k: "keyOf S t r = k"
  proof -
    have "?s = putRow S t r m" by (simp add: putRow_def k Some)
    then show ?thesis using rowAt_put [OF m(1), of t k t r] k by (simp add: rowAt_def tabs)
  qed
  have mark: "marked m (cCursor from) u j \<Longrightarrow> marked m' (cCursor from) u j" for u j
    using cur(1) by (simp add: m' afterUpdate_def Let_def marked_track)
  have new: "covered S m' from t j" if t: "t \<in> set (copiedTables S)" and j: "j = k \<or> j = keyOf S t r" for j
  proof (cases "t = ''documents'' \<and> col ''seq'' r \<noteq> col ''seq'' old")
    case True
    then have "keyOf S t r = k" "seqOf r > cSeq from" using fresh Some cur(2) by (auto simp: seq_fresh_def)
    with put j True show ?thesis by (auto simp: covered_marked)
  next
    case False
    have doc: "t = ''documents'' \<Longrightarrow> keyOf S t old = keyOf S t r" using fresh old by (simp add: seq_fresh_def)
    have "marked m' (cCursor from) t j"
      unfolding m' using t m(2) cur(1) False doc j old by (intro marked_update) (auto simp: tracks_def)
    then show ?thesis by (simp add: covered_marked)
  qed
  have "covered S m' from u j" if u: "u \<in> set (copiedTables S)" "covered S m from u j" for u j
  proof (cases "u = t \<and> (j = k \<or> j = keyOf S t r)")
    case True
    with new u show ?thesis by blast
  next
    case False
    with u(2) same mark show ?thesis by (auto simp: covered_marked)
  qed
  moreover have "covered S m' from u j" if u: "u \<in> set (copiedTables S)" "rowAt S u j m' \<noteq> rowAt S u j m" for u j
  proof -
    have "u = t \<and> (j = k \<or> j = keyOf S t r)" using same u(2) by blast
    with new u(1) show ?thesis by blast
  qed
  ultimately show ?thesis unfolding step_covers_def by blast
qed

section \<open>Any number of statements\<close>

lemma distinct_replace:
  assumes "distinct (map key xs)" "\<forall>x \<in> set xs. key x \<noteq> k \<longrightarrow> key x \<noteq> key r"
  shows "distinct (map key (upd_where (\<lambda>x. key x = k) (\<lambda>_. r) xs))"
  using assms
proof (induction xs)
  case (Cons x xs)
  then have new: "key x \<notin> key ` set xs" and xs: "distinct (map key xs)" by simp_all
  show ?case
  proof (cases "key x = k")
    case True
    then have "upd_where (\<lambda>x. key x = k) (\<lambda>_. r) xs = xs" using new by (intro upd_where_id) (auto simp: image_iff)
    moreover have "key r \<notin> key ` set xs" 
    proof
      assume "key r \<in> key ` set xs"
      then obtain y where y: "y \<in> set xs" "key y = key r" by auto
      then have "key y \<noteq> k" using new True by (metis image_eqI)
      with Cons.prems(2) y show False by simp
    qed
    ultimately show ?thesis using True xs by simp
  next
    case False
    then have "key x \<noteq> key r" using Cons.prems(2) by simp
    with False new Cons show ?thesis by (auto simp: set_upd_where)
  qed
qed simp

lemma one_key_set: "one_key S m \<Longrightarrow> distinct (map (keyOf S t) rs) \<Longrightarrow> one_key S (setTable t rs m)"
  by (simp add: one_key_def setTable_def)

lemma one_key_statement:
  assumes "one_key S m" "runStatement S st m = Inr m'"
  shows "one_key S m'"
proof (cases st)
  case (InsertRow t r)
  have m': "m' = afterInsert S t r (setTable t (tables m t @ [r]) m)"
    and new: "\<forall>x \<in> set (tables m t). keyOf S t x \<noteq> keyOf S t r"
    using assms(2) InsertRow by (auto split: if_splits)
  have "one_key S (setTable t (tables m t @ [r]) m)"
    using assms(1) new by (intro one_key_set) (auto simp: one_key_def)
  then show ?thesis by (simp add: m' one_key_def)
next
  case (UpdateRow t k r)
  show ?thesis
  proof (cases "rowAt S t k m")
    case None
    with assms UpdateRow show ?thesis by simp
  next
    case (Some old)
    let ?s = "setTable t (upd_where (\<lambda>x. keyOf S t x = k) (\<lambda>_. r) (tables m t)) m"
    have m': "m' = afterUpdate S t old r ?s" and new: "\<forall>x \<in> set (tables m t). keyOf S t x \<noteq> k \<longrightarrow> keyOf S t x \<noteq> keyOf S t r"
      using assms(2) UpdateRow Some by (auto split: if_splits)
    have "one_key S ?s" using assms(1) new by (intro one_key_set distinct_replace) (auto simp: one_key_def)
    then show ?thesis by (simp add: m' one_key_def)
  qed
next
  case (DeleteRow t k)
  with assms one_key_delete [OF assms(1), of t k] show ?thesis
    by (auto simp: one_key_def deletes_frame split: option.splits)
qed

lemma statement_frame:
  assumes "runStatement S st m = Inr m'"
  shows "syncTracking m' = syncTracking m \<and> rowCursor m \<le> rowCursor m'"
proof -
  have deletes: "syncTracking (fold (\<lambda>(c, r). afterDelete S c r) xs d) = syncTracking d \<and>
      rowCursor d \<le> rowCursor (fold (\<lambda>(c, r). afterDelete S c r) xs d)" for xs d
  proof (induction xs arbitrary: d)
    case (Cons x xs)
    let ?d = "afterDelete S (fst x) (snd x) d"
    have ih: "syncTracking (fold (\<lambda>(c, r). afterDelete S c r) xs ?d) = syncTracking ?d \<and>
        rowCursor ?d \<le> rowCursor (fold (\<lambda>(c, r). afterDelete S c r) xs ?d)" by (rule Cons.IH)
    from order_trans [OF afterDelete_frame(3) conjunct2 [OF ih]] conjunct1 [OF ih] show ?case by (cases x) simp
  qed simp
  have d: "syncTracking (deleteRow S t k m) = syncTracking m" "rowCursor (deleteRow S t k m) = rowCursor m" for t k
    by (simp_all add: deleteRow_def)
  show ?thesis
  proof (cases st)
    case (InsertRow t r)
    with assms have "m' = afterInsert S t r (setTable t (tables m t @ [r]) m)" by (simp split: if_splits)
    then show ?thesis using afterInsert_frame(2,3) [where m = "setTable t (tables m t @ [r]) m"] by simp
  next
    case (UpdateRow t k r)
    show ?thesis
    proof (cases "rowAt S t k m")
      case (Some old)
      let ?s = "setTable t (upd_where (\<lambda>x. keyOf S t x = k) (\<lambda>_. r) (tables m t)) m"
      have "m' = afterUpdate S t old r ?s" using assms UpdateRow Some by (simp split: if_splits)
      then show ?thesis using afterUpdate_frame(2,3) [where m = ?s] by simp
    qed (use assms UpdateRow in simp)
  next
    case (DeleteRow t k)
    show ?thesis
    proof (cases "rowAt S t k m")
      case (Some old)
      with assms DeleteRow have "m' = fold (\<lambda>(c, r). afterDelete S c r) (cascaded S t k m @ [(t, old)]) (deleteRow S t k m)"
        by simp
      with deletes [of "cascaded S t k m @ [(t, old)]" "deleteRow S t k m"] show ?thesis by (simp only: d)
    qed (use assms DeleteRow in simp)
  qed
qed

lemma statement_covers:
  assumes "schema_ok S" "one_key S m" "syncTracking m" "cCursor from \<le> rowCursor m" "cSeq from \<le> high"
    "seq_fresh S high st m" "runStatement S st m = Inr m'"
  shows "step_covers S from m m'"
proof (cases st)
  case (InsertRow t r)
  show ?thesis using assms(6,7) unfolding InsertRow by (rule covers_insert [OF assms(3,4,5)])
next
  case (UpdateRow t k r)
  show ?thesis using assms(6,7) unfolding UpdateRow by (rule covers_update [OF assms(1-5)])
next
  case (DeleteRow t k)
  show ?thesis using assms(7) unfolding DeleteRow by (rule covers_delete [OF assms(1-4)])
qed

text \<open>\<open>high\<close> is the highest seq handed out.\<close>

definition seqUsed :: "statement \<Rightarrow> int" where
  "seqUsed st = (case st of InsertRow t r \<Rightarrow> seqOf r | UpdateRow t k r \<Rightarrow> seqOf r | DeleteRow t k \<Rightarrow> 0)"

fun runMaster :: "schema \<Rightarrow> statement list \<Rightarrow> int \<times> sync_db \<Rightarrow> sync_error + (int \<times> sync_db)" where
  "runMaster S [] hm = Inr hm"
| "runMaster S (st # sts) hm = ebind (runStatement S st (snd hm)) (\<lambda>m. runMaster S sts (max (fst hm) (seqUsed st), m))"

fun all_fresh :: "schema \<Rightarrow> statement list \<Rightarrow> int \<times> sync_db \<Rightarrow> bool" where
  "all_fresh S [] hm = True"
| "all_fresh S (st # sts) hm = (seq_fresh S (fst hm) st (snd hm) \<and>
     (case runStatement S st (snd hm) of Inl _ \<Rightarrow> True
      | Inr m \<Rightarrow> all_fresh S sts (max (fst hm) (seqUsed st), m)))"

lemma run_in_sync:
  "schema_ok S \<Longrightarrow> one_key S m \<Longrightarrow> syncTracking m \<Longrightarrow> cCursor from \<le> rowCursor m \<Longrightarrow> cSeq from \<le> high \<Longrightarrow>
    all_fresh S sts (high, m) \<Longrightarrow> runMaster S sts (high, m) = Inr (high', m') \<Longrightarrow> in_sync S m f from \<Longrightarrow>
    in_sync S m' f from"
proof (induction sts arbitrary: m high)
  case (Cons st sts)
  obtain m1 where m1: "runStatement S st m = Inr m1" "runMaster S sts (max high (seqUsed st), m1) = Inr (high', m')"
    using Cons.prems(7) by auto
  have fresh: "seq_fresh S high st m" "all_fresh S sts (max high (seqUsed st), m1)" using Cons.prems(6) m1(1) by simp_all
  have "step_covers S from m m1" by (rule statement_covers [OF Cons.prems(1-5) fresh(1) m1(1)])
  then have sync: "in_sync S m1 f from" using Cons.prems(8) by (rule step_in_sync)
  have frame: "syncTracking m1" "cCursor from \<le> rowCursor m1"
    using statement_frame [OF m1(1)] Cons.prems(3,4) by auto
  have "cSeq from \<le> max high (seqUsed st)" using Cons.prems(5) by simp
  from Cons.IH [OF Cons.prems(1) one_key_statement [OF Cons.prems(2) m1(1)] frame this fresh(2) m1(2) sync]
  show ?case .
qed simp

section \<open>The pull\<close>

lemma pull_converges:
  assumes S: "schema_ok S" and m: "db_ok S m" "keyed_rows S m" and f: "db_ok S f" "indexed S f" "syncRole f = Follower"
    and sync: "in_sync S m f (after f)" and nat: "natural_keys_stay S m f"
    and built: "buildDelta J S m (after f) (syncEpoch f) cap = DeltaOk d"
    and J: "readable J (stageValues J (deltaEntries S m (dFrom d) (syncEpoch f)) (dTarget d) (syncEpoch m))"
    and ep: "0 \<le> syncEpoch m" "syncEpoch m \<le> MAX_SAFE_INTEGER"
  shows "\<exists>res g. applyDelta J S now (dFile d) f = Inr (res, g) \<and>
    (\<forall>t \<in> set (copiedTables S). \<forall>k. rowAt S t k g = rowAt S t k m) \<and> indexed S g \<and>
    after g = dTarget d \<and> syncEpoch g = syncEpoch m"
proof -
  have ep_r: "snd (rewound m (after f) (syncEpoch f)) = syncEpoch m"
    by (auto simp: rewound_def Let_def split: option.split)
  have d: "dFrom d = fst (rewound m (after f) (syncEpoch f))"
    "dFile d = writeStage J (deltaEntries S m (dFrom d) (syncEpoch f)) (dTarget d) (syncEpoch m)"
    using built ep_r by (auto simp: buildDelta_def Let_def split: prod.splits if_splits)
  have sync': "in_sync S m f (dFrom d)" using sync rewound_older in_sync_older unfolding d(1) by blast
  obtain lg h where h: "efold (applyEntry S now) (deltaEntries S m (dFrom d) (syncEpoch f))
      (\<lparr>touchedTables = [], touchedPrefKeys = []\<rparr>, f) = Inr (lg, h)"
    "\<forall>t \<in> set (copiedTables S). \<forall>k. rowAt S t k h = rowAt S t k m" "indexed S h" "\<not> danglingIn S h"
    using pull_entries [OF S m f(1,2) sync' nat, where now = now and fe = "syncEpoch f"
        and start_log = "\<lparr>touchedTables = [], touchedPrefKeys = []\<rparr>"] by (elim exE conjE) (rule that)
  have read: "readStage J (dFile d) = Inr (deltaEntries S m (dFrom d) (syncEpoch f), dTarget d, syncEpoch m)"
    unfolding d(2) using J ep by (rule read_written)
  have tx: "applyDeltaTx S now (deltaEntries S m (dFrom d) (syncEpoch f)) (dTarget d) (syncEpoch m) f =
      Inr (lg, h\<lparr>after := dTarget d, syncEpoch := syncEpoch m\<rparr>)"
    using h(1,4) f(3) by (simp add: applyDeltaTx_def)
  have "rowAt S t k (h\<lparr>after := dTarget d, syncEpoch := syncEpoch m\<rparr>) = rowAt S t k h" for t k
    by (simp add: rowAt_def)
  then show ?thesis using h(2,3) by (simp add: applyDelta_def read tx indexed_def)
qed

section \<open>Properties\<close>

text \<open>
  C4: a follower that pulls becomes the master: if its rows were those of the master up to what the
  master has tracked since, then after any sequence of tracked statements of the master (inserts,
  updates, deletes with their cascades, documents with fresh seqs) the stage that buildDelta writes is
  applied without an error and leaves every copied table equal to the master's, the search index that of
  the new documents, and the cursor and epoch at the stage's, also for a follower that is rewound because
  it last applied from an older epoch.
\<close>

theorem pulled_follower_equals_master:
  assumes "schema_ok S" and "one_key S m0" and "syncTracking m0" and "in_sync S m0 f (after f)"
    and "cCursor (after f) \<le> rowCursor m0" and "cSeq (after f) \<le> high"
    and "all_fresh S sts (high, m0)" and "runMaster S sts (high, m0) = Inr (high', m)"
    and "db_ok S m" and "keyed_rows S m" and "db_ok S f" and "indexed S f" and "syncRole f = Follower"
    and "natural_keys_stay S m f"
    and "buildDelta J S m (after f) (syncEpoch f) cap = DeltaOk d"
    and "readable J (stageValues J (deltaEntries S m (dFrom d) (syncEpoch f)) (dTarget d) (syncEpoch m))"
    and "0 \<le> syncEpoch m" and "syncEpoch m \<le> MAX_SAFE_INTEGER"
  shows "\<exists>res g. applyDelta J S now (dFile d) f = Inr (res, g) \<and>
    (\<forall>t \<in> set (copiedTables S). \<forall>k. rowAt S t k g = rowAt S t k m) \<and> indexed S g \<and>
    after g = dTarget d \<and> syncEpoch g = syncEpoch m"
  by (rule pull_converges [OF assms(1,9-13) run_in_sync [OF assms(1-3,5-8,4)] assms(14-18)])

section \<open>An instance\<close>

definition demo_schema :: schema where
  "demo_schema = \<lparr>copiedTables = [''accounts'', ''documents''],
     primaryKeyColumns = (\<lambda>t. [''id'']),
     tableColumns = (\<lambda>t. if t = ''accounts'' then [(''id'', CNull)]
       else [(''id'', CNull), (''account_id'', CNull), (''title'', CNull), (''seq'', CInt 0)]),
     uniques = (\<lambda>t. []),
     references = [(''documents'', ''account_id'', ''accounts'')]\<rparr>"

definition demo_doc :: "string \<Rightarrow> string \<Rightarrow> int \<Rightarrow> row" where
  "demo_doc i ti n = [(''id'', CText i), (''account_id'', CText ''a''), (''title'', CText ti), (''seq'', CInt n)]"

definition demo_tables :: "row list \<Rightarrow> string \<Rightarrow> row list" where
  "demo_tables ds t = (if t = ''accounts'' then [[(''id'', CText ''a'')]] else if t = ''documents'' then ds else [])"

definition demo_docs :: "row list" where
  "demo_docs = [demo_doc ''d'' ''old'' 4, demo_doc ''e'' ''gone'' 5]"

definition demo_master :: sync_db where
  "demo_master = empty_db\<lparr>tables := demo_tables demo_docs, syncRole := Normal, syncTracking := True\<rparr>"

definition demo_follower :: sync_db where
  "demo_follower = empty_db\<lparr>tables := demo_tables demo_docs,
     search := (\<lambda>i. map_option searchText (find (\<lambda>r. [col ''id'' r] = [i]) demo_docs)), after := \<lparr>cSeq = 5, cCursor = 0\<rparr>\<rparr>"

definition demo_statements :: "statement list" where
  "demo_statements = [UpdateRow ''documents'' [CText ''d''] (demo_doc ''d'' ''new'' 6), DeleteRow ''documents'' [CText ''e'']]"

definition demo_after :: sync_db where
  "demo_after = demo_master\<lparr>tables := demo_tables [demo_doc ''d'' ''new'' 6],
     sync_rows := [(1, ''documents'', [CText ''e''])], rowCursor := 1\<rparr>"

definition demo_entries :: "stage_entry list" where
  "demo_entries = [Del ''documents'' [JStr ''e''], Ups ''documents'' (demo_doc ''d'' ''new'' 6)]"

definition demo_codec :: codec where
  "demo_codec = sample_codec demo_entries \<lparr>cSeq = 6, cCursor = 1\<rparr> 0"

definition demo_delta :: delta_ok where
  "demo_delta = \<lparr>dTarget = \<lparr>cSeq = 6, cCursor = 1\<rparr>, dFrom = \<lparr>cSeq = 5, cCursor = 0\<rparr>, dEpoch = 0, dRows = 2,
     dBytes = length (concat (map (entryLine demo_codec) demo_entries)), dSha = ''h'',
     dFile = writeStage demo_codec demo_entries \<lparr>cSeq = 6, cCursor = 1\<rparr> 0\<rparr>"

definition demo_mid :: sync_db where
  "demo_mid = demo_master\<lparr>tables := demo_tables [demo_doc ''d'' ''new'' 6, demo_doc ''e'' ''gone'' 5]\<rparr>"

lemma demo_upd [simp]: "(demo_tables ds)(''documents'' := es) = demo_tables es"
  by (rule ext) (simp add: demo_tables_def)

lemma demo_keys [simp]: "keyOf demo_schema t r = [col ''id'' r]" "references demo_schema = [(''documents'', ''account_id'', ''accounts'')]"
  "uniques demo_schema t = []" "copiedTables demo_schema = [''accounts'', ''documents'']"
  by (simp_all add: keyOf_def demo_schema_def)

lemma demo_cols [simp]: "col ''id'' (demo_doc i ti n) = CText i" "col ''account_id'' (demo_doc i ti n) = CText ''a''"
  "col ''seq'' (demo_doc i ti n) = CInt n" "seqOf (demo_doc i ti n) = n"
  by (simp_all add: demo_doc_def col_def seqOf_def intCol_def)

lemma demo_step1: "runStatement demo_schema (UpdateRow ''documents'' [CText ''d''] (demo_doc ''d'' ''new'' 6)) demo_master = Inr demo_mid"
  by (simp add: demo_master_def demo_mid_def empty_db_def rowAt_def demo_docs_def clash_def parented_def afterUpdate_def
      demo_tables_def [of _ "''documents''"] demo_tables_def [of _ "''accounts''"] setTable_def tracks_def col_def [of _ "[_]"])

lemma demo_step2: "runStatement demo_schema (DeleteRow ''documents'' [CText ''e'']) demo_mid = Inr demo_after"
proof -
  have "(\<lambda>c. filter (\<lambda>r. \<not> (c = ''documents'' \<and> [col ''id'' r] = [CText ''e'']) \<and> \<not> refersTo demo_schema c r ''documents'' [CText ''e''])
      (demo_tables [demo_doc ''d'' ''new'' 6, demo_doc ''e'' ''gone'' 5] c)) = demo_tables [demo_doc ''d'' ''new'' 6]"
    by (rule ext) (simp add: demo_tables_def refersTo_def)
  then show ?thesis
    by (simp add: demo_mid_def demo_after_def demo_master_def empty_db_def rowAt_def demo_tables_def [of _ "''documents''"]
        cascaded_def deleteRow_def afterDelete_def tracks_def trackKey_def)
qed

lemma demo_run: "runMaster demo_schema demo_statements (5, demo_master) = Inr (6, demo_after)"
  by (simp add: demo_statements_def demo_step1 demo_step2 seqUsed_def del: runStatement.simps)

lemma demo_fresh: "all_fresh demo_schema demo_statements (5, demo_master)"
  by (simp add: demo_statements_def demo_step1 demo_step2 seqUsed_def seq_fresh_def del: runStatement.simps)

lemma demo_entries: "deltaEntries demo_schema demo_after \<lparr>cSeq = 5, cCursor = 0\<rparr> 0 = demo_entries"
  by code_simp

lemma demo_built: "buildDelta demo_codec demo_schema demo_after (after demo_follower) (syncEpoch demo_follower) 100 = DeltaOk demo_delta"
proof -
  have "rewound demo_after \<lparr>cSeq = 5, cCursor = 0\<rparr> 0 = (\<lparr>cSeq = 5, cCursor = 0\<rparr>, 0)"
    "deltaTarget demo_after \<lparr>cSeq = 5, cCursor = 0\<rparr> = \<lparr>cSeq = 6, cCursor = 1\<rparr>" by code_simp+
  moreover have "after demo_follower = \<lparr>cSeq = 5, cCursor = 0\<rparr>" "syncEpoch demo_follower = 0"
    by (simp_all add: demo_follower_def empty_db_def)
  moreover have "length (concat (map (entryLine demo_codec) demo_entries)) \<le> 100"
    by (simp add: demo_codec_def sample_codec_def numbered_def entryLine_def demo_entries_def)
  moreover have "sha demo_codec = (\<lambda>_. ''h'')" by (simp add: demo_codec_def sample_codec_def numbered_def)
  ultimately show ?thesis
    by (simp add: buildDelta_def demo_entries demo_delta_def digestOf_def demo_entries_def Let_def)
qed

lemma demo_schema_ok: "schema_ok demo_schema"
  by (simp add: schema_ok_def) (simp add: demo_schema_def)

lemma demo_rows_ok:
  assumes "tables db = demo_tables ds" "\<forall>d \<in> set ds. \<exists>i ti n. d = demo_doc i ti n" "distinct (map (col ''id'') ds)"
  shows "db_ok demo_schema db"
proof -
  have "one_key demo_schema db" unfolding one_key_def assms(1)
    using assms(3) by (auto simp: demo_tables_def distinct_map inj_on_def)
  moreover have "shaped demo_schema db" unfolding shaped_def assms(1)
    using assms(2) by (auto simp: demo_tables_def demo_schema_def demo_doc_def)
  moreover have "owned_docs db" using assms(2) by (auto simp: owned_docs_def assms(1) demo_tables_def)
  moreover have "\<not> danglingIn demo_schema db"
    using assms(2) by (auto simp: danglingIn_def rowAt_def assms(1) demo_tables_def col_def [of _ "[_]"])
  ultimately show ?thesis by (simp add: db_ok_def apart_def clash_def)
qed

theorem pulled_follower_equals_master_witness:
  "\<exists>res g. applyDelta demo_codec demo_schema 7 (dFile demo_delta) demo_follower = Inr (res, g) \<and>
    rowAt demo_schema ''documents'' [CText ''d''] g = Some (demo_doc ''d'' ''new'' 6) \<and>
    rowAt demo_schema ''documents'' [CText ''e''] g = None"
proof -
  have m0: "tables demo_master = demo_tables demo_docs" and f: "tables demo_follower = demo_tables demo_docs"
    and m: "tables demo_after = demo_tables [demo_doc ''d'' ''new'' 6]"
    by (simp_all add: demo_master_def demo_follower_def demo_after_def)
  have docs: "\<forall>d \<in> set demo_docs. \<exists>i ti n. d = demo_doc i ti n" "distinct (map (col ''id'') demo_docs)"
    by (auto simp: demo_docs_def)
  have "\<exists>res g. applyDelta demo_codec demo_schema 7 (dFile demo_delta) demo_follower = Inr (res, g) \<and>
    (\<forall>t \<in> set (copiedTables demo_schema). \<forall>k. rowAt demo_schema t k g = rowAt demo_schema t k demo_after) \<and>
    indexed demo_schema g \<and> after g = dTarget demo_delta \<and> syncEpoch g = syncEpoch demo_after"
  proof (rule pulled_follower_equals_master [OF demo_schema_ok _ _ _ _ _ demo_fresh demo_run _ _ _ _ _ _ demo_built])
    show "one_key demo_schema demo_master" using demo_rows_ok [OF m0 docs] by (simp add: db_ok_def)
    show "syncTracking demo_master" "cCursor (after demo_follower) \<le> rowCursor demo_master"
      "cSeq (after demo_follower) \<le> 5" "syncRole demo_follower = Follower" "0 \<le> syncEpoch demo_after"
      "syncEpoch demo_after \<le> MAX_SAFE_INTEGER"
      by (simp_all add: demo_master_def demo_follower_def demo_after_def empty_db_def MAX_SAFE_INTEGER_def)
    show "in_sync demo_schema demo_master demo_follower (after demo_follower)"
      by (simp add: in_sync_def rowAt_def m0 f)
    show "db_ok demo_schema demo_after" by (rule demo_rows_ok [OF m]) auto
    show "db_ok demo_schema demo_follower" by (rule demo_rows_ok [OF f docs])
    show "keyed_rows demo_schema demo_after" by (simp add: keyed_rows_def demo_after_def demo_schema_def)
    show "indexed demo_schema demo_follower"
      by (simp add: indexed_def rowAt_def f demo_tables_def) (simp add: demo_follower_def)
    show "natural_keys_stay demo_schema demo_after demo_follower" by (simp add: natural_keys_stay_def clash_def)
    have "deltaEntries demo_schema demo_after (dFrom demo_delta) (syncEpoch demo_follower) = demo_entries"
      using demo_entries by (simp add: demo_delta_def demo_follower_def empty_db_def)
    then show "readable demo_codec (stageValues demo_codec (deltaEntries demo_schema demo_after (dFrom demo_delta)
        (syncEpoch demo_follower)) (dTarget demo_delta) (syncEpoch demo_after))"
      using sample_readable [of demo_entries "\<lparr>cSeq = 6, cCursor = 1\<rparr>" 0]
      by (simp add: demo_codec_def demo_delta_def demo_after_def demo_master_def empty_db_def)
  qed
  moreover have "rowAt demo_schema ''documents'' [CText ''d''] demo_after = Some (demo_doc ''d'' ''new'' 6)"
    "rowAt demo_schema ''documents'' [CText ''e''] demo_after = None" by (simp_all add: rowAt_def m demo_tables_def)
  ultimately show ?thesis by auto
qed

end
