(* ===== verification/WriteGuard.thy ===== *)
theory WriteGuard
  imports SyncRole Reconcile FolderScope LedgerRekey
begin

text \<open>
  The wrapper createWriteTx puts around every procedure of the writer (the end of
  src/main/core/store/write-tx.ts), and src/main/core/sync/owned.ts: a device that follows writes only
  the accounts it owns, and each such write is queued for the leader in the same transaction; how a
  batch is split for the queue, and how the leader takes it.
\<close>

section \<open>owned.ts: what an owner sends\<close>

record owned_account =
  oa_id :: string
  oa_source :: string
  oa_identifier :: string
  oa_config :: jobj
  oa_cadence :: "json option"
  oa_owner :: "string option"

text \<open>A batch of an account, or its removal.\<close>

datatype owned_batch = OwnBatch account_batch | OwnRemove string

datatype delivery = BatchDelivery owned_account owned_batch | ScopeDelivery owned_account folder_scope_input

definition MAX_BATCH_BYTES :: nat where
  "MAX_BATCH_BYTES = 16 * 1024 * 1024"

text \<open>The lengths \<open>JSON.stringify\<close> gives a batch and a document.\<close>

record json_sizes =
  batchLength :: "account_batch \<Rightarrow> nat"
  docLength :: "doc_input \<Rightarrow> nat"

fun splitLoop :: "(doc_input \<Rightarrow> nat) \<Rightarrow> nat \<Rightarrow> doc_input list \<Rightarrow> doc_input list \<Rightarrow> nat \<Rightarrow>
    doc_input list list \<Rightarrow> doc_input list list" where
  "splitLoop len budget [] cur sz parts = (if cur = [] then parts else parts @ [cur])"
| "splitLoop len budget (d # ds) cur sz parts = (let n = len d + 1 in
     if cur \<noteq> [] \<and> sz + n > budget then splitLoop len budget ds [d] n (parts @ [cur])
     else splitLoop len budget ds (cur @ [d]) (sz + n) parts)"

definition documentsOnly :: "account_batch \<Rightarrow> doc_input list \<Rightarrow> account_batch" where
  "documentsOnly b docs = \<lparr>ab_account = ab_account b, ab_documents = docs, ab_deletions = [], ab_cursor = None,
     ab_status = None, ab_progress = None, ab_error = None, ab_errorScope = None, ab_relink = []\<rparr>"

fun pieces :: "account_batch \<Rightarrow> doc_input list list \<Rightarrow> account_batch list" where
  "pieces b [] = []"
| "pieces b [docs] = [b\<lparr>ab_documents := docs\<rparr>]"
| "pieces b (docs # later # parts) = documentsOnly b docs # pieces b (later # parts)"

definition budgetOf :: "json_sizes \<Rightarrow> nat \<Rightarrow> account_batch \<Rightarrow> nat" where
  "budgetOf Z maxBytes b = max 1 (maxBytes - batchLength Z (b\<lparr>ab_documents := []\<rparr>))"

definition splitAccountBatch :: "json_sizes \<Rightarrow> nat \<Rightarrow> account_batch \<Rightarrow> account_batch list" where
  "splitAccountBatch Z maxBytes b =
     (if length (ab_documents b) < 2 \<or> batchLength Z b \<le> maxBytes then [b]
      else pieces b (splitLoop (docLength Z) (budgetOf Z maxBytes b) (ab_documents b) [] 0 []))"

fun splitBatch :: "json_sizes \<Rightarrow> nat \<Rightarrow> owned_batch \<Rightarrow> owned_batch list" where
  "splitBatch Z maxBytes (OwnBatch b) = map OwnBatch (splitAccountBatch Z maxBytes b)"
| "splitBatch Z maxBytes (OwnRemove i) = [OwnRemove i]"

section \<open>owned.ts: how the leader takes it\<close>

definition ownedRow :: "time \<Rightarrow> owned_account \<Rightarrow> account_row" where
  "ownedRow now a = \<lparr>aid = oa_id a, source = oa_source a, ident = oa_identifier a, config = Some (oa_config a),
     status = Paused, acursor = None, progress = None, last_sync_at = None, last_error = None,
     cadence = oa_cadence a, acreated_at = now, owner_device_id = oa_owner a\<rparr>"

fun movedBatch :: "string \<Rightarrow> owned_batch \<Rightarrow> commit_batch" where
  "movedBatch i (OwnBatch b) = AccountBatch (b\<lparr>ab_account := i\<rparr>)"
| "movedBatch i (OwnRemove _) = RemoveAccount i"

fun runCommitBatch :: "nat \<Rightarrow> deps \<Rightarrow> time \<Rightarrow> delivery \<Rightarrow> store \<Rightarrow> (tx_error + store) option" where
  "runCommitBatch fuel D now (ScopeDelivery a scope) s =
     (case findAccount (oa_source a) (oa_identifier a) s of
        None \<Rightarrow> Some (Inr s)
      | Some r \<Rightarrow> map_option (\<lambda>m. ebind m (\<lambda>(_, t). Inr t))
          (applyFolderScope fuel now (scope\<lparr>fi_account := aid r, fi_expected := config r\<rparr>) s))"
| "runCommitBatch fuel D now (BatchDelivery a b) s = Some
     (case findAccount (oa_source a) (oa_identifier a) s of
        Some r \<Rightarrow> ebind (commit D now (movedBatch (aid r) b) s) (\<lambda>(_, t). Inr t)
      | None \<Rightarrow> (case b of
          OwnRemove _ \<Rightarrow> Inr s
        | OwnBatch _ \<Rightarrow> ebind (insertAccount (ownedRow now a) s) (\<lambda>s1.
            ebind (commit D now (movedBatch (oa_id a) b) s1) (\<lambda>(_, t). Inr t))))"

section \<open>The procedures of the writer\<close>

datatype write_call =
    CallCommit commit_batch
  | CallAccountWrite account_write_op
  | CallImportSources string string "import_entry list"
  | CallImportSecrets "secret_entry list"
  | CallReconcileBegin string
  | CallReconcileStage string "external_ref list"
  | CallReconcileDiff string nat
  | CallReconcileArchiveChunk string nat nat
  | CallReconcileEnd string
  | CallApplyFolderScope folder_scope_input
  | CallRekeyLedgerPage nat

datatype write_result =
    Committed nat bool
  | WroteAccount string bool
  | Imported import_result
  | ImportedSecrets nat
  | Staged
  | Counted reconcile_counts
  | Chunked chunk_result
  | Scoped folder_scope_result
  | Rekeyed rekey_page_result

fun procedureName :: "write_call \<Rightarrow> string" where
  "procedureName (CallCommit b) = ''commit''"
| "procedureName (CallAccountWrite w) = ''accountWrite''"
| "procedureName (CallImportSources off dev es) = ''importSources''"
| "procedureName (CallImportSecrets es) = ''importSecrets''"
| "procedureName (CallReconcileBegin i) = ''reconcileBegin''"
| "procedureName (CallReconcileStage i rs) = ''reconcileStage''"
| "procedureName (CallReconcileDiff i n) = ''reconcileDiff''"
| "procedureName (CallReconcileArchiveChunk i n l) = ''reconcileArchiveChunk''"
| "procedureName (CallReconcileEnd i) = ''reconcileEnd''"
| "procedureName (CallApplyFolderScope f) = ''applyFolderScope''"
| "procedureName (CallRekeyLedgerPage n) = ''rekeyLedgerPage''"

definition ret :: "('a \<Rightarrow> write_result) \<Rightarrow> tx_error + ('a \<times> store) \<Rightarrow> tx_error + (write_result \<times> store)" where
  "ret f m = ebind m (\<lambda>(r, t). Inr (f r, t))"

fun realCall :: "nat \<Rightarrow> deps \<Rightarrow> time \<Rightarrow> write_call \<Rightarrow> store \<Rightarrow> (tx_error + (write_result \<times> store)) option" where
  "realCall fuel D now (CallCommit b) s = Some (ret (\<lambda>(q, l). Committed q l) (commit D now b s))"
| "realCall fuel D now (CallAccountWrite w) s = Some (ret (\<lambda>(i, c). WroteAccount i c) (accountWrite D now w s))"
| "realCall fuel D now (CallImportSources off dev es) s = Some (ret Imported (importSources D now off dev es s))"
| "realCall fuel D now (CallImportSecrets es) s = Some (ret ImportedSecrets (importSecretsTx es s))"
| "realCall fuel D now (CallReconcileBegin i) s = Some (Inr (Staged, beginPass i s))"
| "realCall fuel D now (CallReconcileStage i rs) s = Some (ebind (reconcileStage i rs s) (\<lambda>t. Inr (Staged, t)))"
| "realCall fuel D now (CallReconcileDiff i n) s = Some (ebind (reconcileDiff i n s) (\<lambda>c. Inr (Counted c, s)))"
| "realCall fuel D now (CallReconcileArchiveChunk i n l) s = Some (ret Chunked (reconcileArchiveChunk now i n l s))"
| "realCall fuel D now (CallReconcileEnd i) s = Some (Inr (Staged, endPass i s))"
| "realCall fuel D now (CallApplyFolderScope f) s = map_option (ret Scoped) (applyFolderScope fuel now f s)"
| "realCall fuel D now (CallRekeyLedgerPage n) s = Some (ret Rekeyed (Inr (rekeyLedgerPageTx now n s)))"

section \<open>The guard\<close>

text \<open>\<open>ownerOf\<close>: the account a call is for; None when it is for none, or not in the table.\<close>

fun ownerOfCall :: "write_call \<Rightarrow> string option" where
  "ownerOfCall (CallCommit (AccountBatch b)) = Some (ab_account b)"
| "ownerOfCall (CallCommit (RemoveAccount i)) = Some i"
| "ownerOfCall (CallAccountWrite (CadenceOp i c)) = Some i"
| "ownerOfCall (CallAccountWrite (ConfigOp i c)) = Some i"
| "ownerOfCall (CallAccountWrite (OptionOp i k v)) = Some i"
| "ownerOfCall (CallAccountWrite (StatusOp i st e sc)) = Some i"
| "ownerOfCall (CallReconcileBegin i) = Some i"
| "ownerOfCall (CallReconcileStage i rs) = Some i"
| "ownerOfCall (CallReconcileDiff i n) = Some i"
| "ownerOfCall (CallReconcileArchiveChunk i n l) = Some i"
| "ownerOfCall (CallReconcileEnd i) = Some i"
| "ownerOfCall (CallApplyFolderScope f) = Some (fi_account f)"
| "ownerOfCall _ = None"

definition ownedByMe :: "string \<Rightarrow> store \<Rightarrow> bool" where
  "ownedByMe i s = (case getAccountRow i s of None \<Rightarrow> False | Some a \<Rightarrow> ownedByThisDevice s a)"

fun ownerMayWrite :: "write_call \<Rightarrow> store \<Rightarrow> bool" where
  "ownerMayWrite (CallAccountWrite (CreateOp src idt cfg st cad)) s \<longleftrightarrow> isDeviceOwned src \<and> ownerOpen (sync_state s)"
| "ownerMayWrite (CallAccountWrite (GetOrCreateOp src idt)) s \<longleftrightarrow> isDeviceOwned src \<and> ownerOpen (sync_state s)"
| "ownerMayWrite c s \<longleftrightarrow> (case ownerOfCall c of None \<Rightarrow> False | Some i \<Rightarrow> ownedByMe i s)"

text \<open>A config that does not parse throws.\<close>

definition ownedAccountOf :: "string \<Rightarrow> store \<Rightarrow> tx_error + owned_account option" where
  "ownedAccountOf i s = (case getAccountRow i s of
     None \<Rightarrow> Inr None
   | Some a \<Rightarrow> (case config a of
       None \<Rightarrow> Inl BadJson
     | Some c \<Rightarrow> Inr (Some \<lparr>oa_id = aid a, oa_source = source a, oa_identifier = ident a, oa_config = c,
         oa_cadence = cadence a, oa_owner = owner_device_id a\<rparr>)))"

text \<open>The writer's database with the table of deliveries that wait to be sent.\<close>

record writer =
  wdb :: store
  sync_outbound :: "(delivery \<times> time) list"

definition queueOwned :: "json_sizes \<Rightarrow> time \<Rightarrow> owned_account \<Rightarrow> owned_batch \<Rightarrow> (delivery \<times> time) list \<Rightarrow>
    (delivery \<times> time) list" where
  "queueOwned Z now a b out = out @ map (\<lambda>p. (BatchDelivery a p, now)) (splitBatch Z MAX_BATCH_BYTES b)"

definition queueFor :: "(owned_account \<Rightarrow> (delivery \<times> time) list \<Rightarrow> (delivery \<times> time) list) \<Rightarrow>
    owned_account option \<Rightarrow> (delivery \<times> time) list \<Rightarrow> (delivery \<times> time) list" where
  "queueFor f a out = (case a of None \<Rightarrow> out | Some x \<Rightarrow> f x out)"

text \<open>\<open>refs\<close>: what the archive collected, \<open>stale\<close>: the scope edit changed nothing.\<close>

definition deliveriesOf :: "json_sizes \<Rightarrow> time \<Rightarrow> write_call \<Rightarrow> write_result \<Rightarrow> external_ref list \<Rightarrow>
    owned_account option \<Rightarrow> (delivery \<times> time) list \<Rightarrow> (delivery \<times> time) list" where
  "deliveriesOf Z now c r refs a out = (case c of
     CallReconcileArchiveChunk i n l \<Rightarrow>
       if refs = [] then out
       else queueFor (\<lambda>x. queueOwned Z now x (OwnBatch \<lparr>ab_account = oa_id x, ab_documents = [], ab_deletions = refs,
         ab_cursor = None, ab_status = None, ab_progress = None, ab_error = None, ab_errorScope = None,
         ab_relink = []\<rparr>)) a out
   | CallApplyFolderScope f \<Rightarrow>
       (case r of Scoped x \<Rightarrow> if fr_stale x then out else queueFor (\<lambda>x o1. o1 @ [(ScopeDelivery x f, now)]) a out
        | _ \<Rightarrow> out)
   | CallCommit (AccountBatch b) \<Rightarrow> queueFor (\<lambda>x. queueOwned Z now x (OwnBatch b)) a out
   | CallCommit (RemoveAccount i) \<Rightarrow> queueFor (\<lambda>x. queueOwned Z now x (OwnRemove i)) a out
   | _ \<Rightarrow> out)"

definition collects :: "write_call \<Rightarrow> bool" where
  "collects c = (case c of CallReconcileArchiveChunk i n l \<Rightarrow> True | CallApplyFolderScope f \<Rightarrow> True | _ \<Rightarrow> False)"

definition delivers :: "write_call \<Rightarrow> bool" where
  "delivers c = (case c of CallCommit b \<Rightarrow> True | _ \<Rightarrow> collects c)"

text \<open>The owner's branch: the call and its delivery rows in one transaction.\<close>

definition ownerCall :: "json_sizes \<Rightarrow> nat \<Rightarrow> deps \<Rightarrow> time \<Rightarrow> write_call \<Rightarrow> writer \<Rightarrow>
    (tx_error + (write_result \<times> writer)) option" where
  "ownerCall Z fuel D now c w = (case ownerOfCall c of
     None \<Rightarrow> None
   | Some i \<Rightarrow> (case ownedAccountOf i (wdb w) of
       Inl e \<Rightarrow> Some (Inl e)
     | Inr a \<Rightarrow> map_option (\<lambda>m. ebind m (\<lambda>(r, t).
         let refs = (case archivedRefs t of None \<Rightarrow> [] | Some rs \<Rightarrow> rs);
             t1 = (if collects c then t\<lparr>archivedRefs := None\<rparr> else t)
         in Inr (r, \<lparr>wdb = t1, sync_outbound = deliveriesOf Z now c r refs a (sync_outbound w)\<rparr>)))
         (realCall fuel D now c (if collects c then (wdb w)\<lparr>archivedRefs := Some []\<rparr> else wdb w))))"

definition plainCall :: "nat \<Rightarrow> deps \<Rightarrow> time \<Rightarrow> write_call \<Rightarrow> writer \<Rightarrow> (tx_error + (write_result \<times> writer)) option" where
  "plainCall fuel D now c w = map_option (\<lambda>m. ebind m (\<lambda>(r, t). Inr (r, w\<lparr>wdb := t\<rparr>))) (realCall fuel D now c (wdb w))"

definition readOnlyNow :: "bool \<Rightarrow> store \<Rightarrow> bool" where
  "readOnlyNow fenced s \<longleftrightarrow> fenced \<or> gateFrom (toGate (Some (sync_state s)))"

definition exempt :: "write_call \<Rightarrow> bool" where
  "exempt c = (case c of CallImportSecrets es \<Rightarrow> True | _ \<Rightarrow> False)"

definition guardedCall :: "bool \<Rightarrow> json_sizes \<Rightarrow> nat \<Rightarrow> deps \<Rightarrow> time \<Rightarrow> write_call \<Rightarrow> writer \<Rightarrow>
    (tx_error + (write_result \<times> writer)) option" where
  "guardedCall fenced Z fuel D now c w =
     (if exempt c \<or> \<not> readOnlyNow fenced (wdb w) then plainCall fuel D now c w
      else if fenced \<or> \<not> ownerMayWrite c (wdb w) then Some (Inl (SyncReadOnly (procedureName c)))
      else if delivers c then ownerCall Z fuel D now c w
      else plainCall fuel D now c w)"

end
