(* ===== verification/WriteGuardProps.thy ===== *)
theory WriteGuardProps
  imports WriteGuard CommitProps
begin

text \<open>
  What the writer's guard promises on a device that follows or is fenced, that the pieces of a split
  batch make up the batch and fit, and that the leader may be sent a batch twice.
\<close>

section \<open>Splitting\<close>

definition weight :: "(doc_input \<Rightarrow> nat) \<Rightarrow> doc_input list \<Rightarrow> nat" where
  "weight len ds = sum_list (map (\<lambda>d. len d + 1) ds)"

lemma weight_simps [simp]:
  "weight len [] = 0" "weight len (d # ds) = len d + 1 + weight len ds"
  "weight len (xs @ ys) = weight len xs + weight len ys"
  by (simp_all add: weight_def)

lemma splitLoop_concat: "concat (splitLoop len budget ds cur sz parts) = concat parts @ cur @ ds"
  by (induction ds arbitrary: cur sz parts) (auto simp: Let_def)

definition fits :: "(doc_input \<Rightarrow> nat) \<Rightarrow> nat \<Rightarrow> doc_input list \<Rightarrow> bool" where
  "fits len budget p \<longleftrightarrow> p \<noteq> [] \<and> (weight len p \<le> budget \<or> length p = 1)"

lemma splitLoop_fits:
  "\<forall>p \<in> set parts. fits len budget p \<Longrightarrow> sz = weight len cur \<Longrightarrow> cur = [] \<or> fits len budget cur \<Longrightarrow>
    \<forall>p \<in> set (splitLoop len budget ds cur sz parts). fits len budget p"
proof (induction ds arbitrary: cur sz parts)
  case Nil
  then show ?case by auto
next
  case (Cons d ds)
  show ?case
  proof (cases "cur \<noteq> [] \<and> sz + (len d + 1) > budget")
    case True
    have "\<forall>p \<in> set (parts @ [cur]). fits len budget p" using Cons.prems(1,3) True by auto
    moreover have "fits len budget [d]" by (simp add: fits_def)
    moreover have step: "splitLoop len budget (d # ds) cur sz parts = splitLoop len budget ds [d] (len d + 1) (parts @ [cur])"
      using True by (simp add: Let_def)
    ultimately show ?thesis unfolding step by (intro Cons.IH) simp_all
  next
    case False
    have "fits len budget (cur @ [d])" using False Cons.prems(2) by (auto simp: fits_def)
    moreover have step: "splitLoop len budget (d # ds) cur sz parts = splitLoop len budget ds (cur @ [d]) (sz + (len d + 1)) parts"
      using False by (auto simp: Let_def)
    ultimately show ?thesis unfolding step using Cons.prems(1,2) by (intro Cons.IH) simp_all
  qed
qed

lemma pieces_documents: "map ab_documents (pieces b parts) = parts"
  by (induction b parts rule: pieces.induct) (simp_all add: documentsOnly_def)

lemma pieces_shape:
  "parts \<noteq> [] \<Longrightarrow> pieces b parts = map (documentsOnly b) (butlast parts) @ [b\<lparr>ab_documents := last parts\<rparr>]"
  by (induction b parts rule: pieces.induct) simp_all

lemma splitLoop_nonempty: "ds \<noteq> [] \<Longrightarrow> splitLoop len budget ds [] 0 [] \<noteq> []"
  using splitLoop_concat [of len budget ds "[]" 0 "[]"] by auto

lemma split_concat: "concat (map ab_documents (splitAccountBatch Z n b)) = ab_documents b"
  by (simp add: splitAccountBatch_def pieces_documents splitLoop_concat)

lemma split_shape:
  "\<exists>parts lst. splitAccountBatch Z n b = map (documentsOnly b) parts @ [b\<lparr>ab_documents := lst\<rparr>]"
proof (cases "length (ab_documents b) < 2 \<or> batchLength Z b \<le> n")
  case True
  then show ?thesis
    by (intro exI [of _ "[]"] exI [of _ "ab_documents b"]) (simp add: splitAccountBatch_def)
next
  case False
  then have "ab_documents b \<noteq> []" by auto
  from pieces_shape [OF splitLoop_nonempty [OF this]] False show ?thesis
    by (auto simp: splitAccountBatch_def)
qed

text \<open>
  What \<open>JSON.stringify\<close> guarantees of the lengths: the documents of a batch add their own length and a
  comma each, and leaving properties out makes the text no longer.
\<close>

definition json_lengths :: "json_sizes \<Rightarrow> account_batch \<Rightarrow> bool" where
  "json_lengths Z b \<longleftrightarrow> (\<forall>ds. batchLength Z (b\<lparr>ab_documents := ds\<rparr>) \<le>
       batchLength Z (b\<lparr>ab_documents := []\<rparr>) + weight (docLength Z) ds \<and>
     batchLength Z (documentsOnly b ds) \<le> batchLength Z (b\<lparr>ab_documents := ds\<rparr>))"

lemma split_bound:
  assumes "json_lengths Z b" "p \<in> set (splitAccountBatch Z n b)"
  shows "batchLength Z p \<le> n \<or> length (ab_documents p) \<le> 1"
proof (cases "length (ab_documents b) < 2 \<or> batchLength Z b \<le> n")
  case True
  with assms(2) show ?thesis by (auto simp: splitAccountBatch_def)
next
  case False
  let ?parts = "splitLoop (docLength Z) (budgetOf Z n b) (ab_documents b) [] 0 []"
  have p: "p \<in> set (pieces b ?parts)" using assms(2) False by (simp add: splitAccountBatch_def)
  have "ab_documents p \<in> set (map ab_documents (pieces b ?parts))" using p by simp
  then have "ab_documents p \<in> set ?parts" by (simp only: pieces_documents)
  then have fit: "fits (docLength Z) (budgetOf Z n b) (ab_documents p)"
    using splitLoop_fits [of "[]" "docLength Z" "budgetOf Z n b" 0 "[]" "ab_documents b"] by simp
  have "ab_documents b \<noteq> []" using False by auto
  from p pieces_shape [OF splitLoop_nonempty [OF this]]
  have "p = documentsOnly b (ab_documents p) \<or> p = b\<lparr>ab_documents := ab_documents p\<rparr>"
    by (auto simp: documentsOnly_def)
  with assms(1) have len: "batchLength Z p \<le> batchLength Z (b\<lparr>ab_documents := []\<rparr>) + weight (docLength Z) (ab_documents p)"
    unfolding json_lengths_def by (metis order_trans)
  have w: "weight (docLength Z) ds \<ge> length ds" for ds by (induction ds) simp_all
  show ?thesis
  proof (cases "n \<le> batchLength Z (b\<lparr>ab_documents := []\<rparr>)")
    case True
    then have "budgetOf Z n b = 1" by (simp add: budgetOf_def)
    with fit w [of "ab_documents p"] show ?thesis by (auto simp: fits_def)
  next
    case False
    then have "budgetOf Z n b + batchLength Z (b\<lparr>ab_documents := []\<rparr>) = n" by (simp add: budgetOf_def)
    with fit len show ?thesis by (auto simp: fits_def)
  qed
qed

section \<open>The guard\<close>

lemma getAccountRow_aid: "getAccountRow i s = Some a \<Longrightarrow> aid a = i"
  by (blast dest: getAccountRow_Some)

lemma guarded_owner:
  assumes "readOnlyNow fenced (wdb w)" "\<not> exempt c" "guardedCall fenced Z fuel D now c w = Some (Inr (r, w'))"
  shows "\<not> fenced \<and> ownerMayWrite c (wdb w)"
  using assms by (auto simp: guardedCall_def split: if_splits)

lemma ownerMayWrite_named:
  assumes "ownerMayWrite c s" "ownerOfCall c = Some i"
  shows "\<exists>a. getAccountRow i s = Some a \<and> ownedByThisDevice s a"
proof -
  have "ownedByMe i s" using assms by (cases "(c, s)" rule: ownerMayWrite.cases) auto
  then show ?thesis by (auto simp: ownedByMe_def split: option.splits)
qed

lemma ownerMayWrite_unnamed:
  assumes "ownerMayWrite c s" "ownerOfCall c = None"
  shows "ownerOpen (sync_state s) \<and> (\<exists>src idt. isDeviceOwned src \<and>
    ((\<exists>cfg st cad. c = CallAccountWrite (CreateOp src idt cfg st cad)) \<or> c = CallAccountWrite (GetOrCreateOp src idt)))"
  using assms by (cases "(c, s)" rule: ownerMayWrite.cases) auto

lemma guarded_commit:
  assumes "readOnlyNow fenced (wdb w)"
    and "guardedCall fenced Z fuel D now (CallCommit (AccountBatch b)) w = Some (Inr (r, w'))"
  obtains a c where "getAccountRow (ab_account b) (wdb w) = Some a" "ownedByThisDevice (wdb w) a" "config a = Some c"
    "commit D now (AccountBatch b) (wdb w) = Inr ((case r of Committed q l \<Rightarrow> (q, l)), wdb w')"
    "sync_outbound w' = queueOwned Z now \<lparr>oa_id = aid a, oa_source = source a, oa_identifier = ident a, oa_config = c,
       oa_cadence = cadence a, oa_owner = owner_device_id a\<rparr> (OwnBatch b) (sync_outbound w)"
proof -
  have may: "ownerMayWrite (CallCommit (AccountBatch b)) (wdb w)" "\<not> fenced"
    using guarded_owner [OF assms(1) _ assms(2)] by (auto simp: exempt_def)
  obtain a where a: "getAccountRow (ab_account b) (wdb w) = Some a" "ownedByThisDevice (wdb w) a"
    using ownerMayWrite_named [OF may(1)] by auto
  have own: "ownerCall Z fuel D now (CallCommit (AccountBatch b)) w = Some (Inr (r, w'))"
    using assms may by (simp add: guardedCall_def exempt_def delivers_def)
  then obtain c where c: "config a = Some c"
    by (cases "config a") (auto simp: ownerCall_def ownedAccountOf_def a(1))
  show ?thesis
  proof (rule that [OF a c])
    show "commit D now (AccountBatch b) (wdb w) = Inr ((case r of Committed q l \<Rightarrow> (q, l)), wdb w')"
      using own by (auto simp: ownerCall_def ownedAccountOf_def a(1) c ret_def collects_def Let_def)
    show "sync_outbound w' = queueOwned Z now \<lparr>oa_id = aid a, oa_source = source a, oa_identifier = ident a,
        oa_config = c, oa_cadence = cadence a, oa_owner = owner_device_id a\<rparr> (OwnBatch b) (sync_outbound w)"
      using own by (auto simp: ownerCall_def ownedAccountOf_def a(1) c ret_def collects_def Let_def deliveriesOf_def queueFor_def)
  qed
qed

section \<open>Taking a batch twice\<close>

lemma findAccount_committed:
  assumes "accounts t = upd_where (\<lambda>a. aid a = i) (committedAccount now b) (accounts s)"
  shows "findAccount src idt t = map_option (\<lambda>a. if aid a = i then committedAccount now b a else a) (findAccount src idt s)"
  unfolding findAccount_def assms by (rule find_upd_where) (simp add: committedAccount_def)

lemma consistent_moved: "consistent (b\<lparr>ab_account := i\<rparr>) = consistent b"
  by (simp add: consistent_def)

lemma run_batch_commits:
  assumes "runCommitBatch fuel D now (BatchDelivery a (OwnBatch b)) s = Some (Inr t)" "store_inv D s"
  obtains s1 x r where "findAccount (oa_source a) (oa_identifier a) s1 = Some x" "store_inv D s1"
    "commit D now (AccountBatch (b\<lparr>ab_account := aid x\<rparr>)) s1 = Inr (r, t)"
proof (cases "findAccount (oa_source a) (oa_identifier a) s")
  case (Some x)
  with assms(1) obtain r where "commit D now (AccountBatch (b\<lparr>ab_account := aid x\<rparr>)) s = Inr (r, t)" by auto
  with Some assms(2) show ?thesis by (rule that)
next
  case None
  with assms(1) obtain s1 r where s1: "insertAccount (ownedRow now a) s = Inr s1"
    and c: "commit D now (AccountBatch (b\<lparr>ab_account := oa_id a\<rparr>)) s1 = Inr (r, t)" by auto
  have "findAccount (oa_source a) (oa_identifier a) s1 = Some (ownedRow now a)"
    using s1 None by (auto simp: insertAccount_Inr findAccount_def find_append ownedRow_def)
  moreover have "store_inv D s1" by (rule store_inv_insertAccount [OF s1 assms(2)])
  moreover have "aid (ownedRow now a) = oa_id a" by (simp add: ownedRow_def)
  ultimately show ?thesis using that c by metis
qed

lemma run_batch_again:
  assumes "runCommitBatch fuel D now (BatchDelivery a (OwnBatch b)) s = Some (Inr t)" "store_inv D s" "consistent b"
  shows "\<exists>x u. findAccount (oa_source a) (oa_identifier a) t = Some x \<and>
    runCommitBatch fuel' D now' (BatchDelivery a (OwnBatch b)) t = Some (Inr u) \<and>
    documents u = documents t \<and> documents_fts u = documents_fts t \<and> map aid (accounts u) = map aid (accounts t) \<and>
    (\<forall>inp \<in> set (ab_documents b). \<exists>d. findDocRow (aid x) (in_ref inp) t = Some d \<and> archived_at d = None \<and>
       content_hash d = contentHash D inp)"
proof -
  obtain s1 x r where x: "findAccount (oa_source a) (oa_identifier a) s1 = Some x" "store_inv D s1"
    "commit D now (AccountBatch (b\<lparr>ab_account := aid x\<rparr>)) s1 = Inr (r, t)"
    using run_batch_commits [OF assms(1,2)] .
  let ?b = "b\<lparr>ab_account := aid x\<rparr>"
  have cons: "consistent ?b" using assms(3) by (simp only: consistent_moved)
  have accs: "accounts t = upd_where (\<lambda>a. aid a = ab_account ?b) (committedAccount now ?b) (accounts s1)"
    by (rule commit_lands_aux [OF x(2,3) cons])
  obtain y where y: "findAccount (oa_source a) (oa_identifier a) t = Some y" "aid y = aid x"
    using findAccount_committed [OF accs] x(1) by (auto simp: committedAccount_def)
  obtain q l u where u: "commit D now' (AccountBatch ?b) t = Inr ((q, l), u)" "documents u = documents t"
    "documents_fts u = documents_fts t"
    using commit_again_lib [OF x(2,3) cons, of now'] by blast
  have inv: "store_inv D t" by (rule commit_keeps_invariant_lib [OF x(2,3)])
  have "accounts u = upd_where (\<lambda>a. aid a = ab_account ?b) (committedAccount now' ?b) (accounts t)"
    by (rule commit_lands_aux [OF inv u(1) cons])
  then have "map aid (accounts u) = map aid (accounts t)" by (simp add: map_upd_where committedAccount_def)
  moreover have "runCommitBatch fuel' D now' (BatchDelivery a (OwnBatch b)) t = Some (Inr u)"
    using y u(1) by simp
  moreover have "\<forall>inp \<in> set (ab_documents b). \<exists>d. findDocRow (aid y) (in_ref inp) t = Some d \<and> archived_at d = None \<and>
      content_hash d = contentHash D inp"
    using commit_lands_lib [OF x(2,3) cons] y(2) by auto
  ultimately show ?thesis using y(1) u(2,3) by blast
qed

section \<open>An owner and a leader\<close>

definition own_store :: store where
  "own_store = empty_store\<lparr>
     accounts := [(sample_account ''a'')\<lparr>source := ''whatsapp'', owner_device_id := Some ''dev''\<rparr>],
     sync_state := empty_sync\<lparr>role := Follower, joined := True\<rparr>\<rparr>"

definition own_writer :: writer where
  "own_writer = \<lparr>wdb = own_store, sync_outbound = []\<rparr>"

definition even_sizes :: json_sizes where
  "even_sizes = \<lparr>batchLength = (\<lambda>b. 20 + weight (\<lambda>_. 30) (ab_documents b)), docLength = (\<lambda>_. 30)\<rparr>"

lemma own_commit: "\<exists>q l t. commit sample_deps 1000 (AccountBatch parent_and_child) own_store = Inr ((q, l), t)"
proof -
  have "(case commit sample_deps 1000 (AccountBatch parent_and_child) own_store of Inr _ \<Rightarrow> True | Inl _ \<Rightarrow> False)"
    by code_simp
  then show ?thesis by (auto split: sum.splits)
qed

lemma own_call_returns:
  "\<exists>r w'. guardedCall False even_sizes 0 sample_deps 1000 (CallCommit (AccountBatch parent_and_child)) own_writer =
     Some (Inr (r, w'))"
proof -
  have may: "ownedByMe (ab_account parent_and_child) own_store" by code_simp
  have ro: "readOnlyNow False own_store" by code_simp
  have acct: "getAccountRow (ab_account parent_and_child) own_store =
      Some ((sample_account ''a'')\<lparr>source := ''whatsapp'', owner_device_id := Some ''dev''\<rparr>)"
    by (simp add: getAccountRow_def own_store_def parent_and_child_def sample_batch_def sample_account_def)
  show ?thesis using own_commit
    by (auto simp: guardedCall_def own_writer_def may ro exempt_def delivers_def ownerCall_def ownedAccountOf_def acct
        collects_def ret_def Let_def sample_account_def)
qed

lemma own_read_only: "readOnlyNow False (wdb own_writer)" by code_simp

definition from_owner :: owned_account where
  "from_owner = \<lparr>oa_id = ''a'', oa_source = ''whatsapp'', oa_identifier = ''a'', oa_config = [], oa_cadence = None,
     oa_owner = Some ''dev''\<rparr>"

definition taken_once :: store where
  "taken_once = (case runCommitBatch 0 sample_deps 1000 (BatchDelivery from_owner (OwnBatch parent_and_child)) empty_store of
     Some (Inr t) \<Rightarrow> t | _ \<Rightarrow> empty_store)"

lemma taken_once_run:
  "runCommitBatch 0 sample_deps 1000 (BatchDelivery from_owner (OwnBatch parent_and_child)) empty_store = Some (Inr taken_once)"
proof -
  have "(case runCommitBatch 0 sample_deps 1000 (BatchDelivery from_owner (OwnBatch parent_and_child)) empty_store of
      Some (Inr _) \<Rightarrow> True | _ \<Rightarrow> False)" by code_simp
  then show ?thesis unfolding taken_once_def by (auto split: option.splits sum.splits)
qed

section \<open>Properties\<close>

text \<open>
  C9: on a device that follows, is joining or is fenced, no procedure of the writer but the two that take
  the leader's data does anything, except on a joined follower that is not fenced, for an account of a
  device-owned source whose owner is this device, or to create such an account; every other call throws
  SyncReadOnly.
\<close>

theorem gated_writer_writes_only_owned:
  assumes "readOnlyNow fenced (wdb w)" and "\<not> exempt c"
  shows "guardedCall fenced Z fuel D now c w = Some (Inl (SyncReadOnly (procedureName c))) \<or>
    (\<not> fenced \<and> ownerOpen (sync_state (wdb w)) \<and> (case ownerOfCall c of
       Some i \<Rightarrow> \<exists>a. getAccountRow i (wdb w) = Some a \<and> isDeviceOwned (source a) \<and>
         owner_device_id a = device_id (sync_state (wdb w))
     | None \<Rightarrow> \<exists>src idt. isDeviceOwned src \<and> ((\<exists>cfg st cad. c = CallAccountWrite (CreateOp src idt cfg st cad)) \<or>
         c = CallAccountWrite (GetOrCreateOp src idt))))"
proof (cases "fenced \<or> \<not> ownerMayWrite c (wdb w)")
  case True
  with assms show ?thesis by (simp add: guardedCall_def)
next
  case False
  then have may: "ownerMayWrite c (wdb w)" "\<not> fenced" by simp_all
  show ?thesis
  proof (cases "ownerOfCall c")
    case None
    with ownerMayWrite_unnamed [OF may(1) None] may(2) show ?thesis by auto
  next
    case (Some i)
    with ownerMayWrite_named [OF may(1) Some] may(2) show ?thesis by (auto simp: ownedByThisDevice_def)
  qed
qed

theorem gated_writer_writes_only_owned_witness:
  "guardedCall False even_sizes 0 sample_deps 1000 (CallCommit (PurgeArchived 7)) own_writer =
    Some (Inl (SyncReadOnly ''commit''))"
  using gated_writer_writes_only_owned [OF own_read_only, of "CallCommit (PurgeArchived 7)" even_sizes 0 sample_deps 1000]
  by (simp add: exempt_def)

text \<open>
  C35: an owner's batch that was committed while the device follows is queued for the leader in the same
  transaction: the new rows of the queue are pieces that carry the account's row, their documents are the
  batch's in their order, only the last one carries the cursor and the rest of the batch, and the corpus
  is the one an unguarded commit of the batch leaves.
\<close>

theorem owner_commit_is_queued:
  assumes "readOnlyNow fenced (wdb w)"
    and "guardedCall fenced Z fuel D now (CallCommit (AccountBatch b)) w = Some (Inr (r, w'))"
  shows "\<exists>acc parts lst res. oa_id acc = ab_account b \<and>
    sync_outbound w' = sync_outbound w @ map (\<lambda>p. (BatchDelivery acc (OwnBatch p), now))
      (map (documentsOnly b) parts @ [b\<lparr>ab_documents := lst\<rparr>]) \<and>
    concat parts @ lst = ab_documents b \<and> commit D now (AccountBatch b) (wdb w) = Inr (res, wdb w')"
proof -
  obtain a c where a: "getAccountRow (ab_account b) (wdb w) = Some a"
    and com: "commit D now (AccountBatch b) (wdb w) = Inr ((case r of Committed q l \<Rightarrow> (q, l)), wdb w')"
    and out: "sync_outbound w' = queueOwned Z now \<lparr>oa_id = aid a, oa_source = source a, oa_identifier = ident a,
       oa_config = c, oa_cadence = cadence a, oa_owner = owner_device_id a\<rparr> (OwnBatch b) (sync_outbound w)"
    using guarded_commit [OF assms] .
  obtain parts lst where shape: "splitAccountBatch Z MAX_BATCH_BYTES b = map (documentsOnly b) parts @ [b\<lparr>ab_documents := lst\<rparr>]"
    using split_shape by blast
  have "concat (map ab_documents (splitAccountBatch Z MAX_BATCH_BYTES b)) = ab_documents b" by (rule split_concat)
  then have docs: "concat parts @ lst = ab_documents b" unfolding shape by (simp add: documentsOnly_def comp_def)
  show ?thesis
    using com docs getAccountRow_aid [OF a] unfolding out queueOwned_def splitBatch.simps shape
    by (intro exI [of _ "\<lparr>oa_id = aid a, oa_source = source a, oa_identifier = ident a,
       oa_config = c, oa_cadence = cadence a, oa_owner = owner_device_id a\<rparr>"] exI [of _ parts] exI [of _ lst]) auto
qed

theorem owner_commit_is_queued_witness:
  "\<exists>r w' res. guardedCall False even_sizes 0 sample_deps 1000 (CallCommit (AccountBatch parent_and_child)) own_writer =
      Some (Inr (r, w')) \<and> sync_outbound w' \<noteq> [] \<and>
    commit sample_deps 1000 (AccountBatch parent_and_child) own_store = Inr (res, wdb w')"
proof -
  obtain r w' where call: "guardedCall False even_sizes 0 sample_deps 1000 (CallCommit (AccountBatch parent_and_child))
      own_writer = Some (Inr (r, w'))" using own_call_returns by blast
  obtain res where "sync_outbound w' \<noteq> []" "commit sample_deps 1000 (AccountBatch parent_and_child) own_store = Inr (res, wdb w')"
    using owner_commit_is_queued [OF own_read_only call] by (auto simp: own_writer_def)
  with call show ?thesis by blast
qed

text \<open>
  A piece of a split batch fits the cap on a forwarded request, or is a single document that no cap
  could split, given what JSON.stringify guarantees of the lengths.
\<close>

theorem split_pieces_fit:
  assumes "json_lengths Z b" and "p \<in> set (splitAccountBatch Z maxBytes b)"
  shows "batchLength Z p \<le> maxBytes \<or> length (ab_documents p) \<le> 1"
  using assms by (rule split_bound)

theorem split_pieces_fit_witness:
  "batchLength even_sizes (documentsOnly parent_and_child (take 1 (ab_documents parent_and_child))) \<le> 60 \<or>
   length (take 1 (ab_documents parent_and_child)) \<le> (1::nat)"
proof -
  have "json_lengths even_sizes parent_and_child" by (simp add: json_lengths_def even_sizes_def documentsOnly_def)
  moreover have "documentsOnly parent_and_child (take 1 (ab_documents parent_and_child)) \<in>
      set (splitAccountBatch even_sizes 60 parent_and_child)" by code_simp
  ultimately show ?thesis using split_pieces_fit [of even_sizes parent_and_child] by (simp add: documentsOnly_def)
qed

text \<open>
  the leader may be sent a delivery twice. After it took a consistent batch, the account of its
  source and identifier is there with every document of the batch live under it; taking the batch again
  returns, adds no account row and changes no document and no index row.
\<close>

theorem delivery_may_be_resent:
  assumes "runCommitBatch fuel D now (BatchDelivery a (OwnBatch b)) s = Some (Inr t)" and "store_inv D s"
    and "consistent b"
  shows "\<exists>x u. findAccount (oa_source a) (oa_identifier a) t = Some x \<and>
    runCommitBatch fuel' D now' (BatchDelivery a (OwnBatch b)) t = Some (Inr u) \<and>
    documents u = documents t \<and> documents_fts u = documents_fts t \<and> map aid (accounts u) = map aid (accounts t) \<and>
    (\<forall>inp \<in> set (ab_documents b). \<exists>d. findDocRow (aid x) (in_ref inp) t = Some d \<and> archived_at d = None \<and>
       content_hash d = contentHash D inp)"
  using assms by (rule run_batch_again)

theorem delivery_may_be_resent_witness:
  "\<exists>u. runCommitBatch 0 sample_deps 9000 (BatchDelivery from_owner (OwnBatch parent_and_child)) taken_once = Some (Inr u) \<and>
    documents u = documents taken_once"
  using delivery_may_be_resent [OF taken_once_run store_inv_empty consistent_sample] by blast

end
