(* ===== verification/JsText.thy ===== *)
theory JsText
  imports Prelude "HOL-Library.Word"
begin

text \<open>
  JavaScript strings as the sequence of their UTF-16 code units, for the code that measures, cuts and
  matches text: \<open>length\<close>, \<open>slice\<close>, \<open>trim\<close>, and the few regular expressions the outbound code uses.
\<close>

type_synonym utext = "16 word list"

definition uc :: "string \<Rightarrow> utext" where
  "uc s = map of_char s"

lemma uc_simps [simp]:
  "uc [] = []"
  "uc (c # s) = of_char c # uc s"
  "uc (s @ t) = uc s @ uc t"
  "length (uc s) = length s"
  by (simp_all add: uc_def)

section \<open>White space\<close>

text \<open>The code units \<open>\s\<close> matches and \<open>trim\<close> takes off.\<close>

definition ws_unit :: "16 word \<Rightarrow> bool" where
  "ws_unit c \<longleftrightarrow> 9 \<le> c \<and> c \<le> 13 \<or> 0x2000 \<le> c \<and> c \<le> 0x200A \<or>
     c \<in> set [32, 0xA0, 0x1680, 0x2028, 0x2029, 0x202F, 0x205F, 0x3000, 0xFEFF]"

definition rstrip :: "utext \<Rightarrow> utext" where
  "rstrip s = rev (dropWhile ws_unit (rev s))"

definition utrim :: "utext \<Rightarrow> utext" where
  "utrim s = rstrip (dropWhile ws_unit s)"

text \<open>\<open>s.replace(/\s+/g, ' ')\<close>.\<close>

function spaced :: "utext \<Rightarrow> utext" where
  "spaced [] = []"
| "spaced (c # s) = (if ws_unit c then 32 # spaced (dropWhile ws_unit s) else c # spaced s)"
  by pat_completeness auto
termination by (relation "measure length") (auto simp: less_Suc_eq_le length_dropWhile_le)

definition singleLine :: "utext \<Rightarrow> utext" where
  "singleLine s = utrim (spaced s)"

section \<open>Finding\<close>

fun has :: "utext \<Rightarrow> utext \<Rightarrow> bool" where
  "has p [] \<longleftrightarrow> p = []"
| "has p (c # s) \<longleftrightarrow> prefix p (c # s) \<or> has p s"

text \<open>\<open>/p.*q/\<close> on a text of one line.\<close>

fun hasThen :: "utext \<Rightarrow> utext \<Rightarrow> utext \<Rightarrow> bool" where
  "hasThen p q [] \<longleftrightarrow> p = [] \<and> q = []"
| "hasThen p q (c # s) \<longleftrightarrow> prefix p (c # s) \<and> has q (drop (length p) (c # s)) \<or> hasThen p q s"

text \<open>
  The \<open>i\<close> flag folds the ASCII letters only: without the \<open>u\<close> flag no other code unit is equivalent to
  an ASCII one.
\<close>

definition fold_case :: "utext \<Rightarrow> utext" where
  "fold_case = map (\<lambda>c. if 65 \<le> c \<and> c \<le> 90 then c + 32 else c)"

definition digit :: "16 word \<Rightarrow> bool" where
  "digit c \<longleftrightarrow> 48 \<le> c \<and> c \<le> 57"

section \<open>Lemmas\<close>

lemma has_iff: "has p s \<longleftrightarrow> (\<exists>a b. s = a @ p @ b)"
proof (induction s)
  case Nil
  show ?case by auto
next
  case (Cons c s)
  show ?case
  proof
    assume "has p (c # s)"
    then consider "prefix p (c # s)" | "has p s" by auto
    then show "\<exists>a b. c # s = a @ p @ b"
    proof cases
      case 1
      then obtain b where "c # s = [] @ p @ b" by (auto simp: prefix_def)
      then show ?thesis by blast
    next
      case 2
      then obtain a b where "s = a @ p @ b" using Cons.IH by blast
      then have "c # s = (c # a) @ p @ b" by simp
      then show ?thesis by blast
    qed
  next
    assume "\<exists>a b. c # s = a @ p @ b"
    then obtain a b where ab: "c # s = a @ p @ b" by blast
    show "has p (c # s)"
    proof (cases a)
      case Nil
      then have "prefix p (c # s)" using ab by (auto simp: prefix_def)
      then show ?thesis by simp
    next
      case (Cons d a')
      then have "s = a' @ p @ b" using ab by simp
      then have "has p s" using Cons.IH by blast
      then show ?thesis by simp
    qed
  qed
qed

lemma has_append: "has p b \<Longrightarrow> has p (a @ b)" "has p a \<Longrightarrow> has p (a @ b)"
  by (metis append.assoc has_iff)+

lemma hasThen_iff: "hasThen p q s \<longleftrightarrow> (\<exists>a m b. s = a @ p @ m @ q @ b)"
proof (induction s)
  case Nil
  show ?case by auto
next
  case (Cons c s)
  show ?case
  proof
    assume "hasThen p q (c # s)"
    then consider "prefix p (c # s)" "has q (drop (length p) (c # s))" | "hasThen p q s" by auto
    then show "\<exists>a m b. c # s = a @ p @ m @ q @ b"
    proof cases
      case 1
      then obtain r where r: "c # s = p @ r" by (auto simp: prefix_def)
      then obtain m b where "r = m @ q @ b" using 1(2) by (auto simp: has_iff)
      then have "c # s = [] @ p @ m @ q @ b" using r by simp
      then show ?thesis by blast
    next
      case 2
      then obtain a m b where "s = a @ p @ m @ q @ b" using Cons.IH by blast
      then have "c # s = (c # a) @ p @ m @ q @ b" by simp
      then show ?thesis by blast
    qed
  next
    assume "\<exists>a m b. c # s = a @ p @ m @ q @ b"
    then obtain a m b where ab: "c # s = a @ p @ m @ q @ b" by blast
    show "hasThen p q (c # s)"
    proof (cases a)
      case Nil
      then have "prefix p (c # s)" "has q (drop (length p) (c # s))"
        using ab by (auto simp: prefix_def has_iff)
      then show ?thesis by simp
    next
      case (Cons d a')
      then have "s = a' @ p @ m @ q @ b" using ab by simp
      then have "hasThen p q s" using Cons.IH by blast
      then show ?thesis by simp
    qed
  qed
qed

lemma fold_case_append [simp]: "fold_case (a @ b) = fold_case a @ fold_case b"
  by (simp add: fold_case_def)

lemma fold_case_take [simp]: "fold_case (take n s) = take n (fold_case s)"
  by (simp add: fold_case_def take_map)

end
