(* ===== verification/Outbox.thy ===== *)
theory Outbox
  imports JsText Json
begin

text \<open>
  src/main/core/store/outbox.ts: the table of outgoing drafts and its statements. One definition is one
  SQL statement (or batch): what happens atomically. The procedures that await several of them are in
  Outbound. A JSON column is its value; ISO instants are milliseconds; \<open>changed\<close> counts the events
  \<open>fireChanged\<close> emits.
\<close>

type_synonym millis = int

section \<open>Rows\<close>

datatype outbox_status = Draft | Sending | SentStatus | FailedStatus | Discarded | Expired | DeliveryUnknown

datatype confirm_mode = Review | LinkMode | Chat

datatype draft_kind = Reply | NewMessage

datatype attachment_origin = FromDocument string "string option" | FromPicked utext "bool option" "string option"

record outbox_attachment =
  filename :: utext
  mime :: string
  asize :: int
  afrom :: "attachment_origin option"

record draft_ref =
  refAccount :: string
  refId :: string
  refThread :: "string option"

record mirror_state =
  mref :: "draft_ref option"
  merror :: "utext option"
  sentElsewhere :: "bool option"
  provider :: "utext option"
  sizes :: "(utext \<times> int) list option"
  seenKey :: "string option"
  ownKey :: "string option"

record draft_snapshot =
  sto :: "utext list"
  scc :: "utext list"
  sbcc :: "utext list"
  ssubject :: "utext option"
  sbody :: utext
  sattachments :: "outbox_attachment list"

record outbox_row =
  oid :: string
  accountId :: string
  kind :: draft_kind
  replyToDocumentId :: "string option"
  outboundRef :: "json option"
  recipientDisplay :: utext
  toAddrs :: "utext list"
  cc :: "utext list"
  subject :: "utext option"
  bodyMarkdown :: utext
  threading :: "jobj option"
  confirmMode :: confirm_mode
  status :: outbox_status
  error :: "utext option"
  externalMessageId :: "string option"
  createdVia :: string
  createdBy :: "utext option"
  createdAt :: millis
  sentAt :: "millis option"
  expiresAt :: millis
  revision :: nat
  bcc :: "utext list"
  attachments :: "outbox_attachment list"
  mirror :: "mirror_state option"
  sendAt :: "millis option"
  suggestedSendAt :: "millis option"

record outbox_draft_input =
  dAccount :: string
  dKind :: draft_kind
  dReplyTo :: "string option"
  dOutboundRef :: "json option"
  dDisplay :: utext
  dTo :: "utext list"
  dCc :: "utext list"
  dSubject :: "utext option"
  dBody :: utext
  dThreading :: "jobj option"
  dMode :: confirm_mode
  dVia :: string
  dBy :: "utext option"
  dExpiresAt :: millis
  dBcc :: "utext list"
  dAttachments :: "outbox_attachment list"

record outbox =
  orows :: "outbox_row list"
  changed :: nat

definition OUTBOX_PENDING_CAP :: nat where "OUTBOX_PENDING_CAP = 20"
definition DRAFT_TTL_MS :: millis where "DRAFT_TTL_MS = 24 * 60 * 60000"

definition mirrored :: "outbox_row \<Rightarrow> bool" where
  "mirrored r \<longleftrightarrow> (case mirror r of None \<Rightarrow> False | Some m \<Rightarrow> mref m \<noteq> None)"

definition snapshotOf :: "outbox_row \<Rightarrow> draft_snapshot" where
  "snapshotOf r = \<lparr>sto = toAddrs r, scc = cc r, sbcc = bcc r, ssubject = subject r, sbody = bodyMarkdown r,
     sattachments = attachments r\<rparr>"

section \<open>The comparison key of a draft's content\<close>

text \<open>\<open>lc\<close> is \<open>toLowerCase\<close>, which needs the Unicode tables.\<close>

definition addressKey :: "(utext \<Rightarrow> utext) \<Rightarrow> utext \<Rightarrow> utext" where
  "addressKey lc x =
     (let r = rev (rstrip x); plain = (\<lambda>c. c \<noteq> 60 \<and> c \<noteq> 62); inner = takeWhile plain (drop 1 r);
          before = dropWhile plain (drop 1 r) in
      lc (utrim (if take 1 r = [62] \<and> inner \<noteq> [] \<and> take 1 before = [60] then rev inner else x)))"

definition lowerAll :: "(utext \<Rightarrow> utext) \<Rightarrow> utext list \<Rightarrow> utext list" where
  "lowerAll lc = map (addressKey lc)"

text \<open>\<open>s.replace(/\r\n/g, '\n')\<close>.\<close>

fun lf_only :: "utext \<Rightarrow> utext" where
  "lf_only (c # d # s) = (if c = 13 \<and> d = 10 then 10 # lf_only s else c # lf_only (d # s))"
| "lf_only s = s"

fun splitOn :: "16 word \<Rightarrow> utext \<Rightarrow> utext list" where
  "splitOn x [] = [[]]"
| "splitOn x (c # s) = (if c = x then [] # splitOn x s
     else case splitOn x s of [] \<Rightarrow> [[c]] | p # ps \<Rightarrow> (c # p) # ps)"

fun joinWith :: "utext \<Rightarrow> utext list \<Rightarrow> utext" where
  "joinWith sep [] = []"
| "joinWith sep [p] = p"
| "joinWith sep (p # ps) = p @ sep @ joinWith sep ps"

text \<open>The rest after \<open>/\n[ \t]*\n\s*/\<close> where it matches at the head.\<close>

definition break_at :: "utext \<Rightarrow> utext option" where
  "break_at s = (let r = dropWhile (\<lambda>c. c = 32 \<or> c = 9) (drop 1 s) in
     if take 1 s = [10] \<and> take 1 r = [10] then Some (dropWhile ws_unit (drop 1 r)) else None)"

lemma break_at_less: "break_at s = Some r \<Longrightarrow> length r < length s"
proof -
  assume "break_at s = Some r"
  then have s: "s \<noteq> []" and r: "r = dropWhile ws_unit (drop 1 (dropWhile (\<lambda>c. c = 32 \<or> c = 9) (drop 1 s)))"
    by (auto simp: break_at_def Let_def split: if_splits)
  have "length r \<le> length (drop 1 (dropWhile (\<lambda>c. c = 32 \<or> c = 9) (drop 1 s)))" unfolding r by (rule length_dropWhile_le)
  also have "\<dots> \<le> length (drop 1 s)"
    using length_dropWhile_le [of "\<lambda>c. c = 32 \<or> c = 9" "drop 1 s"] by simp
  finally show ?thesis using s by (cases s) auto
qed

function paragraphs :: "utext \<Rightarrow> utext list" where
  "paragraphs [] = [[]]"
| "paragraphs (c # s) = (case break_at (c # s) of
     Some r \<Rightarrow> [] # paragraphs r
   | None \<Rightarrow> (case paragraphs s of [] \<Rightarrow> [[c]] | p # ps \<Rightarrow> (c # p) # ps))"
  by pat_completeness auto
termination by (relation "measure length") (auto dest: break_at_less)

type_synonym snapshot_key = "utext list \<times> utext list \<times> utext list \<times> utext option \<times> utext \<times>
  (utext \<times> int \<times> attachment_origin option) list"

text \<open>
  The code compares the JSON texts of the keys. The attachments are sorted there, so that only which
  (filename, size, origin) occur how often counts; \<open>same_key\<close> compares them so.
\<close>

definition normalizeSnapshot :: "(utext \<Rightarrow> utext) \<Rightarrow> bool \<Rightarrow> draft_snapshot \<Rightarrow> snapshot_key" where
  "normalizeSnapshot lc fromProvider s =
     (lowerAll lc (sto s), lowerAll lc (scc s), lowerAll lc (sbcc s), map_option utrim (ssubject s),
      (if fromProvider
       then joinWith [10, 10] (filter (\<lambda>p. p \<noteq> []) (map (\<lambda>p. utrim (spaced p)) (paragraphs (lf_only (sbody s)))))
       else utrim (joinWith [10] (map rstrip (splitOn 10 (lf_only (sbody s)))))),
      map (\<lambda>a. (filename a, asize a, afrom a)) (sattachments s))"

definition same_key :: "snapshot_key \<Rightarrow> snapshot_key \<Rightarrow> bool" where
  "same_key x y = (case (x, y) of ((a, b, c, d, e, f), (a', b', c', d', e', f')) \<Rightarrow>
     a = a' \<and> b = b' \<and> c = c' \<and> d = d' \<and> e = e' \<and>
     length f = length f' \<and> list_all (\<lambda>z. count_list f z = count_list f' z) f)"

section \<open>Statements\<close>

definition outboxGet :: "string \<Rightarrow> outbox \<Rightarrow> outbox_row option" where
  "outboxGet i s = find (\<lambda>r. oid r = i) (orows s)"

text \<open>An UPDATE with the number of rows it changed, and \<open>fireChanged\<close> after it.\<close>

definition update :: "(outbox_row \<Rightarrow> bool) \<Rightarrow> (outbox_row \<Rightarrow> outbox_row) \<Rightarrow> outbox \<Rightarrow> nat \<times> outbox" where
  "update P f s = (length (filter P (orows s)), s\<lparr>orows := upd_where P f (orows s)\<rparr>)"

definition fireChanged :: "outbox \<Rightarrow> outbox" where
  "fireChanged s = s\<lparr>changed := changed s + 1\<rparr>"

definition firing :: "nat \<times> outbox \<Rightarrow> bool \<times> outbox" where
  "firing x = (if fst x = 1 then (True, fireChanged (snd x)) else (False, snd x))"

definition overdue :: "millis \<Rightarrow> outbox_row \<Rightarrow> bool" where
  "overdue now r \<longleftrightarrow> status r = Draft \<and> expiresAt r \<le> now \<and> sendAt r = None \<and> \<not> mirrored r"

definition expireOverdue :: "bool \<Rightarrow> millis \<Rightarrow> outbox \<Rightarrow> outbox" where
  "expireOverdue readOnly now s =
     (if readOnly then s
      else let (n, t) = update (overdue now) (\<lambda>r. r\<lparr>status := Expired\<rparr>) s in
        if n > 0 then fireChanged t else t)"

definition countDrafts :: "string \<Rightarrow> outbox \<Rightarrow> nat" where
  "countDrafts acc s = length (filter (\<lambda>r. accountId r = acc \<and> status r = Draft \<and> \<not> mirrored r) (orows s))"

definition countPending :: "outbox \<Rightarrow> nat" where
  "countPending s = length (filter (\<lambda>r. status r = Draft) (orows s))"

definition countSentSince :: "string \<Rightarrow> millis \<Rightarrow> outbox \<Rightarrow> nat" where
  "countSentSince acc since s = length (filter (\<lambda>r. accountId r = acc \<and> status r = SentStatus \<and>
     (case sentAt r of None \<Rightarrow> False | Some t \<Rightarrow> since \<le> t)) (orows s))"

definition insertDraft :: "string \<Rightarrow> outbox_draft_input \<Rightarrow> millis \<Rightarrow> outbox \<Rightarrow> outbox" where
  "insertDraft i d now s = s\<lparr>orows := orows s @
     [\<lparr>oid = i, accountId = dAccount d, kind = dKind d, replyToDocumentId = dReplyTo d,
       outboundRef = dOutboundRef d, recipientDisplay = dDisplay d, toAddrs = dTo d, cc = dCc d,
       subject = dSubject d, bodyMarkdown = dBody d, threading = dThreading d, confirmMode = dMode d,
       status = Draft, error = None, externalMessageId = None, createdVia = dVia d, createdBy = dBy d,
       createdAt = now, sentAt = None, expiresAt = dExpiresAt d, revision = 1, bcc = dBcc d,
       attachments = dAttachments d, mirror = None, sendAt = None, suggestedSendAt = None\<rparr>]\<rparr>"

definition newestFirst :: "outbox_row list \<Rightarrow> outbox_row list" where
  "newestFirst rs = rev (sort_key createdAt (sort_key oid rs))"

definition listRecent :: "nat \<Rightarrow> outbox \<Rightarrow> outbox_row list" where
  "listRecent limit s = take limit (newestFirst (orows s))"

text \<open>A status list that is present filters, the empty one down to nothing.\<close>

definition listPage :: "nat \<Rightarrow> outbox_status list option \<Rightarrow> (millis \<times> string) option \<Rightarrow> outbox \<Rightarrow> outbox_row list" where
  "listPage limit st bef s = take limit (newestFirst (filter (\<lambda>r.
     (case st of None \<Rightarrow> True | Some l \<Rightarrow> status r \<in> set l) \<and>
     (case bef of None \<Rightarrow> True | Some (at, i) \<Rightarrow> createdAt r < at \<or> createdAt r = at \<and> oid r < i)) (orows s)))"

record transition_patch =
  perror :: "utext option"
  pexternal :: "string option"
  psentAt :: "millis option"

definition no_patch :: transition_patch where
  "no_patch = \<lparr>perror = None, pexternal = None, psentAt = None\<rparr>"

definition or_else :: "'a option \<Rightarrow> 'a option \<Rightarrow> 'a option" where
  "or_else a b = (case a of Some x \<Rightarrow> Some x | None \<Rightarrow> b)"

definition transition :: "string \<Rightarrow> outbox_status list \<Rightarrow> outbox_status \<Rightarrow> transition_patch \<Rightarrow> outbox \<Rightarrow> bool \<times> outbox" where
  "transition i froms to p s = firing (update (\<lambda>r. oid r = i \<and> status r \<in> set froms)
     (\<lambda>r. r\<lparr>status := to,
        error := (if status r = Draft then perror p else or_else (perror p) (error r)),
        externalMessageId := or_else (pexternal p) (externalMessageId r),
        sentAt := or_else (psentAt p) (sentAt r)\<rparr>) s)"

definition setMirror :: "string \<Rightarrow> mirror_state \<Rightarrow> outbox \<Rightarrow> outbox" where
  "setMirror i m s = snd (firing (update (\<lambda>r. oid r = i \<and> mirror r \<noteq> Some m) (\<lambda>r. r\<lparr>mirror := Some m\<rparr>) s))"

definition schedule :: "string \<Rightarrow> millis option \<Rightarrow> utext option \<Rightarrow> millis \<Rightarrow> outbox \<Rightarrow> bool \<times> outbox" where
  "schedule i at note now s = firing (update (\<lambda>r. oid r = i \<and> status r = Draft)
     (\<lambda>r. r\<lparr>sendAt := at, error := note,
        suggestedSendAt := (if at = None then suggestedSendAt r else None),
        expiresAt := (if at = None \<and> sendAt r \<noteq> None then now + DRAFT_TTL_MS else expiresAt r)\<rparr>) s)"

definition suggest :: "string \<Rightarrow> millis option \<Rightarrow> outbox \<Rightarrow> bool \<times> outbox" where
  "suggest i at s = firing (update (\<lambda>r. oid r = i \<and> status r = Draft \<and> suggestedSendAt r \<noteq> at)
     (\<lambda>r. r\<lparr>suggestedSendAt := at\<rparr>) s)"

definition MISSED :: utext where
  "MISSED = uc ''Missed its time '' @ [0x2014] @ uc '' send now or reschedule''"

definition missSchedule :: "string \<Rightarrow> millis \<Rightarrow> millis \<Rightarrow> utext option \<Rightarrow> outbox \<Rightarrow> bool \<times> outbox" where
  "missSchedule i at expires note s = firing (update (\<lambda>r. oid r = i \<and> status r = Draft \<and> sendAt r = Some at)
     (\<lambda>r. r\<lparr>sendAt := None, expiresAt := expires, error := Some (case note of None \<Rightarrow> MISSED | Some n \<Rightarrow> n)\<rparr>) s)"

definition reopenRow :: "string \<Rightarrow> millis \<Rightarrow> outbox \<Rightarrow> bool \<times> outbox" where
  "reopenRow i expires s = firing (update (\<lambda>r. oid r = i \<and> (status r = FailedStatus \<or> status r = Expired))
     (\<lambda>r. r\<lparr>status := Draft, error := None, revision := revision r + 1, sendAt := None, expiresAt := expires\<rparr>) s)"

definition APP_CLOSED :: utext where
  "APP_CLOSED = uc ''the app closed while sending '' @ [0x2014] @
     uc '' the message may have been sent; check the Sent folder before re-drafting''"

definition recoverOrphanedSending :: "bool \<Rightarrow> outbox \<Rightarrow> outbox" where
  "recoverOrphanedSending readOnly s = (if readOnly then s
     else snd (update (\<lambda>r. status r = Sending) (\<lambda>r. r\<lparr>status := DeliveryUnknown, error := Some APP_CLOSED\<rparr>) s))"

definition listSendTimes :: "string \<Rightarrow> millis \<Rightarrow> millis \<Rightarrow> millis \<Rightarrow> string option \<Rightarrow> outbox \<Rightarrow> millis list" where
  "listSendTimes acc lo hi now exceptId s =
     (let at = (\<lambda>P g. concat (map (\<lambda>r. if accountId r = acc \<and> P r then (case g r of None \<Rightarrow> [] | Some t \<Rightarrow> [t]) else []) (orows s)));
          inside = filter (\<lambda>t. lo \<le> t \<and> t \<le> hi) in
      inside (at (\<lambda>r. status r = SentStatus) sentAt) @
      inside (at (\<lambda>r. status r = Draft \<and> Some (oid r) \<noteq> exceptId) sendAt) @
      at (\<lambda>r. status r = Sending \<and> Some (oid r) \<noteq> exceptId) (\<lambda>r. Some (case sendAt r of None \<Rightarrow> now | Some t \<Rightarrow> t)))"

definition listDue :: "millis \<Rightarrow> outbox \<Rightarrow> (string \<times> millis) list" where
  "listDue now s = concat (map (\<lambda>r. case sendAt r of None \<Rightarrow> [] | Some t \<Rightarrow> [(oid r, t)])
     (sort_key (\<lambda>r. case sendAt r of None \<Rightarrow> 0 | Some t \<Rightarrow> t)
       (filter (\<lambda>r. status r = Draft \<and> (case sendAt r of None \<Rightarrow> False | Some t \<Rightarrow> t \<le> now)) (orows s))))"

section \<open>The content write\<close>

datatype content_source = FromProvider | FromCreated | FromEcho

record apply_options =
  origins :: "outbox_attachment list"
  optFrom :: "content_source option"
  seenKeyOpt :: "string option"
  ownKeyOpt :: "string option option"

text \<open>\<open>keys.ownKey\<close>: None absent, \<open>Some None\<close> null.\<close>

definition own_edit :: "outbox_attachment list \<Rightarrow> apply_options" where
  "own_edit os = \<lparr>origins = os, optFrom = None, seenKeyOpt = None, ownKeyOpt = None\<rparr>"

definition knownFiles :: "outbox_row \<Rightarrow> apply_options \<Rightarrow> utext \<Rightarrow> outbox_attachment option" where
  "knownFiles r p = map_of (rev (map (\<lambda>a. (filename a, a)) (filter (\<lambda>a. afrom a \<noteq> None) (attachments r @ origins p))))"

definition keepOrigin :: "outbox_row \<Rightarrow> apply_options \<Rightarrow> outbox_attachment \<Rightarrow> outbox_attachment" where
  "keepOrigin r p a =
     (case knownFiles r p (filename a) of
        None \<Rightarrow> a
      | Some k \<Rightarrow>
          if afrom a \<noteq> None then a
          else if optFrom p = None then a\<lparr>afrom := afrom k\<rparr>
          else let seen = (case mirror r of None \<Rightarrow> [] | Some m \<Rightarrow> (case sizes m of None \<Rightarrow> [] | Some z \<Rightarrow> z)) in
            if filename a \<in> filename ` set (origins p) \<or>
               asize a = (case map_of seen (filename a) of None \<Rightarrow> asize k | Some n \<Rightarrow> n)
            then a\<lparr>afrom := afrom k, asize := asize k\<rparr> else a)"

text \<open>\<open>Object.fromEntries\<close>: a name that comes again keeps its place and takes the later value.\<close>

fun put_size :: "utext \<times> int \<Rightarrow> (utext \<times> int) list \<Rightarrow> (utext \<times> int) list" where
  "put_size (k, v) [] = [(k, v)]"
| "put_size (k, v) ((k', v') # z) = (if k = k' then (k, v) # z else (k', v') # put_size (k, v) z)"

definition sizesAfter :: "outbox_row \<Rightarrow> draft_snapshot \<Rightarrow> apply_options \<Rightarrow> (utext \<times> int) list option" where
  "sizesAfter r incoming p =
     (if optFrom p \<noteq> None then Some (fold put_size (map (\<lambda>a. (filename a, asize a)) (sattachments incoming)) [])
      else case mirror r of None \<Rightarrow> None | Some m \<Rightarrow> map_option (filter (\<lambda>(n, _).
        n \<notin> filename ` set (origins p) \<and> n \<in> filename ` set (sattachments incoming))) (sizes m))"

definition no_mirror :: mirror_state where
  "no_mirror = \<lparr>mref = None, merror = None, sentElsewhere = None, provider = None, sizes = None,
     seenKey = None, ownKey = None\<rparr>"

definition mergedMirror :: "outbox_row \<Rightarrow> draft_snapshot \<Rightarrow> draft_ref \<Rightarrow> apply_options \<Rightarrow> mirror_state" where
  "mergedMirror r incoming ref p =
     (let m = (case mirror r of None \<Rightarrow> no_mirror | Some m \<Rightarrow> m) in
      m\<lparr>mref := Some ref, merror := None,
        sizes := (case sizesAfter r incoming p of None \<Rightarrow> sizes m | Some z \<Rightarrow> if z = [] then None else Some z),
        seenKey := or_else (seenKeyOpt p) (seenKey m),
        ownKey := (case ownKeyOpt p of None \<Rightarrow> ownKey m | Some k \<Rightarrow> k)\<rparr>)"

record content_decision =
  dsnapshot :: draft_snapshot
  dchanged :: bool
  dfilled :: bool
  dmirror :: "mirror_state option"
  ddisplay :: utext

definition decideContent :: "(utext \<Rightarrow> utext) \<Rightarrow> outbox_row \<Rightarrow> draft_snapshot \<Rightarrow> draft_ref option \<Rightarrow> apply_options \<Rightarrow> content_decision" where
  "decideContent lc r incoming ref p =
     (let snap = incoming\<lparr>sattachments := map (keepOrigin r p) (sattachments incoming)\<rparr>;
          key = normalizeSnapshot lc (optFrom p = Some FromProvider \<or> optFrom p = Some FromCreated);
          filled = (optFrom p = Some FromCreated \<and> subject r = None \<and> ssubject snap \<noteq> None);
          before = (if filled then (snapshotOf r)\<lparr>ssubject := ssubject snap\<rparr> else snapshotOf r);
          merged = map_option (\<lambda>x. mergedMirror r incoming x p) ref
      in \<lparr>dsnapshot = snap, dchanged = (\<not> same_key (key before) (key snap)), dfilled = filled,
          dmirror = (if merged = None \<or> merged = mirror r then None else merged),
          ddisplay = (if kind r = Reply \<and> lowerAll lc (toAddrs r) = lowerAll lc (sto snap) then recipientDisplay r
            else if joinWith [44, 32] (sto snap) = [] then recipientDisplay r else joinWith [44, 32] (sto snap))\<rparr>)"

definition EDITED :: utext where
  "EDITED = uc ''Edited '' @ [0x2014] @ uc '' schedule again''"

definition contentRow :: "content_decision \<Rightarrow> millis \<Rightarrow> outbox_row \<Rightarrow> outbox_row" where
  "contentRow c now r = (let s = dsnapshot c in
     r\<lparr>toAddrs := sto s, cc := scc s, bcc := sbcc s, subject := ssubject s, bodyMarkdown := sbody s,
       attachments := sattachments s, recipientDisplay := ddisplay c, revision := revision r + 1,
       error := (if sendAt r \<noteq> None then Some EDITED else None),
       expiresAt := (if sendAt r \<noteq> None then now + DRAFT_TTL_MS else expiresAt r),
       sendAt := None, mirror := or_else (dmirror c) (mirror r)\<rparr>)"

text \<open>The one write of \<open>applyContent\<close>; None is its throw when the row is no draft any more.\<close>

definition writeContent :: "content_decision \<Rightarrow> string \<Rightarrow> millis \<Rightarrow> outbox \<Rightarrow> outbox option" where
  "writeContent c i now s =
     (if dchanged c then
        let (n, t) = update (\<lambda>r. oid r = i \<and> status r = Draft) (contentRow c now) s in
        if n \<noteq> 1 then None else Some (fireChanged t)
      else if dfilled c then
        Some (fireChanged (snd (update (\<lambda>r. oid r = i)
          (\<lambda>r. r\<lparr>subject := ssubject (dsnapshot c), mirror := or_else (dmirror c) (mirror r)\<rparr>) s)))
      else case dmirror c of
        None \<Rightarrow> Some s
      | Some m \<Rightarrow> Some (fireChanged (snd (update (\<lambda>r. oid r = i) (\<lambda>r. r\<lparr>mirror := Some m\<rparr>) s))))"

end
