(* ===== verification/Procs.thy ===== *)
theory Procs
  imports Outbox
begin

text \<open>
  Async procedures as resumptions. Between two awaits the code runs alone: one \<open>Atomic\<close> step on the shared
  state, whose continuation sees the state before the step. The other constructors wait: for a lock of
  src/main/outbound/draft-lock.ts, or for the answer of a mail provider, a file or a sender, which is a
  rejection with a message (Inl) or a value. Whatever runs in between is the environment.
\<close>

section \<open>What is asked of the outside\<close>

record draft_content =
  cto :: "utext list"
  ccc :: "utext list"
  cbcc :: "utext list"
  csubject :: "utext option"
  cbodyText :: utext
  cbodyHtml :: "utext option"
  cattachments :: "outbox_attachment list"

datatype draft_read =
    ReadDraftState draft_ref draft_content
  | ReadSent "string option"
  | ReadDeleted
  | ReadGone

text \<open>The HTML of a body is a function of its Markdown (the renderer is not ours) and is left out.\<close>

record send_intent =
  iAccount :: string
  iKind :: draft_kind
  iOutboundRef :: "json option"
  iTo :: "utext list"
  iCc :: "utext list"
  iBcc :: "utext list"
  iSubject :: "utext option"
  iBody :: utext
  iThreading :: "jobj option"
  iFiles :: "outbox_attachment list"

record draft_patch =
  pTo :: "utext list option"
  pCc :: "utext list option"
  pSubject :: "utext option"
  pBody :: "utext option"
  pFiles :: "outbox_attachment list"
  pRemove :: "utext list"

datatype draft_write = CreateDraft send_intent | UpdateDraft draft_ref draft_patch

datatype send_request = ByDraft draft_ref | ByIntent send_intent

section \<open>Procedures\<close>

text \<open>\<open>SendOut r q\<close> hands the sender the request \<open>q\<close> for the row \<open>r\<close>.\<close>

datatype ('w, 'a) proc =
    Return 'a
  | Throw utext
  | Atomic "'w \<Rightarrow> 'w" "'w \<Rightarrow> ('w, 'a) proc"
  | Lock string "('w, 'a) proc"
  | Unlock string "('w, 'a) proc"
  | ReadDraft draft_ref "utext + draft_read \<Rightarrow> ('w, 'a) proc"
  | WriteDraft draft_write "utext + draft_ref \<Rightarrow> ('w, 'a) proc"
  | RemoveDraft draft_ref "utext + unit \<Rightarrow> ('w, 'a) proc"
  | ReadFiles "outbox_attachment list" "utext + unit \<Rightarrow> ('w, 'a) proc"
  | ResolveFiles "string list" "utext + outbox_attachment list \<Rightarrow> ('w, 'a) proc"
  | SendOut outbox_row send_request "utext + string option \<Rightarrow> ('w, 'a) proc"

primrec tryp :: "('w, 'a) proc \<Rightarrow> (utext + 'a \<Rightarrow> ('w, 'b) proc) \<Rightarrow> ('w, 'b) proc" where
  "tryp (Return a) k = k (Inr a)"
| "tryp (Throw e) k = k (Inl e)"
| "tryp (Atomic g p) k = Atomic g (\<lambda>w. tryp (p w) k)"
| "tryp (Lock l p) k = Lock l (tryp p k)"
| "tryp (Unlock l p) k = Unlock l (tryp p k)"
| "tryp (ReadDraft r p) k = ReadDraft r (\<lambda>x. tryp (p x) k)"
| "tryp (WriteDraft q p) k = WriteDraft q (\<lambda>x. tryp (p x) k)"
| "tryp (RemoveDraft r p) k = RemoveDraft r (\<lambda>x. tryp (p x) k)"
| "tryp (ReadFiles a p) k = ReadFiles a (\<lambda>x. tryp (p x) k)"
| "tryp (ResolveFiles a p) k = ResolveFiles a (\<lambda>x. tryp (p x) k)"
| "tryp (SendOut r q p) k = SendOut r q (\<lambda>x. tryp (p x) k)"

definition awaitp :: "('w, 'a) proc \<Rightarrow> ('a \<Rightarrow> ('w, 'b) proc) \<Rightarrow> ('w, 'b) proc" where
  "awaitp p k = tryp p (case_sum Throw k)"

definition catchp :: "('w, 'a) proc \<Rightarrow> (utext \<Rightarrow> ('w, 'a) proc) \<Rightarrow> ('w, 'a) proc" where
  "catchp p h = tryp p (case_sum h Return)"

text \<open>An answer of the outside as the outcome of an await.\<close>

fun answered :: "utext + 'a \<Rightarrow> ('w, 'a) proc" where
  "answered (Inl e) = Throw e"
| "answered (Inr a) = Return a"

definition exec :: "('w \<Rightarrow> 'a \<times> 'w) \<Rightarrow> ('w, 'a) proc" where
  "exec f = Atomic (\<lambda>w. snd (f w)) (\<lambda>w. Return (fst (f w)))"

definition query :: "('w \<Rightarrow> 'a) \<Rightarrow> ('w, 'a) proc" where
  "query f = Atomic (\<lambda>w. w) (\<lambda>w. Return (f w))"

text \<open>\<open>withDraft\<close>: the lock is released whether the body returns or throws.\<close>

definition withLock :: "string \<Rightarrow> ('w, 'a) proc \<Rightarrow> ('w, 'a) proc" where
  "withLock l p = Lock l (tryp p (\<lambda>x. Unlock l (answered x)))"

section \<open>Rely and guarantee\<close>

text \<open>
  A promise about a procedure that runs among others: \<open>wp\<close> takes what the others may do (\<open>rely\<close>, for
  the locks this one holds), what holds of the state all along (\<open>inv\<close>), what each of its own steps may do
  (\<open>guar\<close>), which lock it may wait for while it holds which (\<open>may_lock\<close>), and when it may hand a row to the
  sender (\<open>may_send\<close>). \<open>H\<close> are its claims: the locks it holds, the drafts it was told of, and the ids
  of rows only it will insert; \<open>ph\<close> is where it stands with respect to a send.
\<close>

datatype phase = Idle | Won outbox_row | Answered outbox_row "utext + string option"

datatype claim_token = Held string | Knows string | Mint string

record 'w rules =
  rely :: "claim_token set \<Rightarrow> 'w \<Rightarrow> 'w \<Rightarrow> bool"
  guar :: "claim_token set \<Rightarrow> phase \<Rightarrow> 'w \<Rightarrow> claim_token set \<Rightarrow> phase \<Rightarrow> 'w \<Rightarrow> bool"
  inv :: "'w \<Rightarrow> bool"
  may_lock :: "claim_token set \<Rightarrow> string \<Rightarrow> bool"
  may_send :: "outbox_row \<Rightarrow> send_request \<Rightarrow> bool"

type_synonym ('w, 'a) post = "utext + 'a \<Rightarrow> claim_token set \<Rightarrow> phase \<Rightarrow> 'w \<Rightarrow> bool"

primrec wp :: "'w rules \<Rightarrow> ('w, 'a) proc \<Rightarrow> ('w, 'a) post \<Rightarrow> claim_token set \<Rightarrow> phase \<Rightarrow> 'w \<Rightarrow> bool" where
  "wp R (Return a) Q H ph w \<longleftrightarrow> (\<forall>v. rely R H w v \<longrightarrow> Q (Inr a) H ph v)"
| "wp R (Throw e) Q H ph w \<longleftrightarrow> (\<forall>v. rely R H w v \<longrightarrow> Q (Inl e) H ph v)"
| "wp R (Atomic g p) Q H ph w \<longleftrightarrow> (\<forall>v. rely R H w v \<longrightarrow> inv R v \<longrightarrow>
     inv R (g v) \<and> (\<exists>H' ph'. guar R H ph v H' ph' (g v) \<and> wp R (p v) Q H' ph' (g v)))"
| "wp R (Lock l p) Q H ph w \<longleftrightarrow> may_lock R H l \<and> (\<forall>v. rely R H w v \<longrightarrow> wp R p Q (insert (Held l) H) ph v)"
| "wp R (Unlock l p) Q H ph w \<longleftrightarrow> Held l \<in> H \<and> ph = Idle \<and> (\<forall>v. rely R H w v \<longrightarrow> wp R p Q (H - {Held l}) ph v)"
| "wp R (ReadDraft r p) Q H ph w \<longleftrightarrow> (\<forall>v x. rely R H w v \<longrightarrow> wp R (p x) Q H ph v)"
| "wp R (WriteDraft q p) Q H ph w \<longleftrightarrow> (\<forall>v x. rely R H w v \<longrightarrow> wp R (p x) Q H ph v)"
| "wp R (RemoveDraft r p) Q H ph w \<longleftrightarrow> (\<forall>v x. rely R H w v \<longrightarrow> wp R (p x) Q H ph v)"
| "wp R (ReadFiles a p) Q H ph w \<longleftrightarrow> (\<forall>v x. rely R H w v \<longrightarrow> wp R (p x) Q H ph v)"
| "wp R (ResolveFiles a p) Q H ph w \<longleftrightarrow> (\<forall>v x. rely R H w v \<longrightarrow> wp R (p x) Q H ph v)"
| "wp R (SendOut r q p) Q H ph w \<longleftrightarrow> ph = Won r \<and> may_send R r q \<and>
     (\<forall>v x. rely R H w v \<longrightarrow> wp R (p x) Q H (Answered r x) v)"

locale rely_guarantee =
  fixes R :: "'w rules"
  assumes rely_refl: "rely R H w w"
    and rely_trans: "rely R H u v \<Longrightarrow> rely R H v w \<Longrightarrow> rely R H u w"
begin

lemma wp_stable: "wp R p Q H ph w \<Longrightarrow> rely R H w v \<Longrightarrow> wp R p Q H ph v"
  by (cases p) (auto intro: rely_trans)

lemma wp_conseq: "wp R p Q H ph w \<Longrightarrow> (\<And>x H ph w. Q x H ph w \<Longrightarrow> Q' x H ph w) \<Longrightarrow> wp R p Q' H ph w"
proof (induction p arbitrary: H ph w)
  case (Atomic g p)
  show ?case unfolding wp.simps
  proof (intro allI impI)
    fix v
    assume "rely R H w v" "inv R v"
    then obtain H' ph' where "inv R (g v)" "guar R H ph v H' ph' (g v)" "wp R (p v) Q H' ph' (g v)"
      using Atomic.prems(1) unfolding wp.simps by blast
    then show "inv R (g v) \<and> (\<exists>H' ph'. guar R H ph v H' ph' (g v) \<and> wp R (p v) Q' H' ph' (g v))"
      using Atomic.IH Atomic.prems(2) by (meson rangeI)
  qed
qed auto

lemma wp_tryp:
  assumes "wp R p (\<lambda>x. wp R (k x) Q) H ph w"
  shows "wp R (tryp p k) Q H ph w"
  using assms
proof (induction p arbitrary: H ph w)
  case (Return a)
  then show ?case using rely_refl by simp
next
  case (Throw e)
  then show ?case using rely_refl by simp
next
  case (Atomic g p)
  show ?case unfolding tryp.simps wp.simps
  proof (intro allI impI)
    fix v
    assume "rely R H w v" "inv R v"
    then obtain H' ph' where "inv R (g v)" "guar R H ph v H' ph' (g v)" "wp R (p v) (\<lambda>x. wp R (k x) Q) H' ph' (g v)"
      using Atomic.prems unfolding wp.simps by blast
    then show "inv R (g v) \<and> (\<exists>H' ph'. guar R H ph v H' ph' (g v) \<and> wp R (tryp (p v) k) Q H' ph' (g v))"
      using Atomic.IH by (meson rangeI)
  qed
qed auto

text \<open>What neither the others nor the procedure itself can break holds to the end.\<close>

lemma wp_frame:
  assumes "wp R p Q H ph w" "J H w"
    and n: "\<And>H l w. J (insert (Held l) H) w = J H w" "\<And>H l w. J (H - {Held l}) w = J H w"
    and r: "\<And>H w v. rely R H w v \<Longrightarrow> J H w \<Longrightarrow> J H v"
    and g: "\<And>H ph w H' ph' v. guar R H ph w H' ph' v \<Longrightarrow> J H w \<Longrightarrow> J H' v"
  shows "wp R p (\<lambda>x H ph v. Q x H ph v \<and> J H v) H ph w"
  using assms(1,2)
proof (induction p arbitrary: H ph w)
  case (Atomic f p)
  show ?case unfolding wp.simps
  proof (intro allI impI)
    fix v
    assume v: "rely R H w v" "inv R v"
    then obtain H' ph' where s: "inv R (f v)" "guar R H ph v H' ph' (f v)" "wp R (p v) Q H' ph' (f v)"
      using Atomic.prems(1) unfolding wp.simps by blast
    have "J H' (f v)" using g [OF s(2)] r [OF v(1) Atomic.prems(2)] .
    then show "inv R (f v) \<and> (\<exists>H' ph'. guar R H ph v H' ph' (f v) \<and> wp R (p v) (\<lambda>x H ph v. Q x H ph v \<and> J H v) H' ph' (f v))"
      using s Atomic.IH [OF rangeI s(3)] by blast
  qed
next
  case (Lock l p)
  then show ?case using n(1) r by simp
next
  case (Unlock l p)
  then show ?case using n(2) r by auto
qed (simp_all, (meson rangeI r)+)

text \<open>The rules by which a procedure is walked through, statement by statement.\<close>

lemma wp_awaitp:
  "wp R p (\<lambda>x. case x of Inl e \<Rightarrow> wp R (Throw e) Q | Inr a \<Rightarrow> wp R (k a) Q) H ph w \<Longrightarrow> wp R (awaitp p k) Q H ph w"
  unfolding awaitp_def by (rule wp_tryp, erule wp_conseq) (auto split: sum.splits)

lemma wp_catchp:
  "wp R p (\<lambda>x. case x of Inl e \<Rightarrow> wp R (h e) Q | Inr a \<Rightarrow> wp R (Return a) Q) H ph w \<Longrightarrow> wp R (catchp p h) Q H ph w"
  unfolding catchp_def by (rule wp_tryp, erule wp_conseq) (auto split: sum.splits)

lemma wp_query:
  "(\<And>v. rely R H w v \<Longrightarrow> inv R v \<Longrightarrow> guar R H ph v H ph v \<and> (\<forall>v'. rely R H v v' \<longrightarrow> Q (Inr (f v)) H ph v')) \<Longrightarrow>
   wp R (query f) Q H ph w"
  unfolding query_def wp.simps by blast

lemma wp_exec:
  "(\<And>v. rely R H w v \<Longrightarrow> inv R v \<Longrightarrow> inv R (snd (f v)) \<and> (\<exists>H' ph'. guar R H ph v H' ph' (snd (f v)) \<and>
      (\<forall>v'. rely R H' (snd (f v)) v' \<longrightarrow> Q (Inr (fst (f v))) H' ph' v'))) \<Longrightarrow>
   wp R (exec f) Q H ph w"
  unfolding exec_def wp.simps by blast

lemma wp_answered: "(\<And>v. rely R H w v \<Longrightarrow> Q x H ph v) \<Longrightarrow> wp R (answered x) Q H ph w"
  by (cases x) auto

lemma wp_withLock:
  assumes "may_lock R H l" "Held l \<notin> H"
    and "\<And>v. rely R H w v \<Longrightarrow> wp R p (\<lambda>x H' ph' v. H' = insert (Held l) H \<and> ph' = Idle \<and>
      (\<forall>v' v''. rely R (insert (Held l) H) v v' \<longrightarrow> rely R H v' v'' \<longrightarrow> Q x H Idle v'')) (insert (Held l) H) ph v"
  shows "wp R (withLock l p) Q H ph w"
  unfolding withLock_def wp.simps
proof (intro conjI allI impI)
  fix v
  assume "rely R H w v"
  show "wp R (tryp p (\<lambda>x. Unlock l (answered x))) Q (insert (Held l) H) ph v"
  proof (rule wp_tryp, rule wp_conseq [OF assms(3) [OF \<open>rely R H w v\<close>]])
    fix x H' ph' u
    assume a: "H' = insert (Held l) H \<and> ph' = Idle \<and>
      (\<forall>v' v''. rely R (insert (Held l) H) u v' \<longrightarrow> rely R H v' v'' \<longrightarrow> Q x H Idle v'')"
    then have "H' - {Held l} = H" using assms(2) by auto
    then show "wp R (Unlock l (answered x)) Q H' ph' u"
      using a by (auto intro!: wp_answered)
  qed
qed (rule assms(1))

lemma wp_if: "(b \<Longrightarrow> wp R p Q H ph w) \<Longrightarrow> (\<not> b \<Longrightarrow> wp R q Q H ph w) \<Longrightarrow> wp R (if b then p else q) Q H ph w"
  by simp

lemma wp_option:
  "(x = None \<Longrightarrow> wp R p Q H ph w) \<Longrightarrow> (\<And>y. x = Some y \<Longrightarrow> wp R (q y) Q H ph w) \<Longrightarrow>
   wp R (case x of None \<Rightarrow> p | Some y \<Rightarrow> q y) Q H ph w"
  by (cases x) simp_all

lemma wp_sum:
  "(\<And>y. x = Inl y \<Longrightarrow> wp R (p y) Q H ph w) \<Longrightarrow> (\<And>y. x = Inr y \<Longrightarrow> wp R (q y) Q H ph w) \<Longrightarrow>
   wp R (case x of Inl y \<Rightarrow> p y | Inr y \<Rightarrow> q y) Q H ph w"
  by (cases x) simp_all

lemma wp_prod: "(\<And>a b. x = (a, b) \<Longrightarrow> wp R (p a b) Q H ph w) \<Longrightarrow> wp R (case x of (a, b) \<Rightarrow> p a b) Q H ph w"
  by (cases x) simp

lemma wp_Let: "(\<And>y. y = x \<Longrightarrow> wp R (p y) Q H ph w) \<Longrightarrow> wp R (Let x p) Q H ph w"
  by simp

end

end
