(* ===== verification/ErrorCopy.thy ===== *)
theory ErrorCopy
  imports JsText
begin

text \<open>
  src/main/outbound/error-copy.ts: the classifier of failed sends. Its summary is what an Outbox row
  stores, and it is run again on that summary to decide whether the send may be tried again.
\<close>

datatype outbound_error_kind = Transient | AuthKind | Unsupported | UnknownKind

record shaped_error =
  ekind :: outbound_error_kind
  summary :: utext
  emessage :: utext
  canRetry :: bool

definition quotaMarker :: "utext \<Rightarrow> bool" where
  "quotaMarker t \<longleftrightarrow> (let f = fold_case t in has (uc ''ratelimitexceeded'') f \<or>
     has (uc ''userratelimitexceeded'') f \<or> has (uc ''quotaexceeded'') f \<or> prefix (uc ''rate-limited:'') f)"

text \<open>The status of \<open>/^\S+ (\d{3}) /\<close>.\<close>

definition httpStatus :: "utext \<Rightarrow> utext option" where
  "httpStatus t = (let r = dropWhile (\<lambda>c. \<not> ws_unit c) t; d = take 3 (drop 1 r) in
     if takeWhile (\<lambda>c. \<not> ws_unit c) t \<noteq> [] \<and> take 1 r = [32] \<and> length d = 3 \<and> list_all digit d \<and>
        take 1 (drop 4 r) = [32]
     then Some d else None)"

text \<open>The status of \<open>/^smtp transient (\d{3}):/\<close>.\<close>

definition smtpTransient :: "utext \<Rightarrow> utext option" where
  "smtpTransient t = (let d = take 3 (drop 15 t) in
     if prefix (uc ''smtp transient '') t \<and> length d = 3 \<and> list_all digit d \<and> take 1 (drop 18 t) = [58]
     then Some d else None)"

definition authMarker :: "utext \<Rightarrow> bool" where
  "authMarker t \<longleftrightarrow> (let f = fold_case t in hasThen (uc ''reconnect '') (uc '' in settings'') f \<or>
     has (uc ''no gmail credentials'') f \<or> has (uc ''access_token_scope_insufficient'') f \<or>
     has (uc ''insufficientpermissions'') f)"

definition unsupportedMarker :: "utext \<Rightarrow> bool" where
  "unsupportedMarker t \<longleftrightarrow> has (uc ''is not supported yet'') t"

definition notSent :: "utext \<Rightarrow> bool" where
  "notSent t \<longleftrightarrow> prefix (uc ''not sent: '') t"

definition BUSY_MESSAGE :: utext where
  "BUSY_MESSAGE = uc ''The mail service is busy right now '' @ [0x2014] @
     uc '' this message was NOT sent. Try again in a moment.''"

definition UNKNOWN_MESSAGE :: utext where
  "UNKNOWN_MESSAGE = uc ''Something went wrong and the app could not confirm delivery. If this was a network problem the message MAY still have been sent ''
     @ [0x2014] @ uc '' check your Sent folder before re-sending.''"

definition truncate :: "utext \<Rightarrow> nat \<Rightarrow> utext" where
  "truncate s n = (if length s \<le> n then s else take (n - 1) s @ [0x2026])"

definition isShapedSummary :: "utext \<Rightarrow> bool" where
  "isShapedSummary t \<longleftrightarrow> t = uc ''send failed with no error message'' \<or> prefix (uc ''send failed: '') t"

definition stripEnd :: "utext \<Rightarrow> utext" where
  "stripEnd s = rev (dropWhile (\<lambda>c. c = 46 \<or> ws_unit c) (rev s))"

definition nothing_was_sent :: utext where
  "nothing_was_sent = uc '') '' @ [0x2014] @ uc '' nothing was sent''"

text \<open>
  What is decided about a text that is one line already; \<open>shapeOutboundError\<close> flattens its input once,
  before anything is matched.
\<close>

definition classify :: "utext \<Rightarrow> shaped_error" where
  "classify text =
     (let already = isShapedSummary text; status = httpStatus text in
      if text = [] then
        \<lparr>ekind = UnknownKind, summary = uc ''send failed with no error message'', emessage = UNKNOWN_MESSAGE,
         canRetry = False\<rparr>
      else if notSent text then
        \<lparr>ekind = Transient, summary = truncate text 200,
         emessage = uc ''This message was NOT sent '' @ [0x2014, 32] @ stripEnd (drop 10 text) @ uc ''.'', canRetry = True\<rparr>
      else case smtpTransient text of Some d \<Rightarrow>
        \<lparr>ekind = Transient,
         summary = uc ''rate-limited: the mail server deferred the send (SMTP '' @ d @ nothing_was_sent,
         emessage = BUSY_MESSAGE, canRetry = True\<rparr>
      | None \<Rightarrow>
      if \<not> already \<and> (quotaMarker text \<and> (status = None \<or> status = Some (uc ''403'') \<or> status = Some (uc ''429'')) \<or>
         status = Some (uc ''429'')) then
        \<lparr>ekind = Transient,
         summary = (if prefix (uc ''rate-limited:'') text then truncate text 200
           else uc ''rate-limited: the mail service rejected the send (HTTP '' @
             (case status of Some d \<Rightarrow> d | None \<Rightarrow> uc ''403'') @ nothing_was_sent),
         emessage = BUSY_MESSAGE, canRetry = True\<rparr>
      else if status = Some (uc ''401'') \<or> authMarker text then
        \<lparr>ekind = AuthKind, summary = truncate text 200,
         emessage = truncate text 200 @ uc ''. Then tap Try again.'', canRetry = True\<rparr>
      else if unsupportedMarker text then
        \<lparr>ekind = Unsupported, summary = truncate text 200,
         emessage = uc ''This account type cannot send messages yet '' @ [0x2014] @
           uc '' ask your assistant to use a supported account.'', canRetry = False\<rparr>
      else
        \<lparr>ekind = UnknownKind,
         summary = (if already then truncate text 220 else uc ''send failed: '' @ truncate text 200),
         emessage = UNKNOWN_MESSAGE, canRetry = False\<rparr>)"

definition shapeOutboundError :: "utext \<Rightarrow> shaped_error" where
  "shapeOutboundError raw = classify (singleLine (utrim raw))"

section \<open>Flat texts\<close>

text \<open>One line: single blanks inside, none at either end. The argument says that a blank came before.\<close>

fun flat_in :: "bool \<Rightarrow> utext \<Rightarrow> bool" where
  "flat_in b [] \<longleftrightarrow> True"
| "flat_in b (c # s) \<longleftrightarrow> (if ws_unit c then c = 32 \<and> \<not> b \<and> flat_in True s else flat_in False s)"

definition flat :: "utext \<Rightarrow> bool" where
  "flat t \<longleftrightarrow> flat_in True t \<and> (t \<noteq> [] \<longrightarrow> \<not> ws_unit (last t))"

lemma flat_in_mono: "flat_in True s \<Longrightarrow> flat_in False s"
  by (cases s) (auto split: if_splits)

lemma flat_in_append: "flat_in b (s @ t) \<Longrightarrow> flat_in b s"
  by (induction s arbitrary: b) (auto split: if_splits)

lemma flat_in_snoc: "flat_in b s \<Longrightarrow> \<not> ws_unit c \<Longrightarrow> flat_in b (s @ [c])"
  by (induction s arbitrary: b) (auto split: if_splits)

lemma flat_in_dropWhile: "flat_in False s \<Longrightarrow> flat_in True (dropWhile ws_unit s)"
proof (induction s)
  case (Cons c s)
  then show ?case by (cases s) (auto split: if_splits)
qed simp

lemma ws_32 [simp]: "ws_unit 32"
  by (simp add: ws_unit_def)

lemma flat_in_spaced: "flat_in False (spaced s) \<and> (s = [] \<or> \<not> ws_unit (hd s) \<longrightarrow> flat_in True (spaced s))"
proof (induction s rule: spaced.induct)
  case (2 c s)
  show ?case
  proof (cases "ws_unit c")
    case True
    have "dropWhile ws_unit s = [] \<or> \<not> ws_unit (hd (dropWhile ws_unit s))" using hd_dropWhile by blast
    then show ?thesis using 2(1) [OF True] True by simp
  next
    case False
    then show ?thesis using 2(2) by simp
  qed
qed simp

lemma rstrip_prefix: "\<exists>r. s = rstrip s @ r"
  by (metis rev_append rev_rev_ident rstrip_def takeWhile_dropWhile_id)

lemma flat_singleLine: "flat (singleLine s)"
proof -
  have "flat_in True (dropWhile ws_unit (spaced s))" using flat_in_spaced flat_in_dropWhile by blast
  moreover obtain r where "dropWhile ws_unit (spaced s) = singleLine s @ r"
    using rstrip_prefix by (metis singleLine_def utrim_def)
  ultimately have "flat_in True (singleLine s)" using flat_in_append by metis
  moreover have "\<not> ws_unit (last (singleLine s))" if "singleLine s \<noteq> []"
    using that hd_dropWhile [of ws_unit "rev (dropWhile ws_unit (spaced s))"]
    unfolding singleLine_def utrim_def rstrip_def by (simp add: last_rev del: dropWhile_eq_Nil_conv)
  ultimately show ?thesis by (simp add: flat_def)
qed

lemma dropWhile_flat: "flat_in True s \<Longrightarrow> dropWhile ws_unit s = s"
  by (cases s) (auto split: if_splits)

lemma rstrip_flat: "s \<noteq> [] \<longrightarrow> \<not> ws_unit (last s) \<Longrightarrow> rstrip s = s"
  by (cases s rule: rev_cases) (auto simp: rstrip_def)

lemma utrim_flat: "flat s \<Longrightarrow> utrim s = s"
  by (simp add: flat_def utrim_def dropWhile_flat rstrip_flat)

lemma spaced_flat: "flat_in b s \<Longrightarrow> spaced s = s"
  by (induction s arbitrary: b rule: spaced.induct) (auto simp: dropWhile_flat split: if_splits)

lemma shape_flat: "flat t \<Longrightarrow> shapeOutboundError t = classify t"
  using spaced_flat [of True t] by (simp add: shapeOutboundError_def singleLine_def utrim_flat flat_def)

lemma flat_truncate: "flat t \<Longrightarrow> flat (truncate t n)"
  using flat_in_append [of True "take (n - 1) t" "drop (n - 1) t"]
  by (auto simp: flat_def truncate_def intro!: flat_in_snoc) (simp_all add: ws_unit_def)

lemma flat_wrapped: "flat t \<Longrightarrow> t \<noteq> [] \<Longrightarrow> flat (uc ''send failed: '' @ t)"
  by (simp add: flat_def ws_unit_def)

section \<open>Cut texts\<close>

lemma prefix_cut: "prefix p (truncate t n) \<Longrightarrow> 0x2026 \<notin> set p \<Longrightarrow> prefix p t"
proof -
  assume p: "prefix p (truncate t n)" "0x2026 \<notin> set p"
  have "prefix p (take (n - 1) t)" if "\<not> length t \<le> n"
  proof -
    have "p = take (n - 1) t @ [0x2026] \<or> prefix p (take (n - 1) t)"
      using p(1) that by (simp add: truncate_def)
    then show ?thesis using p(2) by auto
  qed
  then show ?thesis using p(1) by (cases "length t \<le> n") (auto simp: truncate_def intro: prefix_order.trans take_is_prefix)
qed

lemma has_snoc: "has p (a @ [x]) \<Longrightarrow> x \<notin> set p \<Longrightarrow> has p a"
proof -
  assume p: "has p (a @ [x])" "x \<notin> set p"
  then obtain b c where e: "a @ [x] = b @ p @ c" by (auto simp: has_iff)
  show "has p a"
  proof (cases c rule: rev_cases)
    case Nil
    then show ?thesis using e p(2) by (cases p rule: rev_cases) (auto simp: has_iff)
  next
    case (snoc c' y)
    then have "a = b @ p @ c'" using e by simp
    then show ?thesis by (auto simp: has_iff)
  qed
qed

lemma has_take: "has p (take n t) \<Longrightarrow> has p t"
  by (metis append_take_drop_id has_append(2))

lemma hasThen_snoc: "hasThen p q (a @ [x]) \<Longrightarrow> x \<notin> set q \<Longrightarrow> q \<noteq> [] \<Longrightarrow> hasThen p q a"
proof -
  assume q: "hasThen p q (a @ [x])" "x \<notin> set q" "q \<noteq> []"
  then obtain b m c where e: "a @ [x] = b @ p @ m @ q @ c" by (auto simp: hasThen_iff)
  show "hasThen p q a"
  proof (cases c rule: rev_cases)
    case Nil
    then show ?thesis using e q(2,3) by (cases q rule: rev_cases) auto
  next
    case (snoc c' y)
    then have "a = b @ p @ m @ q @ c'" using e by simp
    then show ?thesis by (auto simp: hasThen_iff)
  qed
qed

lemma hasThen_take: "hasThen p q (take n t) \<Longrightarrow> hasThen p q t"
proof -
  assume "hasThen p q (take n t)"
  then obtain a m b where "take n t = a @ p @ m @ q @ b" by (auto simp: hasThen_iff)
  then have "t = a @ p @ m @ q @ (b @ drop n t)" by (metis append.assoc append_take_drop_id)
  then show ?thesis by (auto simp: hasThen_iff)
qed

lemma fold_ellipsis [simp]: "fold_case [0x2026] = [0x2026]"
  by (simp add: fold_case_def)

lemma authMarker_cut: "authMarker (truncate t n) \<Longrightarrow> authMarker t"
  unfolding authMarker_def truncate_def Let_def
  by (auto split: if_splits dest!: has_snoc hasThen_snoc has_take hasThen_take)

lemma authMarker_wrapped: "authMarker (uc ''send failed: '' @ t) \<Longrightarrow> authMarker t"
  by (simp add: authMarker_def Let_def fold_case_def)

section \<open>Reading a summary again\<close>

lemma classify_shaped:
  assumes "isShapedSummary t" "\<not> authMarker t"
  shows "\<not> canRetry (classify t)"
proof -
  obtain r where r: "t = uc ''send failed'' @ r" "r = uc '' with no error message'' \<or> (\<exists>x. r = uc '': '' @ x)"
    using assms(1) by (auto simp: isShapedSummary_def prefix_def)
  have "\<not> notSent t" "smtpTransient t = None" "httpStatus t = None" using r
    by (auto simp: notSent_def smtpTransient_def httpStatus_def Let_def ws_unit_def digit_def prefix_def)
  then show ?thesis using assms by (auto simp: classify_def Let_def)
qed

lemma httpStatus_Some: "httpStatus t = Some d \<Longrightarrow> length d = 3 \<and> list_all digit d"
  by (auto simp: httpStatus_def Let_def split: if_splits)

lemma smtpTransient_Some: "smtpTransient t = Some d \<Longrightarrow> length d = 3 \<and> list_all digit d"
  by (auto simp: smtpTransient_def Let_def split: if_splits)

lemma digit_units: "digit c \<Longrightarrow> \<not> ws_unit c \<and> c \<noteq> 0x2026"
  unfolding digit_def ws_unit_def by (auto simp: word_le_nat_alt)

lemma three: "length d = 3 \<Longrightarrow> \<exists>a b c. d = [a, b, c]"
  by (simp add: numeral_3_eq_3 length_Suc_conv) blast

definition smtp_limited :: "utext \<Rightarrow> utext" where
  "smtp_limited d = uc ''rate-limited: the mail server deferred the send (SMTP '' @ d @ nothing_was_sent"

definition http_limited :: "utext \<Rightarrow> utext" where
  "http_limited d = uc ''rate-limited: the mail service rejected the send (HTTP '' @ d @ nothing_was_sent"

lemma classify_rate_limited:
  assumes "t = uc ''rate-limited: the mail ser'' @ r"
  shows "ekind (classify t) = Transient" "canRetry (classify t)"
proof -
  have "\<not> notSent t" by (simp add: assms notSent_def)
  moreover have "smtpTransient t = None" by (simp add: assms smtpTransient_def)
  moreover have "\<not> isShapedSummary t" by (simp add: assms isShapedSummary_def)
  moreover have "quotaMarker t" by (simp add: assms quotaMarker_def fold_case_def)
  moreover have "httpStatus t = None"
    by (simp add: assms httpStatus_def ws_unit_def digit_def Let_def)
  moreover have "t \<noteq> []" by (simp add: assms)
  ultimately show "ekind (classify t) = Transient" "canRetry (classify t)" by (simp_all add: classify_def Let_def)
qed

lemma limited_again:
  "ekind (classify (smtp_limited d)) = Transient" "canRetry (classify (smtp_limited d))"
  "ekind (classify (http_limited d)) = Transient" "canRetry (classify (http_limited d))"
proof -
  have "smtp_limited d = uc ''rate-limited: the mail ser'' @ uc ''ver deferred the send (SMTP '' @ d @ nothing_was_sent"
    by (simp add: smtp_limited_def)
  then show "ekind (classify (smtp_limited d)) = Transient" "canRetry (classify (smtp_limited d))"
    by (rule classify_rate_limited)+
  have "http_limited d = uc ''rate-limited: the mail ser'' @ uc ''vice rejected the send (HTTP '' @ d @ nothing_was_sent"
    by (simp add: http_limited_def)
  then show "ekind (classify (http_limited d)) = Transient" "canRetry (classify (http_limited d))"
    by (rule classify_rate_limited)+
qed

lemma flat_in_concat: "flat_in b (s @ t) \<longleftrightarrow> flat_in b s \<and> flat_in (if s = [] then b else ws_unit (last s)) t"
  by (induction s arbitrary: b) auto

lemma flat_limited:
  assumes "length d = 3" "list_all digit d"
  shows "flat (smtp_limited d)" "flat (http_limited d)"
proof -
  obtain a b c where d: "d = [a, b, c]" using three assms(1) by blast
  have w: "\<not> ws_unit a" "\<not> ws_unit b" "\<not> ws_unit c" using assms(2) d digit_units by auto
  have m: "flat_in False (d @ nothing_was_sent)" "\<not> ws_unit (last (x @ d @ nothing_was_sent))" for x
  proof -
    have "flat_in False nothing_was_sent" "\<not> ws_unit (last nothing_was_sent)" "nothing_was_sent \<noteq> []"
      by code_simp+
    then show "flat_in False (d @ nothing_was_sent)" "\<not> ws_unit (last (x @ d @ nothing_was_sent))"
      using w by (simp_all add: d)
  qed
  have "flat_in True (uc ''rate-limited: the mail server deferred the send (SMTP '')"
      "flat_in True (uc ''rate-limited: the mail service rejected the send (HTTP '')" by code_simp+
  moreover have "ws_unit (last (uc ''rate-limited: the mail server deferred the send (SMTP ''))"
      "ws_unit (last (uc ''rate-limited: the mail service rejected the send (HTTP ''))" by code_simp+
  moreover have "flat_in True (d @ nothing_was_sent)" using m(1) w by (simp add: d)
  ultimately show "flat (smtp_limited d)" "flat (http_limited d)"
    using m(2) by (simp_all only: flat_def smtp_limited_def http_limited_def flat_in_concat) auto
qed

text \<open>What \<open>classify\<close> makes of a text, summary by summary.\<close>

lemma classify_cases:
  obtains (empty) "t = []" "summary (classify t) = uc ''send failed with no error message''"
      "ekind (classify t) = UnknownKind" "\<not> canRetry (classify t)"
  | (cut) "summary (classify t) = truncate t 200" "ekind (classify t) \<noteq> UnknownKind"
  | (smtp) d where "summary (classify t) = smtp_limited d" "length d = 3" "list_all digit d"
      "ekind (classify t) = Transient" "canRetry (classify t)"
  | (http) d where "summary (classify t) = http_limited d" "length d = 3" "list_all digit d"
      "ekind (classify t) = Transient" "canRetry (classify t)"
  | (unknown) "t \<noteq> []" "\<not> authMarker t" "\<not> unsupportedMarker t" "ekind (classify t) = UnknownKind" "\<not> canRetry (classify t)"
      "summary (classify t) = (if isShapedSummary t then truncate t 220 else uc ''send failed: '' @ truncate t 200)"
proof -
  note defs = classify_def Let_def smtp_limited_def http_limited_def
  consider "t = []" | "t \<noteq> []" "notSent t" | d where "t \<noteq> []" "\<not> notSent t" "smtpTransient t = Some d"
    | "t \<noteq> []" "\<not> notSent t" "smtpTransient t = None" by fastforce
  then show thesis
  proof cases
    case 1
    then show ?thesis using empty by (simp add: defs)
  next
    case 2
    then show ?thesis using cut by (simp add: defs)
  next
    case 3
    then show ?thesis using smtp [of d] smtpTransient_Some [of t d] by (simp add: defs)
  next
    case 4
    define gate where "gate \<longleftrightarrow> \<not> isShapedSummary t \<and> (quotaMarker t \<and> (httpStatus t = None \<or>
      httpStatus t = Some (uc ''403'') \<or> httpStatus t = Some (uc ''429'')) \<or> httpStatus t = Some (uc ''429''))"
    note c = 4 gate_def [symmetric]
    consider "gate" "prefix (uc ''rate-limited:'') t" | "gate" "\<not> prefix (uc ''rate-limited:'') t"
      | "\<not> gate" "httpStatus t = Some (uc ''401'') \<or> authMarker t"
      | "\<not> gate" "\<not> (httpStatus t = Some (uc ''401'') \<or> authMarker t)" "unsupportedMarker t"
      | "\<not> gate" "\<not> (httpStatus t = Some (uc ''401'') \<or> authMarker t)" "\<not> unsupportedMarker t" by blast
    then show ?thesis
    proof cases
      case 1
      then show ?thesis using cut unfolding classify_def Let_def by (simp add: c del: uc_simps)
    next
      case 2
      define d where "d = (case httpStatus t of Some d \<Rightarrow> d | None \<Rightarrow> uc ''403'')"
      have "length d = 3" "list_all digit d"
        using httpStatus_Some by (auto simp: d_def digit_def split: option.splits)
      then show ?thesis using http [of d] 2 unfolding classify_def Let_def
        by (simp add: c d_def http_limited_def del: uc_simps)
    next
      case 3
      then show ?thesis using cut unfolding classify_def Let_def by (simp add: c del: uc_simps)
    next
      case 4
      then show ?thesis using cut unfolding classify_def Let_def by (simp add: c del: uc_simps)
    next
      case 5
      then show ?thesis using unknown unfolding classify_def Let_def by (simp add: c del: uc_simps)
    qed
  qed
qed

lemma marked_unsupported: "ekind (classify t) \<noteq> UnknownKind \<Longrightarrow> \<not> canRetry (classify t) \<Longrightarrow> unsupportedMarker t"
  by (auto simp: classify_def Let_def split: option.splits if_splits)

lemma flat_summary:
  assumes "flat t"
  shows "flat (summary (classify t))"
proof (cases rule: classify_cases [of t])
  case empty
  have "flat (uc ''send failed with no error message'')" by code_simp
  then show ?thesis using empty by simp
next
  case unknown
  then have "truncate t 200 \<noteq> []" by (simp add: truncate_def)
  then show ?thesis using unknown assms flat_truncate flat_wrapped by simp
qed (simp_all add: assms flat_truncate flat_limited)

lemma summary_shape:
  "shapeOutboundError (summary (shapeOutboundError raw)) = classify (summary (classify (singleLine (utrim raw))))"
  using shape_flat [OF flat_summary [OF flat_singleLine]] by (simp add: shapeOutboundError_def)

lemma isShaped_truncate: "isShapedSummary t \<Longrightarrow> isShapedSummary (truncate t 220)"
  by (auto simp: isShapedSummary_def truncate_def prefix_def)

lemma unknown_stays:
  assumes "ekind (classify t) = UnknownKind"
  shows "\<not> canRetry (classify (summary (classify t)))"
proof (cases rule: classify_cases [of t])
  case empty
  have "\<not> canRetry (classify (uc ''send failed with no error message''))" by code_simp
  then show ?thesis using empty by simp
next
  case unknown
  let ?w = "uc ''send failed: '' @ truncate t 200"
  have "isShapedSummary ?w" by (simp add: isShapedSummary_def)
  moreover have "\<not> authMarker ?w" using unknown(2) authMarker_wrapped authMarker_cut by blast
  ultimately have "\<not> canRetry (classify ?w)" by (rule classify_shaped)
  moreover have "\<not> canRetry (classify (truncate t 220))" if "isShapedSummary t"
    using classify_shaped [OF isShaped_truncate [OF that]] unknown(2) authMarker_cut by blast
  ultimately show ?thesis unfolding unknown(6) by (simp del: uc_simps)
qed (use assms in auto)

section \<open>Properties\<close>

text \<open>
  C36: reading an error again never makes it retryable. The summary an Outbox row stores of a failed send is
  offered as "Try again" only when the error itself proved that the message was not accepted, whatever
  else its text contains and wherever it was cut, unless the account type cannot send at all.
\<close>

theorem retry_is_never_gained:
  assumes "ekind (shapeOutboundError raw) \<noteq> Unsupported"
    and "canRetry (shapeOutboundError (summary (shapeOutboundError raw)))"
  shows "canRetry (shapeOutboundError raw)"
proof -
  define t where "t = singleLine (utrim raw)"
  have s: "shapeOutboundError raw = classify t" by (simp add: t_def shapeOutboundError_def)
  have "canRetry (classify (summary (classify t)))" using assms(2) unfolding summary_shape t_def .
  then have "ekind (classify t) \<noteq> UnknownKind" using unknown_stays by blast
  moreover have "ekind (classify t) = Transient \<or> ekind (classify t) = AuthKind \<Longrightarrow> canRetry (classify t)"
    by (auto simp: classify_def Let_def split: option.splits if_splits)
  ultimately show ?thesis using assms(1) s by (cases "ekind (classify t)") auto
qed

theorem retry_is_never_gained_witness:
  "canRetry (shapeOutboundError (uc ''gmail 429 https://x slow down''))"
  by (rule retry_is_never_gained) code_simp+

text \<open>
  An error that fits its summary is a fixed point of the classifier: read again from the row, it has the
  same kind, and may be retried exactly when it could be before.
\<close>

theorem short_errors_keep_their_kind:
  assumes "length (singleLine (utrim raw)) \<le> 200"
  shows "ekind (shapeOutboundError (summary (shapeOutboundError raw))) = ekind (shapeOutboundError raw) \<and>
    canRetry (shapeOutboundError (summary (shapeOutboundError raw))) = canRetry (shapeOutboundError raw)"
proof -
  define t where "t = singleLine (utrim raw)"
  have s: "shapeOutboundError raw = classify t" by (simp add: t_def shapeOutboundError_def)
  have l: "length t \<le> 200" using assms by (simp add: t_def)
  have "ekind (classify (summary (classify t))) = ekind (classify t) \<and>
      canRetry (classify (summary (classify t))) = canRetry (classify t)"
  proof (cases rule: classify_cases [of t])
    case empty
    have "ekind (classify (uc ''send failed with no error message'')) = UnknownKind \<and>
      \<not> canRetry (classify (uc ''send failed with no error message''))" by code_simp
    then show ?thesis using empty by simp
  next
    case cut
    then show ?thesis using l by (simp add: truncate_def)
  next
    case smtp
    then show ?thesis using limited_again(1,2) by simp
  next
    case http
    then show ?thesis using limited_again(3,4) by simp
  next
    case unknown
    note keeps = unknown_stays [OF unknown(4)]
    show ?thesis
    proof (cases "isShapedSummary t")
      case True
      then show ?thesis using unknown(6) l by (simp add: truncate_def)
    next
      case False
      then have e: "summary (classify t) = uc ''send failed: '' @ t" using unknown(6) l by (simp add: truncate_def)
      have "\<not> unsupportedMarker (uc ''send failed: '' @ t)"
        using unknown(3) by (simp add: unsupportedMarker_def)
      then have "ekind (classify (uc ''send failed: '' @ t)) = UnknownKind"
        using keeps marked_unsupported unfolding e by blast
      then show ?thesis using unknown(4,5) keeps e by simp
    qed
  qed
  then show ?thesis by (simp only: summary_shape) (simp only: s t_def)
qed

theorem short_errors_keep_their_kind_witness:
  "ekind (shapeOutboundError (summary (shapeOutboundError (uc '' smtp  transient 451: later'')))) =
     ekind (shapeOutboundError (uc '' smtp  transient 451: later'')) \<and>
   canRetry (shapeOutboundError (summary (shapeOutboundError (uc '' smtp  transient 451: later'')))) =
     canRetry (shapeOutboundError (uc '' smtp  transient 451: later''))"
  by (rule short_errors_keep_their_kind) code_simp

end
