(* ===== verification/Outbound.thy ===== *)
theory Outbound
  imports Procs ErrorCopy Ids
begin

text \<open>
  src/main/outbound/mirror.ts and service.ts: the life of an Outbox draft between the user, the provider's
  copy and the sender, each procedure as a resumption over one shared \<open>world\<close>.
\<close>

section \<open>The world\<close>

record account_info =
  asource :: string
  aconfig :: jobj

text \<open>
  \<open>accts\<close> is \<open>store.account\<close>; \<open>senderOf\<close> is \<open>lookup.get\<close>, telling whether the sender keeps provider
  drafts; \<open>hasFiles\<close> is whether the service has the attachments API; \<open>clock\<close> is \<open>Date.now()\<close>.
\<close>

record world =
  ox :: outbox
  clock :: millis
  readOnly :: bool
  accts :: "string \<Rightarrow> account_info option"
  senderOf :: "string \<Rightarrow> bool option"
  senderIds :: "utext list"
  defaultMode :: "confirm_mode option"
  hasFiles :: bool

text \<open>
  What is not ours to define: \<open>toLowerCase\<close>, the Markdown of a provider's HTML, whether its words are
  those of a Markdown text, the hash of a body, \<open>Number(x)\<close> of a JSON value, the e-mail pattern.
\<close>

record mail_deps =
  lowerCase :: "utext \<Rightarrow> utext"
  markdownOf :: "draft_content \<Rightarrow> utext"
  sameBody :: "draft_content \<Rightarrow> utext \<Rightarrow> bool"
  bodyHash :: "draft_content \<Rightarrow> string"
  toNumber :: "json \<Rightarrow> int option"
  emailOk :: "utext \<Rightarrow> bool"

type_synonym 'a mail = "(world, 'a) proc"

definition onOutbox :: "(millis \<Rightarrow> outbox \<Rightarrow> 'a \<times> outbox) \<Rightarrow> 'a mail" where
  "onOutbox f = exec (\<lambda>w. let (a, s) = f (clock w) (ox w) in (a, w\<lparr>ox := s\<rparr>))"

definition oxGet :: "string \<Rightarrow> outbox_row option mail" where
  "oxGet i = query (\<lambda>w. outboxGet i (ox w))"

definition oxSweep :: "unit mail" where
  "oxSweep = exec (\<lambda>w. ((), w\<lparr>ox := expireOverdue (readOnly w) (clock w) (ox w)\<rparr>))"

definition oxTransition :: "string \<Rightarrow> outbox_status list \<Rightarrow> outbox_status \<Rightarrow> transition_patch \<Rightarrow> bool mail" where
  "oxTransition i froms to p = onOutbox (\<lambda>_. transition i froms to p)"

definition oxSetMirror :: "string \<Rightarrow> mirror_state \<Rightarrow> unit mail" where
  "oxSetMirror i m = onOutbox (\<lambda>_ s. ((), setMirror i m s))"

text \<open>\<open>x ?? row\<close>.\<close>

definition orRow :: "outbox_row \<Rightarrow> outbox_row option \<Rightarrow> outbox_row" where
  "orRow r x = (case x of None \<Rightarrow> r | Some y \<Rightarrow> y)"

definition reread :: "outbox_row \<Rightarrow> outbox_row mail" where
  "reread r = awaitp (oxGet (oid r)) (\<lambda>x. Return (orRow r x))"

section \<open>outbox.ts: the operations that await\<close>

definition applyContent :: "mail_deps \<Rightarrow> string \<Rightarrow> draft_snapshot \<Rightarrow> draft_ref option \<Rightarrow> apply_options \<Rightarrow> (outbox_row \<times> bool) mail" where
  "applyContent d i incoming ref p =
     awaitp (oxGet i) (\<lambda>x. case x of
       None \<Rightarrow> Throw (uc ''outbox: not a draft'')
     | Some r \<Rightarrow>
         if status r \<noteq> Draft then Throw (uc ''outbox: not a draft'')
         else let c = decideContent (lowerCase d) r incoming ref p in
           awaitp (onOutbox (\<lambda>now s. case writeContent c i now s of None \<Rightarrow> (False, s) | Some t \<Rightarrow> (True, t))) (\<lambda>ok.
           if \<not> ok then Throw (uc ''outbox: not a draft'')
           else awaitp (oxGet i) (\<lambda>y. case y of
             None \<Rightarrow> Throw (uc ''outbox: row vanished'')
           | Some next \<Rightarrow> Return (next, dchanged c))))"

definition tooMany :: "nat \<Rightarrow> utext" where
  "tooMany n = uc ''outbox: account has '' @ uc (show_nat n) @ uc '' pending drafts (cap 20) '' @ [0x2014] @
     uc '' confirm or cancel existing drafts first (list_outbox shows them).''"

definition createDraft :: "string \<Rightarrow> outbox_draft_input \<Rightarrow> outbox_row mail" where
  "createDraft i d =
     awaitp oxSweep (\<lambda>_.
     awaitp (query (\<lambda>w. countDrafts (dAccount d) (ox w))) (\<lambda>n.
     if n \<ge> OUTBOX_PENDING_CAP then Throw (tooMany n)
     else awaitp (onOutbox (\<lambda>now s. ((), insertDraft i d now s))) (\<lambda>_.
       awaitp (oxGet i) (\<lambda>x. case x of
         None \<Rightarrow> Throw (uc ''outbox: insert readback failed'')
       | Some r \<Rightarrow> awaitp (onOutbox (\<lambda>_ s. ((), fireChanged s))) (\<lambda>_. Return r)))))"

definition oxReopen :: "string \<Rightarrow> millis \<Rightarrow> outbox_row option mail" where
  "oxReopen i expires = awaitp (onOutbox (\<lambda>_. reopenRow i expires)) (\<lambda>moved.
     if moved then oxGet i else Return None)"

section \<open>mirror.ts\<close>

definition providerLabel :: "string \<Rightarrow> utext" where
  "providerLabel src = (if src = ''gmail'' then uc ''Gmail'' else uc ''Outlook'')"

definition sourceOf :: "outbox_row \<Rightarrow> string mail" where
  "sourceOf r = query (\<lambda>w. case accts w (accountId r) of None \<Rightarrow> [] | Some a \<Rightarrow> asource a)"

definition shortMessage :: "utext \<Rightarrow> utext" where
  "shortMessage m = (let line = singleLine m in
     if length line > 160 then take 159 line @ [0x2026] else if line = [] then uc ''unknown error'' else line)"

definition intentOf :: "outbox_row \<Rightarrow> send_intent" where
  "intentOf r = \<lparr>iAccount = accountId r, iKind = kind r, iOutboundRef = outboundRef r, iTo = toAddrs r,
     iCc = cc r, iBcc = bcc r, iSubject = subject r, iBody = bodyMarkdown r, iThreading = threading r, iFiles = []\<rparr>"

definition snapshotOfContent :: "mail_deps \<Rightarrow> draft_content \<Rightarrow> draft_snapshot" where
  "snapshotOfContent d c = \<lparr>sto = cto c, scc = ccc c, sbcc = cbcc c, ssubject = csubject c,
     sbody = markdownOf d c, sattachments = cattachments c\<rparr>"

record read_options =
  rOrigins :: "outbox_attachment list"
  rCreated :: bool
  rLocal :: "draft_snapshot option"
  rWroteBody :: bool

definition plain_read :: read_options where
  "plain_read = \<lparr>rOrigins = [], rCreated = False, rLocal = None, rWroteBody = False\<rparr>"

definition fieldsKey :: "mail_deps \<Rightarrow> draft_snapshot \<Rightarrow> snapshot_key" where
  "fieldsKey d s = normalizeSnapshot (lowerCase d) True (s\<lparr>sbody := [], sattachments := []\<rparr>)"

definition adopt :: "mail_deps \<Rightarrow> outbox_row \<Rightarrow> draft_ref \<Rightarrow> draft_content \<Rightarrow> read_options \<Rightarrow> outbox_row mail" where
  "adopt d r ref c p =
     (let bodies = (case rLocal p of None \<Rightarrow> [] | Some l \<Rightarrow> [sbody l]) @ [bodyMarkdown r];
          ours = find (sameBody d c) bodies;
          theirs = snapshotOfContent d c;
          copy = (case ours of None \<Rightarrow> theirs | Some md \<Rightarrow> theirs\<lparr>sbody := md\<rparr>);
          echo = (case rLocal p of None \<Rightarrow> False
            | Some l \<Rightarrow> ours = Some (sbody l) \<and> same_key (fieldsKey d copy) (fieldsKey d l));
          own = (echo \<and> rWroteBody p \<or> rCreated p \<and> ours = Some (bodyMarkdown r) \<and> rLocal p = None);
          hash = bodyHash d c;
          incoming = (case rLocal p of Some l \<Rightarrow> if echo then l\<lparr>sattachments := sattachments copy\<rparr> else copy | None \<Rightarrow> copy)
      in awaitp (applyContent d (oid r) incoming (Some ref)
           \<lparr>origins = rOrigins p, optFrom = Some (if echo then FromEcho else if rCreated p then FromCreated else FromProvider),
            seenKeyOpt = Some hash, ownKeyOpt = (if own then Some (Some hash) else None)\<rparr>)
         (\<lambda>(next, ch). Return next))"

definition readAdopt :: "mail_deps \<Rightarrow> outbox_row \<Rightarrow> draft_ref \<Rightarrow> read_options \<Rightarrow> outbox_row mail" where
  "readAdopt d r ref p = ReadDraft ref (\<lambda>x. case x of
     Inl e \<Rightarrow> Throw e
   | Inr (ReadDraftState ref' c) \<Rightarrow> adopt d r ref' c p
   | Inr res \<Rightarrow>
       if rCreated p then Throw (uc ''a new draft read back as '' @ (case res of
         ReadSent _ \<Rightarrow> uc ''sent'' | ReadDeleted \<Rightarrow> uc ''deleted'' | _ \<Rightarrow> uc ''gone''))
       else awaitp (sourceOf r) (\<lambda>src. let label = providerLabel src in
         awaitp (case res of
             ReadSent ext \<Rightarrow>
               awaitp (onOutbox (\<lambda>now. transition (oid r) [Draft] SentStatus
                 \<lparr>perror = None, pexternal = ext, psentAt = Some now\<rparr>)) (\<lambda>_.
               oxSetMirror (oid r) ((case mirror r of None \<Rightarrow> no_mirror | Some m \<Rightarrow> m)
                 \<lparr>mref := Some ref, provider := Some label, sentElsewhere := Some True\<rparr>))
           | ReadDeleted \<Rightarrow> awaitp (oxTransition (oid r) [Draft] Discarded
               (no_patch\<lparr>perror := Some (uc ''Deleted in '' @ label)\<rparr>)) (\<lambda>_. Return ())
           | _ \<Rightarrow> awaitp (oxTransition (oid r) [Draft] DeliveryUnknown
               (no_patch\<lparr>perror := Some (uc ''No longer in Drafts '' @ [0x2014] @ uc '' sent from '' @ label @
                 uc '' or deleted there; check Sent'')\<rparr>)) (\<lambda>_. Return ()))
         (\<lambda>_. reread r)))"

definition createLocked :: "mail_deps \<Rightarrow> outbox_row \<Rightarrow> send_intent \<Rightarrow> bool \<Rightarrow> outbox_row mail" where
  "createLocked d r intent readback =
     awaitp (sourceOf r) (\<lambda>src. let prov = providerLabel src in
     WriteDraft (CreateDraft intent) (\<lambda>x. case x of
       Inl e \<Rightarrow> awaitp (oxSetMirror (oid r) (no_mirror\<lparr>merror := Some (shortMessage e), provider := Some prov\<rparr>)) (\<lambda>_. reread r)
     | Inr ref \<Rightarrow>
         awaitp (oxSetMirror (oid r) (no_mirror\<lparr>mref := Some ref, provider := Some prov\<rparr>)) (\<lambda>_.
         awaitp (reread r) (\<lambda>made.
         if \<not> readback then Return made
         else catchp (readAdopt d made ref (plain_read\<lparr>rCreated := True\<rparr>)) (\<lambda>_. Return made)))))"

definition refOf :: "outbox_row \<Rightarrow> draft_ref option" where
  "refOf r = (case mirror r of None \<Rightarrow> None | Some m \<Rightarrow> mref m)"

definition refreshLocked :: "mail_deps \<Rightarrow> outbox_row \<Rightarrow> outbox_row mail" where
  "refreshLocked d r = (case refOf r of
     None \<Rightarrow> Return r
   | Some ref \<Rightarrow> if status r \<noteq> Draft then Return r else readAdopt d r ref plain_read)"

definition updateLocked :: "mail_deps \<Rightarrow> outbox_row \<Rightarrow> draft_patch \<Rightarrow> draft_snapshot \<Rightarrow> bool \<Rightarrow> outbox_row mail" where
  "updateLocked d r patch loc created = (case refOf r of
     None \<Rightarrow> Throw (uc ''outbox: not mirrored'')
   | Some ref \<Rightarrow>
       let os = filter (\<lambda>a. filename a \<in> filename ` set (pFiles patch)) (sattachments loc) in
       awaitp (if pBody patch = None then Return () else
           awaitp (reread r) (\<lambda>fresh. case mirror fresh of
             None \<Rightarrow> Return ()
           | Some m \<Rightarrow> if ownKey m = None then Return () else oxSetMirror (oid r) (m\<lparr>ownKey := None\<rparr>))) (\<lambda>_.
       WriteDraft (UpdateDraft ref patch) (\<lambda>x. case x of
         Inl e \<Rightarrow> tryp (readAdopt d r ref plain_read) (\<lambda>_. Throw e)
       | Inr next \<Rightarrow> catchp (readAdopt d r next \<lparr>rOrigins = os, rCreated = created, rLocal = Some loc,
             rWroteBody = (pBody patch \<noteq> None \<or> created)\<rparr>)
           (\<lambda>_. awaitp (applyContent d (oid r) loc (Some next) (own_edit os)) (\<lambda>(row, _). Return row)))))"

definition removeLocked :: "outbox_row \<Rightarrow> unit mail" where
  "removeLocked r = (case refOf r of None \<Rightarrow> Return () | Some ref \<Rightarrow> RemoveDraft ref (\<lambda>_. Return ()))"

end
