(* ===== verification/SendPipeline.thy ===== *)
theory SendPipeline
  imports Outbound
begin

text \<open>
  src/main/outbound/service.ts: every way an Outbox draft is confirmed, sent, scheduled, discarded, reopened,
  revised or drafted again. Log lines, tool texts and the confirm links around them are left out.
\<close>

section \<open>Accounts and modes\<close>

datatype transport = LocalTransport | RemoteTransport | AgentTransport

definition outboundConfig :: "account_info \<Rightarrow> jobj" where
  "outboundConfig a = (case obj_get ''outbound'' (aconfig a) of Some (JObj c) \<Rightarrow> c | _ \<Rightarrow> [])"

definition modeFor :: "transport \<Rightarrow> confirm_mode option \<Rightarrow> account_info \<Rightarrow> confirm_mode" where
  "modeFor t dflt a =
     (if t = AgentTransport then Review
      else case obj_get ''mode'' (outboundConfig a) of
        Some m \<Rightarrow> if m = JStr ''review'' then Review else if m = JStr ''link'' then LinkMode
          else (case dflt of None \<Rightarrow> Review | Some x \<Rightarrow> x)
      | None \<Rightarrow> (case dflt of None \<Rightarrow> Review | Some x \<Rightarrow> x))"

definition sendsPerHourFor :: "mail_deps \<Rightarrow> account_info \<Rightarrow> int" where
  "sendsPerHourFor d a = (case obj_get ''sendsPerHour'' (outboundConfig a) of
     None \<Rightarrow> 30 | Some v \<Rightarrow> (case toNumber d v of None \<Rightarrow> 30 | Some n \<Rightarrow> if n > 0 then n else 30))"

definition ascii :: "string \<Rightarrow> utext" where
  "ascii s = uc s"

definition unsupportedSource :: "string \<Rightarrow> utext list \<Rightarrow> utext" where
  "unsupportedSource src known = uc ''sending from '' @ [39] @ ascii src @ [39] @ uc '' accounts is not supported yet '' @
     [0x2014] @ uc '' supported: '' @ joinWith (uc '', '') known"

definition accountFor :: "string \<Rightarrow> account_info mail" where
  "accountFor i = awaitp (query (\<lambda>w. accts w i)) (\<lambda>a. case a of
     None \<Rightarrow> Throw (uc ''outbound: unknown account '' @ [39] @ ascii i @ [39])
   | Some x \<Rightarrow> awaitp (query (\<lambda>w. (senderOf w (asource x), senderIds w))) (\<lambda>(s, known).
       if s = None then Throw (unsupportedSource (asource x) known) else Return x))"

section \<open>The rate rule\<close>

definition HOUR_MS :: millis where "HOUR_MS = 60 * 60000"

definition fitsRate :: "millis list \<Rightarrow> millis \<Rightarrow> int \<Rightarrow> bool" where
  "fitsRate ts t limit = (let al = sort (ts @ [t]) in
     list_all (\<lambda>a. a > t \<or> a \<le> t - HOUR_MS \<or>
       int (length (filter (\<lambda>x. x \<ge> a \<and> x < a + HOUR_MS) al)) \<le> limit) al)"

definition admits :: "mail_deps \<Rightarrow> string \<Rightarrow> account_info \<Rightarrow> (millis \<Rightarrow> millis) \<Rightarrow> string \<Rightarrow> bool mail" where
  "admits d acc a at exceptId = query (\<lambda>w. let t = at (clock w) in
     fitsRate (listSendTimes acc (t - HOUR_MS) (t + HOUR_MS) (clock w) (Some exceptId) (ox w)) t (sendsPerHourFor d a))"

section \<open>The provider's copy\<close>

definition draftsFor :: "outbox_row \<Rightarrow> bool mail" where
  "draftsFor r = awaitp (sourceOf r) (\<lambda>src. query (\<lambda>w. senderOf w src = Some True))"

definition syncLocked :: "mail_deps \<Rightarrow> outbox_row \<Rightarrow> outbox_row mail" where
  "syncLocked d r =
     (if refOf r = None \<or> status r \<noteq> Draft then Return r
      else awaitp (draftsFor r) (\<lambda>ok. if \<not> ok then Return r
        else catchp (refreshLocked d r) (\<lambda>_. awaitp (sourceOf r) (\<lambda>src.
          Throw (uc ''couldn'' @ [39] @ uc ''t reach '' @ providerLabel src @ uc '' '' @ [0x2014] @ uc '' try again'')))))"

definition draftLock :: "string \<Rightarrow> string" where "draftLock i = ''draft:'' @ i"
definition accountLock :: "string \<Rightarrow> string" where "accountLock i = ''account:'' @ i"

text \<open>The shared refresh of a listing or a review page; who awaits it only bounds the wait.\<close>

definition refreshById :: "mail_deps \<Rightarrow> string \<Rightarrow> outbox_row option mail" where
  "refreshById d i = withLock (draftLock i) (awaitp (oxGet i) (\<lambda>x. case x of
     None \<Rightarrow> Return None
   | Some r \<Rightarrow> awaitp (catchp (syncLocked d r) (\<lambda>_. Return r)) (\<lambda>y. Return (Some y))))"

section \<open>Files\<close>

definition attachRefusal :: "string \<Rightarrow> bool \<Rightarrow> utext option mail" where
  "attachRefusal src mirrd =
     (if src = ''gmail'' \<or> src = ''imap'' \<or> mirrd then Return None
      else query (\<lambda>w. Some (if senderOf w src = Some True
        then uc ''files need this draft synced to '' @ providerLabel src @ uc '' first''
        else uc ''this source can'' @ [39] @ uc ''t send files yet'')))"

definition ATTACHMENTS_MAX_BYTES :: int where "ATTACHMENTS_MAX_BYTES = 18 * 1024 * 1024"

definition mb :: "int \<Rightarrow> utext" where
  "mb n = (let tenths = (n * 10 + 524288) div 1048576 in
     uc (show_nat (nat (tenths div 10))) @ uc ''.'' @ uc (show_nat (nat (tenths mod 10))) @ uc '' MB'')"

fun firstRepeated :: "utext list \<Rightarrow> utext list \<Rightarrow> utext option" where
  "firstRepeated seen [] = None"
| "firstRepeated seen (n # ns) = (if n \<in> set seen then Some n else firstRepeated (n # seen) ns)"

definition checkAttachments :: "outbox_attachment list \<Rightarrow> utext option" where
  "checkAttachments as = (case firstRepeated [] (map filename as) of
     Some n \<Rightarrow> Some (uc ''a file named '' @ [34] @ n @ [34] @ uc '' is already on this draft'')
   | None \<Rightarrow> let total = sum_list (map asize as) in
       if total > ATTACHMENTS_MAX_BYTES
       then Some (uc ''attachments are '' @ mb total @ uc '' '' @ [0x2014] @ uc '' the limit is '' @ mb ATTACHMENTS_MAX_BYTES)
       else None)"

definition resolveFiles :: "utext \<Rightarrow> string list \<Rightarrow> outbox_attachment list \<Rightarrow> string \<Rightarrow> bool \<Rightarrow> outbox_attachment list mail" where
  "resolveFiles tool inputs existing src mirrd =
     (if inputs = [] then Return []
      else awaitp (attachRefusal src mirrd) (\<lambda>why. case why of
        Some e \<Rightarrow> Throw (tool @ uc '': '' @ e)
      | None \<Rightarrow> awaitp (query hasFiles) (\<lambda>api.
          if \<not> api then Throw (tool @ uc '': attachments are not available'')
          else ResolveFiles inputs (\<lambda>x. case x of
            Inl e \<Rightarrow> Throw (tool @ uc '': '' @ e)
          | Inr fs \<Rightarrow> (case checkAttachments (existing @ fs) of
              Some e \<Rightarrow> Throw (tool @ uc '': '' @ e)
            | None \<Rightarrow> Return fs)))))"

definition intentWithFiles :: "outbox_row \<Rightarrow> outbox_attachment list \<Rightarrow> send_intent mail" where
  "intentWithFiles r known =
     (if attachments r = [] then Return (intentOf r)
      else awaitp (query hasFiles) (\<lambda>api.
        if \<not> api then Throw (uc ''attachments are not available'')
        else ReadFiles (filter (\<lambda>a. filename a \<notin> filename ` set known) (attachments r)) (\<lambda>x. case x of
          Inl e \<Rightarrow> Throw e
        | Inr _ \<Rightarrow> Return ((intentOf r)\<lparr>iFiles := attachments r\<rparr>))))"

definition prepareSend :: "outbox_row \<Rightarrow> (utext + send_intent option) mail" where
  "prepareSend r =
     (if refOf r \<noteq> None then Return (Inr None)
      else awaitp (if attachments r = [] then Return None
                   else awaitp (sourceOf r) (\<lambda>src. attachRefusal src False)) (\<lambda>why. case why of
        Some e \<Rightarrow> Return (Inl (uc ''not sent: '' @ e))
      | None \<Rightarrow> tryp (intentWithFiles r []) (\<lambda>x. case x of
          Inl e \<Rightarrow> Return (Inl (uc ''not sent: '' @ e))
        | Inr intent \<Rightarrow> Return (Inr (Some intent)))))"

section \<open>New drafts on the provider\<close>

definition createWithFilesLocked :: "mail_deps \<Rightarrow> outbox_row \<Rightarrow> send_intent \<Rightarrow> outbox_row mail" where
  "createWithFilesLocked d r intent =
     awaitp (createLocked d r (intent\<lparr>iFiles := []\<rparr>) (iFiles intent = [])) (\<lambda>made.
     if refOf made = None \<or> iFiles intent = [] then Return made
     else catchp (updateLocked d made \<lparr>pTo = None, pCc = None, pSubject = None, pBody = None, pFiles = iFiles intent, pRemove = []\<rparr>
         ((snapshotOf made)\<lparr>sattachments := attachments r\<rparr>) True)
       (\<lambda>_. awaitp (oxGet (oid r)) (\<lambda>x. Return (orRow made x))))"

definition mirrorNew :: "mail_deps \<Rightarrow> outbox_row \<Rightarrow> outbox_attachment list \<Rightarrow> outbox_row mail" where
  "mirrorNew d r files = withLock (draftLock (oid r))
     (awaitp (draftsFor r) (\<lambda>ok. if \<not> ok then Return r
      else tryp (intentWithFiles r files) (\<lambda>x. case x of
        Inl e \<Rightarrow> awaitp (oxSetMirror (oid r) (no_mirror\<lparr>merror := Some e\<rparr>)) (\<lambda>_. reread r)
      | Inr intent \<Rightarrow> createWithFilesLocked d r intent)))"

section \<open>Sending\<close>

datatype confirm_outcome =
    COSent outbox_row
  | COCancelled outbox_row
  | COFailed outbox_row utext bool
  | COAlready outbox_row
  | COChanged outbox_row
  | COInvalid

definition failSend :: "outbox_row \<Rightarrow> utext \<Rightarrow> confirm_outcome mail" where
  "failSend r message = (let errMsg = summary (shapeOutboundError message) in
     awaitp (oxTransition (oid r) [Sending] FailedStatus (no_patch\<lparr>perror := Some errMsg\<rparr>)) (\<lambda>_.
     awaitp (reread r) (\<lambda>f. Return (COFailed f errMsg False))))"

definition executeSend :: "outbox_row \<Rightarrow> send_intent option \<Rightarrow> confirm_outcome mail" where
  "executeSend r intent =
     tryp (accountFor (accountId r)) (\<lambda>x. case x of
       Inl e \<Rightarrow> failSend r e
     | Inr a \<Rightarrow> awaitp (query (\<lambda>w. (senderOf w (asource a), senderIds w))) (\<lambda>(s, known).
         if s = None then failSend r (unsupportedSource (asource a) known)
         else if refOf r \<noteq> None \<and> s \<noteq> Some True
         then failSend r (uc ''not sent: this account can no longer send its drafts'')
         else SendOut r (case refOf r of Some ref \<Rightarrow> ByDraft ref
             | None \<Rightarrow> ByIntent (case intent of None \<Rightarrow> intentOf r | Some i \<Rightarrow> i)) (\<lambda>y. case y of
           Inl e \<Rightarrow> failSend r e
         | Inr ext \<Rightarrow>
             awaitp (onOutbox (\<lambda>now. transition (oid r) [Sending] SentStatus
               \<lparr>perror = None, pexternal = ext, psentAt = Some now\<rparr>)) (\<lambda>_.
             awaitp (reread r) (\<lambda>sent. Return (COSent sent))))))"

definition ownBodyLocked :: "mail_deps \<Rightarrow> outbox_row \<Rightarrow> (confirm_outcome + outbox_row) mail" where
  "ownBodyLocked d r =
     (case mirror r of
        None \<Rightarrow> Return (Inr r)
      | Some m \<Rightarrow>
          if mref m = None \<or> (ownKey m \<noteq> None \<and> ownKey m = seenKey m) then Return (Inr r)
          else awaitp (draftsFor r) (\<lambda>ok. if \<not> ok then Return (Inr r)
            else tryp (updateLocked d r \<lparr>pTo = None, pCc = None, pSubject = None, pBody = Some (bodyMarkdown r), pFiles = [], pRemove = []\<rparr>
                (snapshotOf r) False) (\<lambda>x. case x of
              Inl e \<Rightarrow> Return (Inl (COFailed r (uc ''not sent: '' @ e) False))
            | Inr next \<Rightarrow>
                if revision next \<noteq> revision r then Return (Inl (COChanged next))
                else if (case mirror next of None \<Rightarrow> True | Some n \<Rightarrow> ownKey n = None)
                then awaitp (sourceOf r) (\<lambda>src. Return (Inl (COFailed next
                  (uc ''not sent: '' @ providerLabel src @ uc '' did not confirm the text '' @ [0x2014] @ uc '' try again'') False)))
                else Return (Inr next))))"

definition timedOut :: "utext \<Rightarrow> bool" where
  "timedOut e \<longleftrightarrow> suffix (uc ''timed out'') e"

definition confirmLocked :: "mail_deps \<Rightarrow> string \<Rightarrow> nat option \<Rightarrow> (outbox_row \<Rightarrow> confirm_outcome option mail) \<Rightarrow> confirm_outcome mail" where
  "confirmLocked d i rv lastCheck =
     awaitp oxSweep (\<lambda>_.
     awaitp (oxGet i) (\<lambda>x. case x of
       None \<Rightarrow> Return COInvalid
     | Some stored \<Rightarrow>
         if status stored \<noteq> Draft then Return (COAlready stored)
         else tryp (syncLocked d stored) (\<lambda>y. case y of
           Inl e \<Rightarrow> Return (COFailed stored (uc ''not sent: '' @ e) False)
         | Inr row \<Rightarrow>
             if status row \<noteq> Draft then Return (COAlready row)
             else if rv \<noteq> Some (revision row) then Return (COChanged row)
             else awaitp (ownBodyLocked d row) (\<lambda>own. case own of
               Inl stop \<Rightarrow> Return stop
             | Inr row \<Rightarrow> awaitp (prepareSend row) (\<lambda>ready. case ready of
                 Inl e \<Rightarrow> Return (COFailed row (summary (shapeOutboundError e)) (\<not> timedOut e))
               | Inr intent \<Rightarrow> awaitp (lastCheck row) (\<lambda>stop. case stop of
                   Some out \<Rightarrow> Return out
                 | None \<Rightarrow> awaitp (oxTransition (oid row) [Draft] Sending no_patch) (\<lambda>moved.
                     if \<not> moved then awaitp (oxGet (oid row)) (\<lambda>raced. Return (COAlready (orRow row raced)))
                     else executeSend row intent)))))))"

definition no_check :: "outbox_row \<Rightarrow> confirm_outcome option mail" where
  "no_check r = Return None"

definition confirmRow :: "mail_deps \<Rightarrow> string \<Rightarrow> nat option \<Rightarrow> confirm_outcome mail" where
  "confirmRow d i rv = withLock (draftLock i) (confirmLocked d i rv no_check)"

definition rateLimited :: "int \<Rightarrow> utext" where
  "rateLimited n = uc ''send_draft: rate limit reached '' @ [0x2014] @ uc '' '' @ uc (show_nat (nat n)) @
     uc '' message(s) an hour from this account, counting sent and scheduled ones. The draft is still pending; try again later or use list_outbox for a confirmation link.''"

definition notChat :: "utext" where
  "notChat = uc ''send_draft is only honored for chat-mode drafts''"

definition chatIsOff :: "utext" where
  "chatIsOff = uc ''send_draft: this account is no longer in chat mode''"

definition needsReview :: "utext" where
  "needsReview = uc ''send_draft: this draft needs the user'' @ [39] @
     uc ''s confirmation on the Outbox review page '' @ [0x2014] @ uc '' it can never send.''"

text \<open>The messages are cut to their fixed head.\<close>

definition sendDraft :: "mail_deps \<Rightarrow> transport \<Rightarrow> string \<Rightarrow> nat option \<Rightarrow> confirm_outcome mail" where
  "sendDraft d t i rv =
     (if t = AgentTransport then Throw needsReview
      else awaitp oxSweep (\<lambda>_.
        awaitp (oxGet i) (\<lambda>x. case x of
          None \<Rightarrow> Throw (uc ''send_draft: unknown draft '' @ [39] @ ascii i @ [39])
        | Some row \<Rightarrow>
            if confirmMode row \<noteq> Chat then Throw notChat
            else awaitp (accountFor (accountId row)) (\<lambda>a.
              awaitp (query defaultMode) (\<lambda>dflt.
              if modeFor t dflt a \<noteq> Chat then Throw chatIsOff
              else awaitp (withLock (accountLock (accountId row))
                  (awaitp (admits d (accountId row) a (\<lambda>now. now) (oid row)) (\<lambda>ok.
                   if \<not> ok then Throw (rateLimited (sendsPerHourFor d a))
                   else withLock (draftLock (oid row)) (confirmLocked d (oid row) rv no_check))))
                (\<lambda>out. case out of
                  COSent r \<Rightarrow> Return out
                | COFailed r e f \<Rightarrow> Throw (if isShapedSummary e then e else uc ''send failed: '' @ e)
                | COChanged r \<Rightarrow> Throw (uc ''send_draft: this draft changed'')
                | _ \<Rightarrow> Throw (uc ''send_draft: this draft can no longer be sent'')))))))"

section \<open>Scheduling\<close>

definition SCHEDULE_LATE_MS :: millis where "SCHEDULE_LATE_MS = 5 * 60000"
definition SCHEDULE_MAX_AHEAD_MS :: millis where "SCHEDULE_MAX_AHEAD_MS = 365 * 24 * 3600000"

datatype schedule_outcome =
    SOScheduled outbox_row
  | SOUnscheduled outbox_row
  | SOChanged outbox_row
  | SOAlready outbox_row
  | SOFailed outbox_row utext
  | SOInvalid

definition notScheduled :: "utext \<Rightarrow> utext" where
  "notScheduled e = (if notSent e then uc ''not scheduled: '' @ drop 10 e else e)"

definition scheduleLocked :: "mail_deps \<Rightarrow> string \<Rightarrow> nat \<Rightarrow> millis option \<Rightarrow> utext option \<Rightarrow> bool \<Rightarrow> (millis \<Rightarrow> utext option mail) \<Rightarrow> schedule_outcome mail" where
  "scheduleLocked d i rv slot note synced gate =
     awaitp oxSweep (\<lambda>_.
     awaitp (oxGet i) (\<lambda>x. case x of
       None \<Rightarrow> Return SOInvalid
     | Some stored \<Rightarrow>
         if status stored \<noteq> Draft then Return (SOAlready stored)
         else case slot of
           None \<Rightarrow> awaitp (onOutbox (\<lambda>now. schedule i None note now)) (\<lambda>_.
             awaitp (oxGet i) (\<lambda>y. Return (SOUnscheduled (orRow stored y))))
         | Some at \<Rightarrow> awaitp (query clock) (\<lambda>now.
             if at < now + 60000 then Throw (uc ''pick a time at least a minute from now'')
             else if at > now + SCHEDULE_MAX_AHEAD_MS then Throw (uc ''pick a time within a year'')
             else tryp (if synced then Return stored else syncLocked d stored) (\<lambda>y. case y of
               Inl e \<Rightarrow> Return (SOFailed stored (uc ''not scheduled: '' @ e))
             | Inr row \<Rightarrow>
                 if status row \<noteq> Draft then Return (SOAlready row)
                 else if revision row \<noteq> rv then Return (SOChanged row)
                 else awaitp (prepareSend row) (\<lambda>ready. case ready of
                   Inl e \<Rightarrow> Return (SOFailed row (notScheduled e))
                 | Inr _ \<Rightarrow> awaitp (gate at) (\<lambda>stop. case stop of
                     Some e \<Rightarrow> Return (SOFailed row e)
                   | None \<Rightarrow> awaitp (onOutbox (\<lambda>now. schedule i (Some at) None now)) (\<lambda>saved.
                       awaitp (oxGet i) (\<lambda>cur. case cur of
                         None \<Rightarrow> Return SOInvalid
                       | Some c \<Rightarrow> if saved then Return (SOScheduled c) else Return (SOAlready c)))))))))"

definition no_gate :: "millis \<Rightarrow> utext option mail" where
  "no_gate at = Return None"

definition scheduleById :: "mail_deps \<Rightarrow> string \<Rightarrow> nat \<Rightarrow> millis option \<Rightarrow> schedule_outcome mail" where
  "scheduleById d i rv at = withLock (draftLock i) (scheduleLocked d i rv at None False no_gate)"

definition unscheduleByToken :: "mail_deps \<Rightarrow> string \<Rightarrow> nat \<Rightarrow> schedule_outcome mail" where
  "unscheduleByToken d i rv = withLock (draftLock i) (awaitp (oxGet i) (\<lambda>x. case x of
     None \<Rightarrow> Return SOInvalid
   | Some r \<Rightarrow>
       if status r \<noteq> Draft then Return (SOAlready r)
       else if revision r \<noteq> rv then Return (SOChanged r)
       else scheduleLocked d i rv None None False no_gate))"

datatype scheduled_send = Skipped | Missed | Confirmed confirm_outcome

definition notAtItsTime :: "utext \<Rightarrow> utext" where
  "notAtItsTime e = uc ''Not sent at its time '' @ [0x2014] @ uc '' '' @
     (if prefix (uc ''not sent:'') e then dropWhile ws_unit (drop 9 e) else e)"

text \<open>The check before the CAS answers with the verdict, which \<open>confirmLocked\<close> only passes on as a stop.\<close>

definition timeCheck :: "string \<Rightarrow> millis \<Rightarrow> outbox_row \<Rightarrow> scheduled_send option mail" where
  "timeCheck i at r = awaitp (query clock) (\<lambda>t.
     if sendAt r \<noteq> Some at \<or> t < at then Return (Some Skipped)
     else if t - at > SCHEDULE_LATE_MS
     then awaitp (onOutbox (\<lambda>now. missSchedule i at (now + DRAFT_TTL_MS) None)) (\<lambda>_. Return (Some Missed))
     else Return None)"

definition stopWith :: "outbox_row \<Rightarrow> scheduled_send option \<Rightarrow> confirm_outcome option" where
  "stopWith r v = (case v of None \<Rightarrow> None | Some _ \<Rightarrow> Some (COAlready r))"

definition sendScheduled :: "mail_deps \<Rightarrow> string \<Rightarrow> millis \<Rightarrow> unit mail" where
  "sendScheduled d i at = withLock (draftLock i) (awaitp (oxGet i) (\<lambda>x. case x of
     None \<Rightarrow> Return ()
   | Some row \<Rightarrow>
       if status row \<noteq> Draft \<or> sendAt row \<noteq> Some at then Return ()
       else awaitp (query clock) (\<lambda>t. let late = t - at > SCHEDULE_LATE_MS in
         awaitp (if late then Return True
                 else awaitp (sourceOf row) (\<lambda>src. query (\<lambda>w. senderOf w src \<noteq> None))) (\<lambda>there.
         if \<not> there then Return ()
         else if late
         then awaitp (onOutbox (\<lambda>now. missSchedule i at (now + DRAFT_TTL_MS) None)) (\<lambda>_. Return ())
         else awaitp (confirmLocked d i (Some (revision row))
             (\<lambda>r. awaitp (timeCheck i at r) (\<lambda>v. Return (stopWith r v)))) (\<lambda>out. case out of
           COFailed _ e True \<Rightarrow>
             awaitp (onOutbox (\<lambda>now. missSchedule i at (now + DRAFT_TTL_MS) (Some (notAtItsTime e)))) (\<lambda>_. Return ())
         | _ \<Rightarrow> Return ())))))"

section \<open>One draft of schedule\_drafts\<close>

definition timeError :: "millis \<Rightarrow> millis \<Rightarrow> utext option" where
  "timeError now at =
     (if at < now + 60000 then Some (uc ''pick a time at least a minute from now'')
      else if at > now + SCHEDULE_MAX_AHEAD_MS then Some (uc ''pick a time within a year'')
      else None)"

text \<open>\<open>account\<close>: the account when chat may schedule this draft, else None. \<open>at\<close> None cancels.\<close>

definition scheduleItem :: "mail_deps \<Rightarrow> string \<Rightarrow> nat \<Rightarrow> millis option \<Rightarrow> (string \<times> account_info) option \<Rightarrow> utext \<Rightarrow> unit mail" where
  "scheduleItem d i rv at account app =
     (case at of
        None \<Rightarrow> awaitp (oxGet i) (\<lambda>x. case x of
          None \<Rightarrow> Return ()
        | Some fresh \<Rightarrow>
            if revision fresh \<noteq> rv then Return ()
            else awaitp (onOutbox (\<lambda>_. suggest i None)) (\<lambda>_.
              if sendAt fresh \<noteq> None \<and> account \<noteq> None
              then awaitp (withLock (draftLock i) (scheduleLocked d i rv None
                (Some (uc ''Schedule cancelled by '' @ app)) False no_gate)) (\<lambda>_. Return ())
              else Return ()))
      | Some t \<Rightarrow> awaitp (query (\<lambda>w. timeError (clock w) t)) (\<lambda>err.
          if err \<noteq> None then Return ()
          else (case account of
            None \<Rightarrow> withLock (draftLock i) (awaitp (oxGet i) (\<lambda>x. case x of
              None \<Rightarrow> Return ()
            | Some r \<Rightarrow> if status r \<noteq> Draft \<or> revision r \<noteq> rv then Return ()
                else awaitp (onOutbox (\<lambda>_. suggest i (Some t))) (\<lambda>_. Return ())))
          | Some (acc, a) \<Rightarrow> withLock (accountLock acc) (withLock (draftLock i)
              (awaitp (scheduleLocked d i rv (Some t) None True (\<lambda>t.
                 awaitp (admits d acc a (\<lambda>_. t) i) (\<lambda>ok. Return (if ok then None
                   else Some (uc ''rate limit''))))) (\<lambda>_. Return ()))))))"

section \<open>Discard, reopen, revise, draft again\<close>

definition discardLocked :: "mail_deps \<Rightarrow> string \<Rightarrow> (bool \<times> outbox_row option) mail" where
  "discardLocked d i =
     awaitp (oxGet i) (\<lambda>stored.
     awaitp (case stored of None \<Rightarrow> Return None
       | Some r \<Rightarrow> awaitp (catchp (syncLocked d r) (\<lambda>_. Return r)) (\<lambda>y. Return (Some y))) (\<lambda>before.
     if (case before of None \<Rightarrow> False | Some b \<Rightarrow> status b \<noteq> Draft) then Return (False, before)
     else awaitp (oxTransition i [Draft] Discarded no_patch) (\<lambda>moved.
       awaitp (case before of None \<Rightarrow> Return ()
         | Some b \<Rightarrow> if moved \<and> refOf b \<noteq> None
             then awaitp (draftsFor b) (\<lambda>ok. if ok then removeLocked b else Return ())
             else Return ()) (\<lambda>_.
       awaitp (oxGet i) (\<lambda>row. Return (moved, row))))))"

definition discardById :: "mail_deps \<Rightarrow> string \<Rightarrow> outbox_row option mail" where
  "discardById d i = withLock (draftLock i) (awaitp (discardLocked d i) (\<lambda>(_, r). Return r))"

definition isReopenable :: "outbox_row \<Rightarrow> bool" where
  "isReopenable r \<longleftrightarrow> status r = Expired \<or>
     status r = FailedStatus \<and> canRetry (shapeOutboundError (case error r of None \<Rightarrow> [] | Some e \<Rightarrow> e))"

definition reopenLocked :: "string \<Rightarrow> outbox_row option mail" where
  "reopenLocked i = awaitp (oxGet i) (\<lambda>x. case x of
     None \<Rightarrow> Return None
   | Some r \<Rightarrow> if \<not> isReopenable r then Return None
       else awaitp (query clock) (\<lambda>now. oxReopen (oid r) (now + DRAFT_TTL_MS)))"

definition reopenById :: "string \<Rightarrow> outbox_row option mail" where
  "reopenById i = withLock (draftLock i) (reopenLocked i)"

record draft_revision =
  vBody :: "utext option"
  vSubject :: "utext option"
  vTo :: "utext list option"
  vCc :: "utext list option"
  vAdd :: "string list"
  vRemove :: "utext list"

text \<open>Trimmed addresses, or the tool's refusal.\<close>

definition addrs :: "mail_deps \<Rightarrow> utext \<Rightarrow> utext \<Rightarrow> utext list option \<Rightarrow> utext + utext list option" where
  "addrs d tool field xs = (case xs of
     None \<Rightarrow> Inr None
   | Some l \<Rightarrow> let trimmed = filter (\<lambda>x. x \<noteq> []) (map utrim l); bad = filter (\<lambda>x. \<not> emailOk d x) trimmed in
       if bad \<noteq> [] \<or> field = uc ''to'' \<and> trimmed = []
       then Inl (tool @ uc '': invalid '' @ field @ uc '' address(es): '' @
         (if bad = [] then uc ''(none given)'' else joinWith (uc '', '') bad))
       else Inr (Some trimmed))"

definition setOr :: "'a option \<Rightarrow> 'a \<Rightarrow> 'a" where
  "setOr x y = (case x of None \<Rightarrow> y | Some z \<Rightarrow> z)"

definition reviseLocked :: "mail_deps \<Rightarrow> utext \<Rightarrow> string \<Rightarrow> nat \<Rightarrow> draft_revision \<Rightarrow> outbox_row mail" where
  "reviseLocked d tool i rv patch =
     awaitp oxSweep (\<lambda>_.
     awaitp (oxGet i) (\<lambda>x. case x of
       None \<Rightarrow> Throw (tool @ uc '': unknown draft '' @ [39] @ ascii i @ [39])
     | Some stored \<Rightarrow>
         if status stored \<noteq> Draft then Throw (tool @ uc '': this draft is not pending'')
         else awaitp (catchp (syncLocked d stored) (\<lambda>e. Throw (tool @ uc '': '' @ e @ uc '' '' @ [0x2014] @ uc '' the draft was not changed''))) (\<lambda>row.
         if status row \<noteq> Draft then Throw (tool @ uc '': this draft is not pending'')
         else if revision row \<noteq> rv then Throw (tool @ uc '': this draft changed'')
         else if (vTo patch \<noteq> None \<or> vCc patch \<noteq> None) \<and> kind row \<noteq> NewMessage
         then Throw (tool @ uc '': the recipients of a reply come from the original message'')
         else case addrs d tool (uc ''to'') (vTo patch) of Inl e \<Rightarrow> Throw e | Inr to \<Rightarrow>
         case addrs d tool (uc ''cc'') (vCc patch) of Inl e \<Rightarrow> Throw e | Inr cc' \<Rightarrow>
         if (case vBody patch of None \<Rightarrow> False | Some b \<Rightarrow> utrim b = []) then Throw (tool @ uc '': body must not be empty'')
         else case find (\<lambda>n. n \<notin> filename ` set (attachments row)) (vRemove patch) of
           Some n \<Rightarrow> Throw (tool @ uc '': no file named '' @ [34] @ n @ [34] @ uc '' on this draft'')
         | None \<Rightarrow>
         let kept = filter (\<lambda>a. filename a \<notin> set (vRemove patch)) (attachments row) in
         awaitp (sourceOf row) (\<lambda>src.
         awaitp (resolveFiles tool (vAdd patch) kept src (refOf row \<noteq> None)) (\<lambda>files.
         let loc = \<lparr>sto = setOr to (toAddrs row), scc = setOr cc' (cc row), sbcc = bcc row,
                ssubject = (case vSubject patch of None \<Rightarrow> subject row | Some z \<Rightarrow> Some z),
                sbody = setOr (vBody patch) (bodyMarkdown row), sattachments = kept @ files\<rparr>;
             prov = \<lparr>pTo = to, pCc = cc', pSubject = vSubject patch, pBody = vBody patch, pFiles = files, pRemove = vRemove patch\<rparr> in
         if files = [] \<and> same_key (normalizeSnapshot (lowerCase d) False loc) (normalizeSnapshot (lowerCase d) False (snapshotOf row))
         then Return row
         else awaitp (draftsFor row) (\<lambda>drafts.
           if refOf row \<noteq> None \<and> drafts
           then catchp (updateLocked d row prov loc False) (\<lambda>e.
             awaitp (sourceOf row) (\<lambda>src. Throw (tool @ uc '': couldn'' @ [39] @ uc ''t update the '' @ providerLabel src @ uc '' draft'')))
           else awaitp (applyContent d (oid row) loc None (own_edit [])) (\<lambda>(next, _).
             if drafts \<and> refOf next = None
             then tryp (intentWithFiles next files) (\<lambda>z. case z of
               Inl _ \<Rightarrow> Return next
             | Inr intent \<Rightarrow> createWithFilesLocked d next intent)
             else Return next)))))))"

definition reviseById :: "mail_deps \<Rightarrow> utext \<Rightarrow> string \<Rightarrow> nat \<Rightarrow> draft_revision \<Rightarrow> outbox_row mail" where
  "reviseById d tool i rv patch = withLock (draftLock i) (reviseLocked d tool i rv patch)"

definition draftNew :: "mail_deps \<Rightarrow> string \<Rightarrow> outbox_draft_input \<Rightarrow> outbox_row mail" where
  "draftNew d i inp = awaitp (createDraft i inp) (\<lambda>r. mirrorNew d r (dAttachments inp))"

definition redraft :: "mail_deps \<Rightarrow> transport \<Rightarrow> string \<Rightarrow> string \<Rightarrow> outbox_row mail" where
  "redraft d t i fresh =
     awaitp oxSweep (\<lambda>_.
     awaitp (oxGet i) (\<lambda>x. case x of
       None \<Rightarrow> Throw (uc ''redraft: unknown draft '' @ [39] @ ascii i @ [39])
     | Some row \<Rightarrow>
         if status row = DeliveryUnknown then Throw (uc ''this message may already have been sent'')
         else if isReopenable row then Throw (uc ''this draft can be tried again as it is'')
         else if status row \<noteq> Discarded \<and> status row \<noteq> FailedStatus
         then Throw (uc ''only failed or discarded drafts can be re-drafted'')
         else awaitp (accountFor (accountId row)) (\<lambda>a.
           awaitp (if refOf row \<noteq> None \<and> status row = FailedStatus
                   then awaitp (draftsFor row) (\<lambda>ok. if ok then withLock (draftLock (oid row)) (removeLocked row) else Return ())
                   else Return ()) (\<lambda>_.
           awaitp (query (\<lambda>w. (defaultMode w, clock w))) (\<lambda>(dflt, now).
           draftNew d fresh \<lparr>dAccount = accountId row, dKind = kind row, dReplyTo = replyToDocumentId row,
             dOutboundRef = outboundRef row, dDisplay = recipientDisplay row, dTo = toAddrs row, dCc = cc row,
             dSubject = subject row, dBody = bodyMarkdown row, dThreading = threading row,
             dMode = modeFor t dflt a, dVia = ''panel'', dBy = None, dExpiresAt = now + DRAFT_TTL_MS,
             dBcc = bcc row, dAttachments = filter (\<lambda>a. afrom a \<noteq> None) (attachments row)\<rparr>)))))"

end
