(* ===== verification/OutboundSystem.thy ===== *)
theory OutboundSystem
  imports SendPipeline
begin

text \<open>
  The outbound service at work: any number of its calls in flight at once, each at an await of its own, over
  one world, with the answers of the outside, the sweep, the removal of accounts and a crash of the app in
  between. \<open>log\<close> is what was handed to a sender and what came of it; None is a crash before the answer.
\<close>

section \<open>Calls\<close>

datatype outbound_op =
    OpConfirm string "nat option"
  | OpSendDraft transport string "nat option"
  | OpSendScheduled string millis
  | OpSchedule string nat "millis option"
  | OpUnschedule string nat
  | OpScheduleItem string nat "millis option" "(string \<times> account_info) option" utext
  | OpDiscard string
  | OpReopen string
  | OpRevise utext string nat draft_revision
  | OpRefresh string
  | OpDraft string outbox_draft_input
  | OpRedraft transport string string

definition ends :: "'a mail \<Rightarrow> unit mail" where
  "ends p = tryp p (\<lambda>_. Return ())"

fun opProc :: "mail_deps \<Rightarrow> outbound_op \<Rightarrow> unit mail" where
  "opProc d (OpConfirm i rv) = ends (confirmRow d i rv)"
| "opProc d (OpSendDraft t i rv) = ends (sendDraft d t i rv)"
| "opProc d (OpSendScheduled i at) = ends (sendScheduled d i at)"
| "opProc d (OpSchedule i rv at) = ends (scheduleById d i rv at)"
| "opProc d (OpUnschedule i rv) = ends (unscheduleByToken d i rv)"
| "opProc d (OpScheduleItem i rv at acc app) = ends (scheduleItem d i rv at acc app)"
| "opProc d (OpDiscard i) = ends (discardById d i)"
| "opProc d (OpReopen i) = ends (reopenById i)"
| "opProc d (OpRevise tool i rv patch) = ends (reviseById d tool i rv patch)"
| "opProc d (OpRefresh i) = ends (refreshById d i)"
| "opProc d (OpDraft i inp) = ends (draftNew d i inp)"
| "opProc d (OpRedraft t i fresh) = ends (redraft d t i fresh)"

text \<open>The draft a call is about, and the id it will give a new row.\<close>

fun opTarget :: "outbound_op \<Rightarrow> string option" where
  "opTarget (OpConfirm i _) = Some i"
| "opTarget (OpSendDraft _ i _) = Some i"
| "opTarget (OpSendScheduled i _) = Some i"
| "opTarget (OpSchedule i _ _) = Some i"
| "opTarget (OpUnschedule i _) = Some i"
| "opTarget (OpScheduleItem i _ _ _ _) = Some i"
| "opTarget (OpDiscard i) = Some i"
| "opTarget (OpReopen i) = Some i"
| "opTarget (OpRevise _ i _ _) = Some i"
| "opTarget (OpRefresh i) = Some i"
| "opTarget (OpDraft _ _) = None"
| "opTarget (OpRedraft _ i _) = Some i"

fun opMints :: "outbound_op \<Rightarrow> string option" where
  "opMints (OpDraft i _) = Some i"
| "opMints (OpRedraft _ _ i) = Some i"
| "opMints _ = None"

section \<open>The system\<close>

record task =
  tprog :: "unit mail"
  tlocks :: "string list"
  top :: outbound_op

record sent_entry =
  lrow :: outbox_row
  lreq :: send_request
  lop :: outbound_op
  lanswer :: "(utext + string option) option"

text \<open>
  \<open>used\<close>: the ids any call has named or minted so far; \<open>unborn\<close>: the minted ones whose row is not
  inserted yet, which no caller can know. \<open>asked\<close>: the calls made so far; \<open>stood\<close>: the scheduled sends (draft,
  revision, time) that were found in the Outbox at the start.
\<close>

record system =
  wd :: world
  tasks :: "task list"
  used :: "string list"
  unborn :: "string list"
  log :: "sent_entry list"
  asked :: "outbound_op list"
  stood :: "(string \<times> nat \<times> millis) list"

datatype system_event =
    Start outbound_op
  | Turn nat
  | AnswerRead nat "utext + draft_read"
  | AnswerWrite nat "utext + draft_ref"
  | AnswerRemove nat "utext + unit"
  | AnswerFiles nat "utext + unit"
  | AnswerResolve nat "utext + outbox_attachment list"
  | AnswerSend nat "utext + string option"
  | Ambient world
  | Sweep
  | RemoveAccount string
  | Crash

definition known_to_caller :: "system \<Rightarrow> outbound_op \<Rightarrow> bool" where
  "known_to_caller s c \<longleftrightarrow> (case opTarget c of None \<Rightarrow> True | Some i \<Rightarrow> i \<notin> set (unborn s)) \<and>
     (case opMints c of None \<Rightarrow> True | Some i \<Rightarrow> i \<notin> set (used s) \<and> opTarget c \<noteq> Some i)"

fun the_list :: "'a option \<Rightarrow> 'a list" where
  "the_list None = []"
| "the_list (Some x) = [x]"

definition startOp :: "mail_deps \<Rightarrow> outbound_op \<Rightarrow> system \<Rightarrow> system" where
  "startOp d c s = (if known_to_caller s c
     then s\<lparr>tasks := tasks s @ [\<lparr>tprog = opProc d c, tlocks = [], top = c\<rparr>],
       used := used s @ the_list (opTarget c) @ the_list (opMints c), unborn := unborn s @ the_list (opMints c),
       asked := asked s @ [c]\<rparr>
     else s)"

definition setTask :: "nat \<Rightarrow> task \<Rightarrow> system \<Rightarrow> system" where
  "setTask n t s = s\<lparr>tasks := (tasks s)[n := t]\<rparr>"

definition free :: "string \<Rightarrow> system \<Rightarrow> bool" where
  "free l s \<longleftrightarrow> l \<notin> set (concat (map tlocks (tasks s)))"

definition turn :: "nat \<Rightarrow> system \<Rightarrow> system" where
  "turn n s = (let t = tasks s ! n in case tprog t of
     Atomic g p \<Rightarrow> setTask n (t\<lparr>tprog := p (wd s)\<rparr>) (s\<lparr>wd := g (wd s)\<rparr>)
   | Lock l p \<Rightarrow> if free l s then setTask n (t\<lparr>tprog := p, tlocks := l # tlocks t\<rparr>) s else s
   | Unlock l p \<Rightarrow> setTask n (t\<lparr>tprog := p, tlocks := removeAll l (tlocks t)\<rparr>) s
   | _ \<Rightarrow> s)"

definition removeAccount :: "string \<Rightarrow> outbox \<Rightarrow> outbox" where
  "removeAccount acc o1 = (let rs = filter (\<lambda>r. accountId r \<noteq> acc) (orows o1) in
     if length rs = length (orows o1) then o1 else fireChanged (o1\<lparr>orows := rs\<rparr>))"

text \<open>A send that was under way at the crash, with nobody left to take its answer.\<close>

definition inFlight :: "task \<Rightarrow> sent_entry list" where
  "inFlight t = (case tprog t of
     SendOut r q p \<Rightarrow> [\<lparr>lrow = r, lreq = q, lop = top t, lanswer = None\<rparr>] | _ \<Rightarrow> [])"

definition answerOf :: "nat \<Rightarrow> (task \<Rightarrow> unit mail option) \<Rightarrow> system \<Rightarrow> system" where
  "answerOf n f s = (let t = tasks s ! n in
     case f t of None \<Rightarrow> s | Some p \<Rightarrow> setTask n (t\<lparr>tprog := p\<rparr>) s)"

fun happens :: "mail_deps \<Rightarrow> system_event \<Rightarrow> system \<Rightarrow> system" where
  "happens d (Start c) s = startOp d c s"
| "happens d (Turn n) s = (if n < length (tasks s) then turn n s else s)"
| "happens d (AnswerRead n x) s = (if n < length (tasks s)
     then answerOf n (\<lambda>t. case tprog t of ReadDraft r p \<Rightarrow> Some (p x) | _ \<Rightarrow> None) s else s)"
| "happens d (AnswerWrite n x) s = (if n < length (tasks s)
     then answerOf n (\<lambda>t. case tprog t of WriteDraft q p \<Rightarrow> Some (p x) | _ \<Rightarrow> None) s else s)"
| "happens d (AnswerRemove n x) s = (if n < length (tasks s)
     then answerOf n (\<lambda>t. case tprog t of RemoveDraft r p \<Rightarrow> Some (p x) | _ \<Rightarrow> None) s else s)"
| "happens d (AnswerFiles n x) s = (if n < length (tasks s)
     then answerOf n (\<lambda>t. case tprog t of ReadFiles a p \<Rightarrow> Some (p x) | _ \<Rightarrow> None) s else s)"
| "happens d (AnswerResolve n x) s = (if n < length (tasks s)
     then answerOf n (\<lambda>t. case tprog t of ResolveFiles a p \<Rightarrow> Some (p x) | _ \<Rightarrow> None) s else s)"
| "happens d (AnswerSend n x) s = (if n < length (tasks s) then
     (let t = tasks s ! n in case tprog t of
        SendOut r q p \<Rightarrow> setTask n (t\<lparr>tprog := p x\<rparr>)
          (s\<lparr>log := log s @ [\<lparr>lrow = r, lreq = q, lop = top t, lanswer = Some x\<rparr>]\<rparr>)
      | _ \<Rightarrow> s) else s)"
| "happens d (Ambient w) s = s\<lparr>wd := w\<lparr>ox := ox (wd s)\<rparr>\<rparr>"
| "happens d Sweep s = s\<lparr>wd := (wd s)\<lparr>ox := expireOverdue (readOnly (wd s)) (clock (wd s)) (ox (wd s))\<rparr>\<rparr>"
| "happens d (RemoveAccount acc) s = s\<lparr>wd := (wd s)\<lparr>ox := removeAccount acc (ox (wd s))\<rparr>\<rparr>"
| "happens d Crash s = s\<lparr>log := log s @ concat (map inFlight (tasks s)), tasks := [],
     wd := (wd s)\<lparr>ox := recoverOrphanedSending (readOnly (wd s)) (ox (wd s))\<rparr>\<rparr>"

definition born :: "system \<Rightarrow> system" where
  "born s = s\<lparr>unborn := filter (\<lambda>i. outboxGet i (ox (wd s)) = None) (unborn s)\<rparr>"

definition schedulesIn :: "outbox \<Rightarrow> (string \<times> nat \<times> millis) list" where
  "schedulesIn o1 = concat (map (\<lambda>r. case sendAt r of None \<Rightarrow> [] | Some t \<Rightarrow> [(oid r, revision r, t)]) (orows o1))"

definition opened :: "world \<Rightarrow> system" where
  "opened w = \<lparr>wd = w, tasks = [], used = map oid (orows (ox w)), unborn = [], log = [], asked = [],
     stood = schedulesIn (ox w)\<rparr>"

text \<open>\<open>id\<close> is the PRIMARY KEY.\<close>

definition one_row_per_id :: "world \<Rightarrow> bool" where
  "one_row_per_id w \<longleftrightarrow> distinct (map oid (orows (ox w)))"

inductive served :: "mail_deps \<Rightarrow> system \<Rightarrow> bool" for d where
  boot: "one_row_per_id w \<Longrightarrow> served d (opened w)"
| event: "served d s \<Longrightarrow> served d (born (happens d e s))"

section \<open>What a send stands for\<close>

text \<open>The sender's error is of a class that proves the message was not accepted (\<open>canRetry\<close> of error-copy.ts).\<close>

definition rejected :: "sent_entry \<Rightarrow> bool" where
  "rejected e \<longleftrightarrow> (case lanswer e of Some (Inl m) \<Rightarrow> canRetry (shapeOutboundError m) | _ \<Rightarrow> False)"

text \<open>
  The flaw of the classifier: a long error of the unsupported class, which proves nothing, whose stored summary
  reads as one that does.
\<close>

definition misread :: "sent_entry \<Rightarrow> bool" where
  "misread e \<longleftrightarrow> (case lanswer e of
     Some (Inl m) \<Rightarrow> ekind (shapeOutboundError m) = Unsupported \<and> length (singleLine (utrim m)) > 200 \<and>
       canRetry (shapeOutboundError (summary (shapeOutboundError m)))
   | _ \<Rightarrow> False)"

definition requestOf :: "outbox_row \<Rightarrow> send_request" where
  "requestOf r = (case refOf r of Some ref \<Rightarrow> ByDraft ref
     | None \<Rightarrow> ByIntent ((intentOf r)\<lparr>iFiles := attachments r\<rparr>))"

text \<open>The call is a confirmation of this row at the revision its caller was shown.\<close>

definition confirms :: "outbound_op \<Rightarrow> outbox_row \<Rightarrow> bool" where
  "confirms c r \<longleftrightarrow> (case c of
     OpConfirm i rv \<Rightarrow> oid r = i \<and> rv = Some (revision r)
   | OpSendDraft t i rv \<Rightarrow> oid r = i \<and> rv = Some (revision r) \<and> t \<noteq> AgentTransport \<and> confirmMode r = Chat
   | OpSendScheduled i at \<Rightarrow> oid r = i \<and> sendAt r = Some at
   | _ \<Rightarrow> False)"

text \<open>The call puts the draft, at the revision its caller was shown, on the schedule for this time.\<close>

definition schedules :: "outbound_op \<Rightarrow> string \<Rightarrow> nat \<Rightarrow> millis \<Rightarrow> bool" where
  "schedules c i n t \<longleftrightarrow> (case c of
     OpSchedule j rv at \<Rightarrow> j = i \<and> rv = n \<and> at = Some t
   | OpScheduleItem j rv at acc app \<Rightarrow> j = i \<and> rv = n \<and> at = Some t \<and> acc \<noteq> None
   | _ \<Rightarrow> False)"

definition planned :: "system \<Rightarrow> string \<Rightarrow> nat \<Rightarrow> millis \<Rightarrow> bool" where
  "planned s i n t \<longleftrightarrow> (\<exists>c \<in> set (asked s). schedules c i n t) \<or> (i, n, t) \<in> set (stood s)"

definition sendsOf :: "string \<Rightarrow> system \<Rightarrow> sent_entry list" where
  "sendsOf i s = filter (\<lambda>e. oid (lrow e) = i) (log s)"

end
