(* ===== verification/OutboundRules.thy ===== *)
theory OutboundRules
  imports OutboundSystem
begin

text \<open>
  The contract between the outbound calls: what the holder of a draft's lock may rely on, what each step
  guarantees to the others, and that every statement of the Outbox keeps to it.
\<close>

section \<open>What may happen to a row\<close>

definition rowOf :: "string \<Rightarrow> world \<Rightarrow> outbox_row option" where
  "rowOf i w = outboxGet i (ox w)"

text \<open>What anybody may do to a draft, without its lock: let it expire, or suggest a time for it.\<close>

definition frozen :: "outbox_row \<Rightarrow> outbox_row \<Rightarrow> bool" where
  "frozen r r' \<longleftrightarrow> r' = r\<lparr>status := status r', suggestedSendAt := suggestedSendAt r'\<rparr> \<and>
     (status r' = status r \<or> status r = Draft \<and> status r' = Expired)"

definition sentContent :: "outbox_row \<Rightarrow> draft_snapshot \<times> string \<times> draft_kind \<times> json option \<times> jobj option" where
  "sentContent r = (snapshotOf r, accountId r, kind r, outboundRef r, threading r)"

text \<open>The content moves only while the row is a draft, or one that just expired.\<close>

definition edited :: "outbox_row \<Rightarrow> outbox_row \<Rightarrow> bool" where
  "edited r r' \<longleftrightarrow>
     (status r \<in> {Draft, Expired} \<and> revision r \<le> revision r' \<and>
       (status r' = status r \<or> status r = Draft \<and> status r' \<in> {Discarded, SentStatus, DeliveryUnknown})) \<or>
     (status r' = status r \<and> revision r' = revision r \<and> error r' = error r \<and> sentContent r' = sentContent r)"

definition sameSend :: "outbox_row \<Rightarrow> outbox_row \<Rightarrow> bool" where
  "sameSend r r' \<longleftrightarrow> oid r' = oid r \<and> revision r' = revision r \<and> sentContent r' = sentContent r"

definition won :: "phase \<Rightarrow> outbox_row \<Rightarrow> phase \<Rightarrow> outbox_row \<Rightarrow> bool" where
  "won ph r ph' r' \<longleftrightarrow> ph = Idle \<and> status r = Draft \<and> status r' = Sending \<and> sameSend r r' \<and>
     (\<exists>row. ph' = Won row \<and> sameSend row r)"

definition ended :: "phase \<Rightarrow> outbox_row \<Rightarrow> phase \<Rightarrow> outbox_row \<Rightarrow> bool" where
  "ended ph r ph' r' \<longleftrightarrow> ph' = Idle \<and> status r = Sending \<and> sameSend r r' \<and>
     (case ph of
        Idle \<Rightarrow> False
      | Won row \<Rightarrow> oid row = oid r \<and> status r' = FailedStatus
      | Answered row (Inl e) \<Rightarrow> oid row = oid r \<and> status r' = FailedStatus \<and> error r' = Some (summary (shapeOutboundError e))
      | Answered row (Inr _) \<Rightarrow> oid row = oid r \<and> status r' = SentStatus)"

definition reopened :: "outbox_row \<Rightarrow> outbox_row \<Rightarrow> bool" where
  "reopened r r' \<longleftrightarrow> isReopenable r \<and> status r' = Draft \<and> revision r' = revision r + 1"

definition owned :: "phase \<Rightarrow> outbox_row \<Rightarrow> phase \<Rightarrow> outbox_row \<Rightarrow> bool" where
  "owned ph r ph' r' \<longleftrightarrow> confirmMode r' = confirmMode r \<and>
     (ph' = ph \<and> (edited r r' \<or> reopened r r') \<or> won ph r ph' r' \<or> ended ph r ph' r')"

section \<open>Rely and guarantee\<close>

definition kept :: "bool \<Rightarrow> outbox_row \<Rightarrow> outbox_row \<Rightarrow> bool" where
  "kept mine r r' \<longleftrightarrow> confirmMode r' = confirmMode r \<and> (mine \<longrightarrow> frozen r r')"

definition outRely :: "claim_token set \<Rightarrow> world \<Rightarrow> world \<Rightarrow> bool" where
  "outRely H w v \<longleftrightarrow>
     (\<forall>i. (Knows i \<in> H \<or> Mint i \<in> H) \<and> rowOf i w = None \<longrightarrow> rowOf i v = None) \<and>
     (\<forall>i r r'. Knows i \<in> H \<and> rowOf i w = Some r \<and> rowOf i v = Some r' \<longrightarrow> kept (Held (draftLock i) \<in> H) r r')"

text \<open>A row is only put on the schedule by the call that says so, at the revision it names.\<close>

definition timed :: "outbound_op \<Rightarrow> outbox_row \<Rightarrow> outbox_row \<Rightarrow> bool" where
  "timed c r r' \<longleftrightarrow> sendAt r' = None \<or> (sendAt r' = sendAt r \<and> revision r' = revision r) \<or>
     (\<exists>t. sendAt r' = Some t \<and> schedules c (oid r') (revision r') t)"

definition rowStep :: "outbound_op \<Rightarrow> claim_token set \<Rightarrow> phase \<Rightarrow> phase \<Rightarrow> string \<Rightarrow> outbox_row option \<Rightarrow> outbox_row option \<Rightarrow> bool" where
  "rowStep c H ph ph' i a b \<longleftrightarrow> (case (a, b) of
     (None, None) \<Rightarrow> True
   | (None, Some r') \<Rightarrow> Mint i \<in> H \<and> status r' = Draft \<and> sendAt r' = None
   | (Some r, None) \<Rightarrow> False
   | (Some r, Some r') \<Rightarrow> frozen r r' \<or> Held (draftLock i) \<in> H \<and> owned ph r ph' r' \<and> timed c r r')"

definition phaseRow :: "phase \<Rightarrow> outbox_row option" where
  "phaseRow ph = (case ph of Idle \<Rightarrow> None | Won r \<Rightarrow> Some r | Answered r _ \<Rightarrow> Some r)"

definition phaseStep :: "claim_token set \<Rightarrow> phase \<Rightarrow> world \<Rightarrow> phase \<Rightarrow> world \<Rightarrow> bool" where
  "phaseStep H ph w ph' v \<longleftrightarrow> ph' = ph \<or>
     (\<exists>row r r'. ph = Idle \<and> ph' = Won row \<and> rowOf (oid row) w = Some r \<and> status r = Draft \<and> sameSend row r \<and> sendAt row = sendAt r \<and>
        rowOf (oid row) v = Some r' \<and> status r' = Sending \<and> sameSend r r' \<and> Held (draftLock (oid row)) \<in> H) \<or>
     (\<exists>row. phaseRow ph = Some row \<and> ph' = Idle \<and> (\<forall>r. rowOf (oid row) v = Some r \<longrightarrow> status r \<noteq> Sending))"

definition claimStep :: "claim_token set \<Rightarrow> world \<Rightarrow> claim_token set \<Rightarrow> world \<Rightarrow> bool" where
  "claimStep H w H' v \<longleftrightarrow> (\<forall>l. Held l \<in> H' \<longleftrightarrow> Held l \<in> H) \<and>
     (\<forall>i. Mint i \<in> H' \<longrightarrow> Mint i \<in> H \<and> (rowOf i w = None \<longrightarrow> rowOf i v = None)) \<and>
     (\<forall>i. Knows i \<in> H \<longrightarrow> Knows i \<in> H') \<and>
     (\<forall>i. Knows i \<in> H' \<longrightarrow> Knows i \<in> H \<or> Mint i \<in> H \<and> Mint i \<notin> H' \<and> rowOf i v \<noteq> None)"

definition outGuar :: "outbound_op \<Rightarrow> claim_token set \<Rightarrow> phase \<Rightarrow> world \<Rightarrow> claim_token set \<Rightarrow> phase \<Rightarrow> world \<Rightarrow> bool" where
  "outGuar c H ph w H' ph' v \<longleftrightarrow> (\<forall>i. rowStep c H ph ph' i (rowOf i w) (rowOf i v)) \<and>
     claimStep H w H' v \<and> phaseStep H ph w ph' v"

text \<open>A call holds at most an account's lock and, taken after it, one draft's.\<close>

definition outLock :: "claim_token set \<Rightarrow> string \<Rightarrow> bool" where
  "outLock H l \<longleftrightarrow> (\<exists>i. l = draftLock i \<and> Knows i \<in> H \<and> (\<forall>j. Held (draftLock j) \<notin> H)) \<or>
     (\<exists>a. l = accountLock a \<and> (\<forall>k. Held k \<notin> H))"

definition outRules :: "outbound_op \<Rightarrow> world rules" where
  "outRules c = \<lparr>rely = outRely, guar = outGuar c, inv = one_row_per_id, may_lock = outLock,
     may_send = (\<lambda>r q. confirms c r \<and> q = requestOf r)\<rparr>"

lemma outRules_simps [simp]:
  "rely (outRules c) = outRely" "guar (outRules c) = outGuar c" "inv (outRules c) = one_row_per_id"
  "may_lock (outRules c) = outLock" "may_send (outRules c) = (\<lambda>r q. confirms c r \<and> q = requestOf r)"
  by (simp_all add: outRules_def)

lemma frozen_refl [simp]: "frozen r r"
  by (simp add: frozen_def)

lemma frozen_trans: "frozen a b \<Longrightarrow> frozen b c \<Longrightarrow> frozen a c"
  by (cases a; cases b; cases c) (auto simp: frozen_def)

lemma frozen_fields:
  assumes "frozen r r'"
  shows "oid r' = oid r" "revision r' = revision r" "sentContent r' = sentContent r" "confirmMode r' = confirmMode r"
    "error r' = error r" "mirror r' = mirror r" "sendAt r' = sendAt r"
proof -
  have e: "r' = r\<lparr>status := status r', suggestedSendAt := suggestedSendAt r'\<rparr>" using assms by (simp add: frozen_def)
  show "oid r' = oid r" "revision r' = revision r" "sentContent r' = sentContent r" "confirmMode r' = confirmMode r"
    "error r' = error r" "mirror r' = mirror r" "sendAt r' = sendAt r"
    by (subst e, simp add: sentContent_def snapshotOf_def)+
qed

lemma outRelyI:
  assumes "\<And>i. Knows i \<in> H \<or> Mint i \<in> H \<Longrightarrow> rowOf i w = None \<Longrightarrow> rowOf i v = None"
    and "\<And>i r r'. Knows i \<in> H \<Longrightarrow> rowOf i w = Some r \<Longrightarrow> rowOf i v = Some r' \<Longrightarrow> kept (Held (draftLock i) \<in> H) r r'"
  shows "outRely H w v"
  unfolding outRely_def using assms by blast

lemma outRely_gone: "outRely H w v \<Longrightarrow> Knows i \<in> H \<or> Mint i \<in> H \<Longrightarrow> rowOf i w = None \<Longrightarrow> rowOf i v = None"
  unfolding outRely_def by blast

lemma outRely_kept: "outRely H w v \<Longrightarrow> Knows i \<in> H \<Longrightarrow> rowOf i w = Some r \<Longrightarrow> rowOf i v = Some r' \<Longrightarrow>
    kept (Held (draftLock i) \<in> H) r r'"
  unfolding outRely_def by blast

lemma outRely_back:
  assumes "outRely H w v" "Knows i \<in> H" "rowOf i v = Some r'"
  obtains r where "rowOf i w = Some r" "kept (Held (draftLock i) \<in> H) r r'"
proof (cases "rowOf i w")
  case None
  then show ?thesis using outRely_gone [OF assms(1)] assms(2,3) by simp
next
  case (Some r)
  then show ?thesis using that outRely_kept [OF assms(1,2) Some assms(3)] by blast
qed

lemma kept_refl [simp]: "kept b r r"
  by (simp add: kept_def)

lemma kept_trans: "kept b r p \<Longrightarrow> kept b p q \<Longrightarrow> kept b r q"
  unfolding kept_def using frozen_trans by auto

lemma outRely_refl: "outRely H w w"
  by (rule outRelyI) simp_all

lemma outRely_trans:
  assumes "outRely H a b" "outRely H b c"
  shows "outRely H a c"
proof (rule outRelyI)
  fix i
  assume "Knows i \<in> H \<or> Mint i \<in> H" "rowOf i a = None"
  then show "rowOf i c = None" using assms outRely_gone by blast
next
  fix i r r'
  assume k: "Knows i \<in> H" "rowOf i a = Some r" "rowOf i c = Some r'"
  obtain q where q: "rowOf i b = Some q" "kept (Held (draftLock i) \<in> H) q r'"
    using outRely_back [OF assms(2) k(1,3)] by blast
  show "kept (Held (draftLock i) \<in> H) r r'"
    using kept_trans [OF outRely_kept [OF assms(1) k(1,2) q(1)] q(2)] .
qed

interpretation out: rely_guarantee "outRules c" for c
  by unfold_locales (auto intro: outRely_refl outRely_trans)

section \<open>Statements\<close>

lemma rowOf_oid: "rowOf i w = Some r \<Longrightarrow> oid r = i"
  by (auto simp: rowOf_def outboxGet_def find_Some_iff)

lemma rowOf_ox: "rowOf i (w\<lparr>ox := s\<rparr>) = outboxGet i s"
  by (simp add: rowOf_def)

lemma outboxGet_fire [simp]: "outboxGet i (fireChanged s) = outboxGet i s"
  by (simp add: outboxGet_def fireChanged_def)

lemma outboxGet_update:
  assumes "\<And>r. oid (f r) = oid r"
  shows "outboxGet i (snd (update P f s)) = map_option (\<lambda>r. if P r then f r else r) (outboxGet i s)"
proof -
  have "find (\<lambda>r. oid r = i) (upd_where P f rs) = map_option (\<lambda>r. if P r then f r else r) (find (\<lambda>r. oid r = i) rs)" for rs
    by (induction rs) (auto simp: upd_where_def assms)
  then show ?thesis by (simp add: outboxGet_def update_def)
qed

lemma outboxGet_firing [simp]: "outboxGet i (snd (firing x)) = outboxGet i (snd x)"
  by (simp add: firing_def)

lemma oids_update: "(\<And>r. oid (f r) = oid r) \<Longrightarrow> map oid (orows (snd (update P f s))) = map oid (orows s)"
  by (simp add: update_def upd_where_def)

lemma orows_fire [simp]: "orows (fireChanged s) = orows s" "orows (snd (firing x)) = orows (snd x)"
  by (simp_all add: fireChanged_def firing_def)

text \<open>At most one row is hit, so the compare-and-set says which.\<close>

lemma hits_le_one:
  assumes "one_row_per_id w" "\<And>r. P r \<Longrightarrow> oid r = i"
  shows "length (filter P (orows (ox w))) = (case rowOf i w of None \<Rightarrow> 0 | Some r \<Rightarrow> if P r then 1 else 0)"
proof -
  have "distinct (map oid rs) \<Longrightarrow> length (filter P rs) = (case find (\<lambda>r. oid r = i) rs of None \<Rightarrow> 0 | Some r \<Rightarrow> if P r then 1 else 0)" for rs
  proof (induction rs)
    case (Cons r rs)
    show ?case
    proof (cases "oid r = i")
      case True
      have "\<not> P x" if "x \<in> set rs" for x
      proof
        assume "P x"
        then have "oid x = oid r" using assms(2) True by blast
        then show False using that Cons.prems by (metis distinct.simps(2) image_eqI list.simps(9) set_map)
      qed
      then show ?thesis using True by (simp add: filter_empty_conv)
    next
      case False
      then have "\<not> P r" using assms(2) by auto
      then show ?thesis using False Cons by simp
    qed
  qed simp
  then show ?thesis using assms(1) by (simp add: one_row_per_id_def rowOf_def outboxGet_def)
qed

lemma fst_firing_update:
  assumes "one_row_per_id w" "\<And>r. P r \<Longrightarrow> oid r = i"
  shows "fst (firing (update P f (ox w))) \<longleftrightarrow> (\<exists>r. rowOf i w = Some r \<and> P r)"
  using hits_le_one [OF assms] by (auto simp: firing_def update_def split: option.splits if_splits)

end
