(* ===== verification/OutboundWp.thy ===== *)
theory OutboundWp
  imports OutboundRules
begin

text \<open>
  Every procedure of the outbound service keeps to the contract of OutboundRules, statement by statement and
  then procedure by procedure.
\<close>

section \<open>What one step may do\<close>

definition mine :: "string \<Rightarrow> claim_token set \<Rightarrow> bool" where
  "mine i H \<longleftrightarrow> Held (draftLock i) \<in> H \<and> Knows i \<in> H"

lemma guarI:
  assumes "\<And>i. rowStep c H ph ph' i (rowOf i w) (rowOf i v)" "claimStep H w H' v" "phaseStep H ph w ph' v"
  shows "outGuar c H ph w H' ph' v"
  using assms by (simp add: outGuar_def)

lemma claimStep_same: "(\<And>i. rowOf i w = None \<Longrightarrow> rowOf i v = None) \<Longrightarrow> claimStep H w H v"
  unfolding claimStep_def by blast

lemma guar_frozen:
  assumes "\<And>i. rel_option frozen (rowOf i w) (rowOf i v)"
  shows "outGuar c H ph w H ph v"
proof (rule guarI)
  show "rowStep c H ph ph i (rowOf i w) (rowOf i v)" for i
    using assms [of i] by (auto simp: rowStep_def elim!: option.rel_cases)
  show "claimStep H w H v"
  proof (rule claimStep_same)
    fix i assume "rowOf i w = None"
    then show "rowOf i v = None" using assms [of i] by simp
  qed
  show "phaseStep H ph w ph v" by (simp add: phaseStep_def)
qed

lemma rel_frozen_refl: "rel_option frozen x x"
  by (cases x) simp_all

lemma guar_same: "(\<And>i. rowOf i v = rowOf i w) \<Longrightarrow> outGuar c H ph w H ph v"
  by (rule guar_frozen) (simp add: rel_frozen_refl)

text \<open>An UPDATE of the row whose lock is held.\<close>

definition updated :: "string \<Rightarrow> (outbox_row \<Rightarrow> bool) \<Rightarrow> (outbox_row \<Rightarrow> outbox_row) \<Rightarrow> world \<Rightarrow> world \<Rightarrow> bool" where
  "updated i P f w v \<longleftrightarrow> (\<forall>j. j \<noteq> i \<longrightarrow> rowOf j v = rowOf j w) \<and>
     rowOf i v = map_option (\<lambda>r. if P r then f r else r) (rowOf i w)"

lemma guar_mine:
  assumes "mine i H" "updated i P f w v"
    and "\<And>r. rowOf i w = Some r \<Longrightarrow> P r \<Longrightarrow> edited r (f r) \<or> reopened r (f r)"
    and "\<And>r. confirmMode (f r) = confirmMode r" "\<And>r. rowOf i w = Some r \<Longrightarrow> P r \<Longrightarrow> timed c r (f r)"
  shows "outGuar c H ph w H ph v"
proof (rule guarI)
  fix j
  show "rowStep c H ph ph j (rowOf j w) (rowOf j v)"
  proof (cases "j = i")
    case True
    then show ?thesis
      using assms unfolding updated_def rowStep_def mine_def owned_def by (cases "rowOf i w") auto
  next
    case False
    then show ?thesis using assms(2) unfolding updated_def rowStep_def by (cases "rowOf j w") auto
  qed
next
  show "claimStep H w H v"
  proof (rule claimStep_same)
    fix j assume "rowOf j w = None"
    then show "rowOf j v = None" using assms(2) unfolding updated_def by (cases "j = i") auto
  qed
  show "phaseStep H ph w ph v" by (simp add: phaseStep_def)
qed

lemma updated_update:
  assumes "\<And>r. P r \<Longrightarrow> oid r = i" "\<And>r. oid (f r) = oid r"
    and "\<And>j. rowOf j v = outboxGet j (snd (update P f (ox w)))"
  shows "updated i P f w v"
proof -
  have "rowOf j v = map_option (\<lambda>r. if P r then f r else r) (rowOf j w)" for j
    using assms(3) [of j] outboxGet_update [of f j P "ox w", OF assms(2)] unfolding rowOf_def by simp
  moreover have "map_option (\<lambda>r. if P r then f r else r) (rowOf j w) = rowOf j w" if "j \<noteq> i" for j
    using assms(1) that rowOf_oid [of j w] by (cases "rowOf j w") auto
  ultimately show ?thesis unfolding updated_def by simp
qed

section \<open>Calm procedures\<close>

text \<open>
  A call is calm when it leaves its claims and its phase alone: all of them are, except where a draft is sent or
  inserted. \<open>P\<close> is what it needs of the state and \<open>Q\<close> what its result is worth.
\<close>

definition ends_calm :: "claim_token set \<Rightarrow> phase \<Rightarrow> ('a \<Rightarrow> world \<Rightarrow> bool) \<Rightarrow> (world, 'a) post" where
  "ends_calm H ph Q x H' ph' v \<longleftrightarrow> H' = H \<and> ph' = ph \<and> (case x of Inl e \<Rightarrow> True | Inr a \<Rightarrow> Q a v)"

definition calm :: "outbound_op \<Rightarrow> claim_token set \<Rightarrow> phase \<Rightarrow> (world \<Rightarrow> bool) \<Rightarrow> 'a mail \<Rightarrow> ('a \<Rightarrow> world \<Rightarrow> bool) \<Rightarrow> bool" where
  "calm c H ph P p Q \<longleftrightarrow> (\<forall>w. P w \<longrightarrow> wp (outRules c) p (ends_calm H ph Q) H ph w)"

definition lasting :: "claim_token set \<Rightarrow> (world \<Rightarrow> bool) \<Rightarrow> bool" where
  "lasting H P \<longleftrightarrow> (\<forall>w v. P w \<longrightarrow> outRely H w v \<longrightarrow> P v)"

definition gone :: "string \<Rightarrow> world \<Rightarrow> bool" where
  "gone i w \<longleftrightarrow> rowOf i w = None"

definition current :: "string \<Rightarrow> outbox_row \<Rightarrow> world \<Rightarrow> bool" where
  "current i r w \<longleftrightarrow> oid r = i \<and> (\<forall>q. rowOf i w = Some q \<longrightarrow> frozen r q)"

lemma lasting_pure [simp]: "lasting H (\<lambda>_. b)"
  by (simp add: lasting_def)

lemma lasting_conj [intro]: "lasting H P \<Longrightarrow> lasting H Q \<Longrightarrow> lasting H (\<lambda>w. P w \<and> Q w)"
  unfolding lasting_def by blast

lemma lasting_pure_conj [simp]: "lasting H P \<Longrightarrow> lasting H (\<lambda>w. b \<and> P w)"
  unfolding lasting_def by blast

lemma lasting_gone [simp]: "mine i H \<Longrightarrow> lasting H (gone i)"
  unfolding lasting_def mine_def gone_def using outRely_gone by blast

lemma lasting_current [simp]: "mine i H \<Longrightarrow> lasting H (current i r)"
  unfolding lasting_def
proof (intro allI impI)
  fix w v
  assume h: "mine i H" and w: "current i r w" and r: "outRely H w v"
  have "frozen r q" if q: "rowOf i v = Some q" for q
  proof -
    obtain p where "rowOf i w = Some p" "kept (Held (draftLock i) \<in> H) p q"
      using outRely_back [OF r _ q] h unfolding mine_def by blast
    then show ?thesis using w h frozen_trans unfolding current_def kept_def mine_def by blast
  qed
  then show "current i r v" using w unfolding current_def by blast
qed

lemma current_oid: "current i r w \<Longrightarrow> oid r = i"
  by (simp add: current_def)

lemma gone_current: "gone i w \<Longrightarrow> oid r = i \<Longrightarrow> current i r w"
  by (simp add: gone_def current_def)

lemma calmD: "calm c H ph P p Q \<Longrightarrow> P w \<Longrightarrow> wp (outRules c) p (ends_calm H ph Q) H ph w"
  by (simp add: calm_def)

lemma calm_pre: "calm c H ph P' p Q \<Longrightarrow> (\<And>w. P w \<Longrightarrow> P' w) \<Longrightarrow> calm c H ph P p Q"
  by (simp add: calm_def)

lemma calm_drop: "calm c H ph (\<lambda>_. True) p Q \<Longrightarrow> calm c H ph P p Q"
  by (simp add: calm_def)

lemma calm_post: "calm c H ph P p Q \<Longrightarrow> (\<And>a w. Q a w \<Longrightarrow> Q' a w) \<Longrightarrow> calm c H ph P p Q'"
  unfolding calm_def
proof (intro allI impI)
  fix w
  assume a: "\<forall>w. P w \<longrightarrow> wp (outRules c) p (ends_calm H ph Q) H ph w" "P w" and q: "\<And>a w. Q a w \<Longrightarrow> Q' a w"
  show "wp (outRules c) p (ends_calm H ph Q') H ph w"
    by (rule out.wp_conseq [OF a(1) [rule_format, OF a(2)]]) (auto simp: ends_calm_def q split: sum.splits)
qed

lemma calm_pure: "(b \<Longrightarrow> calm c H ph P p Q) \<Longrightarrow> calm c H ph (\<lambda>w. b \<and> P w) p Q"
  by (simp add: calm_def)

lemma calm_fact: "(b \<Longrightarrow> calm c H ph (\<lambda>_. True) p Q) \<Longrightarrow> calm c H ph (\<lambda>_. b) p Q"
  by (simp add: calm_def)

lemma calm_Return: "lasting H (Q a) \<Longrightarrow> (\<And>w. P w \<Longrightarrow> Q a w) \<Longrightarrow> calm c H ph P (Return a) Q"
  unfolding calm_def lasting_def ends_calm_def by simp blast

lemma calm_Throw: "calm c H ph P (Throw e) Q"
  by (simp add: calm_def ends_calm_def)

lemma calm_try:
  assumes "calm c H ph P p M" "\<And>a. calm c H ph (M a) (kr a) Q" "\<And>e. calm c H ph (\<lambda>_. True) (kl e) Q"
  shows "calm c H ph P (tryp p (case_sum kl kr)) Q"
  unfolding calm_def
proof (intro allI impI)
  fix w assume "P w"
  show "wp (outRules c) (tryp p (case_sum kl kr)) (ends_calm H ph Q) H ph w"
    by (rule out.wp_tryp, rule out.wp_conseq [OF calmD [OF assms(1) \<open>P w\<close>]])
      (auto simp: ends_calm_def [of H ph M] split: sum.splits dest: calmD [OF assms(2)] intro: calmD [OF assms(3)])
qed

lemma calm_await:
  assumes "calm c H ph P p M" "\<And>a. calm c H ph (M a) (k a) Q"
  shows "calm c H ph P (awaitp p k) Q"
  unfolding awaitp_def by (rule calm_try [OF assms(1,2) calm_Throw])

lemma calm_catch:
  assumes "calm c H ph P p Q" "\<And>e. calm c H ph (\<lambda>_. True) (h e) Q" "\<And>a. lasting H (Q a)"
  shows "calm c H ph P (catchp p h) Q"
  unfolding catchp_def by (rule calm_try [OF assms(1)]) (auto intro: calm_Return assms(2,3))

lemma calm_query:
  assumes "lasting H P" "\<And>a. lasting H (Q a)" "\<And>w. P w \<Longrightarrow> Q (f w) w"
  shows "calm c H ph P (query f) Q"
  unfolding calm_def
proof (intro allI impI, rule out.wp_query)
  fix w v assume "P w" "rely (outRules c) H w v"
  then have "Q (f v) v" using assms(1,3) by (simp add: lasting_def)
  then show "guar (outRules c) H ph v H ph v \<and>
      (\<forall>v'. rely (outRules c) H v v' \<longrightarrow> ends_calm H ph Q (Inr (f v)) H ph v')"
    using assms(2) [of "f v"] by (simp add: ends_calm_def guar_same lasting_def)
qed

lemma calm_ask: "lasting H P \<Longrightarrow> calm c H ph P (query f) (\<lambda>_. P)"
  by (rule calm_query)

lemma calm_exec_in:
  assumes "lasting H P"
    and "\<And>w. P w \<Longrightarrow> one_row_per_id w \<Longrightarrow> one_row_per_id (snd (f w)) \<and> outGuar c H ph w H ph (snd (f w))"
    and "\<And>w. P w \<Longrightarrow> Q (fst (f w)) (snd (f w))" "\<And>a. lasting H (Q a)"
  shows "calm c H ph P (exec f) Q"
  unfolding calm_def
proof (intro allI impI, rule out.wp_exec)
  fix w v assume "P w" "rely (outRules c) H w v" and o: "inv (outRules c) v"
  then have "P v" using assms(1) by (simp add: lasting_def)
  then show "inv (outRules c) (snd (f v)) \<and> (\<exists>H' ph'. guar (outRules c) H ph v H' ph' (snd (f v)) \<and>
      (\<forall>v'. rely (outRules c) H' (snd (f v)) v' \<longrightarrow> ends_calm H ph Q (Inr (fst (f v))) H' ph' v'))"
    using assms(2) [of v] assms(3) [of v] assms(4) [of "fst (f v)"] o
    by (intro conjI exI [of _ H] exI [of _ ph]) (auto simp: ends_calm_def lasting_def)
qed

lemma calm_exec:
  assumes "\<And>w. one_row_per_id w \<Longrightarrow> one_row_per_id (snd (f w)) \<and> outGuar c H ph w H ph (snd (f w))"
    and "\<And>w. Q (fst (f w)) (snd (f w))" "\<And>a. lasting H (Q a)"
  shows "calm c H ph P (exec f) Q"
  by (rule calm_drop, rule calm_exec_in) (use assms in auto)

text \<open>What the environment answers.\<close>

lemma calm_ReadDraft:
  "lasting H P \<Longrightarrow> (\<And>e. calm c H ph P (kl e) Q) \<Longrightarrow> (\<And>a. calm c H ph P (kr a) Q) \<Longrightarrow> calm c H ph P (ReadDraft r (case_sum kl kr)) Q"
  by (auto simp: calm_def lasting_def split: sum.splits)

lemma calm_WriteDraft:
  "lasting H P \<Longrightarrow> (\<And>e. calm c H ph P (kl e) Q) \<Longrightarrow> (\<And>a. calm c H ph P (kr a) Q) \<Longrightarrow> calm c H ph P (WriteDraft r (case_sum kl kr)) Q"
  by (auto simp: calm_def lasting_def split: sum.splits)

lemma calm_RemoveDraft: "lasting H P \<Longrightarrow> (\<And>x. calm c H ph P (k x) Q) \<Longrightarrow> calm c H ph P (RemoveDraft r k) Q"
  by (auto simp: calm_def lasting_def)

lemma calm_ReadFiles:
  "lasting H P \<Longrightarrow> (\<And>e. calm c H ph P (kl e) Q) \<Longrightarrow> (\<And>a. calm c H ph P (kr a) Q) \<Longrightarrow> calm c H ph P (ReadFiles r (case_sum kl kr)) Q"
  by (auto simp: calm_def lasting_def split: sum.splits)

lemma calm_ResolveFiles:
  "lasting H P \<Longrightarrow> (\<And>e. calm c H ph P (kl e) Q) \<Longrightarrow> (\<And>a. calm c H ph P (kr a) Q) \<Longrightarrow> calm c H ph P (ResolveFiles r (case_sum kl kr)) Q"
  by (auto simp: calm_def lasting_def split: sum.splits)

lemma calm_if: "(b \<Longrightarrow> calm c H ph P p Q) \<Longrightarrow> (\<not> b \<Longrightarrow> calm c H ph P q Q) \<Longrightarrow> calm c H ph P (if b then p else q) Q"
  by simp

lemma calm_option:
  "(x = None \<Longrightarrow> calm c H ph P p Q) \<Longrightarrow> (\<And>y. x = Some y \<Longrightarrow> calm c H ph P (q y) Q) \<Longrightarrow>
   calm c H ph P (case x of None \<Rightarrow> p | Some y \<Rightarrow> q y) Q"
  by (cases x) simp_all

lemma calm_sum:
  "(\<And>y. x = Inl y \<Longrightarrow> calm c H ph P (p y) Q) \<Longrightarrow> (\<And>y. x = Inr y \<Longrightarrow> calm c H ph P (q y) Q) \<Longrightarrow>
   calm c H ph P (case x of Inl y \<Rightarrow> p y | Inr y \<Rightarrow> q y) Q"
  by (cases x) simp_all

lemma calm_prod: "(\<And>a b. x = (a, b) \<Longrightarrow> calm c H ph P (p a b) Q) \<Longrightarrow> calm c H ph P (case x of (a, b) \<Rightarrow> p a b) Q"
  by (cases x) simp

lemma calm_Let: "(\<And>y. calm c H ph P (p y) Q) \<Longrightarrow> calm c H ph P (Let x p) Q"
  by simp

text \<open>Under the lock \<open>l\<close>.\<close>

lemma calm_withLock:
  assumes "outLock H l" "Held l \<notin> H" "lasting H P" "calm c (insert (Held l) H) Idle P p (\<lambda>_ _. True)"
  shows "calm c H Idle P (withLock l p) (\<lambda>_ _. True)"
  unfolding calm_def
proof (intro allI impI, rule out.wp_withLock)
  fix w v
  assume "P w" "rely (outRules c) H w v"
  then have "P v" using assms(3) by (simp add: lasting_def)
  then have "wp (outRules c) p (ends_calm (insert (Held l) H) Idle (\<lambda>_ _. True)) (insert (Held l) H) Idle v"
    using assms(4) by (simp add: calm_def)
  then show "wp (outRules c) p (\<lambda>x H' ph' v. H' = insert (Held l) H \<and> ph' = Idle \<and>
      (\<forall>v' v''. rely (outRules c) (insert (Held l) H) v v' \<longrightarrow> rely (outRules c) H v' v'' \<longrightarrow>
        ends_calm H Idle (\<lambda>_ _. True) x H Idle v'')) (insert (Held l) H) Idle v"
    by (rule out.wp_conseq) (simp add: ends_calm_def split: sum.splits)
qed (use assms in auto)

end
