(* ===== verification/OutboundCalm.thy ===== *)
theory OutboundCalm
  imports OutboundWp
begin

text \<open>The calm procedures of outbox.ts, mirror.ts and service.ts: all but the send itself and the insert.\<close>

section \<open>Statements of the Outbox\<close>

lemma calm_onOutbox_in:
  assumes "lasting H P" "\<And>now w. P w \<Longrightarrow> one_row_per_id w \<Longrightarrow> one_row_per_id (w\<lparr>ox := snd (f now (ox w))\<rparr>) \<and>
      outGuar c H ph w H ph (w\<lparr>ox := snd (f now (ox w))\<rparr>)"
  shows "calm c H ph P (onOutbox f) (\<lambda>_ _. True)"
  unfolding onOutbox_def
proof (rule calm_exec_in [OF assms(1)])
  fix w assume o: "P w" "one_row_per_id w"
  let ?g = "\<lambda>w. let (a, s) = f (clock w) (ox w) in (a, w\<lparr>ox := s\<rparr>)"
  have "snd (?g w) = w\<lparr>ox := snd (f (clock w) (ox w))\<rparr>" by (simp add: Let_def split_beta)
  then show "one_row_per_id (snd (?g w)) \<and> outGuar c H ph w H ph (snd (?g w))" using assms(2) [OF o] by simp
qed simp_all

lemma calm_onOutbox:
  assumes "\<And>now w. one_row_per_id w \<Longrightarrow> one_row_per_id (w\<lparr>ox := snd (f now (ox w))\<rparr>) \<and>
      outGuar c H ph w H ph (w\<lparr>ox := snd (f now (ox w))\<rparr>)"
  shows "calm c H ph P (onOutbox f) (\<lambda>_ _. True)"
  by (rule calm_drop, rule calm_onOutbox_in) (use assms in auto)

lemma one_row_ox: "one_row_per_id (w\<lparr>ox := s\<rparr>) \<longleftrightarrow> distinct (map oid (orows s))"
  by (simp add: one_row_per_id_def)

lemma one_row_distinct: "one_row_per_id w \<Longrightarrow> distinct (map oid (orows (ox w)))"
  by (simp add: one_row_per_id_def)

lemma calm_update_in:
  assumes "mine i H" "\<And>now s. orows (snd (f now s)) = orows (snd (update (Pr now) (g now) s))"
    and "\<And>now r. Pr now r \<Longrightarrow> oid r = i" "\<And>now r. oid (g now r) = oid r"
    and "\<And>now r. confirmMode (g now r) = confirmMode r" "\<And>now r. Pr now r \<Longrightarrow> edited r (g now r)"
    and "lasting H P" "\<And>now r w. P w \<Longrightarrow> rowOf i w = Some r \<Longrightarrow> Pr now r \<Longrightarrow> timed c r (g now r)"
  shows "calm c H ph P (onOutbox f) (\<lambda>_ _. True)"
proof (rule calm_onOutbox_in [OF assms(7)])
  fix now w assume w: "P w" and o: "one_row_per_id w"
  let ?v = "w\<lparr>ox := snd (f now (ox w))\<rparr>"
  have "rowOf j ?v = outboxGet j (snd (update (Pr now) (g now) (ox w)))" for j
    using assms(2) [of now "ox w"] by (simp add: rowOf_def outboxGet_def)
  then have "updated i (Pr now) (g now) w ?v" by (intro updated_update) (use assms(3,4) in auto)
  then have "outGuar c H ph w H ph ?v" by (rule guar_mine [OF assms(1)]) (use assms(5,6,8) w in auto)
  moreover have "one_row_per_id ?v"
    using one_row_distinct [OF o] oids_update [of "g now" "Pr now" "ox w"] assms(2,4) by (simp add: one_row_ox)
  ultimately show "one_row_per_id ?v \<and> outGuar c H ph w H ph ?v" by simp
qed

lemma calm_update:
  assumes "mine i H" "\<And>now s. orows (snd (f now s)) = orows (snd (update (Pr now) (g now) s))"
    and "\<And>now r. Pr now r \<Longrightarrow> oid r = i" "\<And>now r. oid (g now r) = oid r"
    and "\<And>now r. confirmMode (g now r) = confirmMode r" "\<And>now r. Pr now r \<Longrightarrow> edited r (g now r)"
    and "\<And>now r. Pr now r \<Longrightarrow> timed c r (g now r)"
  shows "calm c H ph P (onOutbox f) (\<lambda>_ _. True)"
  by (rule calm_drop, rule calm_update_in [OF assms(1-6)]) (use assms(7) in auto)

lemma calm_setMirror: "mine i H \<Longrightarrow> calm c H ph P (oxSetMirror i m) (\<lambda>_ _. True)"
  unfolding oxSetMirror_def setMirror_def
  by (rule calm_update [where Pr = "\<lambda>_ r. oid r = i \<and> mirror r \<noteq> Some m" and g = "\<lambda>_ r. r\<lparr>mirror := Some m\<rparr>"])
    (auto simp: edited_def sentContent_def snapshotOf_def timed_def)

lemma calm_left_draft:
  assumes "mine i H" "s \<in> {SentStatus, Discarded, DeliveryUnknown}"
  shows "calm c H ph P (onOutbox (\<lambda>now. transition i [Draft] s (p now))) (\<lambda>_ _. True)"
  unfolding transition_def
  by (rule calm_update [OF assms(1), where Pr = "\<lambda>_ r. oid r = i \<and> status r \<in> set [Draft]" and
        g = "\<lambda>now r. r\<lparr>status := s, error := (if status r = Draft then perror (p now) else or_else (perror (p now)) (error r)),
          externalMessageId := or_else (pexternal (p now)) (externalMessageId r),
          sentAt := or_else (psentAt (p now)) (sentAt r)\<rparr>"])
    (use assms(2) in \<open>auto simp: edited_def timed_def\<close>)

lemma calm_discarded:
  "mine i H \<Longrightarrow> s \<in> {SentStatus, Discarded, DeliveryUnknown} \<Longrightarrow> calm c H ph P (oxTransition i [Draft] s p) (\<lambda>_ _. True)"
  unfolding oxTransition_def by (rule calm_left_draft)

lemma calm_unset: "mine i H \<Longrightarrow> calm c H ph P (onOutbox (schedule i None note)) (\<lambda>_ _. True)"
  unfolding schedule_def
  by (rule calm_update [where Pr = "\<lambda>_ r. oid r = i \<and> status r = Draft" and
        g = "\<lambda>now r. r\<lparr>sendAt := None, error := note, suggestedSendAt := (if None = None then suggestedSendAt r else None),
          expiresAt := (if None = None \<and> sendAt r \<noteq> None then now + DRAFT_TTL_MS else expiresAt r)\<rparr>"])
    (auto simp: edited_def timed_def)

text \<open>A time is only set under the lock, on the row as it was read: at the revision the caller named.\<close>

lemma calm_schedule:
  assumes "mine i H" "schedules c i (revision r) at"
  shows "calm c H ph (current i r) (onOutbox (schedule i (Some at) note)) (\<lambda>_ _. True)"
  unfolding schedule_def
proof (rule calm_update_in [where Pr = "\<lambda>_ r. oid r = i \<and> status r = Draft" and
        g = "\<lambda>now r. r\<lparr>sendAt := Some at, error := note, suggestedSendAt := (if Some at = None then suggestedSendAt r else None),
          expiresAt := (if Some at = None \<and> sendAt r \<noteq> None then now + DRAFT_TTL_MS else expiresAt r)\<rparr>"])
  fix now q w assume "current i r w" "rowOf i w = Some q" "oid q = i \<and> status q = Draft"
  then have "revision q = revision r" "oid q = i" using frozen_fields(2) by (auto simp: current_def)
  then show "timed c q (q\<lparr>sendAt := Some at, error := note, suggestedSendAt := (if Some at = None then suggestedSendAt q else None),
          expiresAt := (if Some at = None \<and> sendAt q \<noteq> None then now + DRAFT_TTL_MS else expiresAt q)\<rparr>)"
    using assms(2) by (simp add: timed_def)
qed (use assms(1) in \<open>auto simp: edited_def\<close>)

lemma calm_missSchedule: "mine i H \<Longrightarrow> calm c H ph P (onOutbox (\<lambda>now. missSchedule i at (x now) note)) (\<lambda>_ _. True)"
  unfolding missSchedule_def
  by (rule calm_update [where Pr = "\<lambda>_ r. oid r = i \<and> status r = Draft \<and> sendAt r = Some at" and
        g = "\<lambda>now r. r\<lparr>sendAt := None, expiresAt := x now, error := Some (case note of None \<Rightarrow> MISSED | Some n \<Rightarrow> n)\<rparr>"])
    (auto simp: edited_def timed_def)

lemma calm_fire: "calm c H ph P (onOutbox (\<lambda>_ s. ((), fireChanged s))) (\<lambda>_ _. True)"
  by (rule calm_onOutbox) (simp add: one_row_ox one_row_distinct guar_same rowOf_def)

text \<open>What anybody may do: the sweep, and a suggestion.\<close>

lemma guar_frozen_update:
  assumes "\<And>r. P r \<Longrightarrow> frozen r (f r)" "\<And>r. oid (f r) = oid r" "orows s = orows (snd (update P f (ox w)))"
    and "one_row_per_id w"
  shows "one_row_per_id (w\<lparr>ox := s\<rparr>) \<and> outGuar c H ph w H ph (w\<lparr>ox := s\<rparr>)"
proof
  show "one_row_per_id (w\<lparr>ox := s\<rparr>)"
    using one_row_distinct [OF assms(4)] oids_update [of f P "ox w", OF assms(2)] assms(3) by (simp add: one_row_ox)
  show "outGuar c H ph w H ph (w\<lparr>ox := s\<rparr>)"
  proof (rule guar_frozen)
    fix j
    have "rowOf j (w\<lparr>ox := s\<rparr>) = map_option (\<lambda>r. if P r then f r else r) (rowOf j w)"
      using outboxGet_update [of f j P "ox w", OF assms(2)] assms(3) by (simp add: rowOf_def outboxGet_def)
    then show "rel_option frozen (rowOf j w) (rowOf j (w\<lparr>ox := s\<rparr>))"
      using assms(1) by (cases "rowOf j w") auto
  qed
qed

lemma calm_suggest: "calm c H ph P (onOutbox (\<lambda>_. suggest i at)) (\<lambda>_ _. True)"
  unfolding suggest_def
  by (rule calm_onOutbox, rule guar_frozen_update
      [where P = "\<lambda>r. oid r = i \<and> status r = Draft \<and> suggestedSendAt r \<noteq> at" and f = "\<lambda>r. r\<lparr>suggestedSendAt := at\<rparr>"])
    (auto simp: frozen_def)

lemma sweep_keeps:
  assumes "one_row_per_id w"
  shows "one_row_per_id (w\<lparr>ox := expireOverdue ro now (ox w)\<rparr>) \<and>
    outGuar c H ph w H ph (w\<lparr>ox := expireOverdue ro now (ox w)\<rparr>)"
proof (cases ro)
  case True
  then show ?thesis using assms by (simp add: expireOverdue_def guar_same)
next
  case False
  show ?thesis
    by (rule guar_frozen_update [where P = "overdue now" and f = "\<lambda>r. r\<lparr>status := Expired\<rparr>"])
      (auto simp: frozen_def overdue_def expireOverdue_def False Let_def split_beta assms)
qed

lemma calm_sweep: "calm c H ph P oxSweep (\<lambda>_ _. True)"
  unfolding oxSweep_def by (rule calm_exec) (simp_all add: sweep_keeps)

section \<open>Reading a row\<close>

definition read_as :: "string \<Rightarrow> outbox_row option \<Rightarrow> world \<Rightarrow> bool" where
  "read_as i x w \<longleftrightarrow> (case x of None \<Rightarrow> gone i w | Some r \<Rightarrow> current i r w)"

lemma read_as_simps [simp]: "read_as i None = gone i" "read_as i (Some r) = current i r"
  by (simp_all add: fun_eq_iff read_as_def)

lemma lasting_read_as [simp]: "mine i H \<Longrightarrow> lasting H (read_as i x)"
  by (cases x) simp_all

lemma calm_oxGet: "mine i H \<Longrightarrow> calm c H ph P (oxGet i) (read_as i)"
  unfolding oxGet_def
proof (rule calm_drop, rule calm_query)
  fix w show "read_as i (outboxGet i (ox w)) w"
    using rowOf_oid [of i w]
    by (cases "rowOf i w") (auto simp: rowOf_def [symmetric] read_as_def gone_def current_def)
qed simp_all

text \<open>Anybody may look, and nothing is known of what they see.\<close>

lemma calm_look: "lasting H P \<Longrightarrow> calm c H ph P (oxGet j) (\<lambda>_. P)"
  unfolding oxGet_def by (rule calm_ask)

lemma calm_get:
  assumes "mine i H" "calm c H ph (gone i) p Q" "\<And>r. oid r = i \<Longrightarrow> calm c H ph (current i r) (q r) Q"
  shows "calm c H ph P (awaitp (oxGet i) (case_option p q)) Q"
proof (rule calm_await [OF calm_oxGet [OF assms(1)]])
  fix x show "calm c H ph (read_as i x) (case_option p q x) Q"
  proof (cases x)
    case (Some r)
    then have "calm c H ph (\<lambda>w. oid r = i \<and> current i r w) (case_option p q x) Q"
      using assms(3) by (intro calm_pure) simp
    then show ?thesis by (rule calm_pre) (auto simp: read_as_def Some current_def)
  qed (use assms(2) in \<open>auto simp: read_as_def elim: calm_pre\<close>)
qed

lemma calm_reread: "mine i H \<Longrightarrow> oid r = i \<Longrightarrow> calm c H ph P (reread r) (current i)"
  unfolding reread_def
  by (rule calm_await [where M = "read_as i"])
    (auto simp: orRow_def read_as_def gone_current split: option.splits intro: calm_oxGet calm_Return)

lemma calm_sourceOf: "lasting H P \<Longrightarrow> calm c H ph P (sourceOf r) (\<lambda>_. P)"
  unfolding sourceOf_def by (rule calm_ask)

lemma calm_draftsFor: "lasting H P \<Longrightarrow> calm c H ph P (draftsFor r) (\<lambda>_. P)"
  unfolding draftsFor_def by (rule calm_await [OF calm_sourceOf calm_ask])

section \<open>outbox.ts\<close>

lemma writeContent_keeps:
  assumes h: "mine i H" and r: "status r = Draft" "current i r w" and w: "writeContent dec i now (ox w) = Some s"
    and o: "one_row_per_id w"
  shows "one_row_per_id (w\<lparr>ox := s\<rparr>) \<and> outGuar c H ph w H ph (w\<lparr>ox := s\<rparr>)"
proof -
  have by_update: ?thesis
    if "orows s = orows (snd (update P f (ox w)))" "\<And>r. P r \<Longrightarrow> oid r = i" "\<And>r. oid (f r) = oid r"
      "\<And>r. confirmMode (f r) = confirmMode r" "\<And>q. rowOf i w = Some q \<Longrightarrow> P q \<Longrightarrow> edited q (f q)"
      "\<And>q. timed c q (f q)" for P f
  proof
    have "rowOf j (w\<lparr>ox := s\<rparr>) = outboxGet j (snd (update P f (ox w)))" for j
      using that(1) by (simp add: rowOf_def outboxGet_def)
    then have "updated i P f w (w\<lparr>ox := s\<rparr>)" by (intro updated_update) (use that in auto)
    then show "outGuar c H ph w H ph (w\<lparr>ox := s\<rparr>)" by (rule guar_mine [OF h]) (use that(4-6) in auto)
    show "one_row_per_id (w\<lparr>ox := s\<rparr>)"
      using one_row_distinct [OF o] oids_update [of f P "ox w", OF that(3)] that(1) by (simp add: one_row_ox)
  qed
  have q: "status q = Draft \<or> status q = Expired" if "rowOf i w = Some q" for q
    using r that by (auto simp: current_def frozen_def)
  consider (changed) "dchanged dec" | (filled) "\<not> dchanged dec" "dfilled dec" | (mirror) m where "\<not> dchanged dec" "\<not> dfilled dec" "dmirror dec = Some m"
    | (nothing) "s = ox w" using w by (cases "dmirror dec") (auto simp: writeContent_def split: if_splits)
  then show ?thesis
  proof cases
    case changed
    show ?thesis
      by (rule by_update [of "\<lambda>r. oid r = i \<and> status r = Draft" "contentRow dec now"])
        (use w changed in \<open>auto simp: writeContent_def contentRow_def Let_def edited_def timed_def split_beta split: if_splits\<close>)
  next
    case filled
    show ?thesis
      by (rule by_update [of "\<lambda>r. oid r = i" "\<lambda>r. r\<lparr>subject := ssubject (dsnapshot dec), mirror := or_else (dmirror dec) (mirror r)\<rparr>"])
        (use w filled q in \<open>auto simp: writeContent_def edited_def timed_def\<close>)
  next
    case mirror
    show ?thesis
      by (rule by_update [of "\<lambda>r. oid r = i" "\<lambda>r. r\<lparr>mirror := Some m\<rparr>"])
        (use w mirror in \<open>auto simp: writeContent_def edited_def sentContent_def snapshotOf_def timed_def\<close>)
  next
    case nothing
    then show ?thesis using o by (simp add: guar_same)
  qed
qed

lemma calm_write:
  assumes "mine i H" "status r = Draft"
  shows "calm c H ph (current i r)
    (onOutbox (\<lambda>now s. case writeContent dec i now s of None \<Rightarrow> (False, s) | Some t \<Rightarrow> (True, t))) (\<lambda>_ _. True)"
proof (rule calm_onOutbox_in)
  fix now w assume c: "current i r w" and o: "one_row_per_id w"
  show "one_row_per_id (w\<lparr>ox := snd (case writeContent dec i now (ox w) of None \<Rightarrow> (False, ox w) | Some t \<Rightarrow> (True, t))\<rparr>) \<and>
    outGuar c H ph w H ph (w\<lparr>ox := snd (case writeContent dec i now (ox w) of None \<Rightarrow> (False, ox w) | Some t \<Rightarrow> (True, t))\<rparr>)"
  proof (cases "writeContent dec i now (ox w)")
    case None
    then show ?thesis using o by (simp add: guar_same)
  next
    case (Some s)
    then show ?thesis using writeContent_keeps [OF assms c Some o] by simp
  qed
qed (use assms in simp)

text \<open>What a procedure hands on is the row as its lock keeps it, or at least a row of this draft.\<close>

lemma calm_applyContent:
  assumes "mine i H"
  shows "calm c H ph P (applyContent d i inc ref p) (\<lambda>a. current i (fst a))"
  unfolding applyContent_def Let_def
  by (intro calm_get calm_if calm_Throw calm_await [OF calm_write] calm_Return assms) (simp_all add: assms)

lemma calm_adopt:
  assumes "mine i H" "oid r = i"
  shows "calm c H ph P (adopt d r ref con p) (current i)"
  unfolding adopt_def Let_def assms(2)
  by (rule calm_await [OF calm_applyContent [OF assms(1)]], rule calm_prod) (use assms(1) in \<open>auto intro: calm_Return\<close>)

lemma calm_then: "calm c H ph P p (\<lambda>_ _. True) \<Longrightarrow> (\<And>a. calm c H ph (\<lambda>_. True) (k a) Q) \<Longrightarrow> calm c H ph P (awaitp p k) Q"
  by (rule calm_await)

lemma calm_asked: "lasting H P \<Longrightarrow> (\<And>a. calm c H ph P (k a) Q) \<Longrightarrow> calm c H ph P (awaitp (query f) k) Q"
  by (rule calm_await [OF calm_ask])

lemma calm_source: "lasting H P \<Longrightarrow> (\<And>a. calm c H ph P (k a) Q) \<Longrightarrow> calm c H ph P (awaitp (sourceOf r) k) Q"
  by (rule calm_await [OF calm_sourceOf])

lemma calm_drafts: "lasting H P \<Longrightarrow> (\<And>a. calm c H ph P (k a) Q) \<Longrightarrow> calm c H ph P (awaitp (draftsFor r) k) Q"
  by (rule calm_await [OF calm_draftsFor])

lemma calm_done: "calm c H ph P (Return a) (\<lambda>_ _. True)"
  by (rule calm_Return) simp_all

lemmas calm_walk = calm_if calm_option calm_sum calm_prod calm_Let calm_Throw calm_done calm_asked calm_source calm_drafts

lemma calm_readAdopt:
  assumes "mine i H" "oid r = i"
  shows "calm c H ph P (readAdopt d r ref p) (current i)"
proof -
  note settle = calm_then [OF _ calm_reread [OF assms]] calm_then [OF _ calm_done]
    calm_left_draft [OF assms(1)] calm_discarded [OF assms(1)] calm_setMirror [OF assms(1)]
  have "calm c H ph (\<lambda>_. True) (readAdopt d r ref p) (current i)"
    unfolding readAdopt_def Let_def assms(2)
    by (intro calm_ReadDraft calm_Throw lasting_pure, rename_tac a, case_tac a; simp only: draft_read.case)
      (intro calm_adopt [OF assms] calm_if calm_Throw calm_source lasting_pure settle
        calm_then [OF calm_left_draft [OF assms(1)] calm_setMirror [OF assms(1)]]; simp)+
  then show ?thesis by (rule calm_drop)
qed

lemma calm_refreshLocked:
  "mine i H \<Longrightarrow> calm c H ph (current i r) (refreshLocked d r) (current i)"
proof -
  assume h: "mine i H"
  have "calm c H ph (\<lambda>w. oid r = i \<and> current i r w) (refreshLocked d r) (current i)"
    unfolding refreshLocked_def
    by (intro calm_pure calm_option calm_if calm_Return calm_readAdopt h) (simp_all add: h)
  then show ?thesis by (rule calm_pre) (simp add: current_def)
qed

lemma calm_finally:
  assumes "calm c H ph P p M" "\<And>x. calm c H ph (\<lambda>_. True) (k x) Q"
  shows "calm c H ph P (tryp p k) Q"
proof -
  have "k = case_sum (\<lambda>e. k (Inl e)) (\<lambda>a. k (Inr a))" by (auto simp: fun_eq_iff split: sum.splits)
  moreover have "calm c H ph P (tryp p (case_sum (\<lambda>e. k (Inl e)) (\<lambda>a. k (Inr a)))) Q"
    by (rule calm_try [OF assms(1)]) (rule calm_drop, rule assms(2), rule assms(2))
  ultimately show ?thesis by metis
qed

lemma calm_applied:
  assumes "mine i H"
  shows "calm c H ph P (awaitp (applyContent d i inc ref p) (\<lambda>(row, _). Return row)) (current i)"
  by (rule calm_await [OF calm_applyContent [OF assms]], rule calm_prod) (use assms in \<open>auto intro: calm_Return\<close>)

lemma calm_anyhow: "calm c H ph P p M \<Longrightarrow> (\<And>a. calm c H ph (\<lambda>_. True) (k a) Q) \<Longrightarrow> calm c H ph P (awaitp p k) Q"
  by (erule calm_await, rule calm_drop)

lemma calm_updateLocked:
  assumes "mine i H" "oid r = i"
  shows "calm c H ph P (updateLocked d r patch loc created) (current i)"
  unfolding updateLocked_def Let_def assms(2)
  apply (intro calm_option calm_Throw)
  apply (rule calm_then)
   apply (intro calm_if calm_done)
   apply (rule calm_anyhow [OF calm_reread [OF assms]])
   apply (intro calm_option calm_if calm_done calm_setMirror [OF assms(1)])
   apply (rule calm_WriteDraft, rule lasting_pure)
   apply (rule calm_finally [OF calm_readAdopt [OF assms]])
    apply (rule calm_Throw)
   apply (rule calm_catch)
apply (rule calm_readAdopt [OF assms])
apply (rule calm_applied[OF assms(1)])
apply (rule lasting_current[OF assms(1)])
  done

lemma calm_named: "calm c H ph P p (current i) \<Longrightarrow> calm c H ph P p (\<lambda>r _. oid r = i)"
  by (erule calm_post, erule current_oid)

lemma calm_createLocked:
  assumes "mine i H" "oid r = i"
  shows "calm c H ph P (createLocked d r intent readback) (\<lambda>r _. oid r = i)"
proof -
  have made: "calm c H ph (\<lambda>_. oid a = i) (if \<not> readback then Return a
      else catchp (readAdopt d a ref (plain_read\<lparr>rCreated := True\<rparr>)) (\<lambda>_. Return a)) (\<lambda>r _. oid r = i)" for a ref
    by (rule calm_fact, intro calm_if calm_Return calm_catch calm_named [OF calm_readAdopt] assms(1) lasting_pure)
  have "calm c H ph (\<lambda>_. True) (createLocked d r intent readback) (\<lambda>r _. oid r = i)"
    unfolding createLocked_def Let_def assms(2)
    apply (rule calm_source, rule lasting_pure, rule calm_WriteDraft, rule lasting_pure)
     apply (rule calm_then [OF calm_setMirror [OF assms(1)] calm_named [OF calm_reread [OF assms]]])
    apply (rule calm_then [OF calm_setMirror [OF assms(1)] calm_await [OF calm_named [OF calm_reread [OF assms]] made]])
    done
  then show ?thesis by (rule calm_drop)
qed

lemma calm_removeLocked: "calm c H ph P (removeLocked r) (\<lambda>_ _. True)"
  unfolding removeLocked_def by (rule calm_drop) (intro calm_option calm_done calm_RemoveDraft lasting_pure)

lemma calm_syncLocked: "mine i H \<Longrightarrow> calm c H ph (current i r) (syncLocked d r) (current i)"
  unfolding syncLocked_def
  apply (rule calm_if)
   apply (rule calm_Return, rule lasting_current, assumption, assumption)
  apply (rule calm_drafts, erule lasting_current)
  apply (rule calm_if)
   apply (rule calm_Return, rule lasting_current, assumption, assumption)
  apply (rule calm_catch)
    apply (erule calm_refreshLocked)
   apply (rule calm_source, rule lasting_pure, rule calm_Throw)
  apply (erule lasting_current)
  done

lemma calm_attachRefusal: "lasting H P \<Longrightarrow> calm c H ph P (attachRefusal src m) (\<lambda>_. P)"
  unfolding attachRefusal_def by (intro calm_if calm_Return calm_ask)

lemma calm_resolveFiles: "calm c H ph P (resolveFiles tool inputs existing src m) (\<lambda>_ _. True)"
  unfolding resolveFiles_def
  apply (rule calm_drop)
  apply (intro calm_if calm_done)
  apply (rule calm_await [OF calm_attachRefusal], rule lasting_pure)
  apply (intro calm_option calm_Throw)
  apply (rule calm_asked, rule lasting_pure)
  apply (intro calm_if calm_Throw calm_ResolveFiles lasting_pure)
  apply (intro calm_option calm_Throw calm_done)
  done

definition carries :: "outbox_row \<Rightarrow> send_intent \<Rightarrow> bool" where
  "carries r it \<longleftrightarrow> it = (intentOf r)\<lparr>iFiles := attachments r\<rparr>"

lemma carries_plain: "attachments r = [] \<Longrightarrow> carries r (intentOf r)"
  by (simp add: carries_def intentOf_def)

lemma calm_intentWithFiles:
  assumes "lasting H P"
  shows "calm c H ph P (intentWithFiles r known) (\<lambda>it w. carries r it \<and> P w)"
  unfolding intentWithFiles_def
  apply (rule calm_if)
   apply (rule calm_Return, rule lasting_pure_conj [OF assms], simp add: carries_plain)
  apply (rule calm_asked [OF assms])
  apply (rule calm_if, rule calm_Throw, rule calm_ReadFiles [OF assms], rule calm_Throw)
  apply (rule calm_Return, rule lasting_pure_conj [OF assms], simp add: carries_def)
  done

definition ready_for :: "outbox_row \<Rightarrow> send_intent option \<Rightarrow> bool" where
  "ready_for r x \<longleftrightarrow> (case x of None \<Rightarrow> refOf r \<noteq> None | Some it \<Rightarrow> refOf r = None \<and> carries r it)"

lemma calm_prepareSend:
  assumes "lasting H P"
  shows "calm c H ph P (prepareSend r) (\<lambda>x w. case x of Inl _ \<Rightarrow> True | Inr it \<Rightarrow> ready_for r it \<and> P w)"
  unfolding prepareSend_def
  apply (rule calm_if)
   apply (rule calm_Return, simp add: assms ready_for_def, simp add: ready_for_def)
  apply (rule calm_await [where M = "\<lambda>_. P"])
   apply (intro calm_if calm_Return calm_source calm_attachRefusal assms, assumption)
  apply (rule calm_option)
   apply (rule calm_try [OF calm_intentWithFiles [OF assms]])
    apply (rule calm_pure, rule calm_Return, simp add: assms ready_for_def)
    apply (simp add: ready_for_def)
   apply (rule calm_Return, simp, simp)
  apply (rule calm_Return, simp, simp)
  done

lemma calm_createWithFiles:
  assumes "mine i H" "oid r = i"
  shows "calm c H ph P (createWithFilesLocked d r it) (\<lambda>_ _. True)"
proof (rule calm_drop)
  have upload: "calm c H ph (\<lambda>_. oid made = i) (if refOf made = None \<or> iFiles it = [] then Return made
      else catchp (updateLocked d made \<lparr>pTo = None, pCc = None, pSubject = None, pBody = None, pFiles = iFiles it, pRemove = []\<rparr>
         ((snapshotOf made)\<lparr>sattachments := attachments r\<rparr>) True)
       (\<lambda>_. awaitp (oxGet i) (\<lambda>x. Return (orRow made x)))) (\<lambda>_ _. True)" for made
    apply (rule calm_fact, intro calm_if calm_done calm_catch)
      apply (rule calm_post [OF calm_updateLocked [OF assms(1)]], assumption, rule TrueI)
     apply (rule calm_await [OF calm_look calm_done], rule lasting_pure, rule lasting_pure)
    done
  show "calm c H ph (\<lambda>_. True) (createWithFilesLocked d r it) (\<lambda>_ _. True)"
    unfolding createWithFilesLocked_def assms(2)
    by (rule calm_await [OF calm_createLocked [OF assms] upload])
qed

lemma calm_ownBody:
  assumes "mine i H"
  shows "calm c H ph (current i r) (ownBodyLocked d r)
    (\<lambda>x w. case x of Inl _ \<Rightarrow> True | Inr next \<Rightarrow> revision next = revision r \<and> current i next w)"
proof -
  have post: "lasting H (case_sum (\<lambda>_ _. True) (\<lambda>next w. revision next = revision r \<and> current i next w) x)" for x :: "confirm_outcome + outbox_row"
    using assms by (cases x) simp_all
  have "calm c H ph (\<lambda>w. oid r = i \<and> current i r w) (ownBodyLocked d r)
    (case_sum (\<lambda>_ _. True) (\<lambda>next w. revision next = revision r \<and> current i next w))"
    unfolding ownBodyLocked_def
    apply (rule calm_pure)
    apply (rule calm_option, rule calm_Return, rule post, simp)
    apply (rule calm_if, rule calm_Return, rule post, simp)
    apply (rule calm_drafts, rule lasting_current [OF assms])
    apply (rule calm_if, rule calm_Return, rule post, simp)
    apply (rule calm_try [OF calm_updateLocked [OF assms]], assumption)
     apply (rule calm_if, rule calm_Return, rule post, simp)
     apply (rule calm_if, rule calm_source, rule lasting_current [OF assms], rule calm_Return, rule post, simp)
     apply (rule calm_Return, rule post, simp)
    apply (rule calm_Return, rule post, simp)
    done
  then have "calm c H ph (current i r) (ownBodyLocked d r)
    (case_sum (\<lambda>_ _. True) (\<lambda>next w. revision next = revision r \<and> current i next w))"
    by (rule calm_pre) (simp add: current_def)
  then show ?thesis by (rule calm_post) (auto split: sum.splits)
qed

lemma calm_scheduleLocked:
  assumes "mine i H" "\<And>at P. lasting H P \<Longrightarrow> calm c H ph P (gate at) (\<lambda>_. P)"
    and "\<And>at. slot = Some at \<Longrightarrow> schedules c i rv at"
  shows "calm c H ph P (scheduleLocked d i rv slot note synced gate) (\<lambda>_ _. True)"
proof -
  have set: "calm c H ph (current i row) (awaitp (gate at) (\<lambda>stop. case stop of
        Some e \<Rightarrow> Return (SOFailed row e)
      | None \<Rightarrow> awaitp (onOutbox (\<lambda>now. schedule i (Some at) None now)) (\<lambda>saved.
          awaitp (oxGet i) (\<lambda>cur. case cur of
            None \<Rightarrow> Return SOInvalid
          | Some c \<Rightarrow> if saved then Return (SOScheduled c) else Return (SOAlready c))))) (\<lambda>_ _. True)"
    if "slot = Some at" "revision row = rv" for at row
  proof -
    have "schedules c i (revision row) at" using assms(3) that by simp
    then show ?thesis
      by (intro calm_await [OF assms(2)] lasting_current assms(1))
        (intro calm_option calm_done calm_then [OF calm_schedule [OF assms(1)]] calm_await [OF calm_look] calm_if lasting_pure)
  qed
  show ?thesis
    unfolding scheduleLocked_def
    apply (rule calm_then [OF calm_sweep calm_get [OF assms(1)]], rule calm_done)
    apply (rule calm_if, rule calm_done, rule calm_option)
     apply (rule calm_then [OF calm_unset [OF assms(1)] calm_await [OF calm_look calm_done]], rule lasting_pure)
    apply (rule calm_asked, rule lasting_current [OF assms(1)])
    apply (rule calm_if, rule calm_Throw, rule calm_if, rule calm_Throw)
    apply (rule calm_try [where M = "current i"])
      apply (rule calm_if, rule calm_Return, rule lasting_current [OF assms(1)], assumption, rule calm_syncLocked [OF assms(1)])
     apply (rule calm_if, rule calm_done, rule calm_if, rule calm_done)
     apply (rule calm_await [OF calm_prepareSend], rule lasting_current [OF assms(1)])
     apply (rename_tac ready, case_tac ready; simp only: sum.case)
      apply (rule calm_done)
     apply (rule calm_pure, rule set, assumption, simp)
    apply (rule calm_done)
    done
qed

lemma calm_discardLocked:
  assumes "mine i H"
  shows "calm c H ph P (discardLocked d i) (\<lambda>_ _. True)"
proof -
  have sync: "calm c H ph (current i r) (awaitp (catchp (syncLocked d r) (\<lambda>_. Return r)) (\<lambda>y. Return (Some y))) (\<lambda>_ _. True)" for r
    by (rule calm_then [OF _ calm_done], rule calm_catch)
      (intro calm_post [OF calm_syncLocked [OF assms]] calm_done lasting_pure TrueI)+
  have "calm c H ph (\<lambda>_. True) (discardLocked d i) (\<lambda>_ _. True)"
    unfolding discardLocked_def
    apply (rule calm_await [OF calm_oxGet [OF assms]])
    apply (rule calm_then)
     apply (case_tac a; simp only: option.case read_as_simps)
      apply (rule calm_done, rule sync)
    apply (rule calm_if, rule calm_done)
    apply (rule calm_then [OF calm_discarded [OF assms]], simp)
    apply (rule calm_then [OF _ calm_await [OF calm_look calm_done]])
     apply (intro calm_option calm_done calm_if calm_drafts calm_removeLocked lasting_pure)
    apply (rule lasting_pure)
    done
  then show ?thesis by (rule calm_drop)
qed

lemma calm_reopenLocked:
  assumes "mine i H"
  shows "calm c H ph P (reopenLocked i) (\<lambda>_ _. True)"
proof -
  have move: "calm c H ph (current i r) (onOutbox (\<lambda>_. reopenRow i x)) (\<lambda>_ _. True)" if r: "isReopenable r" for r x
  proof (rule calm_onOutbox_in [OF lasting_current [OF assms]])
    fix now w assume c: "current i r w" and o: "one_row_per_id w"
    let ?P = "\<lambda>r. oid r = i \<and> (status r = FailedStatus \<or> status r = Expired)"
    let ?f = "\<lambda>r. r\<lparr>status := Draft, error := None, revision := revision r + 1, sendAt := None, expiresAt := x\<rparr>"
    let ?v = "w\<lparr>ox := snd (reopenRow i x (ox w))\<rparr>"
    have rows: "orows (snd (reopenRow i x (ox w))) = orows (snd (update ?P ?f (ox w)))" by (simp add: reopenRow_def)
    then have "updated i ?P ?f w ?v" by (intro updated_update) (auto simp: rowOf_def outboxGet_def)
    then have "outGuar c H ph w H ph ?v"
    proof (rule guar_mine [OF assms])
      fix q assume "rowOf i w = Some q" "?P q"
      then have "frozen r q" "status q \<noteq> Draft" using c by (auto simp: current_def)
      then have "isReopenable q" using r frozen_fields(5) [of r q] by (auto simp: isReopenable_def frozen_def)
      then show "edited q (?f q) \<or> reopened q (?f q)" by (simp add: reopened_def)
    qed (simp_all add: timed_def)
    moreover have "one_row_per_id ?v"
      using one_row_distinct [OF o] oids_update [of ?f ?P "ox w"] rows by (simp add: one_row_ox)
    ultimately show "one_row_per_id ?v \<and> outGuar c H ph w H ph ?v" by simp
  qed
  show ?thesis
    unfolding reopenLocked_def
    apply (rule calm_get [OF assms], rule calm_done)
    apply (rule calm_if, rule calm_done)
    apply (rule calm_asked, rule lasting_current [OF assms])
    apply (simp only: oxReopen_def not_not)
    apply (rule calm_then [OF move], assumption)
    apply (intro calm_if calm_done calm_look lasting_pure)
    done
qed


lemma calm_await_row:
  assumes "calm c H ph P p (current i)" "\<And>r. oid r = i \<Longrightarrow> calm c H ph (current i r) (k r) Q"
  shows "calm c H ph P (awaitp p k) Q"
proof (rule calm_await [OF assms(1)])
  fix r
  have "calm c H ph (\<lambda>w. oid r = i \<and> current i r w) (k r) Q" by (rule calm_pure, erule assms(2))
  then show "calm c H ph (current i r) (k r) Q" by (rule calm_pre) (simp add: current_def)
qed

lemma calm_await_content:
  assumes "mine i H" "\<And>r b. oid r = i \<Longrightarrow> calm c H ph (current i r) (k r b) Q"
  shows "calm c H ph P (awaitp (applyContent d i inc ref p) (\<lambda>(r, b). k r b)) Q"
proof (rule calm_await [OF calm_applyContent [OF assms(1)]])
  fix x :: "outbox_row \<times> bool"
  have "calm c H ph (\<lambda>w. oid (fst x) = i \<and> current i (fst x) w) (case x of (r, b) \<Rightarrow> k r b) Q"
    by (rule calm_pure, rule calm_prod) (simp add: assms(2))
  then show "calm c H ph (current i (fst x)) (case x of (r, b) \<Rightarrow> k r b) Q"
    by (rule calm_pre) (simp add: current_def)
qed

lemma calm_reviseLocked:
  assumes "mine i H"
  shows "calm c H ph P (reviseLocked d tool i rv patch) (\<lambda>_ _. True)"
  unfolding reviseLocked_def
  apply (rule calm_then [OF calm_sweep calm_get [OF assms]], rule calm_Throw)
  apply (rule calm_if, rule calm_Throw)
  apply (rule calm_await_row, rule calm_catch [OF calm_syncLocked [OF assms] calm_Throw], rule lasting_current [OF assms])
  apply (rule calm_drop, simp only:)
  apply (intro calm_if calm_Throw calm_sum calm_option)
  apply (rule calm_Let, rule calm_source, rule lasting_pure, rule calm_then [OF calm_resolveFiles])
  apply (rule calm_Let, rule calm_Let, rule calm_if, rule calm_done, rule calm_drafts, rule lasting_pure)
  apply (rule calm_if, rule calm_catch)
     apply (rule calm_post [OF calm_updateLocked [OF assms]], assumption, rule TrueI)
    apply (rule calm_source, rule lasting_pure, rule calm_Throw, rule lasting_pure)
  apply (rule calm_await_content [OF assms])
  apply (rule calm_if, rule calm_try [OF calm_intentWithFiles], rule lasting_current [OF assms])
    apply (rule calm_createWithFiles [OF assms], assumption)
   apply (rule calm_done, rule calm_done)
  done

end
