(* ===== verification/OutboundSend.thy ===== *)
theory OutboundSend
  imports OutboundCalm
begin

text \<open>The one way a draft goes out: the compare-and-set that wins it, the send, and the record of its answer.\<close>

section \<open>The mode of a draft\<close>

definition modeIs :: "(confirm_mode \<Rightarrow> bool) \<Rightarrow> string \<Rightarrow> world \<Rightarrow> bool" where
  "modeIs M i w \<longleftrightarrow> (\<forall>q. rowOf i w = Some q \<longrightarrow> M (confirmMode q))"

definition knows :: "string \<Rightarrow> claim_token set \<Rightarrow> bool" where
  "knows i H \<longleftrightarrow> Knows i \<in> H \<and> Mint i \<notin> H"

lemma knows_held [simp]: "knows i (insert (Held l) H) = knows i H" "knows i (H - {Held l}) = knows i H"
  by (simp_all add: knows_def)

lemma rely_modeIs: "knows i H \<Longrightarrow> outRely H w v \<Longrightarrow> modeIs M i w \<Longrightarrow> modeIs M i v"
  unfolding modeIs_def knows_def by (auto elim!: outRely_back simp: kept_def)

lemma lasting_modeIs [simp]: "knows i H \<Longrightarrow> lasting H (modeIs M i)"
  unfolding lasting_def using rely_modeIs by blast

lemma guar_modeIs:
  assumes "knows i H" "outGuar c H ph w H' ph' v" "modeIs M i w"
  shows "modeIs M i v \<and> knows i H'"
proof
  show "knows i H'" using assms(1,2) unfolding outGuar_def claimStep_def knows_def by blast
  show "modeIs M i v" unfolding modeIs_def
  proof (intro allI impI)
    fix q assume q: "rowOf i v = Some q"
    have "rowStep c H ph ph' i (rowOf i w) (rowOf i v)" using assms(2) unfolding outGuar_def by blast
    then obtain r where "rowOf i w = Some r" "confirmMode q = confirmMode r"
      using q assms(1) frozen_fields(4) by (cases "rowOf i w") (auto simp: rowStep_def owned_def knows_def)
    then show "M (confirmMode q)" using assms(3) by (simp add: modeIs_def)
  qed
qed

lemma calm_mode:
  assumes "calm c H ph P p Q" "knows i H"
  shows "calm c H ph (\<lambda>w. modeIs M i w \<and> P w) p (\<lambda>a w. modeIs M i w \<and> Q a w)"
  unfolding calm_def
proof (intro allI impI)
  fix w assume w: "modeIs M i w \<and> P w"
  have "wp (outRules c) p (\<lambda>x H' ph' v. ends_calm H ph Q x H' ph' v \<and> knows i H' \<and> modeIs M i v) H ph w"
    by (rule out.wp_frame, rule calmD [OF assms(1)], unfold outRules_simps)
      (use w assms(2) rely_modeIs guar_modeIs in \<open>blast | simp\<close>)+
  then show "wp (outRules c) p (ends_calm H ph (\<lambda>a w. modeIs M i w \<and> Q a w)) H ph w"
    by (rule out.wp_conseq) (auto simp: ends_calm_def split: sum.splits)
qed

text \<open>A calm part of a procedure that is not calm as a whole.\<close>

lemma wp_try_calm:
  assumes "calm c H ph P p M" "P w" "\<And>e v. wp (outRules c) (kl e) Q H ph v" "\<And>a v. M a v \<Longrightarrow> wp (outRules c) (kr a) Q H ph v"
  shows "wp (outRules c) (tryp p (case_sum kl kr)) Q H ph w"
  by (rule out.wp_tryp, rule out.wp_conseq [OF calmD [OF assms(1,2)]])
    (auto simp: ends_calm_def simp del: wp.simps split: sum.splits intro: assms(3,4))

lemma wp_await_calm:
  assumes "calm c H ph P p M" "P w" "\<And>e v. Q (Inl e) H ph v" "\<And>a v. M a v \<Longrightarrow> wp (outRules c) (k a) Q H ph v"
  shows "wp (outRules c) (awaitp p k) Q H ph w"
  unfolding awaitp_def by (rule wp_try_calm [OF assms(1,2)]) (simp_all add: assms(3,4))

lemma wp_await_onOutbox:
  assumes "\<And>v. outRely H w v \<Longrightarrow> one_row_per_id v \<Longrightarrow> one_row_per_id (v\<lparr>ox := snd (f (clock v) (ox v))\<rparr>) \<and>
      outGuar c H ph v H' ph' (v\<lparr>ox := snd (f (clock v) (ox v))\<rparr>)"
    and "\<And>a v. wp (outRules c) (k a) Q H' ph' v"
  shows "wp (outRules c) (awaitp (onOutbox f) k) Q H ph w"
proof (rule out.wp_awaitp, unfold onOutbox_def, rule out.wp_exec)
  fix v assume v: "rely (outRules c) H w v" "inv (outRules c) v"
  let ?f = "\<lambda>w. let (a, s) = f (clock w) (ox w) in (a, w\<lparr>ox := s\<rparr>)"
  have "snd (?f v) = v\<lparr>ox := snd (f (clock v) (ox v))\<rparr>" by (simp add: Let_def split_beta)
  then show "inv (outRules c) (snd (?f v)) \<and> (\<exists>H' ph'. guar (outRules c) H ph v H' ph' (snd (?f v)) \<and>
      (\<forall>v'. rely (outRules c) H' (snd (?f v)) v' \<longrightarrow> (case Inr (fst (?f v)) of
         Inl e \<Rightarrow> wp (outRules c) (Throw e) Q | Inr a \<Rightarrow> wp (outRules c) (k a) Q) H' ph' v'))"
    using assms(1) [of v] assms(2) v by (intro conjI exI [of _ H'] exI [of _ ph']) (auto simp del: wp.simps)
qed

section \<open>The record of an answer\<close>

text \<open>The row of a send that is over: Sending gives way, and the phase with it.\<close>

lemma wp_recorded:
  assumes h: "mine i H" and row: "phaseRow ph = Some row" "oid row = i"
    and f: "\<And>now s. orows (snd (f now s)) = orows (snd (update (\<lambda>q. oid q = i \<and> status q \<in> set [Sending]) (g now) s))"
    and g: "\<And>now q. oid (g now q) = oid q" "\<And>now q. status (g now q) \<noteq> Sending"
      "\<And>now q. oid q = i \<Longrightarrow> status q = Sending \<Longrightarrow> owned ph q Idle (g now q)"
      "\<And>now q. sendAt (g now q) = sendAt q" "\<And>now q. revision (g now q) = revision q"
    and k: "\<And>a. calm c H Idle (\<lambda>_. True) (k a) Q"
  shows "wp (outRules c) (awaitp (onOutbox f) k) (ends_calm H Idle Q) H ph w"
proof (rule wp_await_onOutbox)
  fix v assume o: "one_row_per_id v"
  let ?v = "v\<lparr>ox := snd (f (clock v) (ox v))\<rparr>"
  let ?P = "\<lambda>q. oid q = i \<and> status q \<in> set [Sending]" and ?g = "g (clock v)"
  have rows: "rowOf j ?v = outboxGet j (snd (update ?P ?g (ox v)))" for j
    using f [of "clock v" "ox v"] by (simp add: rowOf_def outboxGet_def)
  have u: "updated i ?P ?g v ?v" by (rule updated_update, simp, rule g(1), rule rows)
  have "outGuar c H ph v H Idle ?v"
  proof (rule guarI)
    fix j
    show "rowStep c H ph Idle j (rowOf j v) (rowOf j ?v)"
    proof (cases "j = i")
      case True
      then show ?thesis using u h g(3-5) rowOf_oid [of i v]
        unfolding updated_def rowStep_def mine_def timed_def by (cases "rowOf i v") auto
    next
      case False
      then show ?thesis using u unfolding updated_def rowStep_def by (cases "rowOf j v") auto
    qed
  next
    show "claimStep H v H ?v"
    proof (rule claimStep_same)
      fix j assume "rowOf j v = None"
      then show "rowOf j ?v = None" using u unfolding updated_def by (cases "j = i") auto
    qed
    have "status r \<noteq> Sending" if "rowOf i ?v = Some r" for r
      using u that g(2) rowOf_oid [of i v] unfolding updated_def by (cases "rowOf i v") (auto split: if_splits)
    then show "phaseStep H ph v Idle ?v" using row by (auto simp: phaseStep_def)
  qed
  moreover have "one_row_per_id ?v"
    using o oids_update [of ?g ?P "ox v"] f [of "clock v" "ox v"] g(1) by (simp add: one_row_per_id_def)
  ultimately show "one_row_per_id ?v \<and> outGuar c H ph v H Idle ?v" by simp
qed (rule calmD [OF k TrueI])

definition stepped :: "outbox_status \<Rightarrow> transition_patch \<Rightarrow> outbox_row \<Rightarrow> outbox_row" where
  "stepped s p r = r\<lparr>status := s,
     error := (if status r = Draft then perror p else or_else (perror p) (error r)),
     externalMessageId := or_else (pexternal p) (externalMessageId r),
     sentAt := or_else (psentAt p) (sentAt r)\<rparr>"

lemma stepped_simps [simp]: "oid (stepped s p r) = oid r" "status (stepped s p r) = s" "confirmMode (stepped s p r) = confirmMode r"
  "revision (stepped s p r) = revision r" "sendAt (stepped s p r) = sendAt r" "sentContent (stepped s p r) = sentContent r"
  "status r = Sending \<Longrightarrow> error (stepped s p r) = or_else (perror p) (error r)"
  by (simp_all add: stepped_def sentContent_def snapshotOf_def)

lemma transition_stepped:
  "transition i froms s p x = firing (update (\<lambda>r. oid r = i \<and> status r \<in> set froms) (stepped s p) x)"
  by (simp add: transition_def stepped_def [abs_def])

lemma wp_failSend:
  assumes h: "mine i H" and r: "oid r = i" and p: "ph = Won row \<or> ph = Answered row (Inl e)" "oid row = i"
  shows "wp (outRules c) (failSend r e) (ends_calm H Idle (\<lambda>_ _. True)) H ph w"
  unfolding failSend_def Let_def oxTransition_def r
proof (rule wp_recorded [OF h, where g = "\<lambda>_. stepped FailedStatus (no_patch\<lparr>perror := Some (summary (shapeOutboundError e))\<rparr>)" and row = row])
  show "phaseRow ph = Some row" "oid row = i" using p by (auto simp: phaseRow_def)
  show "calm c H Idle (\<lambda>_. True) (awaitp (reread r) (\<lambda>f. Return (COFailed f (summary (shapeOutboundError e)) False))) (\<lambda>_ _. True)"
    by (rule calm_then [OF calm_post [OF calm_reread [OF h r]] calm_done]) simp
qed (use p in \<open>auto simp: transition_stepped owned_def ended_def sameSend_def or_else_def\<close>)

lemma wp_sent:
  assumes h: "mine i H" and r: "oid r = i" and p: "ph = Answered row (Inr ext)" "oid row = i"
  shows "wp (outRules c) (awaitp (onOutbox (\<lambda>now. transition i [Sending] SentStatus
      \<lparr>perror = None, pexternal = ext, psentAt = Some now\<rparr>)) (\<lambda>_. awaitp (reread r) (\<lambda>sent. Return (COSent sent))))
    (ends_calm H Idle (\<lambda>_ _. True)) H ph w"
proof (rule wp_recorded [OF h, where g = "\<lambda>now. stepped SentStatus \<lparr>perror = None, pexternal = ext, psentAt = Some now\<rparr>" and row = row])
  show "phaseRow ph = Some row" "oid row = i" using p by (auto simp: phaseRow_def)
  show "calm c H Idle (\<lambda>_. True) (awaitp (reread r) (\<lambda>sent. Return (COSent sent))) (\<lambda>_ _. True)"
    by (rule calm_then [OF calm_post [OF calm_reread [OF h r]] calm_done]) simp
qed (use p in \<open>auto simp: transition_stepped owned_def ended_def sameSend_def\<close>)

section \<open>The send\<close>

lemma calm_accountFor: "calm c H ph P (accountFor a) (\<lambda>_ _. True)"
  unfolding accountFor_def
  by (rule calm_drop) (intro calm_asked calm_option calm_Throw calm_prod calm_if calm_done lasting_pure)

lemma requestOf_ready:
  assumes "ready_for r intent"
  shows "(case refOf r of Some ref \<Rightarrow> ByDraft ref | None \<Rightarrow> ByIntent (case intent of None \<Rightarrow> intentOf r | Some it \<Rightarrow> it)) = requestOf r"
  using assms by (auto simp: ready_for_def requestOf_def carries_def split: option.splits)

lemma wp_executeSend:
  assumes h: "mine i H" and r: "oid r = i" and ok: "confirms c r" "ready_for r intent"
  shows "wp (outRules c) (executeSend r intent) (ends_calm H Idle (\<lambda>_ _. True)) H (Won r) w"
proof -
  let ?Q = "ends_calm H Idle (\<lambda>_ _. True)"
  have send: "wp (outRules c) (SendOut r (case refOf r of Some ref \<Rightarrow> ByDraft ref
             | None \<Rightarrow> ByIntent (case intent of None \<Rightarrow> intentOf r | Some it \<Rightarrow> it)) (\<lambda>y. case y of
           Inl e \<Rightarrow> failSend r e
         | Inr ext \<Rightarrow>
             awaitp (onOutbox (\<lambda>now. transition (oid r) [Sending] SentStatus
               \<lparr>perror = None, pexternal = ext, psentAt = Some now\<rparr>)) (\<lambda>_.
             awaitp (reread r) (\<lambda>sent. Return (COSent sent))))) ?Q H (Won r) v" for v
    unfolding wp.simps requestOf_ready [OF ok(2)] r
    using ok(1) wp_failSend [OF h r] wp_sent [OF h r] r by (auto split: sum.splits)
  have go: "wp (outRules c) (awaitp (query (\<lambda>w. (senderOf w (asource a), senderIds w))) (\<lambda>(s, known).
         if s = None then failSend r (unsupportedSource (asource a) known)
         else if refOf r \<noteq> None \<and> s \<noteq> Some True
         then failSend r (uc ''not sent: this account can no longer send its drafts'')
         else SendOut r (case refOf r of Some ref \<Rightarrow> ByDraft ref
             | None \<Rightarrow> ByIntent (case intent of None \<Rightarrow> intentOf r | Some it \<Rightarrow> it)) (\<lambda>y. case y of
           Inl e \<Rightarrow> failSend r e
         | Inr ext \<Rightarrow>
             awaitp (onOutbox (\<lambda>now. transition (oid r) [Sending] SentStatus
               \<lparr>perror = None, pexternal = ext, psentAt = Some now\<rparr>)) (\<lambda>_.
             awaitp (reread r) (\<lambda>sent. Return (COSent sent)))))) ?Q H (Won r) v" for a v
    by (rule out.wp_awaitp, rule out.wp_query, intro conjI allI impI, simp add: guar_same)
      (simp only: sum.case, rule out.wp_prod, rule out.wp_if, rule wp_failSend [OF h r _ r], simp,
        rule out.wp_if, rule wp_failSend [OF h r _ r], simp, rule send)
  show ?thesis
    unfolding executeSend_def
    by (rule wp_try_calm [OF calm_accountFor TrueI], rule wp_failSend [OF h r _ r], simp, rule go)
qed

lemma frozen_sameSend: "frozen r q \<Longrightarrow> sameSend r q"
  using frozen_fields(1-3) by (simp add: sameSend_def)

text \<open>Winning the row: from the compare-and-set on, its content is the one that was shown.\<close>

lemma wp_win:
  assumes h: "mine i H" "knows i H" and r: "oid r = i" "ready_for r intent"
    and ok: "M (confirmMode r) \<Longrightarrow> confirms c r" and w: "modeIs M i w \<and> current i r w"
  shows "wp (outRules c) (awaitp (oxTransition (oid r) [Draft] Sending no_patch) (\<lambda>moved.
      if \<not> moved then awaitp (oxGet (oid r)) (\<lambda>raced. Return (COAlready (orRow r raced))) else executeSend r intent))
    (ends_calm H Idle (\<lambda>_ _. True)) H Idle w"
proof (rule out.wp_awaitp, unfold oxTransition_def onOutbox_def r(1), rule out.wp_exec)
  fix v assume rel: "rely (outRules c) H w v" and o: "inv (outRules c) v"
  let ?f = "\<lambda>w. let (a, s) = transition i [Draft] Sending no_patch (ox w) in (a, w\<lparr>ox := s\<rparr>)"
  let ?P = "\<lambda>q. oid q = i \<and> status q \<in> set [Draft]" and ?g = "stepped Sending no_patch"
  let ?v = "snd (?f v)"
  have v: "modeIs M i v" "current i r v"
    using rel w lasting_modeIs [OF h(2)] lasting_current [OF h(1)] unfolding lasting_def outRules_simps by blast+
  have e: "?v = v\<lparr>ox := snd (firing (update ?P ?g (ox v)))\<rparr>" "fst (?f v) = fst (firing (update ?P ?g (ox v)))"
    by (simp_all add: Let_def split_beta transition_stepped)
  have u: "updated i ?P ?g v ?v"
    by (rule updated_update, simp, simp, unfold e(1) rowOf_ox outboxGet_firing, rule refl)
  have one: "one_row_per_id ?v"
    using one_row_distinct [of v] o oids_update [of ?g ?P "ox v"] unfolding e(1) by (simp add: one_row_ox)
  have hit: "fst (?f v) \<longleftrightarrow> (\<exists>q. rowOf i v = Some q \<and> ?P q)"
    unfolding e(2) by (rule fst_firing_update) (use o in auto)
  have claims: "claimStep H v H ?v"
  proof (rule claimStep_same)
    fix j assume "rowOf j v = None"
    then show "rowOf j ?v = None" using u unfolding updated_def by (cases "j = i") auto
  qed
  show "inv (outRules c) ?v \<and> (\<exists>H' ph'. guar (outRules c) H Idle v H' ph' ?v \<and>
      (\<forall>v'. rely (outRules c) H' ?v v' \<longrightarrow> (case Inr (fst (?f v)) of
         Inl e \<Rightarrow> wp (outRules c) (Throw e) (ends_calm H Idle (\<lambda>_ _. True))
       | Inr moved \<Rightarrow> wp (outRules c) (if \<not> moved then awaitp (oxGet i) (\<lambda>raced. Return (COAlready (orRow r raced)))
           else executeSend r intent) (ends_calm H Idle (\<lambda>_ _. True))) H' ph' v'))"
  proof (cases "\<exists>q. rowOf i v = Some q \<and> ?P q")
    case True
    then obtain q where q: "rowOf i v = Some q" "status q = Draft" by auto
    then have same: "sameSend r q" "confirmMode q = confirmMode r" "sendAt r = sendAt q"
      using v(2) frozen_sameSend frozen_fields(4,7) unfolding current_def by metis+
    have new: "rowOf i ?v = Some (?g q)" using u q rowOf_oid [OF q(1)] by (simp add: updated_def)
    have step: "sameSend q (?g q)" by (simp add: sameSend_def)
    have "outGuar c H Idle v H (Won r) ?v"
    proof (rule guarI)
      fix j
      show "rowStep c H Idle (Won r) j (rowOf j v) (rowOf j ?v)"
      proof (cases "j = i")
        case True
        have "owned Idle q (Won r) (?g q)" using q(2) same(1) step by (auto simp: owned_def won_def)
        then show ?thesis using h(1) q(1) new True by (simp add: rowStep_def mine_def timed_def)
      next
        case False
        then show ?thesis using u unfolding updated_def rowStep_def by (cases "rowOf j v") auto
      qed
      show "phaseStep H Idle v (Won r) ?v"
        unfolding phaseStep_def using q same(1,3) new step h(1) by (simp add: mine_def r(1))
    qed (rule claims)
    moreover have "wp (outRules c) (executeSend r intent) (ends_calm H Idle (\<lambda>_ _. True)) H (Won r) v'" for v'
      by (rule wp_executeSend [OF h(1) r(1) _ r(2)]) (use ok v(1) q same(2) in \<open>auto simp: modeIs_def\<close>)
    ultimately show ?thesis using one True unfolding hit
      by (intro conjI exI [of _ H] exI [of _ "Won r"]) auto
  next
    case False
    have "outGuar c H Idle v H Idle ?v"
      by (rule guar_mine [OF h(1) u]) (use False rowOf_oid [of i v] in \<open>auto simp: timed_def\<close>)
    moreover have "calm c H Idle (\<lambda>_. True) (awaitp (oxGet i) (\<lambda>raced. Return (COAlready (orRow r raced)))) (\<lambda>_ _. True)"
      by (rule calm_then [OF calm_look calm_done]) simp
    ultimately show ?thesis using one False unfolding hit
      by (intro conjI exI [of _ H] exI [of _ Idle]) (auto simp del: wp.simps dest: calmD)
  qed
qed

lemma calm_row:
  "(oid r = i \<Longrightarrow> calm c H ph (\<lambda>w. modeIs M i w \<and> current i r w) p Q) \<Longrightarrow>
   calm c H ph (\<lambda>w. modeIs M i w \<and> current i r w) p Q"
  unfolding calm_def using current_oid by blast

lemma calm_mode_get:
  assumes "mine i H" "knows i H" "calm c H ph (\<lambda>_. True) p Q"
    and "\<And>r. oid r = i \<Longrightarrow> calm c H ph (\<lambda>w. modeIs M i w \<and> current i r w) (q r) Q"
  shows "calm c H ph (\<lambda>w. modeIs M i w \<and> P w) (awaitp (oxGet i) (case_option p q)) Q"
proof (rule calm_await [OF calm_mode [OF calm_oxGet [OF assms(1)] assms(2)]])
  fix x show "calm c H ph (\<lambda>w. modeIs M i w \<and> read_as i x w) (case_option p q x) Q"
    by (cases x) (simp_all add: calm_drop [OF assms(3)] calm_row [OF assms(4)])
qed

lemma calm_win:
  assumes "mine i H" "knows i H" "oid r = i" "ready_for r intent" "M (confirmMode r) \<Longrightarrow> confirms c r"
  shows "calm c H Idle (\<lambda>w. modeIs M i w \<and> current i r w) (awaitp (oxTransition (oid r) [Draft] Sending no_patch) (\<lambda>moved.
      if \<not> moved then awaitp (oxGet (oid r)) (\<lambda>raced. Return (COAlready (orRow r raced))) else executeSend r intent)) (\<lambda>_ _. True)"
  unfolding calm_def by (intro allI impI) (rule wp_win [OF assms])

lemma calm_mode_pure: "(b \<Longrightarrow> calm c H ph (\<lambda>w. modeIs M i w \<and> P w) p Q) \<Longrightarrow> calm c H ph (\<lambda>w. modeIs M i w \<and> b \<and> P w) p Q"
  by (simp add: calm_def)

lemma calm_mode_sum:
  assumes "\<And>e. calm c H ph (\<lambda>_. True) (p e) Q" "\<And>a. calm c H ph (\<lambda>w. modeIs M i w \<and> B a w) (q a) Q"
  shows "calm c H ph (\<lambda>w. modeIs M i w \<and> (case x of Inl _ \<Rightarrow> True | Inr a \<Rightarrow> B a w)) (case x of Inl e \<Rightarrow> p e | Inr a \<Rightarrow> q a) Q"
  by (cases x) (simp_all add: calm_drop [OF assms(1)] assms(2))

lemma calm_mode_option:
  assumes "\<And>a. calm c H ph (\<lambda>_. True) (p a) Q" "calm c H ph (\<lambda>w. modeIs M i w \<and> B w) q Q"
  shows "calm c H ph (\<lambda>w. modeIs M i w \<and> (case x of None \<Rightarrow> B w | Some _ \<Rightarrow> True)) (case x of None \<Rightarrow> q | Some a \<Rightarrow> p a) Q"
  by (cases x) (simp_all add: calm_drop [OF assms(1)] assms(2))

text \<open>
  \<open>confirmLocked\<close> for a call \<open>c\<close>: a row that passed \<open>lastCheck\<close> (\<open>ok\<close>), at the revision \<open>rv\<close>, is one that
  \<open>c\<close> confirms.
\<close>

lemma calm_confirmLocked:
  assumes h: "mine i H" "knows i H"
    and chk: "\<And>r. oid r = i \<Longrightarrow> calm c H Idle (current i r) (chk r) (\<lambda>x w. case x of None \<Rightarrow> ok r \<and> current i r w | Some _ \<Rightarrow> True)"
    and conf: "\<And>r. ok r \<Longrightarrow> oid r = i \<Longrightarrow> rv = Some (revision r) \<Longrightarrow> M (confirmMode r) \<Longrightarrow> confirms c r"
  shows "calm c H Idle (modeIs M i) (confirmLocked d i rv chk) (\<lambda>_ _. True)"
  unfolding confirmLocked_def
  apply (rule calm_pre [where P' = "\<lambda>w. modeIs M i w \<and> True"])
   apply (rule calm_await [OF calm_mode [OF calm_sweep h(2)] calm_mode_get [OF h calm_done]])
   apply (rule calm_if, rule calm_done)
   apply (rule calm_try [OF calm_mode [OF calm_syncLocked [OF h(1)] h(2)] calm_row calm_done])
   apply (rule calm_if, rule calm_done, rule calm_if, rule calm_done)
   apply (rule calm_await [OF calm_mode [OF calm_ownBody [OF h(1)] h(2)] calm_mode_sum], rule calm_done)
   apply (rule calm_mode_pure, rule calm_row)
   apply (rule calm_await [OF calm_mode [OF calm_prepareSend [OF lasting_current [OF h(1)]] h(2)] calm_mode_sum], rule calm_done)
   apply (rule calm_mode_pure)
   apply (rule calm_await [OF calm_mode [OF chk h(2)] calm_mode_option], assumption, rule calm_done)
   apply (rule calm_mode_pure, rule calm_win [OF h], assumption, assumption)
   apply (rule conf, assumption, assumption, simp, assumption)
  apply simp
  done

end
