(* ===== verification/OutboundOps.thy ===== *)
theory OutboundOps
  imports OutboundSend
begin

text \<open>Every call of the outbound service keeps to the contract, from its claims at the start to none at the end.\<close>

section \<open>Locks\<close>

definition unlocked :: "claim_token set \<Rightarrow> bool" where
  "unlocked H \<longleftrightarrow> (\<forall>l. Held l \<notin> H)"

lemma lock_names [simp]: "draftLock i = draftLock j \<longleftrightarrow> i = j" "accountLock a = accountLock b \<longleftrightarrow> a = b"
    "draftLock i \<noteq> accountLock a" "accountLock a \<noteq> draftLock i"
  by (simp_all add: draftLock_def accountLock_def)

lemma calm_withDraft:
  assumes "\<And>j. Held (draftLock j) \<notin> H" "Knows i \<in> H" "lasting H P"
    and "mine i (insert (Held (draftLock i)) H) \<Longrightarrow> calm c (insert (Held (draftLock i)) H) Idle P p (\<lambda>_ _. True)"
  shows "calm c H Idle P (withLock (draftLock i) p) (\<lambda>_ _. True)"
  by (rule calm_withLock) (use assms in \<open>auto simp: outLock_def mine_def\<close>)

lemma calm_withAccount:
  assumes "unlocked H" "lasting H P" "calm c (insert (Held (accountLock a)) H) Idle P p (\<lambda>_ _. True)"
  shows "calm c H Idle P (withLock (accountLock a) p) (\<lambda>_ _. True)"
  by (rule calm_withLock) (use assms in \<open>auto simp: outLock_def unlocked_def\<close>)

section \<open>The calls of one lock\<close>

lemma calm_locked:
  assumes "unlocked H" "Knows i \<in> H" "\<And>H. mine i H \<Longrightarrow> calm c H Idle (\<lambda>_. True) p (\<lambda>_ _. True)"
  shows "calm c H Idle P (withLock (draftLock i) p) (\<lambda>_ _. True)"
  by (rule calm_drop, rule calm_withDraft) (use assms in \<open>auto simp: unlocked_def\<close>)

lemma calm_confirmRow:
  assumes "unlocked H" "Knows i \<in> H" "Mint i \<notin> H"
  shows "calm (OpConfirm i rv) H Idle P (confirmRow d i rv) (\<lambda>_ _. True)"
proof -
  have "calm (OpConfirm i rv) H Idle (\<lambda>_. True) (withLock (draftLock i) (confirmLocked d i rv no_check)) (\<lambda>_ _. True)"
  proof (rule calm_withDraft)
    assume m: "mine i (insert (Held (draftLock i)) H)"
    have "calm (OpConfirm i rv) (insert (Held (draftLock i)) H) Idle (modeIs (\<lambda>_. True) i) (confirmLocked d i rv no_check) (\<lambda>_ _. True)"
    proof (rule calm_confirmLocked [OF m, where ok = "\<lambda>_. True"])
      fix r
      show "calm (OpConfirm i rv) (insert (Held (draftLock i)) H) Idle (current i r) (no_check r)
          (\<lambda>x w. case x of None \<Rightarrow> True \<and> current i r w | Some _ \<Rightarrow> True)"
        unfolding no_check_def by (rule calm_Return) (simp_all add: m)
    qed (use assms in \<open>auto simp: knows_def confirms_def\<close>)
    then show "calm (OpConfirm i rv) (insert (Held (draftLock i)) H) Idle (\<lambda>_. True) (confirmLocked d i rv no_check) (\<lambda>_ _. True)"
      by (rule calm_pre) (simp add: modeIs_def)
  qed (use assms in \<open>auto simp: unlocked_def\<close>)
  then show ?thesis unfolding confirmRow_def by (rule calm_drop)
qed

lemma calm_refreshById: "unlocked H \<Longrightarrow> Knows i \<in> H \<Longrightarrow> calm c H Idle P (refreshById d i) (\<lambda>_ _. True)"
  unfolding refreshById_def
proof (rule calm_locked)
  fix H assume h: "mine i H"
  have "calm c H Idle (current i r) (awaitp (catchp (syncLocked d r) (\<lambda>_. Return r)) (\<lambda>y. Return (Some y))) (\<lambda>_ _. True)" for r
    by (rule calm_then [OF calm_catch [OF calm_post [OF calm_syncLocked [OF h]] calm_done] calm_done]) simp_all
  then show "calm c H Idle (\<lambda>_. True) (awaitp (oxGet i) (\<lambda>x. case x of None \<Rightarrow> Return None
      | Some r \<Rightarrow> awaitp (catchp (syncLocked d r) (\<lambda>_. Return r)) (\<lambda>y. Return (Some y)))) (\<lambda>_ _. True)"
    by (intro calm_get [OF h] calm_done)
qed

lemma calm_no_gate: "lasting H P \<Longrightarrow> calm c H ph P (no_gate at) (\<lambda>_. P)"
  unfolding no_gate_def by (rule calm_Return)

lemma calm_scheduleById:
  "unlocked H \<Longrightarrow> Knows i \<in> H \<Longrightarrow> calm (OpSchedule i rv at) H Idle P (scheduleById d i rv at) (\<lambda>_ _. True)"
  unfolding scheduleById_def
  by (rule calm_locked) (auto simp: schedules_def intro!: calm_scheduleLocked calm_no_gate)

lemma calm_unschedule: "unlocked H \<Longrightarrow> Knows i \<in> H \<Longrightarrow> calm c H Idle P (unscheduleByToken d i rv) (\<lambda>_ _. True)"
  unfolding unscheduleByToken_def
  by (rule calm_locked) (auto intro!: calm_get calm_if calm_scheduleLocked calm_no_gate calm_done)

lemma calm_discardById: "unlocked H \<Longrightarrow> Knows i \<in> H \<Longrightarrow> calm c H Idle P (discardById d i) (\<lambda>_ _. True)"
  unfolding discardById_def
  by (rule calm_locked) (auto intro!: calm_then [OF calm_discardLocked] calm_prod calm_done)

lemma calm_reopenById: "unlocked H \<Longrightarrow> Knows i \<in> H \<Longrightarrow> calm c H Idle P (reopenById i) (\<lambda>_ _. True)"
  unfolding reopenById_def by (rule calm_locked) (auto intro: calm_reopenLocked)

lemma calm_reviseById: "unlocked H \<Longrightarrow> Knows i \<in> H \<Longrightarrow> calm c H Idle P (reviseById d tool i rv patch) (\<lambda>_ _. True)"
  unfolding reviseById_def by (rule calm_locked) (auto intro: calm_reviseLocked)

lemma calm_timeCheck:
  assumes "mine i H"
  shows "calm c H ph (current i r) (awaitp (timeCheck i at r) (\<lambda>v. Return (stopWith r v)))
    (\<lambda>x w. case x of None \<Rightarrow> sendAt r = Some at \<and> current i r w | Some _ \<Rightarrow> True)"
  unfolding timeCheck_def
  apply (rule calm_await [where M = "\<lambda>v w. case v of None \<Rightarrow> sendAt r = Some at \<and> current i r w | Some _ \<Rightarrow> True"])
   apply (rule calm_asked, simp add: assms, intro calm_if)
     apply (rule calm_Return, simp, simp)
    apply (rule calm_then [OF calm_missSchedule [OF assms]], rule calm_Return, simp, simp)
   apply (rule calm_Return, simp add: assms, simp)
  apply (case_tac a; rule calm_Return, simp add: stopWith_def assms, simp add: stopWith_def)
  done

lemma calm_sendScheduled:
  assumes "unlocked H" "Knows i \<in> H" "Mint i \<notin> H"
  shows "calm (OpSendScheduled i at) H Idle P (sendScheduled d i at) (\<lambda>_ _. True)"
proof -
  have conf: "calm (OpSendScheduled i at) H Idle (\<lambda>_. True)
      (confirmLocked d i rv (\<lambda>r. awaitp (timeCheck i at r) (\<lambda>v. Return (stopWith r v)))) (\<lambda>_ _. True)"
    if m: "mine i H" "Mint i \<notin> H" for rv H
  proof -
    have "calm (OpSendScheduled i at) H Idle (modeIs (\<lambda>_. True) i)
      (confirmLocked d i rv (\<lambda>r. awaitp (timeCheck i at r) (\<lambda>v. Return (stopWith r v)))) (\<lambda>_ _. True)"
      by (rule calm_confirmLocked [where ok = "\<lambda>r. sendAt r = Some at"])
        (use m calm_timeCheck [OF m(1)] in \<open>auto simp: knows_def mine_def confirms_def\<close>)
    then show ?thesis by (rule calm_pre) (simp add: modeIs_def)
  qed
  have m: "Mint i \<notin> insert (Held (draftLock i)) H" using assms(3) by simp
  have "calm (OpSendScheduled i at) H Idle (\<lambda>_. True) (sendScheduled d i at) (\<lambda>_ _. True)"
    unfolding sendScheduled_def
    apply (rule calm_withDraft)
       apply (use assms in \<open>simp_all add: unlocked_def\<close>)
    apply (rule calm_get, assumption, rule calm_done)
    apply (rule calm_drop, rule calm_if, rule calm_done)
    apply (rule calm_asked, rule lasting_pure, rule calm_Let, rule calm_then)
     apply (intro calm_if calm_done calm_source calm_ask lasting_pure)
    apply (rule calm_if, rule calm_done, rule calm_if)
     apply (rule calm_then [OF calm_missSchedule calm_done], assumption)
    apply (rule calm_then [OF conf], assumption, rule m)
    apply (rename_tac out, case_tac out; simp only: confirm_outcome.case calm_done)
    apply (rename_tac refused, case_tac refused; simp only: bool.case calm_done)
    apply (rule calm_then [OF calm_missSchedule calm_done], assumption)
    done
  then show ?thesis by (rule calm_drop)
qed

section \<open>The calls of two locks\<close>

lemma calm_admits: "lasting H P \<Longrightarrow> calm c H ph P (admits d acc a at i) (\<lambda>_. P)"
  unfolding admits_def by (rule calm_ask)

lemma calm_scheduleItem:
  assumes "unlocked H" "Knows i \<in> H"
  shows "calm (OpScheduleItem i rv at account app) H Idle P (scheduleItem d i rv at account app) (\<lambda>_ _. True)"
proof -
  let ?c = "OpScheduleItem i rv at account app"
  have gate: "calm c H Idle P (awaitp (admits d acc a (\<lambda>_. t) i) (\<lambda>ok. Return (if ok then None else Some e))) (\<lambda>_. P)"
    if "lasting H P" for c acc a t e H P by (rule calm_await [OF calm_admits calm_Return]) (use that in auto)
  have "calm ?c H Idle (\<lambda>_. True) (scheduleItem d i rv at account app) (\<lambda>_ _. True)"
    unfolding scheduleItem_def
    apply (intro calm_option)
      apply (rule calm_await [OF calm_look], rule lasting_pure, intro calm_option calm_done calm_if)
      apply (rule calm_then [OF calm_suggest], intro calm_if calm_done)
      apply (rule calm_then [OF calm_locked [OF assms] calm_done])
      apply (rule calm_scheduleLocked, assumption, erule calm_no_gate, simp)
     apply (rule calm_asked, rule lasting_pure, intro calm_if calm_done calm_option)
      apply (rule calm_locked [OF assms])
      apply (rule calm_get, assumption, rule calm_done)
      apply (intro calm_if calm_done calm_then [OF calm_suggest])
    apply (rule calm_prod, rule calm_withAccount [OF assms(1) lasting_pure])
    apply (rule calm_withDraft)
       apply (use assms in \<open>simp_all add: unlocked_def\<close>)
    apply (rule calm_then [OF calm_scheduleLocked calm_done], assumption, erule gate)
    apply (simp add: schedules_def)
    done
  then show ?thesis by (rule calm_drop)
qed

text \<open>What was seen of the mode stays true.\<close>

lemma calm_see_mode:
  assumes "knows i H"
  shows "calm c H ph P (oxGet i) (\<lambda>x w. case x of None \<Rightarrow> True | Some r \<Rightarrow> oid r = i \<and> modeIs (\<lambda>m. m = confirmMode r) i w)"
  unfolding oxGet_def
proof (rule calm_drop, rule calm_query)
  fix w show "case outboxGet i (ox w) of None \<Rightarrow> True | Some r \<Rightarrow> oid r = i \<and> modeIs (\<lambda>m. m = confirmMode r) i w"
    using rowOf_oid [of i w] by (auto simp: modeIs_def rowOf_def split: option.splits)
next
  fix x show "lasting H (\<lambda>w. case x of None \<Rightarrow> True | Some r \<Rightarrow> oid r = i \<and> modeIs (\<lambda>m. m = confirmMode r) i w)"
    using assms by (cases x) simp_all
qed simp

lemma calm_keeps_mode: "calm c H ph (\<lambda>_. True) p (\<lambda>_ _. True) \<Longrightarrow> knows i H \<Longrightarrow> calm c H ph (modeIs M i) p (\<lambda>_. modeIs M i)"
  by (rule calm_pre [OF calm_post [OF calm_mode]]) (assumption | blast)+

lemma calm_sendDraft:
  assumes "unlocked H" "Knows i \<in> H" "Mint i \<notin> H"
  shows "calm (OpSendDraft t i rv) H Idle P (sendDraft d t i rv) (\<lambda>_ _. True)"
proof -
  have k: "knows i H" using assms by (simp add: knows_def)
  have conf: "calm (OpSendDraft t i rv) H Idle (modeIs (\<lambda>m. m = Chat) i) (confirmLocked d i rv no_check) (\<lambda>_ _. True)"
    if m: "mine i H" "Mint i \<notin> H" "t \<noteq> AgentTransport" for H
  proof (rule calm_confirmLocked [where ok = "\<lambda>_. True"])
    fix r
    show "calm (OpSendDraft t i rv) H Idle (current i r) (no_check r)
        (\<lambda>x w. case x of None \<Rightarrow> True \<and> current i r w | Some _ \<Rightarrow> True)"
      unfolding no_check_def by (rule calm_Return) (simp_all add: m)
  qed (use m in \<open>auto simp: knows_def mine_def confirms_def\<close>)
  have "calm (OpSendDraft t i rv) H Idle (\<lambda>_. True) (sendDraft d t i rv) (\<lambda>_ _. True)"
    unfolding sendDraft_def
    apply (rule calm_if, rule calm_Throw, rule calm_then [OF calm_sweep])
    apply (rule calm_await [OF calm_see_mode [OF k]])
    apply (rename_tac x, case_tac x; simp only: option.case)
     apply (rule calm_Throw)
    apply (rule calm_pure, rule calm_if, rule calm_Throw)
    apply (rule calm_await [OF calm_keeps_mode [OF calm_accountFor k]])
    apply (rule calm_asked, simp add: k, rule calm_if, rule calm_Throw)
    apply (rule calm_then [OF calm_withAccount [OF assms(1)]], simp add: k)
     apply (rule calm_await [OF calm_admits], simp add: k)
     apply (rule calm_if, rule calm_Throw, rule calm_withDraft)
        apply (use assms k in \<open>simp_all add: unlocked_def\<close>)
     apply (rule conf, simp_all)
    apply (rename_tac out, case_tac out; simp only: confirm_outcome.case calm_done calm_Throw)
    done
  then show ?thesis by (rule calm_drop)
qed

section \<open>New drafts\<close>

text \<open>A call ends with no lock and no send of its own under way.\<close>

definition over :: "(world, 'a) post" where
  "over x H ph v \<longleftrightarrow> ph = Idle \<and> unlocked H"

lemma over_calm:
  assumes "calm c H Idle P p (\<lambda>_ _. True)" "unlocked H" "P w"
  shows "wp (outRules c) p over H Idle w"
  by (rule out.wp_conseq [OF calmD [OF assms(1,3)]]) (auto simp: ends_calm_def over_def assms(2))

lemma wp_ends: "wp (outRules c) p over H ph w \<Longrightarrow> wp (outRules c) (ends p) over H ph w"
  unfolding ends_def by (rule out.wp_tryp, erule out.wp_conseq) (simp add: over_def)

text \<open>An id that is to be given to a new row has none before.\<close>

lemma lasting_unborn [simp]: "Mint i \<in> H \<Longrightarrow> lasting H (gone i)"
  unfolding lasting_def gone_def using outRely_gone by blast

lemma calm_unborn:
  assumes "calm c H ph (\<lambda>_. True) p (\<lambda>_ _. True)" "Mint i \<in> H"
  shows "calm c H ph (gone i) p (\<lambda>_. gone i)"
  unfolding calm_def
proof (intro allI impI)
  fix w assume w: "gone i w"
  have "wp (outRules c) p (\<lambda>x H' ph' v. ends_calm H ph (\<lambda>_ _. True) x H' ph' v \<and> (Mint i \<in> H' \<longrightarrow> gone i v)) H ph w"
  proof (rule out.wp_frame)
    show "wp (outRules c) p (ends_calm H ph (\<lambda>_ _. True)) H ph w" using calmD [OF assms(1)] by blast
    fix H w v
    show "Mint i \<in> H \<longrightarrow> gone i v" if "rely (outRules c) H w v" "Mint i \<in> H \<longrightarrow> gone i w"
      using that outRely_gone unfolding gone_def outRules_simps by blast
    fix ph H' ph'
    show "Mint i \<in> H' \<longrightarrow> gone i v" if "guar (outRules c) H ph w H' ph' v" "Mint i \<in> H \<longrightarrow> gone i w"
      using that unfolding gone_def outRules_simps outGuar_def claimStep_def by blast
  qed (use w in simp_all)
  then show "wp (outRules c) p (ends_calm H ph (\<lambda>a. gone i)) H ph w"
    by (rule out.wp_conseq) (use assms(2) in \<open>auto simp: ends_calm_def split: sum.splits\<close>)
qed

definition bears :: "string \<Rightarrow> claim_token set \<Rightarrow> claim_token set" where
  "bears i H = insert (Knows i) (H - {Mint i})"

lemma bears_simps [simp]: "Knows i \<in> bears i H" "Mint i \<notin> bears i H" "unlocked (bears i H) = unlocked H"
  by (simp_all add: bears_def unlocked_def)

lemma rowOf_insert:
  "rowOf j (w\<lparr>ox := insertDraft i inp now (ox w)\<rparr>) = (case rowOf j w of Some r \<Rightarrow> Some r
     | None \<Rightarrow> if j = i then Some (last (orows (insertDraft i inp now (ox w)))) else None)"
proof -
  have "find P (xs @ [x]) = (case find P xs of Some y \<Rightarrow> Some y | None \<Rightarrow> if P x then Some x else None)" for P xs and x :: outbox_row
    by (induction xs) auto
  then show ?thesis by (simp add: rowOf_def outboxGet_def insertDraft_def split: option.split)
qed

lemma insert_keeps:
  assumes "one_row_per_id w" "gone i w" "Mint i \<in> H"
  shows "one_row_per_id (w\<lparr>ox := insertDraft i inp now (ox w)\<rparr>) \<and>
    outGuar c H ph w (bears i H) ph (w\<lparr>ox := insertDraft i inp now (ox w)\<rparr>)"
proof
  let ?v = "w\<lparr>ox := insertDraft i inp now (ox w)\<rparr>"
  have rows: "rowOf j ?v = (if j = i then Some (last (orows (insertDraft i inp now (ox w)))) else rowOf j w)" for j
    using assms(2) by (auto simp: rowOf_insert gone_def split: option.split)
  have new: "status (last (orows (insertDraft i inp now (ox w)))) = Draft" "sendAt (last (orows (insertDraft i inp now (ox w)))) = None"
    by (simp_all add: insertDraft_def)
  have "i \<notin> set (map oid (orows (ox w)))"
    using assms(2) by (force simp: gone_def rowOf_def outboxGet_def find_None_iff)
  then show "one_row_per_id ?v" using assms(1) by (simp add: one_row_per_id_def insertDraft_def)
  show "outGuar c H ph w (bears i H) ph ?v"
  proof (rule guarI)
    fix j show "rowStep c H ph ph j (rowOf j w) (rowOf j ?v)"
      using assms(2,3) new by (cases "j = i"; cases "rowOf j w") (auto simp: rows rowStep_def gone_def)
    show "claimStep H w (bears i H) ?v"
      using assms(2,3) by (auto simp: claimStep_def rows bears_def gone_def)
    show "phaseStep H ph w ph ?v" by (simp add: phaseStep_def)
  qed
qed

definition made :: "string \<Rightarrow> claim_token set \<Rightarrow> (world, outbox_row) post" where
  "made i H x H' ph v \<longleftrightarrow> ph = Idle \<and> (H' = H \<or> H' = bears i H) \<and> (\<forall>r. x = Inr r \<longrightarrow> oid r = i \<and> H' = bears i H)"

lemma wp_createDraft:
  assumes "Mint i \<in> H" "gone i w"
  shows "wp (outRules c) (createDraft i inp) (made i H) H Idle w"
proof -
  have tail: "calm c (bears i H) Idle (\<lambda>_. True) (awaitp (oxGet i) (\<lambda>x. case x of
         None \<Rightarrow> Throw (uc ''outbox: insert readback failed'')
       | Some r \<Rightarrow> awaitp (onOutbox (\<lambda>_ s. ((), fireChanged s))) (\<lambda>_. Return r))) (\<lambda>r _. oid r = i)"
  proof -
    have look: "calm c (bears i H) Idle (\<lambda>_. True) (oxGet i) (\<lambda>x _. \<forall>r. x = Some r \<longrightarrow> oid r = i)"
      unfolding oxGet_def by (rule calm_query) (auto simp: rowOf_oid rowOf_def [symmetric])
    show ?thesis
      apply (rule calm_await [OF look], rule calm_fact)
      apply (rule calm_option, rule calm_Throw, rule calm_then [OF calm_fire])
      apply (rule calm_Return, simp, simp)
      done
  qed
  have ins: "wp (outRules c) (awaitp (onOutbox (\<lambda>now s. ((), insertDraft i inp now s))) (\<lambda>_. awaitp (oxGet i) (\<lambda>x. case x of
         None \<Rightarrow> Throw (uc ''outbox: insert readback failed'')
       | Some r \<Rightarrow> awaitp (onOutbox (\<lambda>_ s. ((), fireChanged s))) (\<lambda>_. Return r)))) (made i H) H Idle v"
    if v: "gone i v" for v
  proof (rule wp_await_onOutbox)
    fix u assume rel: "outRely H v u" and o: "one_row_per_id u"
    have "gone i u" using rel v lasting_unborn [OF assms(1)] unfolding lasting_def by blast
    then show "one_row_per_id (u\<lparr>ox := snd ((), insertDraft i inp (clock u) (ox u))\<rparr>) \<and>
        outGuar c H Idle u (bears i H) Idle (u\<lparr>ox := snd ((), insertDraft i inp (clock u) (ox u))\<rparr>)"
      using insert_keeps [OF o _ assms(1)] by simp
  qed (rule out.wp_conseq [OF calmD [OF tail TrueI]], auto simp: ends_calm_def made_def)
  show ?thesis
    unfolding createDraft_def
    apply (rule wp_await_calm [OF calm_unborn [OF calm_sweep assms(1)] assms(2)], simp add: made_def)
    apply (rule wp_await_calm [OF calm_ask [OF lasting_unborn [OF assms(1)]]], assumption, simp add: made_def)
    apply (rule out.wp_if, simp add: made_def)
    apply (rule ins, assumption)
    done
qed

lemma calm_mirrorNew: "unlocked H \<Longrightarrow> Knows (oid r) \<in> H \<Longrightarrow> calm c H Idle P (mirrorNew d r files) (\<lambda>_ _. True)"
  unfolding mirrorNew_def
  apply (rule calm_locked, assumption, assumption)
  apply (rule calm_drafts, rule lasting_pure, intro calm_if calm_done)
  apply (rule calm_try [OF calm_intentWithFiles], rule lasting_pure)
   apply (rule calm_drop, rule calm_createWithFiles, assumption, rule refl)
  apply (rule calm_then [OF calm_setMirror calm_post [OF calm_reread]], assumption, assumption, rule refl, rule TrueI)
  done

lemma wp_draftNew:
  assumes "Mint i \<in> H" "gone i w" "unlocked H"
  shows "wp (outRules c) (draftNew d i inp) over H Idle w"
  unfolding draftNew_def
proof (rule out.wp_awaitp, rule out.wp_conseq [OF wp_createDraft [OF assms(1,2)]])
  fix x H' ph v
  assume m: "made i H x H' ph v"
  then have u: "unlocked H'" "ph = Idle" using assms(3) by (auto simp: made_def)
  show "(case x of Inl e \<Rightarrow> wp (outRules c) (Throw e) over | Inr r \<Rightarrow> wp (outRules c) (mirrorNew d r (dAttachments inp)) over) H' ph v"
  proof (cases x)
    case (Inl e)
    then show ?thesis using u by (simp add: over_def)
  next
    case (Inr r)
    then have "Knows (oid r) \<in> H'" using m by (auto simp: made_def)
    then show ?thesis unfolding Inr sum.case u(2) by (rule over_calm [OF calm_mirrorNew [OF u(1)] u(1) TrueI])
  qed
qed

lemma wp_redraft:
  assumes "Mint j \<in> H" "Knows i \<in> H" "gone j w" "unlocked H"
  shows "wp (outRules c) (redraft d t i j) over H Idle w"
proof -
  note new = wp_draftNew [OF assms(1) _ assms(4)]
  have stop: "over (Inl e) H Idle v" for e v using assms(4) by (simp add: over_def)
  have look: "calm c H Idle (gone j) (oxGet i) (\<lambda>x w. (\<forall>r. x = Some r \<longrightarrow> oid r = i) \<and> gone j w)"
    unfolding oxGet_def
    by (rule calm_query) (use assms(1) in \<open>auto simp: rowOf_oid rowOf_def [symmetric]\<close>)
  have tidy: "calm c H Idle (\<lambda>_. True) (if refOf r \<noteq> None \<and> status r = FailedStatus
         then awaitp (draftsFor r) (\<lambda>ok. if ok then withLock (draftLock (oid r)) (removeLocked r) else Return ())
         else Return ()) (\<lambda>_ _. True)" if "oid r = i" for r
    by (intro calm_if calm_done calm_drafts calm_locked calm_removeLocked lasting_pure) (use assms(2,4) that in simp_all)
  show ?thesis
    unfolding redraft_def
    apply (rule wp_await_calm [OF calm_unborn [OF calm_sweep assms(1)] assms(3)], rule stop)
    apply (rule wp_await_calm [OF look], assumption, rule stop)
    apply (rule out.wp_option, simp add: stop)
    apply (rule out.wp_if, simp add: stop)+
    apply (rule wp_await_calm [OF calm_unborn [OF calm_accountFor assms(1)]], blast, rule stop)
    apply (rule wp_await_calm [OF calm_unborn [OF tidy assms(1)]], blast, assumption, rule stop)
    apply (rule wp_await_calm [OF calm_ask [OF lasting_unborn [OF assms(1)]]], assumption, rule stop)
    apply (rule out.wp_prod, rule new, assumption)
    done
qed

section \<open>All calls\<close>

definition claimsOf :: "outbound_op \<Rightarrow> claim_token set" where
  "claimsOf c = Knows ` set_option (opTarget c) \<union> Mint ` set_option (opMints c)"

theorem wp_opProc:
  assumes "opTarget c = None \<or> opMints c \<noteq> opTarget c" "\<And>j. opMints c = Some j \<Longrightarrow> gone j w"
  shows "wp (outRules c) (opProc d c) over (claimsOf c) Idle w"
proof -
  have u: "unlocked (claimsOf c)" by (auto simp: unlocked_def claimsOf_def)
  have k: "Knows i \<in> claimsOf c \<longleftrightarrow> opTarget c = Some i" "Mint i \<in> claimsOf c \<longleftrightarrow> opMints c = Some i" for i
    by (auto simp: claimsOf_def)
  note calls = calm_confirmRow calm_sendDraft calm_sendScheduled calm_scheduleById calm_unschedule calm_scheduleItem
    calm_discardById calm_reopenById calm_reviseById calm_refreshById
  show ?thesis
  proof (cases c)
    case (OpDraft i inp)
    then show ?thesis using assms u k by (auto intro!: wp_ends wp_draftNew)
  next
    case (OpRedraft t i j)
    then show ?thesis using assms u k by (auto intro!: wp_ends wp_redraft)
  qed (use assms u k in \<open>auto intro!: wp_ends over_calm [where P = "\<lambda>_. True"] calls\<close>)
qed

end
