(* ===== verification/OutboundInv.thy ===== *)
theory OutboundInv
  imports OutboundOps
begin

text \<open>
  The invariant of the outbound system: what each call in flight still promises, that their claims are apart,
  and what the log of sends says about the rows of the Outbox.
\<close>

section \<open>The invariant\<close>

definition before :: "sent_entry \<Rightarrow> outbox_row \<Rightarrow> bool" where
  "before e r \<longleftrightarrow> revision (lrow e) < revision r \<and> (rejected e \<or> misread e)"

text \<open>A row at the revision of a send: its status tells what came of it.\<close>

definition settled :: "sent_entry \<Rightarrow> outbox_row \<Rightarrow> bool" where
  "settled e q \<longleftrightarrow> revision q = revision (lrow e) \<and> sentContent q = sentContent (lrow e) \<and>
     status q \<in> {Sending, SentStatus, FailedStatus, DeliveryUnknown} \<and>
     (status q = SentStatus \<longrightarrow> (\<exists>x. lanswer e = Some (Inr x))) \<and>
     (status q = DeliveryUnknown \<longrightarrow> error q = Some APP_CLOSED) \<and>
     (status q = FailedStatus \<longrightarrow> (\<exists>m. lanswer e = Some (Inl m) \<and> error q = Some (summary (shapeOutboundError m))))"

definition phaseLog :: "phase \<Rightarrow> sent_entry \<Rightarrow> bool" where
  "phaseLog ph e \<longleftrightarrow> (case ph of
     Idle \<Rightarrow> True
   | Won r \<Rightarrow> oid (lrow e) = oid r \<longrightarrow> before e r
   | Answered r x \<Rightarrow> oid (lrow e) = oid r \<longrightarrow> before e r \<or> revision (lrow e) = revision r \<and> lanswer e = Some x)"

definition known :: "system \<Rightarrow> string \<Rightarrow> bool" where
  "known s i \<longleftrightarrow> i \<in> set (used s) \<and> i \<notin> set (unborn s)"

text \<open>The row's schedule, if it has one, is what somebody asked for, at the row's revision.\<close>

definition onPlan :: "system \<Rightarrow> outbox_row \<Rightarrow> bool" where
  "onPlan s r \<longleftrightarrow> (\<forall>t. sendAt r = Some t \<longrightarrow> planned s (oid r) (revision r) t)"

definition phaseOk :: "system \<Rightarrow> claim_token set \<Rightarrow> phase \<Rightarrow> bool" where
  "phaseOk s H ph \<longleftrightarrow> (\<forall>r. phaseRow ph = Some r \<longrightarrow> Held (draftLock (oid r)) \<in> H \<and> known s (oid r) \<and> onPlan s r \<and>
     (\<forall>q. rowOf (oid r) (wd s) = Some q \<longrightarrow> status q = Sending \<and> sameSend r q))"

definition taskOk :: "system \<Rightarrow> task \<Rightarrow> claim_token set \<Rightarrow> phase \<Rightarrow> bool" where
  "taskOk s t H ph \<longleftrightarrow> wp (outRules (top t)) (tprog t) over H ph (wd s) \<and>
     (\<forall>l. Held l \<in> H \<longleftrightarrow> l \<in> set (tlocks t)) \<and>
     (\<forall>i. Mint i \<in> H \<longrightarrow> i \<in> set (unborn s)) \<and> (\<forall>i. Knows i \<in> H \<longrightarrow> known s i) \<and>
     phaseOk s H ph \<and> (\<forall>e \<in> set (log s). phaseLog ph e) \<and> top t \<in> set (asked s)"

definition apart :: "claim_token set \<Rightarrow> claim_token set \<Rightarrow> bool" where
  "apart H K \<longleftrightarrow> (\<forall>l. \<not> (Held l \<in> H \<and> Held l \<in> K)) \<and> (\<forall>i. \<not> (Mint i \<in> H \<and> Mint i \<in> K))"

definition idsOk :: "system \<Rightarrow> bool" where
  "idsOk s \<longleftrightarrow> one_row_per_id (wd s) \<and> (\<forall>i. rowOf i (wd s) \<noteq> None \<longrightarrow> known s i) \<and> set (unborn s) \<subseteq> set (used s) \<and>
     (\<forall>i q. rowOf i (wd s) = Some q \<longrightarrow> onPlan s q)"

definition entryOk :: "system \<Rightarrow> sent_entry \<Rightarrow> bool" where
  "entryOk s e \<longleftrightarrow> confirms (lop e) (lrow e) \<and> lreq e = requestOf (lrow e) \<and> known s (oid (lrow e)) \<and> onPlan s (lrow e) \<and>
     (\<forall>q. rowOf (oid (lrow e)) (wd s) = Some q \<longrightarrow> before e q \<or> settled e q)"

fun rising :: "sent_entry list \<Rightarrow> bool" where
  "rising [] \<longleftrightarrow> True"
| "rising (e # es) \<longleftrightarrow> (\<forall>f \<in> set es. oid (lrow f) = oid (lrow e) \<longrightarrow> before e (lrow f)) \<and> rising es"

definition ghosts :: "system \<Rightarrow> (claim_token set \<times> phase) list \<Rightarrow> bool" where
  "ghosts s gs \<longleftrightarrow> length gs = length (tasks s) \<and>
     (\<forall>n < length gs. taskOk s (tasks s ! n) (fst (gs ! n)) (snd (gs ! n))) \<and>
     (\<forall>m < length gs. \<forall>n < length gs. m \<noteq> n \<longrightarrow> apart (fst (gs ! m)) (fst (gs ! n)))"

definition kept_up :: "system \<Rightarrow> bool" where
  "kept_up s \<longleftrightarrow> (\<exists>gs. ghosts s gs) \<and> idsOk s \<and> (\<forall>e \<in> set (log s). entryOk s e) \<and> rising (log s)"

lemma taskOkI:
  assumes "wp (outRules (top t)) (tprog t) over H ph (wd s)" "\<And>l. Held l \<in> H \<longleftrightarrow> l \<in> set (tlocks t)"
    and "\<And>i. Mint i \<in> H \<Longrightarrow> i \<in> set (unborn s)" "\<And>i. Knows i \<in> H \<Longrightarrow> known s i"
    and "phaseOk s H ph" "\<And>e. e \<in> set (log s) \<Longrightarrow> phaseLog ph e" "top t \<in> set (asked s)"
  shows "taskOk s t H ph"
  using assms unfolding taskOk_def by blast

lemma taskOkD:
  assumes "taskOk s t H ph"
  shows "wp (outRules (top t)) (tprog t) over H ph (wd s)" "Held l \<in> H \<longleftrightarrow> l \<in> set (tlocks t)"
    "Mint i \<in> H \<Longrightarrow> i \<in> set (unborn s)" "Knows i \<in> H \<Longrightarrow> known s i"
    "phaseOk s H ph" "e \<in> set (log s) \<Longrightarrow> phaseLog ph e" "top t \<in> set (asked s)"
  using assms unfolding taskOk_def by blast+

lemma phaseOkD:
  assumes "phaseOk s H ph" "phaseRow ph = Some r"
  shows "Held (draftLock (oid r)) \<in> H" "known s (oid r)"
    "rowOf (oid r) (wd s) = Some q \<Longrightarrow> status q = Sending \<and> sameSend r q" "onPlan s r"
  using assms unfolding phaseOk_def by blast+

lemma phaseOkI:
  assumes "\<And>r. phaseRow ph = Some r \<Longrightarrow> Held (draftLock (oid r)) \<in> H \<and> known s (oid r)"
    and "\<And>r q. phaseRow ph = Some r \<Longrightarrow> rowOf (oid r) (wd s) = Some q \<Longrightarrow> status q = Sending \<and> sameSend r q"
    and "\<And>r. phaseRow ph = Some r \<Longrightarrow> onPlan s r"
  shows "phaseOk s H ph"
  using assms unfolding phaseOk_def by blast

lemma apart_sym: "apart H K \<Longrightarrow> apart K H"
  by (auto simp: apart_def)

lemma rising_append:
  "rising (es @ fs) \<longleftrightarrow> rising es \<and> rising fs \<and> (\<forall>e \<in> set es. \<forall>f \<in> set fs. oid (lrow f) = oid (lrow e) \<longrightarrow> before e (lrow f))"
  by (induction es) auto

section \<open>Rows under a step\<close>

lemma retry_gained:
  assumes "canRetry (shapeOutboundError (summary (shapeOutboundError m)))"
  shows "canRetry (shapeOutboundError m) \<or>
    ekind (shapeOutboundError m) = Unsupported \<and> length (singleLine (utrim m)) > 200"
proof (cases "length (singleLine (utrim m)) \<le> 200")
  case True
  then show ?thesis using short_errors_keep_their_kind assms by blast
next
  case False
  have s: "shapeOutboundError m = classify (singleLine (utrim m))" by (simp add: shapeOutboundError_def)
  have "ekind (classify (singleLine (utrim m))) \<noteq> UnknownKind"
    using unknown_stays assms unfolding summary_shape by blast
  moreover have "canRetry (classify t)" if "ekind (classify t) = Transient \<or> ekind (classify t) = AuthKind" for t
    using that by (auto simp: classify_def Let_def split: option.splits if_splits)
  ultimately show ?thesis using False unfolding s by (cases "ekind (classify (singleLine (utrim m)))") auto
qed

lemma retry_means_rejected:
  assumes "settled e q" "reopened q q'"
  shows "rejected e \<or> misread e"
proof -
  have r: "isReopenable q" using assms(2) by (simp add: reopened_def)
  then obtain m where m: "status q = FailedStatus" "lanswer e = Some (Inl m)" "error q = Some (summary (shapeOutboundError m))"
    using assms(1) by (auto simp: settled_def isReopenable_def)
  then have "canRetry (shapeOutboundError (summary (shapeOutboundError m)))"
    using r by (simp add: isReopenable_def)
  then show ?thesis using retry_gained [of m] by (auto simp: rejected_def misread_def m(2))
qed

definition entryRow :: "sent_entry \<Rightarrow> outbox_row \<Rightarrow> bool" where
  "entryRow e q \<longleftrightarrow> before e q \<or> settled e q"

lemma entryRow_frozen: "entryRow e q \<Longrightarrow> frozen q q' \<Longrightarrow> entryRow e q'"
  using frozen_fields [of q q'] by (auto simp: entryRow_def before_def settled_def frozen_def)

lemma settled_same:
  assumes "settled e q" "status q' = status q" "revision q' = revision q" "error q' = error q" "sentContent q' = sentContent q"
  shows "settled e q'"
  using assms(1) unfolding settled_def assms(2-5) .

lemma entryRow_edited:
  assumes "entryRow e q" "edited q q'"
  shows "entryRow e q'"
  using assms(1) unfolding entryRow_def
proof
  assume b: "before e q"
  have "revision q \<le> revision q'" using assms(2) unfolding edited_def by auto
  with b show "before e q' \<or> settled e q'" by (auto simp: before_def)
next
  assume s: "settled e q"
  then have "status q \<notin> {Draft, Expired}" by (auto simp: settled_def)
  then have "status q' = status q \<and> revision q' = revision q \<and> error q' = error q \<and> sentContent q' = sentContent q"
    using assms(2) unfolding edited_def by blast
  then show "before e q' \<or> settled e q'" using settled_same [OF s] by blast
qed

text \<open>A send that was under way when the app closed.\<close>

lemma entryRow_orphan:
  assumes "entryRow e q" "status q = Sending"
  shows "entryRow e (q\<lparr>status := DeliveryUnknown, error := Some APP_CLOSED\<rparr>)"
  using assms(1) unfolding entryRow_def
proof
  assume "settled e q"
  then have "settled e (q\<lparr>status := DeliveryUnknown, error := Some APP_CLOSED\<rparr>)"
    by (simp add: settled_def sentContent_def snapshotOf_def)
  then show "before e (q\<lparr>status := DeliveryUnknown, error := Some APP_CLOSED\<rparr>) \<or>
    settled e (q\<lparr>status := DeliveryUnknown, error := Some APP_CLOSED\<rparr>)" ..
qed (simp add: before_def)

lemma entryRow_reopened: "entryRow e q \<Longrightarrow> reopened q q' \<Longrightarrow> entryRow e q'"
  using retry_means_rejected [of e q q'] by (auto simp: entryRow_def before_def settled_def reopened_def)

lemma entryRow_won: "entryRow e q \<Longrightarrow> won ph q ph' q' \<Longrightarrow> entryRow e q'"
  by (auto simp: entryRow_def before_def settled_def won_def sameSend_def)

lemma entryRow_ended:
  assumes "entryRow e q" "ended ph q ph' q'" "phaseLog ph e" "oid (lrow e) = oid q"
    and "\<And>r. phaseRow ph = Some r \<Longrightarrow> oid r = oid q \<Longrightarrow> sameSend r q"
  shows "entryRow e q'"
  using assms
  by (auto simp: entryRow_def before_def settled_def ended_def sameSend_def phaseLog_def phaseRow_def split: phase.splits sum.splits)

section \<open>A step of one call\<close>

lemma rowStepD: "outGuar c H ph w H' ph' v \<Longrightarrow> rowStep c H ph ph' i (rowOf i w) (rowOf i v)"
  by (simp add: outGuar_def)

lemma rowStep_back:
  assumes "rowStep c H ph ph' i a (Some q')" "Mint i \<notin> H"
  obtains q where "a = Some q" "frozen q q' \<or> Held (draftLock i) \<in> H \<and> owned ph q ph' q' \<and> timed c q q'"
  using assms by (cases a) (simp_all add: rowStep_def)

lemma owned_mode: "owned ph q ph' q' \<Longrightarrow> confirmMode q' = confirmMode q"
  by (simp add: owned_def)

text \<open>What one guarantees, the others may rely on.\<close>

lemma guar_outRely:
  assumes g: "outGuar c H ph w H' ph' v" and a: "apart H K" and m: "\<And>i. Mint i \<in> H \<Longrightarrow> Knows i \<notin> K"
  shows "outRely K w v"
proof (rule outRelyI)
  fix i
  assume k: "Knows i \<in> K \<or> Mint i \<in> K" and n: "rowOf i w = None"
  have "Mint i \<notin> H" using k a m by (auto simp: apart_def)
  then show "rowOf i v = None" using rowStepD [OF g, of i] n by (cases "rowOf i v") (auto simp: rowStep_def)
next
  fix i r r'
  assume k: "Knows i \<in> K" and r: "rowOf i w = Some r" "rowOf i v = Some r'"
  have "frozen r r' \<or> Held (draftLock i) \<in> H \<and> owned ph r ph' r' \<and> timed c r r'"
    using rowStepD [OF g, of i] r by (simp add: rowStep_def)
  moreover have "Held (draftLock i) \<notin> H" if "Held (draftLock i) \<in> K" using that a by (auto simp: apart_def)
  ultimately show "kept (Held (draftLock i) \<in> K) r r'"
    using frozen_fields(4) owned_mode by (auto simp: kept_def)
qed

text \<open>A send under way stays one: nobody else has the row's lock, and its holder is not done with it.\<close>

lemma phase_frozen: "status q = Sending \<and> sameSend r q \<Longrightarrow> frozen q q' \<Longrightarrow> status q' = Sending \<and> sameSend r q'"
  using frozen_fields [of q q'] by (auto simp: sameSend_def frozen_def)

lemma phase_owned: "status q = Sending \<and> sameSend r q \<Longrightarrow> owned ph q ph q' \<Longrightarrow> oid q' = oid r \<Longrightarrow> status q' = Sending \<and> sameSend r q'"
  by (auto simp: owned_def edited_def reopened_def isReopenable_def won_def ended_def sameSend_def)

definition moved :: "system \<Rightarrow> world \<Rightarrow> task list \<Rightarrow> system" where
  "moved s v ts = born (s\<lparr>wd := v, tasks := ts\<rparr>)"

lemma moved_simps [simp]: "wd (moved s v ts) = v" "tasks (moved s v ts) = ts" "used (moved s v ts) = used s" "log (moved s v ts) = log s"
    "set (unborn (moved s v ts)) = {i \<in> set (unborn s). rowOf i v = None}"
  by (simp_all add: moved_def born_def rowOf_def)

lemma planned_moved [simp]: "planned (moved s v ts) = planned s" "onPlan (moved s v ts) = onPlan s" "asked (moved s v ts) = asked s"
  by (simp_all add: planned_def onPlan_def moved_def born_def fun_eq_iff)

lemma onPlan_frozen: "onPlan s q \<Longrightarrow> frozen q q' \<Longrightarrow> onPlan s q'"
  using frozen_fields [of q q'] by (simp add: onPlan_def)

lemma onPlan_timed: "onPlan s q \<Longrightarrow> timed c q q' \<Longrightarrow> oid q' = oid q \<Longrightarrow> c \<in> set (asked s) \<Longrightarrow> onPlan s q'"
  by (auto simp: onPlan_def timed_def planned_def)

lemma known_moved: "known s i \<Longrightarrow> known (moved s v ts) i"
  by (simp add: known_def)

lemma minted_gone: "idsOk s \<Longrightarrow> i \<in> set (unborn s) \<Longrightarrow> rowOf i (wd s) = None"
  by (auto simp: idsOk_def known_def)

lemma entry_moves:
  assumes g: "outGuar c H ph (wd s) H' ph' v" and m: "\<And>i. Mint i \<in> H \<Longrightarrow> i \<in> set (unborn s)"
    and p: "phaseOk s H ph" "phaseLog ph e" and e: "entryOk s e"
  shows "entryOk (moved s v ts) e"
proof -
  let ?i = "oid (lrow e)"
  have "entryRow e q'" if q': "rowOf ?i v = Some q'" for q'
  proof -
    have "Mint ?i \<notin> H" using m e by (auto simp: entryOk_def known_def)
    then obtain q where q: "rowOf ?i (wd s) = Some q" "frozen q q' \<or> Held (draftLock ?i) \<in> H \<and> owned ph q ph' q'"
      using rowStepD [OF g, of ?i] rowStep_back [of c H ph ph' ?i "rowOf ?i (wd s)" q'] q' by auto
    have was: "entryRow e q" using e q(1) by (simp add: entryOk_def entryRow_def)
    have same: "sameSend r q" if "phaseRow ph = Some r" "oid r = oid q" for r
      using p(1) that q(1) rowOf_oid [OF q(1)] by (auto simp: phaseOk_def)
    show ?thesis
      using q(2) entryRow_frozen [OF was] entryRow_edited [OF was] entryRow_reopened [OF was] entryRow_won [OF was]
        entryRow_ended [OF was _ p(2) _ same] rowOf_oid [OF q(1)] unfolding owned_def by metis
  qed
  then show ?thesis using e by (auto simp: entryOk_def entryRow_def intro: known_moved)
qed

lemma other_moves:
  assumes g: "outGuar c H ph (wd s) H' ph' v" and m: "\<And>i. Mint i \<in> H \<Longrightarrow> i \<in> set (unborn s)"
    and a: "apart H K" and t: "taskOk s t K kp" and i: "idsOk s"
  shows "taskOk (moved s v ts) t K kp"
proof (rule taskOkI)
  have k: "Knows i \<notin> K" if "Mint i \<in> H" for i using m [OF that] taskOkD(4) [OF t, of i] by (auto simp: known_def)
  have r: "outRely K (wd s) v" by (rule guar_outRely [OF g a k])
  show "wp (outRules (top t)) (tprog t) over K kp (wd (moved s v ts))"
    unfolding moved_simps by (rule out.wp_stable [OF taskOkD(1) [OF t]]) (simp add: r)
  show "i \<in> set (unborn (moved s v ts))" if "Mint i \<in> K" for i
    using outRely_gone [OF r, of i] that taskOkD(3) [OF t that] minted_gone [OF i, of i] by simp
  show "phaseOk (moved s v ts) K kp"
  proof (rule phaseOkI)
    fix r assume pr: "phaseRow kp = Some r"
    note o = phaseOkD [OF taskOkD(5) [OF t] pr]
    show "Held (draftLock (oid r)) \<in> K \<and> known (moved s v ts) (oid r)" using o known_moved by blast
    show "onPlan (moved s v ts) r" using o(4) by simp
    fix q' assume "rowOf (oid r) (wd (moved s v ts)) = Some q'"
    moreover have "Mint (oid r) \<notin> H" "Held (draftLock (oid r)) \<notin> H" using m a o by (auto simp: known_def apart_def)
    ultimately obtain q where "rowOf (oid r) (wd s) = Some q" "frozen q q'"
      using rowStep_back [of c H ph ph' "oid r" "rowOf (oid r) (wd s)" q'] rowStepD [OF g, of "oid r"] by auto
    then show "status q' = Sending \<and> sameSend r q'" using o(3) phase_frozen by blast
  qed
qed (use taskOkD [OF t] known_moved in auto)

lemma self_moves:
  assumes g: "outGuar c H ph (wd s) H' ph' v" and t: "taskOk s t H ph" and i: "idsOk s"
    and w: "wp (outRules (top t)) p over H' ph' v" and e: "\<And>e. e \<in> set (log s) \<Longrightarrow> entryOk s e"
  shows "taskOk (moved s v ts) (t\<lparr>tprog := p\<rparr>) H' ph'"
proof -
  have c: "claimStep H (wd s) H' v" and ps: "phaseStep H ph (wd s) ph' v" using g by (simp_all add: outGuar_def)
  have held: "Held l \<in> H' \<longleftrightarrow> Held l \<in> H" for l using c by (simp add: claimStep_def)
  have phase: "phaseOk (moved s v ts) H' ph' \<and> (\<forall>e \<in> set (log s). phaseLog ph' e)"
    using ps unfolding phaseStep_def
  proof (elim disjE exE conjE)
    assume same: "ph' = ph"
    have "phaseOk (moved s v ts) H' ph"
    proof (rule phaseOkI)
      fix r assume pr: "phaseRow ph = Some r"
      note o = phaseOkD [OF taskOkD(5) [OF t] pr]
      show "Held (draftLock (oid r)) \<in> H' \<and> known (moved s v ts) (oid r)" using o held known_moved by blast
      show "onPlan (moved s v ts) r" using o(4) by simp
      fix q' assume q': "rowOf (oid r) (wd (moved s v ts)) = Some q'"
      have "Mint (oid r) \<notin> H" using o(2) taskOkD(3) [OF t, of "oid r"] by (auto simp: known_def)
      then obtain q where "rowOf (oid r) (wd s) = Some q" "frozen q q' \<or> owned ph q ph q'"
        using rowStep_back [of c H ph ph' "oid r" "rowOf (oid r) (wd s)" q'] rowStepD [OF g, of "oid r"] q' same by auto
      moreover have "oid q' = oid r" using q' rowOf_oid by blast
      ultimately show "status q' = Sending \<and> sameSend r q'" using o(3) phase_frozen phase_owned by blast
    qed
    then show ?thesis using taskOkD(6) [OF t] unfolding same by blast
  next
    fix row r r'
    assume f: "ph' = Won row" "rowOf (oid row) (wd s) = Some r" "status r = Draft" "sameSend row r"
      "rowOf (oid row) v = Some r'" "status r' = Sending" "sameSend r r'" "Held (draftLock (oid row)) \<in> H"
      "sendAt row = sendAt r"
    have "known s (oid row)" "onPlan s r" using i f(2) by (simp_all add: idsOk_def)
    moreover from this(2) have "onPlan s row" using f(4,9) by (simp add: onPlan_def sameSend_def)
    ultimately have "phaseOk (moved s v ts) H' ph'"
      using f held known_moved by (intro phaseOkI) (auto simp: phaseRow_def sameSend_def)
    moreover have "phaseLog ph' e" if "e \<in> set (log s)" for e
      using e [OF that] f(1-4) by (auto simp: entryOk_def settled_def before_def sameSend_def phaseLog_def)
    ultimately show ?thesis by blast
  next
    assume "ph' = Idle"
    then show ?thesis by (simp add: phaseOk_def phaseRow_def phaseLog_def)
  qed
  show ?thesis
  proof (rule taskOkI)
    fix i
    show "i \<in> set (unborn (moved s v ts))" if "Mint i \<in> H'"
    proof -
      have "Mint i \<in> H" "rowOf i (wd s) = None \<longrightarrow> rowOf i v = None" using c that unfolding claimStep_def by blast+
      then show ?thesis using taskOkD(3) [OF t, of i] minted_gone [OF i, of i] by simp
    qed
    show "known (moved s v ts) i" if "Knows i \<in> H'"
    proof (cases "Knows i \<in> H")
      case True
      then show ?thesis by (intro known_moved taskOkD(4) [OF t])
    next
      case False
      then have "Mint i \<in> H" "rowOf i v \<noteq> None" using c that unfolding claimStep_def by blast+
      then show ?thesis using taskOkD(3) [OF t, of i] i by (auto simp: known_def idsOk_def)
    qed
  qed (use w held taskOkD(2,7) [OF t] phase in auto)
qed

lemma ids_move:
  assumes g: "outGuar c H ph (wd s) H' ph' v" and m: "\<And>i. Mint i \<in> H \<Longrightarrow> i \<in> set (unborn s)" and i: "idsOk s" "one_row_per_id v"
    and c: "c \<in> set (asked s)"
  shows "idsOk (moved s v ts)"
proof -
  have plan: "onPlan s q'" if q': "rowOf i v = Some q'" for i q'
  proof (cases "rowOf i (wd s)")
    case None
    then have "sendAt q' = None" using rowStepD [OF g, of i] q' by (simp add: rowStep_def)
    then show ?thesis by (simp add: onPlan_def)
  next
    case (Some q)
    then have q: "onPlan s q" "oid q = i" "oid q' = i" using i(1) rowOf_oid [OF Some] rowOf_oid [OF q'] by (auto simp: idsOk_def)
    have "frozen q q' \<or> timed c q q'" using rowStepD [OF g, of i] q' Some by (auto simp: rowStep_def)
    then show ?thesis using q onPlan_frozen onPlan_timed [OF q(1) _ _ c] by auto
  qed
  have "known (moved s v ts) i" if "rowOf i v \<noteq> None" for i
  proof (cases "rowOf i (wd s)")
    case None
    then have "Mint i \<in> H" using rowStepD [OF g, of i] that by (auto simp: rowStep_def)
    then show ?thesis using m i(1) that by (auto simp: known_def idsOk_def)
  next
    case Some
    then have "known s i" using i(1) unfolding idsOk_def by simp
    then show ?thesis by (rule known_moved)
  qed
  then show ?thesis using i plan by (auto simp: idsOk_def)
qed

lemma apart_moves:
  assumes "apart H K" "claimStep H w H' v"
  shows "apart H' K"
  using assms by (auto simp: apart_def claimStep_def)

theorem step_kept_up:
  assumes k: "ghosts s gs" "idsOk s" "\<forall>e \<in> set (log s). entryOk s e" "rising (log s)"
    and n: "n < length gs" "gs ! n = (H, ph)" and g: "outGuar (top (tasks s ! n)) H ph (wd s) H' ph' v" "one_row_per_id v"
    and w: "wp (outRules (top (tasks s ! n))) p over H' ph' v"
  shows "kept_up (moved s v ((tasks s)[n := (tasks s ! n)\<lparr>tprog := p\<rparr>]))"
proof -
  let ?ts = "(tasks s)[n := (tasks s ! n)\<lparr>tprog := p\<rparr>]" and ?gs = "gs[n := (H', ph')]"
  have len: "length gs = length (tasks s)" and t: "\<And>j. j < length gs \<Longrightarrow> taskOk s (tasks s ! j) (fst (gs ! j)) (snd (gs ! j))"
    and a: "\<And>i j. i < length gs \<Longrightarrow> j < length gs \<Longrightarrow> i \<noteq> j \<Longrightarrow> apart (fst (gs ! i)) (fst (gs ! j))"
    using k(1) by (auto simp: ghosts_def)
  have tn: "taskOk s (tasks s ! n) H ph" using t [OF n(1)] n(2) by simp
  have m: "\<And>i. Mint i \<in> H \<Longrightarrow> i \<in> set (unborn s)" using tn by (simp add: taskOk_def)
  have c: "claimStep H (wd s) H' v" using g(1) by (simp add: outGuar_def)
  have h: "apart H' (fst (gs ! j))" if "j < length gs" "j \<noteq> n" for j
    using apart_moves [OF _ c] a [OF n(1) that(1)] that(2) n(2) by simp
  have "ghosts (moved s v ?ts) ?gs"
    unfolding ghosts_def
  proof (intro conjI allI impI)
    fix j assume "j < length ?gs"
    then show "taskOk (moved s v ?ts) (tasks (moved s v ?ts) ! j) (fst (?gs ! j)) (snd (?gs ! j))"
      using len self_moves [OF g(1) tn k(2) w bspec [OF k(3)]] other_moves [OF g(1) m _ t k(2), of j] a [of n j] n by (cases "j = n") auto
  next
    fix i j assume "i < length ?gs" "j < length ?gs" "i \<noteq> j"
    then show "apart (fst (?gs ! i)) (fst (?gs ! j))"
      using a [of i j] h [of i] h [of j] apart_sym [of H' "fst (gs ! i)"] by (cases "i = n"; cases "j = n") simp_all
  qed (simp add: len)
  moreover have "\<forall>e \<in> set (log s). entryOk (moved s v ?ts) e"
    using entry_moves [OF g(1) m] tn k(3) by (simp add: taskOk_def)
  ultimately show ?thesis using ids_move [OF g(1) m k(2) g(2) taskOkD(7) [OF tn]] k(4) unfolding kept_up_def by auto
qed

lemma born_id: "idsOk s \<Longrightarrow> born s = s"
proof -
  assume i: "idsOk s"
  have "outboxGet j (ox (wd s)) = None" if "j \<in> set (unborn s)" for j
    using minted_gone [OF i that] by (simp add: rowOf_def)
  then have "filter (\<lambda>j. outboxGet j (ox (wd s)) = None) (unborn s) = unborn s" by (simp add: filter_id_conv)
  then show ?thesis by (simp add: born_def)
qed

section \<open>A step outside the world\<close>

text \<open>A lock taken or given back, and an answer other than a sender's.\<close>

lemma setTask_simps [simp]: "wd (setTask n t s) = wd s" "used (setTask n t s) = used s" "unborn (setTask n t s) = unborn s"
    "log (setTask n t s) = log s" "tasks (setTask n t s) = (tasks s)[n := t]"
  by (simp_all add: setTask_def)

lemma known_setTask [simp]: "known (setTask n t s) i = known s i"
  by (simp add: known_def)

lemma planned_setTask [simp]: "planned (setTask n t s) = planned s" "onPlan (setTask n t s) = onPlan s" "asked (setTask n t s) = asked s"
  by (simp_all add: planned_def onPlan_def setTask_def fun_eq_iff)

lemma taskOk_setTask [simp]: "taskOk (setTask n t s) t' H ph = taskOk s t' H ph"
  by (simp add: taskOk_def phaseOk_def)

lemma idsOk_setTask [simp]: "idsOk (setTask n t s) = idsOk s"
  by (simp add: idsOk_def)

lemma entryOk_setTask [simp]: "entryOk (setTask n t s) e = entryOk s e"
  by (simp add: entryOk_def)

lemma task_kept_up:
  assumes k: "ghosts s gs" "idsOk s" "\<forall>e \<in> set (log s). entryOk s e" "rising (log s)"
    and n: "n < length gs" "gs ! n = (H, ph)" and t: "taskOk s t H' ph"
    and a: "\<And>m. m < length gs \<Longrightarrow> m \<noteq> n \<Longrightarrow> apart H' (fst (gs ! m))"
  shows "kept_up (born (setTask n t s))"
proof -
  have "ghosts (setTask n t s) (gs[n := (H', ph)])"
    unfolding ghosts_def
  proof (intro conjI allI impI)
    fix j assume "j < length (gs[n := (H', ph)])"
    then show "taskOk (setTask n t s) (tasks (setTask n t s) ! j) (fst (gs[n := (H', ph)] ! j)) (snd (gs[n := (H', ph)] ! j))"
      using k(1) n t by (cases "j = n") (simp_all add: ghosts_def)
  next
    fix i j assume ij: "i < length (gs[n := (H', ph)])" "j < length (gs[n := (H', ph)])" "i \<noteq> j"
    have "apart (fst (gs ! i)) (fst (gs ! j))" using k(1) ij unfolding ghosts_def by simp
    then show "apart (fst (gs[n := (H', ph)] ! i)) (fst (gs[n := (H', ph)] ! j))"
      using a [of i] a [of j] ij apart_sym [of H' "fst (gs ! i)"] by (cases "i = n"; cases "j = n") simp_all
  qed (use k(1) in \<open>simp add: ghosts_def\<close>)
  moreover have "born (setTask n t s) = setTask n t s" by (rule born_id) (simp add: k(2))
  ultimately show ?thesis using k by (auto simp: kept_up_def)
qed

lemma answer_kept_up:
  assumes k: "ghosts s gs" "idsOk s" "\<forall>e \<in> set (log s). entryOk s e" "rising (log s)"
    and n: "n < length gs" "gs ! n = (H, ph)" and w: "wp (outRules (top (tasks s ! n))) p over H ph (wd s)"
  shows "kept_up (born (setTask n ((tasks s ! n)\<lparr>tprog := p\<rparr>) s))"
proof (rule task_kept_up [OF k n])
  have "taskOk s (tasks s ! n) H ph" using k(1) n unfolding ghosts_def by fastforce
  then show "taskOk s ((tasks s ! n)\<lparr>tprog := p\<rparr>) H ph" using w by (simp add: taskOk_def)
  show "apart H (fst (gs ! m))" if "m < length gs" "m \<noteq> n" for m
    using k(1) n that unfolding ghosts_def by (metis fst_conv)
qed

lemma lock_kept_up:
  assumes k: "ghosts s gs" "idsOk s" "\<forall>e \<in> set (log s). entryOk s e" "rising (log s)"
    and n: "n < length gs" "gs ! n = (H, ph)" and f: "free l s"
    and w: "wp (outRules (top (tasks s ! n))) p over (insert (Held l) H) ph (wd s)"
  shows "kept_up (born (setTask n ((tasks s ! n)\<lparr>tprog := p, tlocks := l # tlocks (tasks s ! n)\<rparr>) s))"
proof (rule task_kept_up [OF k n, where H' = "insert (Held l) H"])
  have t: "taskOk s (tasks s ! n) H ph" using k(1) n unfolding ghosts_def by fastforce
  show "taskOk s ((tasks s ! n)\<lparr>tprog := p, tlocks := l # tlocks (tasks s ! n)\<rparr>) (insert (Held l) H) ph"
  proof (rule taskOkI)
    show "Held k \<in> insert (Held l) H \<longleftrightarrow> k \<in> set (tlocks ((tasks s ! n)\<lparr>tprog := p, tlocks := l # tlocks (tasks s ! n)\<rparr>))" for k
      using taskOkD(2) [OF t, of k] by simp
    show "phaseOk s (insert (Held l) H) ph" using taskOkD(5) [OF t] unfolding phaseOk_def by blast
    show "i \<in> set (unborn s)" if "Mint i \<in> insert (Held l) H" for i using taskOkD(3) [OF t, of i] that by simp
    show "known s i" if "Knows i \<in> insert (Held l) H" for i using taskOkD(4) [OF t, of i] that by simp
    show "phaseLog ph e" if "e \<in> set (log s)" for e using taskOkD(6) [OF t that] .
    show "top ((tasks s ! n)\<lparr>tprog := p, tlocks := l # tlocks (tasks s ! n)\<rparr>) \<in> set (asked s)" using taskOkD(7) [OF t] by simp
  qed (use w in simp)
  fix m assume m: "m < length gs" "m \<noteq> n"
  have "taskOk s (tasks s ! m) (fst (gs ! m)) (snd (gs ! m))" "m < length (tasks s)" using k(1) m by (simp_all add: ghosts_def)
  moreover have "l \<notin> set (tlocks (tasks s ! m))" using f \<open>m < length (tasks s)\<close> by (auto simp: free_def)
  ultimately have "Held l \<notin> fst (gs ! m)" by (simp add: taskOk_def)
  moreover have "apart H (fst (gs ! m))" using k(1) n m unfolding ghosts_def by (metis fst_conv)
  ultimately show "apart (insert (Held l) H) (fst (gs ! m))" by (auto simp: apart_def)
qed

lemma unlock_kept_up:
  assumes k: "ghosts s gs" "idsOk s" "\<forall>e \<in> set (log s). entryOk s e" "rising (log s)"
    and n: "n < length gs" "gs ! n = (H, ph)"
    and w: "wp (outRules (top (tasks s ! n))) p over (H - {Held l}) ph (wd s)" and ph: "ph = Idle"
  shows "kept_up (born (setTask n ((tasks s ! n)\<lparr>tprog := p, tlocks := removeAll l (tlocks (tasks s ! n))\<rparr>) s))"
proof (rule task_kept_up [OF k n, where H' = "H - {Held l}"])
  have t: "taskOk s (tasks s ! n) H ph" using k(1) n unfolding ghosts_def by fastforce
  show "taskOk s ((tasks s ! n)\<lparr>tprog := p, tlocks := removeAll l (tlocks (tasks s ! n))\<rparr>) (H - {Held l}) ph"
    using t w by (simp add: taskOk_def phaseOk_def ph phaseRow_def)
  fix m assume m: "m < length gs" "m \<noteq> n"
  have "apart H (fst (gs ! m))" using k(1) n m unfolding ghosts_def by (metis fst_conv)
  then show "apart (H - {Held l}) (fst (gs ! m))" by (auto simp: apart_def)
qed

section \<open>A send\<close>

text \<open>What is put into the log is what the phase of its call promises.\<close>

definition entryOf :: "task \<Rightarrow> outbox_row \<Rightarrow> (utext + string option) option \<Rightarrow> sent_entry" where
  "entryOf t r x = \<lparr>lrow = r, lreq = requestOf r, lop = top t, lanswer = x\<rparr>"

lemma entryOf_simps [simp]: "lrow (entryOf t r x) = r" "lanswer (entryOf t r x) = x" "lop (entryOf t r x) = top t"
    "lreq (entryOf t r x) = requestOf r"
  by (simp_all add: entryOf_def)

lemma won_before: "taskOk s t H (Won r) \<Longrightarrow> e \<in> set (log s) \<Longrightarrow> oid (lrow e) = oid r \<Longrightarrow> before e r"
  using taskOkD(6) [of s t H "Won r" e] by (simp add: phaseLog_def)

lemma sent_entryOk:
  assumes "taskOk s t H (Won r)" "confirms (top t) r"
  shows "entryOk s (entryOf t r x)"
proof -
  have "phaseRow (Won r) = Some r" by (simp add: phaseRow_def)
  note p = phaseOkD(2,3,4) [OF taskOkD(5) [OF assms(1)] this]
  have "settled (entryOf t r x) q" if "rowOf (oid r) (wd s) = Some q" for q
    using p(2) [OF that] by (simp add: settled_def sameSend_def)
  then show ?thesis using p(1,3) assms(2) by (simp add: entryOk_def)
qed

definition logged :: "sent_entry list \<Rightarrow> system \<Rightarrow> system" where
  "logged es s = s\<lparr>log := log s @ es\<rparr>"

lemma logged_simps [simp]: "wd (logged es s) = wd s" "tasks (logged es s) = tasks s" "used (logged es s) = used s"
    "unborn (logged es s) = unborn s" "log (logged es s) = log s @ es" "asked (logged es s) = asked s"
    "planned (logged es s) = planned s" "onPlan (logged es s) = onPlan s"
  by (simp_all add: logged_def planned_def onPlan_def fun_eq_iff)

lemma logged_same [simp]: "known (logged es s) = known s" "idsOk (logged es s) = idsOk s" "entryOk (logged es s) = entryOk s"
    "phaseOk (logged es s) = phaseOk s"
  by (simp_all only: known_def idsOk_def entryOk_def phaseOk_def fun_eq_iff logged_simps refl simp_thms)

lemma taskOk_logged: "taskOk s t H ph \<Longrightarrow> (\<And>e. e \<in> set es \<Longrightarrow> phaseLog ph e) \<Longrightarrow> taskOk (logged es s) t H ph"
  by (auto simp: taskOk_def)

text \<open>Two calls that are both at a send are at different drafts.\<close>

lemma apart_rows:
  assumes "taskOk s t H ph" "taskOk s u K kp" "apart H K" "phaseRow ph = Some r" "phaseRow kp = Some q"
  shows "oid r \<noteq> oid q"
  using phaseOkD(1) [OF taskOkD(5) [OF assms(1)] assms(4)] phaseOkD(1) [OF taskOkD(5) [OF assms(2)] assms(5)] assms(3)
  by (auto simp: apart_def)

lemma phaseLog_other: "(\<And>q. phaseRow kp = Some q \<Longrightarrow> oid q \<noteq> oid (lrow e)) \<Longrightarrow> phaseLog kp e"
  by (auto simp: phaseLog_def phaseRow_def split: phase.splits)

lemma send_kept_up:
  assumes k: "ghosts s gs" "idsOk s" "\<forall>e \<in> set (log s). entryOk s e" "rising (log s)"
    and n: "n < length gs" "gs ! n = (H, Won r)" and c: "confirms (top (tasks s ! n)) r"
    and w: "wp (outRules (top (tasks s ! n))) p over H (Answered r x) (wd s)"
  shows "kept_up (born (setTask n ((tasks s ! n)\<lparr>tprog := p\<rparr>) (logged [entryOf (tasks s ! n) r (Some x)] s)))"
proof -
  let ?e = "entryOf (tasks s ! n) r (Some x)" and ?gs = "gs[n := (H, Answered r x)]"
  let ?s = "logged [?e] s"
  let ?v = "setTask n ((tasks s ! n)\<lparr>tprog := p\<rparr>) ?s"
  have t: "taskOk s (tasks s ! j) (fst (gs ! j)) (snd (gs ! j))" if "j < length gs" for j using k(1) that by (simp add: ghosts_def)
  have tn: "taskOk s (tasks s ! n) H (Won r)" using t [OF n(1)] n(2) by simp
  have a: "apart (fst (gs ! i)) (fst (gs ! j))" if "i < length gs" "j < length gs" "i \<noteq> j" for i j
    using k(1) that by (simp add: ghosts_def)
  have b: "before e r" if "e \<in> set (log s)" "oid (lrow e) = oid r" for e using won_before [OF tn that] .
  have self: "taskOk ?s ((tasks s ! n)\<lparr>tprog := p\<rparr>) H (Answered r x)"
  proof (rule taskOkI)
    show "phaseOk ?s H (Answered r x)" using taskOkD(5) [OF tn] unfolding phaseOk_def logged_simps logged_same by (simp add: phaseRow_def)
    show "phaseLog (Answered r x) e" if "e \<in> set (log ?s)" for e using that b by (auto simp: phaseLog_def)
  qed (use w taskOkD(2-4,7) [OF tn] in simp_all)
  have other: "taskOk ?s (tasks s ! j) (fst (gs ! j)) (snd (gs ! j))" if j: "j < length gs" "j \<noteq> n" for j
  proof (rule taskOk_logged [OF t [OF j(1)]])
    fix e assume "e \<in> set [?e]"
    then show "phaseLog (snd (gs ! j)) e"
      using apart_rows [OF t [OF j(1)] tn _, of _ r] a [OF j(1) n(1) j(2)] n(2)
      by (intro phaseLog_other) (simp add: phaseRow_def)
  qed
  have "ghosts ?v ?gs"
    unfolding ghosts_def
  proof (intro conjI allI impI)
    fix j assume "j < length ?gs"
    then show "taskOk ?v (tasks ?v ! j) (fst (?gs ! j)) (snd (?gs ! j))"
      using self other [of j] n k(1) by (cases "j = n") (simp_all add: ghosts_def)
  next
    fix i j assume "i < length ?gs" "j < length ?gs" "i \<noteq> j"
    then show "apart (fst (?gs ! i)) (fst (?gs ! j))"
      using a [of i j] n by (cases "i = n"; cases "j = n") simp_all
  qed (use k(1) in \<open>simp add: ghosts_def\<close>)
  moreover have "entryOk s ?e" by (rule sent_entryOk [OF tn c])
  moreover have "rising (log s @ [?e])" using k(4) b by (simp add: rising_append)
  moreover have "born ?v = ?v" by (rule born_id) (simp add: k(2))
  ultimately show ?thesis using k by (auto simp: kept_up_def)
qed

section \<open>What happens to all\<close>

definition ambient :: "world \<Rightarrow> world \<Rightarrow> bool" where
  "ambient w v \<longleftrightarrow> one_row_per_id v \<and> (\<forall>i. rowOf i v = None \<or> rel_option frozen (rowOf i w) (rowOf i v))"

lemma ambient_back: "ambient w v \<Longrightarrow> rowOf i v = Some q' \<Longrightarrow> \<exists>q. rowOf i w = Some q \<and> frozen q q'"
  unfolding ambient_def by (drule conjunct2, drule spec [of _ i]) (cases "rowOf i w"; simp)

lemma ambient_outRely: "ambient w v \<Longrightarrow> outRely K w v"
proof (rule outRelyI)
  assume a: "ambient w v"
  show "rowOf i v = None" if "rowOf i w = None" for i
    using ambient_back [OF a, of i] that by (cases "rowOf i v") auto
  show "kept (Held (draftLock i) \<in> K) r r'" if "rowOf i w = Some r" "rowOf i v = Some r'" for i r r'
    using ambient_back [OF a that(2)] that(1) frozen_fields(4) by (auto simp: kept_def)
qed

lemma ambient_kept_up:
  assumes k: "kept_up s" and a: "ambient (wd s) v"
  shows "kept_up (moved s v (tasks s))"
proof -
  obtain gs where gs: "ghosts s gs" and i: "idsOk s" and e: "\<forall>e \<in> set (log s). entryOk s e" and r: "rising (log s)"
    using k by (auto simp: kept_up_def)
  let ?v = "moved s v (tasks s)"
  have t: "taskOk ?v u H ph" if t: "taskOk s u H ph" for u H ph
  proof (rule taskOkI)
    show "wp (outRules (top u)) (tprog u) over H ph (wd ?v)"
      unfolding moved_simps by (rule out.wp_stable [OF taskOkD(1) [OF t]]) (simp add: ambient_outRely [OF a])
    show "j \<in> set (unborn ?v)" if "Mint j \<in> H" for j
      using taskOkD(3) [OF t that] minted_gone [OF i, of j] ambient_back [OF a, of j] by (cases "rowOf j v") auto
    show "phaseOk ?v H ph"
    proof (rule phaseOkI)
      fix row assume pr: "phaseRow ph = Some row"
      note o = phaseOkD [OF taskOkD(5) [OF t] pr]
      show "Held (draftLock (oid row)) \<in> H \<and> known ?v (oid row)" using o known_moved by blast
      show "onPlan ?v row" using o(4) by simp
      fix q' assume "rowOf (oid row) (wd ?v) = Some q'"
      then obtain q where "rowOf (oid row) (wd s) = Some q" "frozen q q'" using ambient_back [OF a] by auto
      then show "status q' = Sending \<and> sameSend row q'" using o(3) phase_frozen by blast
    qed
  qed (use taskOkD(2,4,6,7) [OF t] known_moved in auto)
  have "ghosts ?v gs" using gs t unfolding ghosts_def by simp
  moreover have "entryOk ?v f" if "f \<in> set (log s)" for f
  proof -
    have f: "entryOk s f" using e that by blast
    have "entryRow f q'" if "rowOf (oid (lrow f)) v = Some q'" for q'
      using ambient_back [OF a that] f entryRow_frozen by (auto simp: entryOk_def entryRow_def)
    then show ?thesis using f known_moved by (simp add: entryOk_def entryRow_def)
  qed
  moreover have "idsOk ?v"
  proof -
    have "known ?v j" if "rowOf j v \<noteq> None" for j
      using that ambient_back [OF a, of j] i known_moved by (force simp: idsOk_def)
    moreover have "onPlan s q'" if "rowOf j v = Some q'" for j q'
    proof -
      obtain q where "rowOf j (wd s) = Some q" "frozen q q'" using ambient_back [OF a \<open>rowOf j v = Some q'\<close>] by blast
      then show ?thesis using i onPlan_frozen unfolding idsOk_def by blast
    qed
    ultimately show ?thesis using i a by (auto simp: idsOk_def ambient_def)
  qed
  ultimately show ?thesis using r by (auto simp: kept_up_def)
qed

text \<open>The sweep, the removal of an account and a crash, row by row.\<close>

lemma ambient_sweep: "one_row_per_id w \<Longrightarrow> ambient w (w\<lparr>ox := expireOverdue ro now (ox w)\<rparr>)"
proof -
  assume o: "one_row_per_id w"
  note k = sweep_keeps [OF o, where ro = ro and now = now and H = "{}" and ph = Idle and c = "OpReopen []"]
  let ?v = "w\<lparr>ox := expireOverdue ro now (ox w)\<rparr>"
  have "rel_option frozen (rowOf i w) (rowOf i ?v)" for i
  proof -
    have "rowStep (OpReopen []) {} Idle Idle i (rowOf i w) (rowOf i ?v)" using k rowStepD by blast
    then show ?thesis by (cases "rowOf i w"; cases "rowOf i ?v") (simp_all add: rowStep_def)
  qed
  then show ?thesis using k by (simp add: ambient_def)
qed

lemma ambient_same: "one_row_per_id w \<Longrightarrow> ox v = ox w \<Longrightarrow> ambient w v"
  by (simp add: ambient_def one_row_per_id_def rowOf_def rel_frozen_refl)

lemma filter_all: "length (filter P xs) = length xs \<Longrightarrow> filter P xs = xs"
  using length_filter_less [of _ xs P] by (metis filter_id_conv less_irrefl_nat)

lemma ambient_removal: "one_row_per_id w \<Longrightarrow> ambient w (w\<lparr>ox := removeAccount acc (ox w)\<rparr>)"
proof -
  assume o: "one_row_per_id w"
  have rows: "orows (removeAccount acc (ox w)) = filter (\<lambda>r. accountId r \<noteq> acc) (orows (ox w))"
    using filter_all [of "\<lambda>r. accountId r \<noteq> acc" "orows (ox w)"]
    by (auto simp: removeAccount_def Let_def fireChanged_def)
  have "find (\<lambda>r. oid r = i) (filter P rs) = None \<or> find (\<lambda>r. oid r = i) (filter P rs) = find (\<lambda>r. oid r = i) rs"
    if "distinct (map oid rs)" for i and P :: "outbox_row \<Rightarrow> bool" and rs
    using that
  proof (induction rs)
    case (Cons r rs)
    have "oid x \<noteq> oid r" if "x \<in> set rs" for x using Cons.prems that by (metis distinct.simps(2) image_eqI list.set_map list.simps(9))
    then show ?case using Cons by (auto simp: find_None_iff)
  qed simp
  then have "rowOf i (w\<lparr>ox := removeAccount acc (ox w)\<rparr>) = None \<or> rowOf i (w\<lparr>ox := removeAccount acc (ox w)\<rparr>) = rowOf i w" for i
    using one_row_distinct [OF o] by (simp add: rowOf_def outboxGet_def rows)
  moreover have "distinct (map oid (filter (\<lambda>r. accountId r \<noteq> acc) (orows (ox w))))"
    using one_row_distinct [OF o] by (rule distinct_map_filter)
  ultimately show ?thesis using rel_frozen_refl unfolding ambient_def one_row_per_id_def by (simp add: rows) metis
qed

section \<open>A new call\<close>

lemma claims_simps [simp]: "Held l \<notin> claimsOf c" "Knows i \<in> claimsOf c \<longleftrightarrow> opTarget c = Some i" "Mint i \<in> claimsOf c \<longleftrightarrow> opMints c = Some i"
  by (auto simp: claimsOf_def)

lemma in_the_list [simp]: "x \<in> set (the_list y) \<longleftrightarrow> y = Some x"
  by (cases y) auto

lemma start_kept_up:
  assumes k: "kept_up s"
  shows "kept_up (born (startOp d c s))"
proof (cases "known_to_caller s c")
  case False
  then show ?thesis using k born_id [of s] by (simp add: startOp_def kept_up_def)
next
  case True
  obtain gs where gs: "ghosts s gs" and i: "idsOk s" and e: "\<forall>e \<in> set (log s). entryOk s e" and r: "rising (log s)"
    using k by (auto simp: kept_up_def)
  let ?t = "\<lparr>tprog = opProc d c, tlocks = [], top = c\<rparr>"
  define v where "v = s\<lparr>tasks := tasks s @ [?t], used := used s @ the_list (opTarget c) @ the_list (opMints c),
      unborn := unborn s @ the_list (opMints c), asked := asked s @ [c]\<rparr>"
  have v: "wd v = wd s" "log v = log s" "tasks v = tasks s @ [?t]" "set (unborn v) = set (unborn s) \<union> set (the_list (opMints c))"
    "set (used v) = set (used s) \<union> set (the_list (opTarget c)) \<union> set (the_list (opMints c))"
    "set (asked v) = insert c (set (asked s))"
    by (auto simp: v_def)
  have pv: "onPlan v r" if "onPlan s r" for r using that by (auto simp: onPlan_def planned_def v_def)
  have fresh: "j \<notin> set (used s)" "opTarget c \<noteq> Some j" if "opMints c = Some j" for j
    using True that by (auto simp: known_to_caller_def)
  have target: "j \<notin> set (unborn s)" if "opTarget c = Some j" for j
    using True that by (simp add: known_to_caller_def)
  have kv: "known v j" if "known s j" for j using that fresh by (auto simp: known_def v)
  have iv: "idsOk v" using i kv pv unfolding idsOk_def v by auto
  have p: "phaseOk v H ph" if "phaseOk s H ph" for H ph
    using that kv pv unfolding phaseOk_def v by blast
  have old: "taskOk v u H ph" if t: "taskOk s u H ph" for u H ph
    by (rule taskOkI) (use taskOkD [OF t] kv p in \<open>auto simp: v\<close>)
  have new: "taskOk v ?t (claimsOf c) Idle"
  proof (rule taskOkI)
    have "gone j (wd s)" if "opMints c = Some j" for j
      using fresh [OF that] i by (auto simp: idsOk_def known_def gone_def)
    then have "wp (outRules c) (opProc d c) over (claimsOf c) Idle (wd s)"
      using fresh by (intro wp_opProc) auto
    then show "wp (outRules (top ?t)) (tprog ?t) over (claimsOf c) Idle (wd v)" by (simp add: v)
    show "known v j" if "Knows j \<in> claimsOf c" for j
      using that target fresh by (auto simp: known_def v)
  qed (simp_all add: v phaseOk_def phaseRow_def phaseLog_def)
  have unminted: "j \<notin> set (unborn s)" if "opMints c = Some j" for j
    using fresh(1) [OF that] i by (auto simp: idsOk_def)
  have apart: "apart (claimsOf c) H" if "taskOk s u H ph" for u H ph
    using taskOkD(3) [OF that] unminted by (auto simp: apart_def)
  have len: "length gs = length (tasks s)" using gs by (simp add: ghosts_def)
  have "ghosts v (gs @ [(claimsOf c, Idle)])"
    unfolding ghosts_def
  proof (intro conjI allI impI)
    fix j assume j: "j < length (gs @ [(claimsOf c, Idle)])"
    show "taskOk v (tasks v ! j) (fst ((gs @ [(claimsOf c, Idle)]) ! j)) (snd ((gs @ [(claimsOf c, Idle)]) ! j))"
    proof (cases "j < length gs")
      case True
      then show ?thesis using gs old len by (simp add: ghosts_def v nth_append)
    next
      case False
      then have "j = length gs" using j by simp
      moreover have "tasks v ! length gs = ?t" by (simp add: v len)
      ultimately show ?thesis using new by simp
    qed
  next
    fix m n assume mn: "m < length (gs @ [(claimsOf c, Idle)])" "n < length (gs @ [(claimsOf c, Idle)])" "m \<noteq> n"
    have a: "apart (claimsOf c) (fst (gs ! j))" if "j < length gs" for j using gs apart that by (auto simp: ghosts_def)
    have b: "apart (fst (gs ! m)) (fst (gs ! n))" if "m < length gs" "n < length gs" using gs mn that by (simp add: ghosts_def)
    show "apart (fst ((gs @ [(claimsOf c, Idle)]) ! m)) (fst ((gs @ [(claimsOf c, Idle)]) ! n))"
      using mn a [of m] a [of n] b apart_sym [of "claimsOf c" "fst (gs ! m)"]
      by (cases "m < length gs"; cases "n < length gs") (simp_all add: nth_append less_Suc_eq)
  qed (simp add: v len)
  moreover have "entryOk v f" if "f \<in> set (log s)" for f
    using e that kv pv by (simp add: entryOk_def v)
  moreover have "born v = v" by (rule born_id [OF iv])
  ultimately show ?thesis using True r iv by (auto simp: kept_up_def startOp_def v_def [symmetric] v)
qed

section \<open>A crash\<close>

lemma crash_rows:
  "rowOf i (w\<lparr>ox := recoverOrphanedSending ro (ox w)\<rparr>) = map_option (\<lambda>r. if \<not> ro \<and> status r = Sending
     then r\<lparr>status := DeliveryUnknown, error := Some APP_CLOSED\<rparr> else r) (rowOf i w)"
  using outboxGet_update [of "\<lambda>r. r\<lparr>status := DeliveryUnknown, error := Some APP_CLOSED\<rparr>" i "\<lambda>r. status r = Sending" "ox w"]
  by (cases ro) (simp_all add: rowOf_def recoverOrphanedSending_def option.map_ident)

lemma inFlight_won:
  assumes "taskOk s t H ph" "e \<in> set (inFlight t)"
  shows "\<exists>r. ph = Won r \<and> confirms (top t) r \<and> e = entryOf t r None"
proof -
  obtain r q p where p: "tprog t = SendOut r q p" "e = \<lparr>lrow = r, lreq = q, lop = top t, lanswer = None\<rparr>"
    using assms(2) by (cases "tprog t") (auto simp: inFlight_def)
  then show ?thesis using taskOkD(1) [OF assms(1)] by (auto simp: entryOf_def)
qed

lemma inFlight_one: "inFlight t = [] \<or> (\<exists>e. inFlight t = [e])"
  by (auto simp: inFlight_def split: proc.splits)

lemma crash_kept_up:
  assumes k: "kept_up s"
  shows "kept_up (born (happens d Crash s))"
proof -
  obtain gs where gs: "ghosts s gs" and i: "idsOk s" and e: "\<forall>e \<in> set (log s). entryOk s e" and r: "rising (log s)"
    using k by (auto simp: kept_up_def)
  define v where "v = happens d Crash s"
  have t: "taskOk s (tasks s ! j) (fst (gs ! j)) (snd (gs ! j))" if "j < length (tasks s)" for j
    using gs that by (simp add: ghosts_def)
  have flight: "entryOk s f" "\<And>e. e \<in> set (log s) \<Longrightarrow> oid (lrow e) = oid (lrow f) \<Longrightarrow> before e (lrow f)"
    if f: "f \<in> set (inFlight (tasks s ! j))" and j: "j < length (tasks s)" for f j
  proof -
    obtain row where row: "snd (gs ! j) = Won row" "confirms (top (tasks s ! j)) row" "f = entryOf (tasks s ! j) row None"
      using inFlight_won [OF t [OF j] f] by blast
    have tj: "taskOk s (tasks s ! j) (fst (gs ! j)) (Won row)" using t [OF j] row(1) by simp
    show "entryOk s f" unfolding row(3) by (rule sent_entryOk [OF tj row(2)])
    show "before e (lrow f)" if "e \<in> set (log s)" "oid (lrow e) = oid (lrow f)" for e
      using won_before [OF tj that(1)] that(2) by (simp add: row(3))
  qed
  have distinct: "oid (lrow f) \<noteq> oid (lrow g)"
    if f: "f \<in> set (inFlight (tasks s ! j))" "j < length (tasks s)" and g: "g \<in> set (inFlight (tasks s ! m))" "m < length (tasks s)"
      and "j \<noteq> m" for f g j m
  proof -
    obtain x where x: "snd (gs ! j) = Won x" "f = entryOf (tasks s ! j) x None" using inFlight_won [OF t [OF f(2)] f(1)] by blast
    obtain y where y: "snd (gs ! m) = Won y" "g = entryOf (tasks s ! m) y None" using inFlight_won [OF t [OF g(2)] g(1)] by blast
    have "apart (fst (gs ! j)) (fst (gs ! m))" using gs that by (simp add: ghosts_def)
    then show ?thesis using apart_rows [OF t [OF f(2)] t [OF g(2)]] x y by (simp add: phaseRow_def)
  qed
  have rise: "rising (concat (map inFlight (map ((!) (tasks s)) js)))"
    if "distinct js" "set js \<subseteq> {..<length (tasks s)}" for js
    using that
  proof (induction js)
    case (Cons j js)
    have "oid (lrow g) \<noteq> oid (lrow f)"
      if f: "f \<in> set (inFlight (tasks s ! j))" and g: "g \<in> set (concat (map inFlight (map ((!) (tasks s)) js)))" for f g
    proof -
      obtain m where "m \<in> set js" "g \<in> set (inFlight (tasks s ! m))" using g by auto
      then show ?thesis using distinct [OF f _ _ _, of g m] Cons.prems by (metis distinct.simps(2) insert_subset lessThan_iff list.simps(15) subsetD)
    qed
    moreover have "rising (inFlight (tasks s ! j))" using inFlight_one [of "tasks s ! j"] by auto
    ultimately show ?case using Cons by (auto simp: rising_append)
  qed simp
  have "rising (concat (map inFlight (tasks s)))"
    using rise [of "[0..<length (tasks s)]"] by (simp add: map_nth atLeast0LessThan)
  moreover have new: "entryOk s f" "\<And>e. e \<in> set (log s) \<Longrightarrow> oid (lrow f) = oid (lrow e) \<Longrightarrow> before e (lrow f)"
    if "f \<in> set (concat (map inFlight (tasks s)))" for f
    using that flight by (fastforce simp: in_set_conv_nth)+
  ultimately have "rising (log s @ concat (map inFlight (tasks s)))" using r by (auto simp: rising_append)
  moreover have known: "known v = known s" "onPlan v = onPlan s"
    by (simp_all add: known_def onPlan_def planned_def v_def fun_eq_iff)
  have rows: "rowOf j (wd v) = map_option (\<lambda>r. if \<not> readOnly (wd s) \<and> status r = Sending
     then r\<lparr>status := DeliveryUnknown, error := Some APP_CLOSED\<rparr> else r) (rowOf j (wd s))" for j
    by (simp add: v_def crash_rows)
  have "entryOk v f" if f: "entryOk s f" for f
  proof -
    have "entryRow f q'" if "rowOf (oid (lrow f)) (wd v) = Some q'" for q'
    proof -
      obtain q where q: "rowOf (oid (lrow f)) (wd s) = Some q"
        "q' = q \<or> status q = Sending \<and> q' = q\<lparr>status := DeliveryUnknown, error := Some APP_CLOSED\<rparr>"
        using \<open>rowOf (oid (lrow f)) (wd v) = Some q'\<close> unfolding rows by (auto split: if_splits)
      moreover have "entryRow f q" using f q(1) by (simp add: entryOk_def entryRow_def)
      ultimately show ?thesis using entryRow_orphan by blast
    qed
    then show ?thesis using f unfolding entryOk_def entryRow_def known by blast
  qed
  moreover have iv: "idsOk v"
  proof -
    have "map oid (orows (ox (wd v))) = map oid (orows (ox (wd s)))"
      by (simp add: v_def recoverOrphanedSending_def update_def upd_where_def)
    moreover have "onPlan s q'" if "rowOf j (wd v) = Some q'" for j q'
    proof -
      obtain q where "rowOf j (wd s) = Some q" "oid q' = oid q" "revision q' = revision q" "sendAt q' = sendAt q"
        using \<open>rowOf j (wd v) = Some q'\<close> unfolding rows by (auto split: if_splits)
      then show ?thesis using i unfolding idsOk_def onPlan_def by metis
    qed
    ultimately show ?thesis using i unfolding idsOk_def one_row_per_id_def known by (simp add: rows) (simp add: v_def)
  qed
  moreover have "log v = log s @ concat (map inFlight (tasks s))" "tasks v = []" by (simp_all add: v_def)
  moreover have "ghosts v []" by (simp add: ghosts_def v_def)
  ultimately show ?thesis using e new(1) born_id [OF iv] unfolding v_def [symmetric] kept_up_def by auto
qed

end
