(* ===== verification/OutboundServed.thy ===== *)
theory OutboundServed
  imports OutboundInv
begin

text \<open>
  Every state the outbound service can reach keeps up the invariant; what follows from it for the log of sends
  and for the locks.
\<close>

section \<open>One event\<close>

lemma taskAt: "ghosts s gs \<Longrightarrow> n < length (tasks s) \<Longrightarrow> taskOk s (tasks s ! n) (fst (gs ! n)) (snd (gs ! n))"
  by (simp add: ghosts_def)

lemma wpAt: "taskOk s t H ph \<Longrightarrow> tprog t = p \<Longrightarrow> wp (outRules (top t)) p over H ph (wd s)"
  using taskOkD(1) by blast

lemma rely_now [simp]: "outRely H w w"
  by (rule outRely_refl)

lemma born_kept_up: "kept_up s \<Longrightarrow> kept_up (born s)"
  using born_id [of s] by (simp add: kept_up_def)

lemma turn_kept_up:
  assumes k: "kept_up s" and n: "n < length (tasks s)"
  shows "kept_up (born (turn n s))"
proof -
  obtain gs where gs: "ghosts s gs" and i: "idsOk s" and e: "\<forall>e \<in> set (log s). entryOk s e" and r: "rising (log s)"
    using k by (auto simp: kept_up_def)
  obtain H ph where g: "gs ! n = (H, ph)" by fastforce
  have len: "n < length gs" using gs n by (simp add: ghosts_def)
  have t: "taskOk s (tasks s ! n) H ph" using taskAt [OF gs n] g by simp
  note w = taskOkD(1) [OF t]
  show ?thesis
  proof (cases "tprog (tasks s ! n)")
    case (Atomic f p)
    have "one_row_per_id (wd s)" using i by (simp add: idsOk_def)
    then obtain H' ph' where s: "one_row_per_id (f (wd s))" "outGuar (top (tasks s ! n)) H ph (wd s) H' ph' (f (wd s))"
        "wp (outRules (top (tasks s ! n))) (p (wd s)) over H' ph' (f (wd s))"
      using w unfolding Atomic wp.simps outRules_simps by (meson rely_now)
    have "turn n s = setTask n ((tasks s ! n)\<lparr>tprog := p (wd s)\<rparr>) (s\<lparr>wd := f (wd s)\<rparr>)"
      by (simp add: turn_def Atomic Let_def)
    then show ?thesis using step_kept_up [OF gs i e r len g s(2,1,3)] by (simp add: moved_def setTask_def)
  next
    case (Lock l p)
    have "wp (outRules (top (tasks s ! n))) p over (insert (Held l) H) ph (wd s)"
      using w unfolding Lock wp.simps outRules_simps by (meson rely_now)
    then show ?thesis using lock_kept_up [OF gs i e r len g] born_kept_up [OF k] by (simp add: turn_def Lock Let_def)
  next
    case (Unlock l p)
    have "wp (outRules (top (tasks s ! n))) p over (H - {Held l}) ph (wd s)" "ph = Idle"
      using w unfolding Unlock wp.simps outRules_simps by (meson rely_now)+
    then show ?thesis using unlock_kept_up [OF gs i e r len g] by (simp add: turn_def Unlock Let_def)
  qed (use born_kept_up [OF k] in \<open>simp_all add: turn_def Let_def\<close>)
qed

lemma answerOf_kept_up:
  assumes k: "kept_up s" and n: "n < length (tasks s)"
    and f: "\<And>p H ph. f (tasks s ! n) = Some p \<Longrightarrow> taskOk s (tasks s ! n) H ph \<Longrightarrow>
      wp (outRules (top (tasks s ! n))) p over H ph (wd s)"
  shows "kept_up (born (answerOf n f s))"
proof -
  obtain gs where gs: "ghosts s gs" and i: "idsOk s" and e: "\<forall>e \<in> set (log s). entryOk s e" and r: "rising (log s)"
    using k by (auto simp: kept_up_def)
  obtain H ph where g: "gs ! n = (H, ph)" by fastforce
  have len: "n < length gs" using gs n by (simp add: ghosts_def)
  have t: "taskOk s (tasks s ! n) H ph" using taskAt [OF gs n] g by simp
  show ?thesis
    using answer_kept_up [OF gs i e r len g f [OF _ t]] born_kept_up [OF k]
    by (cases "f (tasks s ! n)") (simp_all add: answerOf_def)
qed

lemma sent_kept_up:
  assumes k: "kept_up s" and n: "n < length (tasks s)"
  shows "kept_up (born (happens d (AnswerSend n x) s))"
proof (cases "tprog (tasks s ! n)")
  case (SendOut r q p)
  obtain gs where gs: "ghosts s gs" and i: "idsOk s" and e: "\<forall>e \<in> set (log s). entryOk s e" and ri: "rising (log s)"
    using k by (auto simp: kept_up_def)
  obtain H ph where g: "gs ! n = (H, ph)" by fastforce
  have len: "n < length gs" using gs n by (simp add: ghosts_def)
  have t: "taskOk s (tasks s ! n) H ph" using taskAt [OF gs n] g by simp
  have "ph = Won r" "confirms (top (tasks s ! n)) r" "q = requestOf r"
    "wp (outRules (top (tasks s ! n))) (p x) over H (Answered r x) (wd s)"
    using taskOkD(1) [OF t] unfolding SendOut wp.simps outRules_simps by (meson rely_now)+
  then show ?thesis
    using send_kept_up [OF gs i e ri len, of H r] g n SendOut by (simp add: entryOf_def logged_def Let_def)
qed (use born_kept_up [OF k] in simp_all)

lemma event_kept_up:
  assumes k: "kept_up s"
  shows "kept_up (born (happens d e s))"
proof -
  have one: "one_row_per_id (wd s)" using k by (simp add: kept_up_def idsOk_def)
  have same: "born (s\<lparr>wd := v\<rparr>) = moved s v (tasks s)" for v by (simp add: moved_def)
  note b = born_kept_up [OF k]
  show ?thesis
  proof (cases e)
    case (AnswerSend n x)
    then show ?thesis using sent_kept_up [OF k] b by (cases "n < length (tasks s)") simp_all
  next
    case (AnswerRead n x)
    then show ?thesis using b by (auto intro!: answerOf_kept_up [OF k] dest!: taskOkD(1) split: proc.splits)
  next
    case (AnswerWrite n x)
    then show ?thesis using b by (auto intro!: answerOf_kept_up [OF k] dest!: taskOkD(1) split: proc.splits)
  next
    case (AnswerRemove n x)
    then show ?thesis using b by (auto intro!: answerOf_kept_up [OF k] dest!: taskOkD(1) split: proc.splits)
  next
    case (AnswerFiles n x)
    then show ?thesis using b by (auto intro!: answerOf_kept_up [OF k] dest!: taskOkD(1) split: proc.splits)
  next
    case (AnswerResolve n x)
    then show ?thesis using b by (auto intro!: answerOf_kept_up [OF k] dest!: taskOkD(1) split: proc.splits)
  next
    case (Ambient w)
    then show ?thesis using ambient_kept_up [OF k ambient_same [OF one, of "w\<lparr>ox := ox (wd s)\<rparr>"]] by (simp add: same)
  next
    case Sweep
    then show ?thesis using ambient_kept_up [OF k ambient_sweep [OF one]] by (simp add: same)
  next
    case (RemoveAccount acc)
    then show ?thesis using ambient_kept_up [OF k ambient_removal [OF one]] by (simp add: same)
  qed (use b start_kept_up [OF k] turn_kept_up [OF k] crash_kept_up [OF k] in auto)
qed

lemma opened_kept_up: "one_row_per_id w \<Longrightarrow> kept_up (opened w)"
proof -
  assume o: "one_row_per_id w"
  have "ghosts (opened w) []" by (simp add: ghosts_def opened_def)
  moreover have "i \<in> oid ` set (orows (ox w))" if "rowOf i w = Some r" for i r
    using that by (force simp: rowOf_def outboxGet_def find_Some_iff)
  moreover have "onPlan (opened w) r" if "rowOf i w = Some r" for i r
  proof -
    have "r \<in> set (orows (ox w))" using that by (force simp: rowOf_def outboxGet_def find_Some_iff)
    then show ?thesis by (force simp: onPlan_def planned_def opened_def schedulesIn_def)
  qed
  ultimately show ?thesis using o by (auto simp: kept_up_def idsOk_def known_def opened_def)
qed

theorem served_kept_up: "served d s \<Longrightarrow> kept_up s"
  by (induction rule: served.induct) (simp_all add: opened_kept_up event_kept_up)

section \<open>The log\<close>

lemma served_log:
  assumes "served d s"
  shows "rising (log s)" "e \<in> set (log s) \<Longrightarrow> entryOk s e"
  using served_kept_up [OF assms] by (auto simp: kept_up_def)

lemma rising_filter: "rising es \<Longrightarrow> rising (filter P es)"
  by (induction es) auto

lemma rising_nth:
  "rising es \<Longrightarrow> m < n \<Longrightarrow> n < length es \<Longrightarrow> oid (lrow (es ! m)) = oid (lrow (es ! n)) \<Longrightarrow> before (es ! m) (lrow (es ! n))"
  by (induction es arbitrary: m n) (auto simp: nth_Cons less_Suc_eq_0_disj split: nat.splits)

section \<open>Locks\<close>

definition finished :: "task \<Rightarrow> bool" where
  "finished t \<longleftrightarrow> (case tprog t of Return _ \<Rightarrow> True | Throw _ \<Rightarrow> True | _ \<Rightarrow> False)"

definition blocked :: "system \<Rightarrow> task \<Rightarrow> bool" where
  "blocked s t \<longleftrightarrow> (case tprog t of Lock l _ \<Rightarrow> \<not> free l s | _ \<Rightarrow> False)"

lemma holder_runs: "taskOk s t H ph \<Longrightarrow> l \<in> set (tlocks t) \<Longrightarrow> \<not> finished t"
proof
  assume t: "taskOk s t H ph" and l: "l \<in> set (tlocks t)" and f: "finished t"
  have "unlocked H"
    using f taskOkD(1) [OF t] by (auto simp: finished_def over_def split: proc.splits dest!: spec [of _ "wd s"])
  then show False using taskOkD(2) [OF t] l by (auto simp: unlocked_def)
qed

lemma blocked_wants:
  assumes "taskOk s t H ph" "blocked s t"
  obtains l where "l \<notin> set (tlocks t)" "\<not> free l s"
    "(\<exists>i. l = draftLock i) \<and> (\<forall>j. draftLock j \<notin> set (tlocks t)) \<or> tlocks t = []"
proof -
  obtain l p where l: "tprog t = Lock l p" "\<not> free l s" using assms(2) by (auto simp: blocked_def split: proc.splits)
  have "outLock H l" using taskOkD(1) [OF assms(1)] by (simp add: l(1))
  then have "(\<exists>i. l = draftLock i) \<and> (\<forall>j. draftLock j \<notin> set (tlocks t)) \<or> (\<forall>k. k \<notin> set (tlocks t))"
    unfolding outLock_def taskOkD(2) [OF assms(1)] by blast
  then show thesis using that [OF _ l(2)] by fastforce
qed

lemma holder:
  assumes "\<not> free l s"
  obtains t where "t \<in> set (tasks s)" "l \<in> set (tlocks t)"
  using assms by (auto simp: free_def)

text \<open>Who holds a draft's lock waits for nobody; who holds an account's lock waits for a draft's at most.\<close>

lemma somebody_can_move:
  assumes k: "kept_up s" and t: "t \<in> set (tasks s)" "blocked s t"
  shows "\<exists>u \<in> set (tasks s). \<not> finished u \<and> \<not> blocked s u"
proof -
  obtain gs where gs: "ghosts s gs" using k by (auto simp: kept_up_def)
  have ok: "\<exists>H ph. taskOk s u H ph" if "u \<in> set (tasks s)" for u
    using that taskAt [OF gs] by (metis in_set_conv_nth)
  have runs: "\<not> finished u" if "u \<in> set (tasks s)" "l \<in> set (tlocks u)" for u l
    using ok [OF that(1)] holder_runs that(2) by blast
  have draft: "\<not> blocked s u" if u: "u \<in> set (tasks s)" "draftLock i \<in> set (tlocks u)" for u i
  proof
    assume b: "blocked s u"
    obtain H ph where "taskOk s u H ph" using ok [OF u(1)] by blast
    from blocked_wants [OF this b] show False using u(2) by (metis empty_iff empty_set)
  qed
  obtain H ph where "taskOk s t H ph" using ok [OF t(1)] by blast
  then obtain l where l: "\<not> free l s" using blocked_wants [OF _ t(2)] by blast
  obtain u where u: "u \<in> set (tasks s)" "l \<in> set (tlocks u)" using holder [OF l] .
  show ?thesis
  proof (cases "blocked s u")
    case False
    then show ?thesis using u runs by blast
  next
    case True
    obtain H ph where "taskOk s u H ph" using ok [OF u(1)] by blast
    then obtain k where k: "\<not> free k s" "\<exists>i. k = draftLock i"
      using blocked_wants [OF _ True] u(2) by (metis empty_iff empty_set)
    obtain v where v: "v \<in> set (tasks s)" "k \<in> set (tlocks v)" using holder [OF k(1)] .
    then show ?thesis using k(2) draft runs by blast
  qed
qed

end
