(* ===== verification/OutboundProps.thy ===== *)
theory OutboundProps
  imports OutboundServed
begin

text \<open>What the outbound service promises about the mail it sends.\<close>

section \<open>The rate rule\<close>

lemma filter_length_mono: "(\<And>x. x \<in> set l \<Longrightarrow> P x \<Longrightarrow> Q x) \<Longrightarrow> length (filter P l) \<le> length (filter Q l)"
  by (induction l) auto

lemma count_sorted: "length (filter P (sort l)) = length (filter P l)"
  by (simp add: filter_sort)

text \<open>A window that holds \<open>t\<close> may start at its first send.\<close>

lemma first_of_window:
  assumes "s \<le> t" "t < s + h" "t \<in> set l"
  obtains a :: int where "a \<in> set l" "s \<le> a" "a \<le> t"
    "length (filter (\<lambda>x. s \<le> x \<and> x < s + h) l) \<le> length (filter (\<lambda>x. a \<le> x \<and> x < a + h) l)"
proof
  define W where "W = {x \<in> set l. s \<le> x \<and> x < s + h}"
  have W: "finite W" "t \<in> W" using assms by (auto simp: W_def)
  then have m: "Min W \<in> W" "\<And>x. x \<in> W \<Longrightarrow> Min W \<le> x" by (auto intro: Min_in)
  show "Min W \<in> set l" "s \<le> Min W" "Min W \<le> t" using m W(2) by (auto simp: W_def)
  show "length (filter (\<lambda>x. s \<le> x \<and> x < s + h) l) \<le> length (filter (\<lambda>x. Min W \<le> x \<and> x < Min W + h) l)"
  proof (rule filter_length_mono)
    fix x assume "x \<in> set l" "s \<le> x \<and> x < s + h"
    then show "Min W \<le> x \<and> x < Min W + h" using m(1) m(2) [of x] by (auto simp: W_def)
  qed
qed

text \<open>
  C37: the rate rule admits a send at t exactly when every window of 60 minutes that holds t then has at
  most limit sends, wherever the window starts. The code only looks at windows that start at a send.
\<close>

theorem fits_rate_bounds_every_window:
  "fitsRate ts t limit \<longleftrightarrow> (\<forall>s. s \<le> t \<and> t < s + HOUR_MS \<longrightarrow>
     int (length (filter (\<lambda>x. s \<le> x \<and> x < s + HOUR_MS) (ts @ [t]))) \<le> limit)"
proof
  assume r: "fitsRate ts t limit"
  show "\<forall>s. s \<le> t \<and> t < s + HOUR_MS \<longrightarrow>
     int (length (filter (\<lambda>x. s \<le> x \<and> x < s + HOUR_MS) (ts @ [t]))) \<le> limit"
  proof (intro allI impI)
    fix s assume s: "s \<le> t \<and> t < s + HOUR_MS"
    obtain a where a: "a \<in> set (ts @ [t])" "s \<le> a" "a \<le> t"
      "length (filter (\<lambda>x. s \<le> x \<and> x < s + HOUR_MS) (ts @ [t])) \<le>
         length (filter (\<lambda>x. a \<le> x \<and> x < a + HOUR_MS) (ts @ [t]))"
      using first_of_window [of s t HOUR_MS "ts @ [t]"] s by auto
    then have "int (length (filter (\<lambda>x. a \<le> x \<and> x < a + HOUR_MS) (ts @ [t]))) \<le> limit"
      using r s unfolding fitsRate_def Let_def list_all_iff count_sorted set_sort by force
    then show "int (length (filter (\<lambda>x. s \<le> x \<and> x < s + HOUR_MS) (ts @ [t]))) \<le> limit" using a(4) by linarith
  qed
next
  assume w: "\<forall>s. s \<le> t \<and> t < s + HOUR_MS \<longrightarrow>
     int (length (filter (\<lambda>x. s \<le> x \<and> x < s + HOUR_MS) (ts @ [t]))) \<le> limit"
  show "fitsRate ts t limit" unfolding fitsRate_def Let_def list_all_iff count_sorted set_sort
  proof
    fix a assume "a \<in> set (ts @ [t])"
    then show "t < a \<or> a \<le> t - HOUR_MS \<or> int (length (filter (\<lambda>x. a \<le> x \<and> x < a + HOUR_MS) (ts @ [t]))) \<le> limit"
      using w [rule_format, of a] by linarith
  qed
qed

theorem fits_rate_bounds_every_window_witness:
  "\<not> fitsRate [0, 5] 3599999 2 \<and>
   int (length (filter (\<lambda>x. 1 \<le> x \<and> x < 1 + HOUR_MS) ([0, 3600000] @ [3599999]))) \<le> 2"
proof
  have "0 \<le> (3599999::int) \<and> 3599999 < 0 + HOUR_MS"
    "\<not> int (length (filter (\<lambda>x. 0 \<le> x \<and> x < 0 + HOUR_MS) ([0, 5] @ [3599999]))) \<le> 2"
    by (simp_all add: HOUR_MS_def)
  then show "\<not> fitsRate [0, 5] 3599999 2" using fits_rate_bounds_every_window [of "[0, 5]" 3599999 2] by blast
  have "fitsRate [0, 3600000] 3599999 2" by (simp add: fitsRate_def HOUR_MS_def Let_def)
  then show "int (length (filter (\<lambda>x. 1 \<le> x \<and> x < 1 + HOUR_MS) ([0, 3600000] @ [3599999]))) \<le> 2"
    unfolding fits_rate_bounds_every_window by (simp add: HOUR_MS_def)
qed

section \<open>A sample run\<close>

text \<open>A draft is confirmed, the server defers it, the user tries again and the send goes through.\<close>

definition sample_mail :: mail_deps where
  "sample_mail = \<lparr>lowerCase = (\<lambda>x. x), markdownOf = cbodyText, sameBody = (\<lambda>c b. cbodyText c = b),
     bodyHash = (\<lambda>_. []), toNumber = (\<lambda>_. None), emailOk = (\<lambda>_. True)\<rparr>"

definition sample_row :: outbox_row where
  "sample_row = \<lparr>oid = ''a'', accountId = ''m'', kind = NewMessage, replyToDocumentId = None, outboundRef = None,
     recipientDisplay = [], toAddrs = [uc ''z''], cc = [], subject = None, bodyMarkdown = uc ''hi'', threading = None,
     confirmMode = Review, status = Draft, error = None, externalMessageId = None, createdVia = [], createdBy = None,
     createdAt = 0, sentAt = None, expiresAt = 100, revision = 1, bcc = [], attachments = [], mirror = None,
     sendAt = None, suggestedSendAt = None\<rparr>"

definition sample_world :: world where
  "sample_world = \<lparr>ox = \<lparr>orows = [sample_row], changed = 0\<rparr>, clock = 0, readOnly = False,
     accts = (\<lambda>i. if i = ''m'' then Some \<lparr>asource = ''imap'', aconfig = []\<rparr> else None),
     senderOf = (\<lambda>i. if i = ''imap'' then Some False else None), senderIds = [], defaultMode = None, hasFiles = False\<rparr>"

definition run :: "system_event list \<Rightarrow> system" where
  "run es = foldl (\<lambda>s e. born (happens sample_mail e s)) (opened sample_world) es"

definition confirm_then :: "nat \<Rightarrow> nat \<Rightarrow> utext + string option \<Rightarrow> system_event list" where
  "confirm_then n rv x = Start (OpConfirm ''a'' (Some rv)) # replicate 11 (Turn n) @ AnswerSend n x # replicate 4 (Turn n)"

definition twice :: "system_event list" where
  "twice = confirm_then 0 1 (Inl (uc ''not sent: x'')) @ Start (OpReopen ''a'') # replicate 6 (Turn 1) @
     confirm_then 2 2 (Inr None)"

lemma served_run: "served sample_mail (run es)"
proof -
  have "served sample_mail (foldl (\<lambda>s e. born (happens sample_mail e s)) s es)" if "served sample_mail s" for s
    using that by (induction es arbitrary: s) (auto intro: served.event)
  moreover have "served sample_mail (opened sample_world)"
    by (rule served.boot) (simp add: one_row_per_id_def sample_world_def)
  ultimately show ?thesis by (simp add: run_def)
qed

text \<open>What a run leaves: draft, revision and outcome of each send, and the row.\<close>

definition sends_seen :: "system \<Rightarrow> (string \<times> nat \<times> bool \<times> bool) list \<times> outbox_status option" where
  "sends_seen s = (map (\<lambda>e. (oid (lrow e), revision (lrow e), rejected e, misread e)) (log s),
     map_option status (rowOf ''a'' (wd s)))"

lemma run_twice: "sends_seen (run twice) = ([(''a'', 1, True, False), (''a'', 2, False, False)], Some SentStatus)"
  by code_simp

lemma twice_log:
  "length (log (run twice)) = 2" "length (sendsOf ''a'' (run twice)) = 2"
  "oid (lrow (log (run twice) ! 1)) = ''a''" "\<not> (rejected (log (run twice) ! 1) \<or> misread (log (run twice) ! 1))"
    "map_option status (rowOf ''a'' (wd (run twice))) = Some SentStatus"
  using run_twice by (auto simp: sends_seen_def sendsOf_def)

text \<open>A draft is scheduled at the revision shown, and goes out at its time.\<close>

definition on_time :: "system_event list" where
  "on_time = Start (OpSchedule ''a'' 1 (Some 60000)) # replicate 9 (Turn 0) @ Ambient (sample_world\<lparr>clock := 60000\<rparr>) #
     Start (OpSendScheduled ''a'' 60000) # replicate 16 (Turn 1) @ AnswerSend 1 (Inr None) # replicate 4 (Turn 1)"

definition scheduled_at :: "outbound_op \<Rightarrow> (string \<times> millis) option" where
  "scheduled_at c = (case c of OpSendScheduled i t \<Rightarrow> Some (i, t) | _ \<Rightarrow> None)"

lemma scheduled_at_Some: "scheduled_at c = Some (i, t) \<longleftrightarrow> c = OpSendScheduled i t"
  by (simp add: scheduled_at_def split: outbound_op.split)

definition plans_seen :: "system \<Rightarrow> (string \<times> nat \<times> (string \<times> millis) option) list \<times> bool" where
  "plans_seen s = (map (\<lambda>e. (oid (lrow e), revision (lrow e), scheduled_at (lop e))) (log s), stood s = [])"

lemma run_on_time: "plans_seen (run on_time) = ([(''a'', 1, Some (''a'', 60000))], True)"
  by code_simp

section \<open>The sends of a draft\<close>



text \<open>
  C5: every message handed to a sender was confirmed: by the user at the very revision shown to him; by chat, for
  a draft in chat mode and not from an agent, at the revision chat was shown; or by its schedule, while the row
  still has that time, and then some earlier call asked for that time at that very revision of the draft (or the
  schedule was there, at that revision, when the service was opened). And the request is exactly the row's
  content, or the provider's own draft when the row mirrors one.
\<close>

theorem sends_are_confirmed:
  "served d s \<Longrightarrow> e \<in> set (log s) \<Longrightarrow> confirms (lop e) (lrow e) \<and> lreq e = requestOf (lrow e) \<and>
    (\<forall>i t. lop e = OpSendScheduled i t \<longrightarrow> planned s i (revision (lrow e)) t)"
  using served_log(2) [of d s e] by (auto simp: entryOk_def onPlan_def confirms_def)

theorem sends_are_confirmed_witness:
  "confirms (lop (log (run on_time) ! 0)) (lrow (log (run on_time) ! 0)) \<and>
   lreq (log (run on_time) ! 0) = requestOf (lrow (log (run on_time) ! 0)) \<and>
   (\<exists>c. c \<in> set (asked (run on_time)) \<and> schedules c ''a'' 1 60000)"
proof -
  have r: "map (\<lambda>e. (oid (lrow e), revision (lrow e), scheduled_at (lop e))) (log (run on_time)) = [(''a'', 1, Some (''a'', 60000))]"
    "stood (run on_time) = []"
    using run_on_time by (simp_all add: plans_seen_def)
  then have "log (run on_time) ! 0 \<in> set (log (run on_time))" "revision (lrow (log (run on_time) ! 0)) = 1"
    "lop (log (run on_time) ! 0) = OpSendScheduled ''a'' 60000" by (auto simp: scheduled_at_Some)
  with sends_are_confirmed [OF served_run [of on_time], of "log (run on_time) ! 0"] r(2) show ?thesis
    by (auto simp: planned_def)
qed



section \<open>Progress\<close>

text \<open>
  C16: the locks of drafts and accounts cannot block each other: when a call waits for a lock that another
  holds, some call that is not finished is not waiting for a lock.
\<close>

theorem no_call_waits_for_ever:
  "served d s \<Longrightarrow> t \<in> set (tasks s) \<Longrightarrow> blocked s t \<Longrightarrow> \<exists>u \<in> set (tasks s). \<not> finished u \<and> \<not> blocked s u"
  by (rule somebody_can_move [OF served_kept_up])

definition two_at_once :: "system_event list" where
  "two_at_once = [Start (OpConfirm ''a'' (Some 1)), Turn 0, Start (OpReopen ''a'')]"

theorem no_call_waits_for_ever_witness:
  "blocked (run two_at_once) (tasks (run two_at_once) ! 1) \<and>
   (\<exists>u. u \<in> set (tasks (run two_at_once)) \<and> \<not> finished u \<and> \<not> blocked (run two_at_once) u)"
proof
  have l: "length (tasks (run two_at_once)) = 2" by code_simp
  show b: "blocked (run two_at_once) (tasks (run two_at_once) ! 1)" by code_simp
  show "\<exists>u. u \<in> set (tasks (run two_at_once)) \<and> \<not> finished u \<and> \<not> blocked (run two_at_once) u"
    using no_call_waits_for_ever [OF served_run _ b] l by auto
qed

end
