(* ===== verification/Spec2Isabelle.thy ===== *)
theory Spec2Isabelle
  imports Removal EnginePassProps EngineWorkProps ChangesPrune FolderScopeProps LedgerRekeyProps AdmissionProps SyncRoleProps DeltaProps WriteGuardProps OutboundProps
begin

text \<open>
  A model of the core of KIAgent (an Electron application in TypeScript; paths below are relative to src/main of
  the repository): the corpus database and its one write path, the engine's reconcile pass and its workers, the
  admission of background work, the synchronisation of devices, and the outbound mail service.

  \<^bold>\<open>The program and its parts.\<close> The corpus is one SQLite database behind one writer
  (core/store/write-tx.ts, run by the DB worker). Connectors and workers only ever reach it through that writer:
  the engine (core/engine/engine.ts) pulls a source's listing into \<open>commit\<close> batches, runs reconcile passes that
  archive what a full listing no longer mentions, and feeds every document change to its workers, whose outputs
  are commits again. Background units are admitted by core/admission.ts. When several devices share a corpus,
  core/sync decides who may write (role.ts), tracks what changed (tracking.ts), ships deltas to the followers
  (delta.ts) and sends the batches of the accounts a follower owns to the leader (owned.ts). Outgoing mail is a
  row of the Outbox (core/store/outbox.ts), mirrored as a provider draft (outbound/mirror.ts) and sent by
  outbound/service.ts.

  \<^bold>\<open>Conventions.\<close> A table is the list of its rows in rowid order; an SQL statement is a function on that list, a
  transaction a function on the whole \<open>store\<close> record whose failure (\<open>Inl\<close>) leaves the database as it was. The
  error monad, the loop whose body may throw and the row updates are in Prelude. JSON is the datatype of Json: an
  object is the ordered list of its own properties. Strings are char lists (UTF-8 bytes) in the store and the
  engine, and lists of UTF-16 code units (\<open>utext\<close>, JsText) in the outbound part, where the code measures and cuts
  texts. Instants are integers in milliseconds; row ids are built in Ids from \<open>8 word\<close> bytes. The record \<open>deps\<close> and
  its outbound counterpart \<open>mail_deps\<close> hold what is not the repository's own code or not computable here: the hash,
  the language detector, the stemmer, random bytes, JSON, base64 and SHA codecs, the Markdown converters, the mail
  senders and providers. Connectors and workers are third-party code: the answers of a source listing, of
  \<open>matches\<close>, \<open>work\<close>, of a provider and a sender are chosen freely by the environment.

  \<^bold>\<open>The database\<close> (core/store). Store has the tables and the helpers that \<open>createWriteTx\<close> shares among its
  transactions (accounts, change log, documents, FTS and trigram index, ledger, cursors); Commit has \<open>commitTx\<close> in
  its four forms (an account's batch, a worker's batch, removal of an account, purge); AccountWrite has
  \<open>accountWriteTx\<close>, \<open>importSources\<close> and \<open>importSecrets\<close>; Reconcile the temporary table of a pass and its four
  procedures; FolderScope \<open>applyFolderScopeTx\<close>; LedgerRekey \<open>rekeyLedgerPageTx\<close> and the loop that drives it
  (core/changes-maintenance.ts); ChangesPrune its \<open>pruneChangesOnce\<close> with the bisection of the log by time; WriteGuard the wrapper put around every procedure on a device that follows.
  StoreInv states the invariant \<open>store_inv\<close>: unique keys, search indexes that are a function of the documents, a
  change log in which each document's seq is its latest change (\<open>feed_ok\<close>), foreign keys. CommitInv, CommitEffect,
  CommitProps, DocWrites, Removal, AccountProps, ReconcileInv, FolderScopeProps, LedgerRekeyProps and
  WriteGuardProps show that every procedure keeps it, what each leaves behind on every branch, and what it must not
  touch. The document statements of a commit are a client of the locale \<open>doc_writes\<close> in DocWrites: a relation kept
  by each statement is kept by the sequence.

  \<^bold>\<open>The reconcile pass\<close> (\<open>reconcilePass\<close>, core/engine/engine.ts) is EnginePass: the drain of a listing, the guard
  against implausible listings, the chunks of archiving, retries after a restart of the DB worker, all interleaved
  with other writes. EnginePassInv states what it needs of the store's staging as the locale \<open>staging_store\<close>,
  interpreted on the procedures of Reconcile; EnginePassProps shows that it ends and never archives a document the
  listing mentions.

  \<^bold>\<open>The workers\<close> (\<open>workOne\<close>, \<open>seedConsumer\<close>, the feed loop of \<open>attach\<close>, \<open>rerunDeferred\<close>, core/engine/engine.ts, over
  the reads of core/store/store.ts) are EngineWork. A procedure is a resumption that stops at each await: a read,
  a write, an admission, a question to the worker. \<open>workEvent\<close> lets it take a step, a read or a write fail, the
  database process die before or after the transaction, the signal be raised, the whole process die;
  \<open>outside\<close> is what the other writers and the pruner may do in between. EngineWorkWp is a rely/guarantee calculus
  for such procedures (locale \<open>flow_rules\<close>); EngineWorkInv shows that every store write carries the documents over;
  EngineWorkRules, EngineWorkFeed, EngineWorkPage, EngineWorkSeed and EngineWorkLoops take the procedures one
  by one, and EngineWorkProps concludes: no live document at or below a worker's cursor is passed by, and a re-drive
  settles a deferral only after its outputs are written. The pruning of the log appears as \<open>vfloor\<close> (the published
  floor) and \<open>vcut\<close> (what is gone). \<open>outside\<close> excludes one ordering the code allows: a prune run that has read the
  cursors of the attached workers before a worker with an old cursor attaches, and publishes after it.

  \<^bold>\<open>Admission\<close> (core/admission.ts) is Admission: each operation of the object is an event on its state, with the
  wake timer; AdmissionProps has the counters, the order in which units are picked, that the foreground is disturbed
  by one starved unit at most, and that no waiter is stranded (but for one ordering, shown as a run).

  \<^bold>\<open>Devices\<close> (core/sync). SyncRole: the phase of a device and the gate around the engine as a transition system.
  SyncTables: the tables that travel, with the triggers of tracking.ts over any primary key. Delta: building a
  delta, the stage file, validating and applying it. StageProps: the stage file is read back as it was written, and
  a cut one is refused. DeltaInv and DeltaProps: a follower that pulls has the master's rows; references are one
  level deep and deletes cascade along them, as in the core tables; the follower has no rows of its own in the
  tables concerned, and natural keys of rows stay. Owned batches are in WriteGuard.

  \<^bold>\<open>Outbound mail\<close> (outbound, core/store/outbox.ts). Outbox: the statements of the table. ErrorCopy: the classifier
  of failed sends. Procs: async procedures as resumptions whose atomic steps read and write one \<open>world\<close>, with the
  locks of draft-lock.ts. Outbound and SendPipeline: the procedures of mirror.ts and service.ts. OutboundSystem:
  any number of calls in flight, the environment, the sweep, the removal of accounts and a crash.
  OutboundRules states the contract between the calls (what the holder of a draft's lock may rely on, what each
  step guarantees), OutboundWp, OutboundCalm, OutboundSend and OutboundOps show that every procedure keeps to it,
  OutboundInv and OutboundServed that every reachable state satisfies the invariant, and OutboundProps what follows:
  a draft goes out at most once, only after a confirmation, its row says what was sent, no call waits for ever.

  \<^bold>\<open>Loops and fuel.\<close> Where the code loops until the database says so, the model takes the number of rounds:
  \<open>archiveLoop\<close>, \<open>archivePages\<close> and \<open>rekeyPages\<close> have theorems that enough rounds end them. The loops of a worker
  (\<open>attachLoop\<close>, \<open>seedPages\<close>, \<open>redrivePages\<close>) never end by themselves in the program; a run of any number of rounds
  is covered, being cut off is a stop of the process, and the safety theorems hold of every state on the way.

  \<^bold>\<open>Not modelled, and why.\<close> The read API and fuzzy search (SQL text over the same tables), migrations and DDL (SQL
  text), promotion, snapshots and the Devices service (files, process restarts), settings sync, the scheduler's timers,
  the pull and convert loops of the engine around the modelled passes, event drafts (the outbox's shape over another
  table), the MCP server, preferences, boot and Electron wiring, inference and local models, the converter's parsers,
  the extension platform and plugin databases (process isolation, RPC), the clients of third-party services, the
  renderer, the SDK and the scripts. Log lines, tool texts, HTML and confirm-link tokens are left out of the
  outbound part. SQLite's own guarantees (atomic transactions, one writer) are built into the shape of the model.
  LIMIT without ORDER BY takes rows in rowid order. The pruning of the change log is modelled only where a worker
  reads the log (\<open>vcut\<close>, \<open>vfloor\<close>) and, on a database of its own, in ChangesPrune; elsewhere the log is unpruned.
\<close>

end
